(* ===== verification/Mush_Prelude.thy ===== *)
theory Mush_Prelude
  imports Complex_Main "HOL-Library.Word" "HOL-Library.List_Lexorder" "HOL-Library.Sublist"
begin

text \<open>
  What every component of the development shares: C characters and NUL-terminated
  strings, the bounded output buffer that the \<open>safe_*\<close> functions of
  \<open>src/src/strutil.c\<close> append to, and generic lemmas on lists.

  A C string is the list of its characters without the terminating NUL; a pointer into
  a string is the suffix it points at, so \<open>*p\<close> is \<open>c_head p\<close> (NUL at the end of the
  string) and \<open>p + 1\<close> is the tail.  A pointer that may be \<open>NULL\<close> is a
  \<open>string option\<close>.  A read past the terminating NUL is the result \<open>None\<close> of the
  function that makes it.  Character classes are those of the C locale.
\<close>

named_theorems cstr \<open>facts about C strings and characters\<close>
named_theorems outbuf \<open>facts about writers into the bounded output buffer\<close>

section \<open>Characters\<close>

abbreviation NUL :: char where "NUL \<equiv> CHR 0x00"

definition c_ord :: "char \<Rightarrow> nat" where
  "c_ord c = of_char c"

definition c_isupper :: "char \<Rightarrow> bool" where
  "c_isupper c \<longleftrightarrow> 65 \<le> c_ord c \<and> c_ord c \<le> 90"

definition c_islower :: "char \<Rightarrow> bool" where
  "c_islower c \<longleftrightarrow> 97 \<le> c_ord c \<and> c_ord c \<le> 122"

definition c_isdigit :: "char \<Rightarrow> bool" where
  "c_isdigit c \<longleftrightarrow> 48 \<le> c_ord c \<and> c_ord c \<le> 57"

definition c_isalnum :: "char \<Rightarrow> bool" where
  "c_isalnum c \<longleftrightarrow> c_isupper c \<or> c_islower c \<or> c_isdigit c"

definition c_isspace :: "char \<Rightarrow> bool" where
  "c_isspace c \<longleftrightarrow> c_ord c = 32 \<or> (9 \<le> c_ord c \<and> c_ord c \<le> 13)"

definition DOWNCASE :: "char \<Rightarrow> char" where
  "DOWNCASE c = (if c_isupper c then char_of (c_ord c + 32) else c)"

definition UPCASE :: "char \<Rightarrow> char" where
  "UPCASE c = (if c_islower c then char_of (c_ord c - 32) else c)"

definition c_head :: "string \<Rightarrow> char" where
  "c_head s = (case s of [] \<Rightarrow> NUL | c # _ \<Rightarrow> c)"

definition no_nul :: "string \<Rightarrow> bool" where
  "no_nul s \<longleftrightarrow> NUL \<notin> set s"

lemma c_head_simps [simp, cstr]:
  "c_head [] = NUL" "c_head (c # s) = c"
  by (simp_all add: c_head_def)

lemma no_nul_simps [simp, cstr]:
  "no_nul []" "no_nul (c # s) \<longleftrightarrow> c \<noteq> NUL \<and> no_nul s"
  "no_nul (s @ t) \<longleftrightarrow> no_nul s \<and> no_nul t"
  by (auto simp: no_nul_def)

lemma no_nul_dropD: "no_nul s \<Longrightarrow> no_nul (drop n s)"
  by (auto simp: no_nul_def dest: in_set_dropD)

lemma no_nul_takeD: "no_nul s \<Longrightarrow> no_nul (take n s)"
  by (auto simp: no_nul_def dest: in_set_takeD)

lemma c_ord_less [simp]: "c_ord c < 256"
  by (simp add: c_ord_def of_char_of)

lemma c_ord_inject [simp]: "c_ord a = c_ord b \<longleftrightarrow> a = b"
  by (simp add: c_ord_def)

lemma c_ord_NUL [simp]: "c_ord c = 0 \<longleftrightarrow> c = NUL" "c_ord NUL = 0"
  using c_ord_inject [of c NUL] by (simp_all add: c_ord_def)

lemma c_ord_pos [simp]: "0 < c_ord c \<longleftrightarrow> c \<noteq> NUL"
  using c_ord_NUL(1) [of c] by (simp add: neq0_conv [symmetric] del: neq0_conv)

lemma c_ord_char_of [simp]: "c_ord (char_of n) = n mod 256"
  by (simp add: c_ord_def)

lemma c_ord_DOWNCASE:
  "c_ord (DOWNCASE c) = (if c_isupper c then c_ord c + 32 else c_ord c)"
  by (simp add: DOWNCASE_def c_isupper_def)

lemma c_ord_UPCASE:
  "c_ord (UPCASE c) = (if c_islower c then c_ord c - 32 else c_ord c)"
proof -
  have "c_islower c \<Longrightarrow> c_ord c - 32 < 256"
    using c_ord_less [of c] by linarith
  then show ?thesis by (simp add: UPCASE_def)
qed

lemma char_eq_ord: "(a = b) = (c_ord a = c_ord b)"
  by simp

lemma c_head_NUL: "no_nul s \<Longrightarrow> c_head s = NUL \<longleftrightarrow> s = []"
  by (cases s) auto

lemma NUL_c_head: "no_nul s \<Longrightarrow> NUL = c_head s \<longleftrightarrow> s = []"
  by (cases s) auto

lemma DOWNCASE_NUL [simp, cstr]: "DOWNCASE c = NUL \<longleftrightarrow> c = NUL" "DOWNCASE NUL = NUL"
proof -
  have "c_ord (DOWNCASE d) = 0 \<longleftrightarrow> c_ord d = 0" for d
    unfolding c_ord_DOWNCASE by (auto simp: c_isupper_def)
  then show "DOWNCASE c = NUL \<longleftrightarrow> c = NUL" "DOWNCASE NUL = NUL"
    by simp_all
qed

lemma DOWNCASE_idem [simp, cstr]: "DOWNCASE (DOWNCASE c) = DOWNCASE c"
  unfolding char_eq_ord by (simp add: c_ord_DOWNCASE c_isupper_def)

lemma UPCASE_idem [simp, cstr]: "UPCASE (UPCASE c) = UPCASE c"
  unfolding char_eq_ord by (auto simp: c_ord_UPCASE c_islower_def)

lemma DOWNCASE_UPCASE [simp, cstr]: "DOWNCASE (UPCASE c) = DOWNCASE c"
  unfolding char_eq_ord
  by (auto simp: c_ord_UPCASE c_ord_DOWNCASE c_islower_def c_isupper_def)

lemma UPCASE_NUL [simp, cstr]: "UPCASE c = NUL \<longleftrightarrow> c = NUL" "UPCASE NUL = NUL"
proof -
  have "c_ord (UPCASE d) = 0 \<longleftrightarrow> c_ord d = 0" for d
    unfolding c_ord_UPCASE by (auto simp: c_islower_def)
  then show "UPCASE c = NUL \<longleftrightarrow> c = NUL" "UPCASE NUL = NUL"
    by simp_all
qed

section \<open>String comparison of the C library\<close>

text \<open>\<open>strcmp\<close> and \<open>strcasecmp\<close> return the difference of the first two characters that differ.\<close>

fun strcmp :: "string \<Rightarrow> string \<Rightarrow> int" where
  "strcmp (a # s) (b # t) = (if a = b then strcmp s t else int (c_ord a) - int (c_ord b))"
| "strcmp s t = int (c_ord (c_head s)) - int (c_ord (c_head t))"

text \<open>The order \<open>strcmp\<close> realises is the lexicographic order on the character codes.\<close>

definition str_key :: "string \<Rightarrow> nat list" where
  "str_key s = map c_ord s"

definition case_key :: "string \<Rightarrow> nat list" where
  "case_key s = map (\<lambda>c. c_ord (DOWNCASE c)) s"

lemma str_key_inject [simp]: "str_key s = str_key t \<longleftrightarrow> s = t"
  unfolding str_key_def by (rule inj_map_eq_map) (auto intro: injI)

lemma strcmp_less:
  "no_nul s \<Longrightarrow> no_nul t \<Longrightarrow> strcmp s t < 0 \<longleftrightarrow> str_key s < str_key t"
  by (induction s t rule: strcmp.induct) (auto simp: str_key_def neq_Nil_conv c_head_def split: list.splits)

lemma strcmp_zero:
  "no_nul s \<Longrightarrow> no_nul t \<Longrightarrow> strcmp s t = 0 \<longleftrightarrow> s = t"
  by (induction s t rule: strcmp.induct) (auto simp: c_head_NUL NUL_c_head)

text \<open>
  What a search structure needs of a comparison function: its sign is the order of a key
  in a linear order.  \<open>ptab.c\<close> relies on this of \<open>strcasecmp\<close>, \<open>strtree.c\<close> of \<open>strcmp\<close>.
\<close>

locale string_order =
  fixes cmp :: "string \<Rightarrow> string \<Rightarrow> int"
    and key :: "string \<Rightarrow> nat list"
  assumes cmp_less: "no_nul s \<Longrightarrow> no_nul t \<Longrightarrow> cmp s t < 0 \<longleftrightarrow> key s < key t"
    and cmp_zero: "no_nul s \<Longrightarrow> no_nul t \<Longrightarrow> cmp s t = 0 \<longleftrightarrow> key s = key t"
begin

lemma cmp_greater: "no_nul s \<Longrightarrow> no_nul t \<Longrightarrow> 0 < cmp s t \<longleftrightarrow> key t < key s"
  using cmp_less [of s t] cmp_zero [of s t] by (metis less_asym' linorder_less_linear)

lemma cmp_cases:
  assumes "no_nul s" "no_nul t"
  obtains (less) "cmp s t < 0" "key s < key t"
    | (equal) "cmp s t = 0" "key s = key t"
    | (greater) "0 < cmp s t" "key t < key s"
  using assms cmp_less [of s t] cmp_zero [of s t] cmp_greater [of s t]
  by (metis linorder_less_linear)

lemma cmp_swap_less: "no_nul s \<Longrightarrow> no_nul t \<Longrightarrow> cmp t s < 0 \<longleftrightarrow> 0 < cmp s t"
  by (simp add: cmp_less cmp_greater)

end

interpretation strcmp_order: string_order strcmp str_key
  by unfold_locales (simp_all add: strcmp_less strcmp_zero)

section \<open>The output buffer\<close>

text \<open>
  \<open>char *buff, char **bp\<close>: the characters written so far, \<open>bp - buff\<close> of them.  A writer
  takes the buffer and returns the C function's result with the new buffer.  Every writer
  of \<open>strutil.c\<close> keeps one contract: it appends a prefix of its text, as much as fits in
  \<open>BUFFER_LEN - 1\<close> characters, and its result is 0 exactly when all of it fitted.
\<close>

definition BUFFER_LEN :: nat where
  "BUFFER_LEN = 8192"

type_synonym buf = string
type_synonym writer = "buf \<Rightarrow> nat \<times> buf"

definition buf_room :: "buf \<Rightarrow> nat" where
  "buf_room b = BUFFER_LEN - 1 - length b"

definition then_write :: "writer \<Rightarrow> writer \<Rightarrow> writer" where
  "then_write w v b = (let (r, b') = w b; (q, b'') = v b' in (r + q, b''))"

definition writes :: "writer \<Rightarrow> string \<Rightarrow> bool" where
  "writes w out \<longleftrightarrow> (\<forall>b. snd (w b) = b @ take (buf_room b) out
     \<and> (fst (w b) = 0 \<longleftrightarrow> length out \<le> buf_room b))"

locale bounded_writer =
  fixes w :: writer and out :: string
  assumes writes: "writes w out"
begin

lemma appended: "snd (w b) = b @ take (buf_room b) out"
  using writes by (simp add: writes_def)

lemma all_or_error: "fst (w b) = 0 \<longleftrightarrow> length out \<le> buf_room b"
  using writes by (simp add: writes_def)

lemma stays_bounded: "length b \<le> BUFFER_LEN - 1 \<Longrightarrow> length (snd (w b)) \<le> BUFFER_LEN - 1"
  by (simp add: appended buf_room_def)

lemma fits: "length b + length out \<le> BUFFER_LEN - 1 \<Longrightarrow> w b = (0, b @ out)"
  by (rule prod_eqI) (auto simp: all_or_error appended buf_room_def)

lemma keeps_prefix: "prefix b (snd (w b))"
  by (simp add: appended)

end

lemma writes_then:
  assumes "writes w s" "writes v t"
  shows "writes (then_write w v) (s @ t)"
proof -
  have room: "buf_room (b @ take (buf_room b) s) = buf_room b - length s" for b
    by (simp add: buf_room_def)
  have w: "w b = (fst (w b), b @ take (buf_room b) s)" for b
    using assms(1) by (simp add: writes_def prod_eq_iff)
  have v: "v b = (fst (v b), b @ take (buf_room b) t)" for b
    using assms(2) by (simp add: writes_def prod_eq_iff)
  have zw: "fst (w b) = 0 \<longleftrightarrow> length s \<le> buf_room b" for b
    using assms(1) by (simp add: writes_def)
  have zv: "fst (v b) = 0 \<longleftrightarrow> length t \<le> buf_room b" for b
    using assms(2) by (simp add: writes_def)
  show ?thesis
    unfolding writes_def then_write_def Let_def
  proof (intro allI conjI)
    fix b
    let ?b = "b @ take (buf_room b) s"
    have vb: "v ?b = (fst (v ?b), ?b @ take (buf_room b - length s) t)"
      using v [of ?b] by (simp add: room)
    show "snd (case w b of (r, b') \<Rightarrow> case v b' of (q, b'') \<Rightarrow> (r + q, b'')) = b @ take (buf_room b) (s @ t)"
      by (subst w, simp only: prod.case, subst vb) simp
    show "(fst (case w b of (r, b') \<Rightarrow> case v b' of (q, b'') \<Rightarrow> (r + q, b'')) = 0) =
        (length (s @ t) \<le> buf_room b)"
      by (subst w, simp only: prod.case, subst vb) (auto simp: zw zv room)
  qed
qed

section \<open>Integers in memory\<close>

text \<open>
  \<open>memcpy\<close> of an integer into a byte buffer, and back: \<open>n\<close> bytes, least significant first, as
  on the little-endian machines the server runs on.
\<close>

fun le_encode :: "nat \<Rightarrow> nat \<Rightarrow> char list" where
  "le_encode 0 v = []"
| "le_encode (Suc n) v = char_of (v mod 256) # le_encode n (v div 256)"

fun le_decode :: "char list \<Rightarrow> nat" where
  "le_decode [] = 0"
| "le_decode (c # cs) = c_ord c + 256 * le_decode cs"

lemma length_le_encode [simp]: "length (le_encode n v) = n"
  by (induction n arbitrary: v) auto

lemma le_decode_encode: "v < 256 ^ n \<Longrightarrow> le_decode (le_encode n v) = v"
proof (induction n arbitrary: v)
  case (Suc n)
  then have "v div 256 < 256 ^ n"
    by (simp add: less_mult_imp_div_less mult.commute)
  with Suc.IH show ?case by simp
qed simp

definition int_bytes :: "32 word \<Rightarrow> char list" where
  "int_bytes w = le_encode 4 (unat w)"

definition read_int :: "char list \<Rightarrow> 32 word" where
  "read_int bs = word_of_nat (le_decode (take 4 bs))"

lemma length_int_bytes [simp]: "length (int_bytes w) = 4"
  by (simp add: int_bytes_def)

lemma read_int_bytes [simp]: "read_int (int_bytes w @ r) = w"
proof -
  have "unat w < 2 ^ 32"
    using unsigned_less [of w] by simp
  then have "le_decode (le_encode 4 (unat w)) = unat w"
    by (intro le_decode_encode) simp
  then show ?thesis
    by (simp add: read_int_def int_bytes_def)
qed

definition long_bytes :: "64 word \<Rightarrow> char list" where
  "long_bytes w = le_encode 8 (unat w)"

definition read_long :: "char list \<Rightarrow> 64 word" where
  "read_long bs = word_of_nat (le_decode (take 8 bs))"

lemma length_long_bytes [simp]: "length (long_bytes w) = 8"
  by (simp add: long_bytes_def)

lemma read_long_bytes [simp]: "read_long (long_bytes w @ r) = w"
proof -
  have "unat w < 2 ^ 64"
    using unsigned_less [of w] by simp
  then have "le_decode (le_encode 8 (unat w)) = unat w"
    by (intro le_decode_encode) simp
  then show ?thesis
    by (simp add: read_long_def long_bytes_def)
qed

section \<open>Lookup tables\<close>

text \<open>
  The contract of the server's tables (\<open>ptab.c\<close>, \<open>intmap.c\<close>): insertion keeps an entry that is
  already there, deletion removes it, and no operation touches another key.  Keys count as
  the same when \<open>nrm\<close> maps them to the same value (\<open>ptab.c\<close> ignores case).  An
  operation that would access memory out of bounds returns \<open>None\<close>.
\<close>

datatype ('k, 'v) table_op = Insert 'k 'v | Delete 'k

fun table_run ::
  "('t \<Rightarrow> 'k \<Rightarrow> 'v \<Rightarrow> 't option) \<Rightarrow> ('t \<Rightarrow> 'k \<Rightarrow> 't option) \<Rightarrow> 't \<Rightarrow> ('k, 'v) table_op list \<Rightarrow> 't option"
  where
  "table_run ins del t [] = Some t"
| "table_run ins del t (Insert k v # ops) =
     (case ins t k v of None \<Rightarrow> None | Some t' \<Rightarrow> table_run ins del t' ops)"
| "table_run ins del t (Delete k # ops) =
     (case del t k of None \<Rightarrow> None | Some t' \<Rightarrow> table_run ins del t' ops)"

fun table_spec :: "('k \<Rightarrow> 'n) \<Rightarrow> ('n \<Rightarrow> 'v option) \<Rightarrow> ('k, 'v) table_op list \<Rightarrow> 'n \<Rightarrow> 'v option" where
  "table_spec nrm m [] = m"
| "table_spec nrm m (Insert k v # ops) =
     table_spec nrm (if m (nrm k) = None then m(nrm k \<mapsto> v) else m) ops"
| "table_spec nrm m (Delete k # ops) = table_spec nrm (m(nrm k := None)) ops"

fun op_key :: "('k, 'v) table_op \<Rightarrow> 'k" where
  "op_key (Insert k v) = k"
| "op_key (Delete k) = k"

locale lookup_table =
  fixes inv :: "'t \<Rightarrow> bool"
    and valid :: "'k \<Rightarrow> bool"
    and nrm :: "'k \<Rightarrow> 'n"
    and table :: "'t \<Rightarrow> 'n \<Rightarrow> 'v option"
    and find :: "'t \<Rightarrow> 'k \<Rightarrow> 'v option"
    and ins :: "'t \<Rightarrow> 'k \<Rightarrow> 'v \<Rightarrow> 't option"
    and del :: "'t \<Rightarrow> 'k \<Rightarrow> 't option"
  assumes find_table: "inv t \<Longrightarrow> valid k \<Longrightarrow> find t k = table t (nrm k)"
    and ins_table: "inv t \<Longrightarrow> valid k \<Longrightarrow> \<exists>t'. ins t k v = Some t' \<and> inv t'
      \<and> table t' = (if table t (nrm k) = None then (table t)(nrm k \<mapsto> v) else table t)"
    and del_table: "inv t \<Longrightarrow> valid k \<Longrightarrow> \<exists>t'. del t k = Some t' \<and> inv t'
      \<and> table t' = (table t)(nrm k := None)"
begin

lemma run_refines:
  assumes "inv t" "\<forall>x \<in> set ops. valid (op_key x)"
  shows "\<exists>t'. table_run ins del t ops = Some t' \<and> inv t' \<and> table t' = table_spec nrm (table t) ops"
  using assms
proof (induction ops arbitrary: t)
  case (Cons x ops)
  show ?case
  proof (cases x)
    case (Insert k v)
    with Cons.prems obtain t' where "ins t k v = Some t'" "inv t'"
      "table t' = (if table t (nrm k) = None then (table t)(nrm k \<mapsto> v) else table t)"
      using ins_table [of t k v] by auto
    with Insert Cons.IH [of t'] Cons.prems show ?thesis by auto
  next
    case (Delete k)
    with Cons.prems obtain t' where "del t k = Some t'" "inv t'" "table t' = (table t)(nrm k := None)"
      using del_table [of t k] by auto
    with Delete Cons.IH [of t'] Cons.prems show ?thesis by (auto simp: fun_upd_def)
  qed
qed simp

lemma run_find:
  assumes "inv t" "\<forall>x \<in> set ops. valid (op_key x)" "valid k"
  shows "\<exists>t'. table_run ins del t ops = Some t' \<and> find t' k = table_spec nrm (table t) ops (nrm k)"
  using run_refines [OF assms(1,2)] find_table assms(3) by auto

end

end
