(* ===== verification/Mush_Strutil.thy ===== *)
theory Mush_Strutil
  imports Mush_Prelude
begin

text \<open>
  The string utilities of \<open>src/src/strutil.c\<close>: case-insensitive comparison and prefixes,
  case conversion, copying into sized buffers, the \<open>safe_*\<close> writers and number formatting.
  The tokenizers are in \<open>Mush_Tokens\<close>, the accent table in \<open>Mush_Accent\<close>.
  The sources are built with \<open>-funsigned-char\<close>, so a \<open>char\<close> is its code.
\<close>

section \<open>Comparison and prefixes\<close>

fun strcasecmp :: "string \<Rightarrow> string \<Rightarrow> int" where
  "strcasecmp (a # s) (b # t) =
     (if DOWNCASE a = DOWNCASE b then strcasecmp s t
      else int (c_ord (DOWNCASE a)) - int (c_ord (DOWNCASE b)))"
| "strcasecmp s t = int (c_ord (DOWNCASE (c_head s))) - int (c_ord (DOWNCASE (c_head t)))"

fun strncasecmp :: "string \<Rightarrow> string \<Rightarrow> nat \<Rightarrow> int" where
  "strncasecmp s t 0 = 0"
| "strncasecmp s t (Suc n) =
     (if DOWNCASE (c_head s) \<noteq> DOWNCASE (c_head t)
      then int (c_ord (DOWNCASE (c_head s))) - int (c_ord (DOWNCASE (c_head t)))
      else if c_head s = NUL then 0
      else strncasecmp (tl s) (tl t) n)"

text \<open>The loop of \<open>string_prefix\<close> and \<open>string_prefixe\<close>: the result is \<open>*prefix == '\0'\<close> at its end.\<close>

fun prefix_loop :: "string \<Rightarrow> string \<Rightarrow> bool" where
  "prefix_loop (a # s) (b # p) = (if DOWNCASE a = DOWNCASE b then prefix_loop s p else False)"
| "prefix_loop s p = (p = [])"

definition string_prefix :: "string option \<Rightarrow> string option \<Rightarrow> bool" where
  "string_prefix s p =
     (case (s, p) of (Some s', Some p') \<Rightarrow> prefix_loop s' p' | _ \<Rightarrow> False)"

definition string_prefixe :: "string option \<Rightarrow> string option \<Rightarrow> bool" where
  "string_prefixe s p =
     (case (s, p) of (Some s', Some p') \<Rightarrow> p' \<noteq> [] \<and> prefix_loop s' p' | _ \<Rightarrow> False)"

text \<open>\<open>string_match\<close> returns a pointer to the first word that starts with \<open>sub\<close>: the suffix there.\<close>

function match_words :: "string \<Rightarrow> string \<Rightarrow> string option" where
  "match_words [] sub = None"
| "match_words (c # s) sub =
     (if prefix_loop (c # s) sub then Some (c # s)
      else match_words (dropWhile (\<lambda>c. \<not> c_isalnum c) (dropWhile c_isalnum (c # s))) sub)"
  by pat_completeness auto
termination
proof (relation "measure (\<lambda>(s, _). length s)", simp)
  fix c :: char and s sub :: string
  let ?d = "dropWhile (\<lambda>c. \<not> c_isalnum c) (dropWhile c_isalnum (c # s))"
  have "length ?d \<le> length s"
    by (cases "c_isalnum c")
      (simp_all add: order_trans [OF length_dropWhile_le] length_dropWhile_le)
  then show "((?d, sub), (c # s, sub)) \<in> measure (\<lambda>(s, _). length s)"
    by (simp del: dropWhile.simps)
qed

definition string_match :: "string option \<Rightarrow> string option \<Rightarrow> string option" where
  "string_match src sub =
     (case (src, sub) of
        (Some s, Some p) \<Rightarrow> (if p \<noteq> [] then match_words s p else None)
      | _ \<Rightarrow> None)"

section \<open>Copying into a buffer of a given size\<close>

text \<open>
  A destination buffer is the list of its bytes; a store outside it is \<open>None\<close>.  The
  content of a buffer as a C string ends at its first NUL.
\<close>

definition poke :: "char list \<Rightarrow> nat \<Rightarrow> char \<Rightarrow> char list option" where
  "poke d p c = (if p < length d then Some (d[p := c]) else None)"

definition c_string :: "char list \<Rightarrow> string" where
  "c_string d = takeWhile (\<lambda>c. c \<noteq> NUL) d"

text \<open>\<open>size_t\<close> subtraction wraps around.\<close>

definition size_t_pred :: "nat \<Rightarrow> nat" where
  "size_t_pred n = (if n = 0 then 2 ^ 64 - 1 else n - 1)"

text \<open>
  The copying loop of \<open>strupper_r\<close>, \<open>strlower_r\<close>, \<open>strinitial_r\<close> and \<open>mush_strncpy\<close>:
  store the converted characters while \<open>p < limit\<close>, then a NUL.
\<close>

fun copy_loop :: "(char \<Rightarrow> char) \<Rightarrow> string \<Rightarrow> char list \<Rightarrow> nat \<Rightarrow> nat \<Rightarrow> char list option" where
  "copy_loop f [] d p limit = poke d p NUL"
| "copy_loop f (c # s) d p limit =
     (if p < limit
      then (case poke d p (f c) of None \<Rightarrow> None | Some d' \<Rightarrow> copy_loop f s d' (Suc p) limit)
      else poke d p NUL)"

definition mush_strncpy :: "char list \<Rightarrow> string option \<Rightarrow> nat \<Rightarrow> char list option" where
  "mush_strncpy d src len =
     (case src of
        None \<Rightarrow> Some d
      | Some s \<Rightarrow> if len = 0 then Some d else copy_loop (\<lambda>c. c) s d 0 (len - 1))"

definition strupper_r :: "string option \<Rightarrow> char list \<Rightarrow> nat \<Rightarrow> char list option" where
  "strupper_r s d len =
     (case s of
        None \<Rightarrow> if len \<noteq> 0 then poke d 0 NUL else Some d
      | Some s' \<Rightarrow> copy_loop UPCASE s' d 0 (size_t_pred len))"

definition strlower_r :: "string option \<Rightarrow> char list \<Rightarrow> nat \<Rightarrow> char list option" where
  "strlower_r s d len =
     (case s of
        None \<Rightarrow> if len \<noteq> 0 then poke d 0 NUL else Some d
      | Some s' \<Rightarrow> copy_loop DOWNCASE s' d 0 (size_t_pred len))"

definition strinitial_r :: "string \<Rightarrow> char list \<Rightarrow> nat \<Rightarrow> char list option" where
  "strinitial_r s d len =
     (if len = 1 then poke d 0 NUL
      else (case s of
              [] \<Rightarrow> copy_loop DOWNCASE [] d 1 (size_t_pred len)
            | c # s' \<Rightarrow>
                (case poke d 0 (UPCASE c) of
                   None \<Rightarrow> None
                 | Some d' \<Rightarrow> copy_loop DOWNCASE s' d' 1 (size_t_pred len))))"

text \<open>
  Copies into a \<open>static char buf[BUFFER_LEN]\<close>, as the string the buffer then holds.
  \<open>strinitial\<close> copies with \<open>strcpy\<close>, whose overflow is \<open>None\<close>.
\<close>

definition strinitial :: "string option \<Rightarrow> string option" where
  "strinitial s =
     (case s of
        None \<Rightarrow> Some []
      | Some [] \<Rightarrow> Some []
      | Some (c # s') \<Rightarrow>
          if length (c # s') < BUFFER_LEN
          then Some (UPCASE (DOWNCASE c) # map DOWNCASE s') else None)"

definition strupper :: "string option \<Rightarrow> string" where
  "strupper s =
     (case s of None \<Rightarrow> [] | Some s' \<Rightarrow>
        if s' = [] then [] else map UPCASE (take (BUFFER_LEN - 1) s'))"

definition strlower :: "string option \<Rightarrow> string" where
  "strlower s =
     (case s of None \<Rightarrow> [] | Some s' \<Rightarrow>
        if s' = [] then [] else map DOWNCASE (take (BUFFER_LEN - 1) s'))"

definition strupper_a :: "string \<Rightarrow> string" where
  "strupper_a s = map UPCASE s"

definition strlower_a :: "string \<Rightarrow> string" where
  "strlower_a s = map DOWNCASE s"

definition upcasestr :: "string option \<Rightarrow> string option" where
  "upcasestr s = map_option (map UPCASE) s"

definition mush_strndup :: "string \<Rightarrow> nat \<Rightarrow> string" where
  "mush_strndup src len =
     (let rlen = length src; len = (if rlen < len then rlen else len) in take len src)"

text \<open>
  \<open>chopstr\<close> returns its argument, or its static buffer after the copy; with \<open>limit = 0\<close>
  nothing is copied and the buffer keeps what the last call left there.
\<close>

definition chopstr :: "string \<Rightarrow> string \<Rightarrow> nat \<Rightarrow> string \<times> string" where
  "chopstr old str limit =
     (if length str \<le> limit then (str, old)
      else let limit = (if BUFFER_LEN \<le> limit then BUFFER_LEN else limit);
               new = (if limit = 0 then old else take (limit - 1) str)
           in (new, new))"

text \<open>\<open>copy_up_to\<close> into a large enough buffer.\<close>

fun copy_up_to :: "string \<Rightarrow> char \<Rightarrow> string" where
  "copy_up_to [] c = []"
| "copy_up_to (a # src) c = (if a \<noteq> c then a # copy_up_to src c else [])"

section \<open>The writers\<close>

definition safe_chr :: "char \<Rightarrow> writer" where
  "safe_chr c b = (if BUFFER_LEN - 1 \<le> length b then (1, b) else (0, b @ [c]))"

text \<open>The macro \<open>APPEND_TO_BUF\<close>.\<close>

definition append_to_buf :: "string \<Rightarrow> writer" where
  "append_to_buf c b =
     (case c of
        [] \<Rightarrow> (0, b)
      | [x] \<Rightarrow> safe_chr x b
      | _ \<Rightarrow>
        let len = length c; blen = length b in
        if BUFFER_LEN - 1 < blen then (len, b)
        else let clen = (if len + blen \<le> BUFFER_LEN - 1 then len else BUFFER_LEN - 1 - blen)
             in (len - clen, b @ take clen c))"

definition safe_str :: "string option \<Rightarrow> writer" where
  "safe_str c b =
     (case c of None \<Rightarrow> (0, b) | Some s \<Rightarrow> if s = [] then (0, b) else append_to_buf s b)"

definition safe_strl :: "string option \<Rightarrow> nat \<Rightarrow> writer" where
  "safe_strl c len b =
     (case c of
        None \<Rightarrow> (0, b)
      | Some s \<Rightarrow>
        if s = [] then (0, b)
        else if len = 0 then (0, b)
        else if len = 1 then safe_chr (c_head s) b
        else let blen = length b in
          if BUFFER_LEN - 1 < blen then (len, b)
          else let clen = (if len + blen \<le> BUFFER_LEN - 1 then len else BUFFER_LEN - 1 - blen)
               in (len - clen, b @ take clen s))"

text \<open>\<open>safe_format\<close>: \<open>vsnprintf\<close> cuts the formatted text at \<open>BUFFER_LEN - 1\<close> characters.\<close>

definition safe_format :: "string \<Rightarrow> writer" where
  "safe_format formatted b = append_to_buf (take (BUFFER_LEN - 1) formatted) b"

definition safe_str_space :: "string option \<Rightarrow> writer" where
  "safe_str_space c b =
     (case c of
        None \<Rightarrow> (0, b)
      | Some s \<Rightarrow>
        if s = [] then (0, b)
        else if CHR '' '' \<in> set s then
          (let (r1, b1) = safe_chr (CHR 0x22) b in
           if r1 \<noteq> 0 then (1, b)
           else let (r2, b2) = safe_str (Some s) b1 in
             if r2 \<noteq> 0 then (1, b)
             else let (r3, b3) = safe_chr (CHR 0x22) b2 in
               if r3 \<noteq> 0 then (1, b) else (0, b3))
        else append_to_buf s b)"

definition safe_fill :: "char \<Rightarrow> nat \<Rightarrow> writer" where
  "safe_fill x n b =
     (if n < 1 then (0, b)
      else if n = 1 then safe_chr x b
      else if BUFFER_LEN < length b + n + 1 then
        (let n = BUFFER_LEN - length b; n = (if 0 < n then n - 1 else n) in
         if n = 0 then (1, b) else (1, b @ replicate n x))
      else (0, b @ replicate n x))"

definition safe_hexchar :: "char \<Rightarrow> writer" where
  "safe_hexchar c b =
     (let digits = ''0123456789abcdef'';
          (r, b1) = safe_chr (digits ! (c_ord c div 16)) b in
      if r \<noteq> 0 then (1, b1)
      else let (r', b2) = safe_chr (digits ! (c_ord c mod 16)) b1 in
        if r' \<noteq> 0 then (1, b2) else (0, b2))"

fun safe_hexstr :: "char list \<Rightarrow> writer" where
  "safe_hexstr [] b = (0, b)"
| "safe_hexstr (x # bytes) b =
     (let (r, b1) = safe_hexchar x b in if r \<noteq> 0 then (1, b1) else safe_hexstr bytes b1)"

definition safe_itemizer :: "nat \<Rightarrow> bool \<Rightarrow> string \<Rightarrow> string \<Rightarrow> string \<Rightarrow> buf \<Rightarrow> buf" where
  "safe_itemizer cur_num done delim conjoin space b =
     (if cur_num = 1 then b
      else let b1 = (if done
                     then (let b0 = (if 3 \<le> cur_num then snd (safe_str (Some delim) b) else b);
                               b0' = snd (safe_str (Some space) b0)
                           in snd (safe_str (Some conjoin) b0'))
                     else snd (safe_str (Some delim) b))
           in snd (safe_str (Some space) b1))"

section \<open>Numbers\<close>

text \<open>
  \<open>format_long\<close>: the digits are pushed on a stack from the right, and then copied with
  Duff's device when there is room for all of them, one by one otherwise.  \<open>intmax_t\<close> is
  \<open>64 word\<close>, read by \<open>sint\<close>; \<open>-INTMAX_MIN\<close> is \<open>INTMAX_MIN\<close> again, as the code expects.
\<close>

definition digit_char :: "nat \<Rightarrow> char" where
  "digit_char d = ''0123456789abcdefghijklmnopqrstuvwxyz'' ! d"

function push_digits :: "nat \<Rightarrow> nat \<Rightarrow> string \<Rightarrow> string" where
  "push_digits base quot stack =
     (let stack' = digit_char (quot mod base) # stack; quot' = quot div base in
      if quot' \<noteq> 0 \<and> 2 \<le> base then push_digits base quot' stack' else stack')"
  by pat_completeness auto
termination
  by (relation "measure (\<lambda>(base, quot, stack). quot)") (auto intro!: div_less_dividend gr0I)

declare push_digits.simps [simp del]

function duff_blocks :: "string \<Rightarrow> string" where
  "duff_blocks s = (if s = [] then [] else take 8 s @ duff_blocks (drop 8 s))"
  by pat_completeness auto
termination
  by (relation "measure length") auto

declare duff_blocks.simps [simp del]

definition duff_copy :: "string \<Rightarrow> string" where
  "duff_copy s = take (length s mod 8) s @ duff_blocks (drop (length s mod 8) s)"

fun copy_bounded :: "string \<Rightarrow> int \<Rightarrow> writer" where
  "copy_bounded [] maxlen b = (0, b)"
| "copy_bounded (c # s) maxlen b =
     (if maxlen - 1 \<le> int (length b) then (1, b) else copy_bounded s maxlen (b @ [c]))"

definition format_long :: "64 word \<Rightarrow> int \<Rightarrow> nat \<Rightarrow> writer" where
  "format_long val maxlen base b =
     (if maxlen - 1 \<le> int (length b) then (1, b)
      else
        let base = (if base < 2 then 2 else if 36 < base then 36 else base);
            neg = sint val < 0;
            val' = (if neg then - val else val)
        in if neg \<and> sint val' < 0 then
             (if base = 10 then safe_format ''-9223372036854775808'' b
              else if base = 16 then safe_format ''8000000000000000'' b
              else if base = 8 then safe_format ''1000000000000000000000'' b
              else (0, b))
           else
             let digits = push_digits base (unat val') [];
                 current = (if neg then CHR ''-'' # digits else digits);
                 size = length current
             in if int (length b) + int size < maxlen - 2 then (0, b @ duff_copy current)
                else copy_bounded current maxlen b)"

definition safe_integer :: "64 word \<Rightarrow> writer" where
  "safe_integer i b = format_long i (int BUFFER_LEN) 10 b"

definition SBUF_LEN :: int where
  "SBUF_LEN = 128"

definition safe_integer_sbuf :: "64 word \<Rightarrow> writer" where
  "safe_integer_sbuf i b = format_long i SBUF_LEN 10 b"

text \<open>\<open>unparse_integer\<close> of \<open>unparse.c\<close>.\<close>

definition unparse_integer :: "64 word \<Rightarrow> string" where
  "unparse_integer num = snd (safe_integer_sbuf num [])"

definition safe_uinteger :: "64 word \<Rightarrow> writer" where
  "safe_uinteger i b = safe_str (Some (unparse_integer i)) b"

text \<open>A \<open>dbref\<close> is an \<open>int\<close>, converted to \<open>intmax_t\<close>.\<close>

definition safe_dbref :: "32 word \<Rightarrow> writer" where
  "safe_dbref d b =
     (let (r, b1) = safe_chr (CHR ''#'') b in
      if r \<noteq> 0 then (1, b)
      else let (q, b2) = format_long (word_of_int (sint d)) (int BUFFER_LEN) 10 b1 in
        if q \<noteq> 0 then (1, b) else (0, b2))"

section \<open>Comparison lemmas\<close>

lemma strcasecmp_less:
  "no_nul s \<Longrightarrow> no_nul t \<Longrightarrow> strcasecmp s t < 0 \<longleftrightarrow> case_key s < case_key t"
  by (induction s t rule: strcasecmp.induct)
    (auto simp: case_key_def neq_Nil_conv c_head_def split: list.splits)

lemma strcasecmp_zero:
  "no_nul s \<Longrightarrow> no_nul t \<Longrightarrow> strcasecmp s t = 0 \<longleftrightarrow> case_key s = case_key t"
  by (induction s t rule: strcasecmp.induct) (auto simp: case_key_def c_head_def split: list.splits)

interpretation strcasecmp_order: string_order strcasecmp case_key
  by unfold_locales (simp_all add: strcasecmp_less strcasecmp_zero)

lemma case_key_eq: "case_key s = case_key t \<longleftrightarrow> map DOWNCASE s = map DOWNCASE t"
proof -
  have "case_key x = map c_ord (map DOWNCASE x)" for x
    by (simp add: case_key_def)
  moreover have "inj c_ord"
    by (auto intro: injI)
  ultimately show ?thesis
    by (metis inj_map_eq_map)
qed

lemma prefix_loop_iff: "prefix_loop s p \<longleftrightarrow> prefix (map DOWNCASE p) (map DOWNCASE s)"
  by (induction s p rule: prefix_loop.induct) auto

lemma prefix_loop_key: "prefix_loop s p \<longleftrightarrow> prefix (case_key p) (case_key s)"
  by (induction s p rule: prefix_loop.induct) (auto simp: case_key_def)

lemma string_prefix_simp [simp]: "string_prefix (Some s) (Some p) = prefix_loop s p"
  by (simp add: string_prefix_def)

lemma match_words_suffix: "match_words s sub = Some t \<Longrightarrow> suffix t s \<and> prefix_loop t sub"
proof (induction s sub rule: match_words.induct)
  case (2 c s sub)
  let ?d = "dropWhile (\<lambda>c. \<not> c_isalnum c) (dropWhile c_isalnum (c # s))"
  show ?case
  proof (cases "prefix_loop (c # s) sub")
    case True
    with "2.prems" show ?thesis by auto
  next
    case False
    with "2.prems" have "match_words ?d sub = Some t" by simp
    with "2.IH" False have "suffix t ?d \<and> prefix_loop t sub" by blast
    moreover have "suffix ?d (c # s)"
      using suffix_dropWhile suffix_order.trans by blast
    ultimately show ?thesis using suffix_order.trans by blast
  qed
qed simp

section \<open>Copying lemmas\<close>

lemma copy_loop_Some:
  assumes "p + length (take (limit - p) s) < length d"
  shows "copy_loop f s d p limit =
    Some (take p d @ map f (take (limit - p) s) @ NUL # drop (Suc (p + length (take (limit - p) s))) d)"
  using assms
proof (induction f s d p limit rule: copy_loop.induct)
  case (1 f d p limit)
  then show ?case by (simp add: poke_def upd_conv_take_nth_drop)
next
  case (2 f c s d p limit)
  show ?case
  proof (cases "p < limit")
    case True
    then have k: "limit - p = Suc (limit - Suc p)" by simp
    let ?d = "d[p := f c]"
    have "Suc p + length (take (limit - Suc p) s) < length ?d"
      using "2.prems" by (simp add: k)
    moreover have "poke d p (f c) = Some ?d"
      using "2.prems" by (simp add: poke_def)
    ultimately have "copy_loop f s ?d (Suc p) limit =
        Some (take (Suc p) ?d @ map f (take (limit - Suc p) s)
          @ NUL # drop (Suc (Suc p + length (take (limit - Suc p) s))) ?d)"
      using "2.IH" [of ?d] True by simp
    then show ?thesis
      using True "2.prems" \<open>poke d p (f c) = Some ?d\<close>
      by (simp add: k take_Suc_conv_app_nth)
  next
    case False
    with "2.prems" show ?thesis by (simp add: poke_def upd_conv_take_nth_drop)
  qed
qed

lemma c_string_append_NUL: "no_nul s \<Longrightarrow> c_string (s @ NUL # r) = s"
  unfolding c_string_def by (induction s) auto

lemma no_nul_map: "(\<And>c. f c = NUL \<longleftrightarrow> c = NUL) \<Longrightarrow> no_nul (map f s) \<longleftrightarrow> no_nul s"
  by (induction s) auto

text \<open>Copying with room for the NUL leaves the converted prefix that fits.\<close>

lemma copy_loop_c_string:
  assumes "\<And>c. f c = NUL \<longleftrightarrow> c = NUL" and "no_nul s" and "limit < length d"
  shows "\<exists>d'. copy_loop f s d 0 limit = Some d' \<and> length d' = length d
    \<and> c_string d' = map f (take limit s)"
proof -
  have "length (take limit s) < length d"
    using assms(3) by simp
  then have eq: "copy_loop f s d 0 limit =
      Some (map f (take limit s) @ NUL # drop (Suc (length (take limit s))) d)"
    using copy_loop_Some [of 0 limit s d f] by simp
  moreover have "no_nul (map f (take limit s))"
    using assms(1,2) by (simp add: no_nul_map no_nul_takeD)
  ultimately show ?thesis
    using assms(3) by (auto simp: c_string_append_NUL)
qed

lemma mush_strncpy_c_string:
  assumes "no_nul s" "0 < len" "len \<le> length d"
  shows "\<exists>d'. mush_strncpy d (Some s) len = Some d' \<and> length d' = length d
    \<and> c_string d' = take (len - 1) s"
  using copy_loop_c_string [of "\<lambda>c. c" s "len - 1" d] assms by (simp add: mush_strncpy_def)

section \<open>Writer lemmas\<close>

lemma writes_intro:
  "(\<And>b. w b = (if length out \<le> buf_room b then 0 else r b, b @ take (buf_room b) out))
    \<Longrightarrow> (\<And>b. r b \<noteq> 0) \<Longrightarrow> writes w out"
  by (simp add: writes_def)

lemma writes_safe_chr [outbuf]: "writes (safe_chr c) [c]"
  by (auto simp: writes_def safe_chr_def buf_room_def)

lemma writes_append_to_buf [outbuf]: "writes (append_to_buf s) s"
  unfolding writes_def
proof (intro allI)
  fix b
  consider "s = []" | x where "s = [x]" | x y r where "s = x # y # r"
    by (cases s rule: remdups_adj.cases) auto
  then show "snd (append_to_buf s b) = b @ take (buf_room b) s
      \<and> (fst (append_to_buf s b) = 0) = (length s \<le> buf_room b)"
  proof cases
    case 2
    then show ?thesis using writes_safe_chr by (simp add: writes_def append_to_buf_def)
  next
    case 3
    then show ?thesis by (auto simp: append_to_buf_def buf_room_def Let_def BUFFER_LEN_def)
  qed (simp add: append_to_buf_def)
qed

lemma writes_safe_str [outbuf]: "writes (safe_str (Some s)) s"
  using writes_append_to_buf [of s] by (auto simp: writes_def safe_str_def)

lemma writes_safe_strl [outbuf]: "len \<le> length s \<Longrightarrow> writes (safe_strl (Some s) len) (take len s)"
proof -
  assume len: "len \<le> length s"
  consider "len = 0" | "len = 1" | "1 < len" by linarith
  then show ?thesis
  proof cases
    case 2
    with len obtain c r where s: "s = c # r" by (cases s) auto
    with 2 show ?thesis
      using writes_safe_chr [of c] by (simp add: writes_def safe_strl_def)
  next
    case 3
    with len have "s \<noteq> []" by auto
    with 3 len show ?thesis
      by (auto simp: writes_def safe_strl_def buf_room_def Let_def BUFFER_LEN_def)
  qed (auto simp: writes_def safe_strl_def)
qed

lemma writes_safe_fill [outbuf]: "writes (safe_fill x n) (replicate n x)"
proof -
  consider "n = 0" | "n = 1" | "1 < n" by linarith
  then show ?thesis
  proof cases
    case 2
    then show ?thesis using writes_safe_chr [of x] by (simp add: writes_def safe_fill_def)
  next
    case 3
    then show ?thesis
      by (auto simp: writes_def safe_fill_def buf_room_def Let_def BUFFER_LEN_def min_def)
  qed (auto simp: writes_def safe_fill_def)
qed

interpretation chr: bounded_writer "safe_chr c" "[c]"
  by unfold_locales (rule writes_safe_chr)

interpretation str: bounded_writer "safe_str (Some s)" s
  by unfold_locales (rule writes_safe_str)

interpretation fill: bounded_writer "safe_fill x n" "replicate n x"
  by unfold_locales (rule writes_safe_fill)

text \<open>A writer that stops at the first one that fails satisfies the contract too.\<close>

lemma writes_seq:
  assumes w: "writes w s" and v: "writes v t"
    and stop: "\<And>b. fst (w b) \<noteq> 0 \<Longrightarrow> fst (f b) \<noteq> 0 \<and> snd (f b) = snd (w b)"
    and go: "\<And>b. fst (w b) = 0 \<Longrightarrow> snd (f b) = snd (v (snd (w b)))
      \<and> (fst (f b) = 0 \<longleftrightarrow> fst (v (snd (w b))) = 0)"
  shows "writes f (s @ t)"
  unfolding writes_def
proof (intro allI)
  fix b
  have w1: "snd (w b) = b @ take (buf_room b) s" and w2: "fst (w b) = 0 \<longleftrightarrow> length s \<le> buf_room b"
    using w by (simp_all add: writes_def)
  show "snd (f b) = b @ take (buf_room b) (s @ t) \<and> (fst (f b) = 0) = (length (s @ t) \<le> buf_room b)"
  proof (cases "fst (w b) = 0")
    case True
    with w1 w2 have wb: "w b = (0, b @ s)" by (simp add: prod_eq_iff)
    have "snd (v (b @ s)) = (b @ s) @ take (buf_room b - length s) t"
      "fst (v (b @ s)) = 0 \<longleftrightarrow> length t \<le> buf_room b - length s"
      using v True w2 by (simp_all add: writes_def buf_room_def)
    with wb True w2 go [of b] show ?thesis
      by auto
  next
    case False
    with w1 w2 stop [of b] show ?thesis
      by auto
  qed
qed

definition hex_pair :: "char \<Rightarrow> string" where
  "hex_pair c = [digit_char (c_ord c div 16), digit_char (c_ord c mod 16)]"

lemma hex_digit: "d < 16 \<Longrightarrow> ''0123456789abcdef'' ! d = digit_char d"
proof -
  assume "d < 16"
  moreover have "''0123456789abcdefghijklmnopqrstuvwxyz'' = ''0123456789abcdef'' @ ''ghijklmnopqrstuvwxyz''"
    by simp
  ultimately show ?thesis
    unfolding digit_char_def by (simp only: nth_append) simp
qed

lemma writes_safe_hexchar [outbuf]: "writes (safe_hexchar c) (hex_pair c)"
proof -
  have d: "c_ord c div 16 < 16" "c_ord c mod 16 < 16"
    using c_ord_less [of c] by (simp_all del: c_ord_less add: less_mult_imp_div_less)
  show ?thesis
    unfolding hex_pair_def
    by (rule writes_seq [OF writes_safe_chr [of "digit_char (c_ord c div 16)"]
          writes_safe_chr [of "digit_char (c_ord c mod 16)"], simplified])
      (auto simp: safe_hexchar_def hex_digit d Let_def case_prod_beta)
qed

lemma writes_safe_hexstr [outbuf]: "writes (safe_hexstr bs) (concat (map hex_pair bs))"
proof (induction bs)
  case (Cons x bs)
  have "writes (safe_hexstr (x # bs)) (hex_pair x @ concat (map hex_pair bs))"
    by (rule writes_seq [OF writes_safe_hexchar Cons.IH]) (auto simp: case_prod_beta)
  then show ?case by (simp del: safe_hexstr.simps)
qed (simp add: writes_def)

text \<open>All of the text or none of it: \<open>safe_str_space\<close> and \<open>safe_dbref\<close> restore the buffer.\<close>

definition writes_whole :: "writer \<Rightarrow> string \<Rightarrow> bool" where
  "writes_whole w out \<longleftrightarrow>
     (\<forall>b. (fst (w b) = 0 \<longrightarrow> w b = (0, b @ out) \<and> length out \<le> buf_room b)
        \<and> (fst (w b) \<noteq> 0 \<longrightarrow> snd (w b) = b \<and> \<not> length out \<le> buf_room b))"

lemma safe_str_space_quoted:
  assumes "CHR '' '' \<in> set s"
  shows "writes_whole (safe_str_space (Some s)) (CHR 0x22 # s @ [CHR 0x22])"
  unfolding writes_whole_def
proof (intro allI)
  fix b
  have s: "s \<noteq> []" using assms by auto
  note simps = safe_str_space_def assms s Let_def
  consider "buf_room b = 0" | "0 < buf_room b" "buf_room b < Suc (length s)"
    | "buf_room b = Suc (length s)" | "Suc (length s) < buf_room b" by linarith
  then show "(fst (safe_str_space (Some s) b) = 0 \<longrightarrow>
       safe_str_space (Some s) b = (0, b @ CHR 0x22 # s @ [CHR 0x22]) \<and>
       length (CHR 0x22 # s @ [CHR 0x22]) \<le> buf_room b) \<and>
      (fst (safe_str_space (Some s) b) \<noteq> 0 \<longrightarrow>
       snd (safe_str_space (Some s) b) = b \<and> \<not> length (CHR 0x22 # s @ [CHR 0x22]) \<le> buf_room b)"
  proof cases
    case 1
    then have "BUFFER_LEN - 1 \<le> length b" by (simp add: buf_room_def)
    then have "safe_chr (CHR 0x22) b = (1, b)" by (simp add: safe_chr_def)
    with 1 show ?thesis by (simp add: simps)
  next
    case 2
    then have "safe_chr (CHR 0x22) b = (0, b @ [CHR 0x22])"
      by (simp add: safe_chr_def buf_room_def)
    moreover have "fst (safe_str (Some s) (b @ [CHR 0x22])) \<noteq> 0"
      using 2 by (simp add: str.all_or_error buf_room_def)
    ultimately show ?thesis using 2 by (simp add: simps case_prod_beta)
  next
    case 3
    then have "safe_chr (CHR 0x22) b = (0, b @ [CHR 0x22])"
      by (simp add: safe_chr_def buf_room_def)
    moreover have "safe_str (Some s) (b @ [CHR 0x22]) = (0, b @ CHR 0x22 # s)"
      using 3 by (subst str.fits) (simp_all add: buf_room_def)
    moreover have "safe_chr (CHR 0x22) (b @ CHR 0x22 # s) = (1, b @ CHR 0x22 # s)"
      using 3 by (simp add: safe_chr_def buf_room_def)
    ultimately show ?thesis using 3 by (simp add: simps)
  next
    case 4
    then have "safe_chr (CHR 0x22) b = (0, b @ [CHR 0x22])"
      by (simp add: safe_chr_def buf_room_def)
    moreover have "safe_str (Some s) (b @ [CHR 0x22]) = (0, b @ CHR 0x22 # s)"
      using 4 by (subst str.fits) (simp_all add: buf_room_def)
    moreover have "safe_chr (CHR 0x22) (b @ CHR 0x22 # s) = (0, b @ CHR 0x22 # s @ [CHR 0x22])"
      using 4 by (simp add: safe_chr_def buf_room_def)
    ultimately show ?thesis using 4 by (simp add: simps)
  qed
qed

section \<open>Number lemmas\<close>

definition digit_value :: "char \<Rightarrow> nat" where
  "digit_value c = (if c_isdigit c then c_ord c - 48 else c_ord c - 87)"

definition digits_value :: "nat \<Rightarrow> string \<Rightarrow> nat" where
  "digits_value base s = foldl (\<lambda>a c. a * base + digit_value c) 0 s"

lemma digit_value_digit_char: "d < 36 \<Longrightarrow> digit_value (digit_char d) = d"
proof -
  have "\<forall>d \<in> set [0..<36]. digit_value (digit_char d) = d"
    by code_simp
  then show "d < 36 \<Longrightarrow> ?thesis" by auto
qed

lemma duff_blocks_id: "duff_blocks s = s"
proof (induction s rule: duff_blocks.induct)
  case (1 s)
  show ?case
    by (subst duff_blocks.simps) (simp add: "1.IH")
qed

lemma duff_copy_id [simp]: "duff_copy s = s"
  by (simp add: duff_copy_def duff_blocks_id)

lemma push_digits_append: "push_digits base q (st @ r) = push_digits base q st @ r"
proof (induction base q st rule: push_digits.induct)
  case (1 base q st)
  show ?case
  proof (cases "q div base \<noteq> 0 \<and> 2 \<le> base")
    case True
    then show ?thesis
      using "1.IH" [OF refl refl] by (simp add: push_digits.simps [of base q])
  next
    case False
    then show ?thesis by (auto simp add: push_digits.simps [of base q])
  qed
qed

lemma push_digits_rec:
  "2 \<le> base \<Longrightarrow> push_digits base q [] =
    (if q < base then [digit_char q] else push_digits base (q div base) [] @ [digit_char (q mod base)])"
  using push_digits_append [of base "q div base" "[]" "[digit_char (q mod base)]"]
  by (subst push_digits.simps) (auto simp: Let_def div_eq_0_iff)

lemma digits_value_snoc: "digits_value base (s @ [c]) = digits_value base s * base + digit_value c"
  by (simp add: digits_value_def)

lemma push_digits_value:
  "2 \<le> base \<Longrightarrow> base \<le> 36 \<Longrightarrow> digits_value base (push_digits base q []) = q"
proof (induction q rule: less_induct)
  case (less q)
  show ?case
  proof (cases "q < base")
    case True
    with less.prems show ?thesis
      by (simp add: push_digits_rec digits_value_def digit_value_digit_char)
  next
    case False
    then have "q div base < q"
      using less.prems by simp
    with less False have "digits_value base (push_digits base (q div base) []) = q div base"
      by simp
    moreover have "digit_value (digit_char (q mod base)) = q mod base"
      using less.prems by (intro digit_value_digit_char less_le_trans [OF mod_less_divisor]) simp_all
    ultimately show ?thesis
      using False less.prems by (simp add: push_digits_rec [of base q] digits_value_snoc)
  qed
qed

text \<open>No superfluous leading zero.\<close>

lemma digit_char_0: "d < 36 \<Longrightarrow> digit_char d = CHR ''0'' \<longleftrightarrow> d = 0"
  using digit_value_digit_char [of d] digit_value_digit_char [of 0]
  by (auto simp: digit_char_def)

lemma push_digits_nonempty: "push_digits base q [] \<noteq> []"
  using push_digits_append [of base "q div base" "[]" "[digit_char (q mod base)]"]
  by (subst push_digits.simps) (auto simp: Let_def)

lemma push_digits_no_leading_zero:
  "2 \<le> base \<Longrightarrow> base \<le> 36 \<Longrightarrow> 0 < q \<Longrightarrow> hd (push_digits base q []) \<noteq> CHR ''0''"
proof (induction q rule: less_induct)
  case (less q)
  show ?case
  proof (cases "q < base")
    case True
    with less.prems show ?thesis
      by (simp add: push_digits_rec digit_char_0)
  next
    case False
    then have "q div base < q" "0 < q div base"
      using less.prems by (simp_all add: div_greater_zero_iff)
    with less False show ?thesis
      by (simp add: push_digits_rec [of base q] push_digits_nonempty)
  qed
qed

lemma copy_bounded_writes:
  "copy_bounded s (int m) b =
    (if length b + length s \<le> m - 1 then 0 else 1, b @ take (m - 1 - length b) s)"
  if "length b \<le> m - 1" "0 < m"
  using that
proof (induction s "int m" b rule: copy_bounded.induct)
  case (2 c s b)
  show ?case
  proof (cases "int m - 1 \<le> int (length b)")
    case True
    then show ?thesis by auto
  next
    case False
    then have "m - Suc (length b) = Suc (m - Suc (Suc (length b)))"
      using "2.prems" by linarith
    with 2 False show ?thesis by auto
  qed
qed simp

text \<open>The text a call formats.\<close>

definition clamp_base :: "nat \<Rightarrow> nat" where
  "clamp_base base = (if base < 2 then 2 else if 36 < base then 36 else base)"

definition long_text :: "64 word \<Rightarrow> nat \<Rightarrow> string" where
  "long_text val base =
     (if sint val < 0 then CHR ''-'' # push_digits (clamp_base base) (nat (- sint val)) []
      else push_digits (clamp_base base) (nat (sint val)) [])"

lemma format_long_text:
  assumes val: "val \<noteq> - (2 ^ 63)" and m: "2 \<le> m" and b: "length b < m - 1"
  shows "format_long val (int m) base b =
    (if length b + length (long_text val base) \<le> m - 1 then 0 else 1,
     b @ take (m - 1 - length b) (long_text val base))"
proof -
  have range: "- (2 ^ 63) \<le> sint val" "sint val < 2 ^ 63"
    using sint_ge [of val] sint_lt [of val] by simp_all
  have ne: "sint val \<noteq> - (2 ^ 63)"
  proof
    assume "sint val = - (2 ^ 63)"
    then have "word_of_int (sint val) = (word_of_int (- (2 ^ 63)) :: 64 word)" by simp
    with val show False by simp
  qed
  have neg: "sint (- val) = - sint val"
    using range ne by (simp add: sint_word_minus signed_take_bit_int_eq_self)
  have mag: "unat w = nat (sint w)" if "0 \<le> sint w" "sint w < 2 ^ 63" for w :: "64 word"
  proof -
    have "uint w = uint (word_of_int (sint w) :: 64 word)" by simp
    also have "\<dots> = sint w"
      unfolding uint_word_of_int_eq using that by (simp add: take_bit_int_eq_self)
    finally show ?thesis by (simp add: unat_eq_nat_uint)
  qed
  let ?v = "if sint val < 0 then - val else val"
  let ?c = "if sint val < 0 then CHR ''-'' # push_digits (clamp_base base) (unat ?v) []
     else push_digits (clamp_base base) (unat ?v) []"
  have v: "\<not> (sint val < 0 \<and> sint ?v < 0)" and c: "?c = long_text val base"
    using range ne by (auto simp: neg mag long_text_def)
  have nb: "\<not> int m - 1 \<le> int (length b)"
    using b by linarith
  have "format_long val (int m) base b =
    (if int (length b) + int (length ?c) < int m - 2 then (0, b @ ?c) else copy_bounded ?c (int m) b)"
    using v unfolding format_long_def Let_def clamp_base_def [symmetric]
    by (simp only: nb duff_copy_id if_False)
  then show ?thesis
    unfolding c using m b by (auto simp: copy_bounded_writes)
qed

text \<open>So \<open>safe_integer\<close> keeps the contract of the writers on every value but \<open>INTMAX_MIN\<close>, and on that too.\<close>

lemma writes_safe_integer: "val \<noteq> - (2 ^ 63) \<Longrightarrow> writes (safe_integer val) (long_text val 10)"
  unfolding writes_def safe_integer_def
proof (intro allI)
  fix b
  assume val: "val \<noteq> - (2 ^ 63)"
  have ne: "long_text val 10 \<noteq> []"
    by (simp add: long_text_def push_digits_nonempty)
  show "snd (format_long val (int BUFFER_LEN) 10 b) = b @ take (buf_room b) (long_text val 10)
    \<and> (fst (format_long val (int BUFFER_LEN) 10 b) = 0) = (length (long_text val 10) \<le> buf_room b)"
  proof (cases "length b < BUFFER_LEN - 1")
    case True
    then have "format_long val (int BUFFER_LEN) 10 b =
      (if length b + length (long_text val 10) \<le> BUFFER_LEN - 1 then 0 else 1,
       b @ take (BUFFER_LEN - 1 - length b) (long_text val 10))"
      by (intro format_long_text [OF val]) (simp_all add: BUFFER_LEN_def)
    with True show ?thesis by (auto simp: buf_room_def)
  next
    case False
    then have "int BUFFER_LEN - 1 \<le> int (length b)"
      by (simp add: BUFFER_LEN_def)
    with False ne show ?thesis by (simp add: format_long_def buf_room_def)
  qed
qed

definition dbref_text :: "32 word \<Rightarrow> string" where
  "dbref_text d = CHR ''#'' # long_text (word_of_int (sint d)) 10"

lemma safe_dbref_whole: "writes_whole (safe_dbref d) (dbref_text d)"
  unfolding writes_whole_def
proof (intro allI)
  fix b
  let ?d = "word_of_int (sint d) :: 64 word"
  have "?d \<noteq> - (2 ^ 63)"
  proof
    assume "?d = - (2 ^ 63)"
    then have "sint ?d = sint (- (2 ^ 63) :: 64 word)" by simp
    moreover have "sint ?d = sint d"
      unfolding sint_sbintrunc' using sint_ge [of d] sint_lt [of d]
      by (intro signed_take_bit_int_eq_self) simp_all
    ultimately show False
      using sint_ge [of d] by simp
  qed
  then have w: "writes (safe_integer ?d) (long_text ?d 10)"
    by (rule writes_safe_integer)
  show "(fst (safe_dbref d b) = 0 \<longrightarrow> safe_dbref d b = (0, b @ dbref_text d) \<and> length (dbref_text d) \<le> buf_room b)
     \<and> (fst (safe_dbref d b) \<noteq> 0 \<longrightarrow> snd (safe_dbref d b) = b \<and> \<not> length (dbref_text d) \<le> buf_room b)"
  proof (cases "buf_room b = 0")
    case True
    then have "safe_chr (CHR ''#'') b = (1, b)"
      by (simp add: safe_chr_def buf_room_def)
    with True show ?thesis by (simp add: safe_dbref_def dbref_text_def)
  next
    case False
    let ?b = "b @ ''#''"
    have chr: "safe_chr (CHR ''#'') b = (0, ?b)"
      using False by (simp add: safe_chr_def buf_room_def)
    have room: "buf_room ?b = buf_room b - 1"
      by (simp add: buf_room_def)
    have app: "snd (safe_integer ?d ?b) = ?b @ take (buf_room ?b) (long_text ?d 10)"
      "fst (safe_integer ?d ?b) = 0 \<longleftrightarrow> length (long_text ?d 10) \<le> buf_room ?b"
      using w by (simp_all add: writes_def)
    show ?thesis
      using False app
      by (auto simp: safe_dbref_def chr room dbref_text_def case_prod_beta prod_eq_iff
          safe_integer_def [symmetric])
  qed
qed

end
