(* ===== verification/Mush_Accent.thy ===== *)
theory Mush_Accent
  imports Mush_Strutil
begin

text \<open>
  \<open>safe_accent\<close> of \<open>src/src/strutil.c\<close>: a base character and a template character give a
  Latin-1 letter.  There is one definition per \<open>case\<close> of the outer switch, giving the code
  the inner switch assigns to \<open>c\<close>.  \<open>char_isprint\<close> depends on the locale (or on ICU), so it is
  a parameter.
\<close>

section \<open>The table\<close>

definition accent_A :: "char \<Rightarrow> nat" where
  "accent_A t =
     (if t = CHR 0x60 then 192 else
      if t = CHR 0x27 then 193 else
      if t = CHR 0x5E then 194 else
      if t = CHR 0x7E then 195 else
      if t = CHR 0x3A then 196 else
      if t = CHR 0x6F then 197 else
      if t = CHR 0x65 then 198 else
      if t = CHR 0x45 then 198 else
      0x41)"

definition accent_a :: "char \<Rightarrow> nat" where
  "accent_a t =
     (if t = CHR 0x60 then 224 else
      if t = CHR 0x27 then 225 else
      if t = CHR 0x5E then 226 else
      if t = CHR 0x7E then 227 else
      if t = CHR 0x3A then 228 else
      if t = CHR 0x6F then 229 else
      if t = CHR 0x65 then 230 else
      if t = CHR 0x45 then 230 else
      0x61)"

definition accent_C :: "char \<Rightarrow> nat" where
  "accent_C t =
     (if t = CHR 0x2C then 199 else
      0x43)"

definition accent_c :: "char \<Rightarrow> nat" where
  "accent_c t =
     (if t = CHR 0x2C then 231 else
      0x63)"

definition accent_E :: "char \<Rightarrow> nat" where
  "accent_E t =
     (if t = CHR 0x60 then 200 else
      if t = CHR 0x27 then 201 else
      if t = CHR 0x5E then 202 else
      if t = CHR 0x3A then 203 else
      0x45)"

definition accent_e :: "char \<Rightarrow> nat" where
  "accent_e t =
     (if t = CHR 0x60 then 232 else
      if t = CHR 0x27 then 233 else
      if t = CHR 0x5E then 234 else
      if t = CHR 0x3A then 235 else
      0x65)"

definition accent_I :: "char \<Rightarrow> nat" where
  "accent_I t =
     (if t = CHR 0x60 then 204 else
      if t = CHR 0x27 then 205 else
      if t = CHR 0x5E then 206 else
      if t = CHR 0x3A then 207 else
      0x49)"

definition accent_i :: "char \<Rightarrow> nat" where
  "accent_i t =
     (if t = CHR 0x60 then 236 else
      if t = CHR 0x27 then 237 else
      if t = CHR 0x5E then 238 else
      if t = CHR 0x3A then 239 else
      0x69)"

definition accent_N :: "char \<Rightarrow> nat" where
  "accent_N t =
     (if t = CHR 0x7E then 209 else
      0x4E)"

definition accent_n :: "char \<Rightarrow> nat" where
  "accent_n t =
     (if t = CHR 0x7E then 241 else
      0x6E)"

definition accent_O :: "char \<Rightarrow> nat" where
  "accent_O t =
     (if t = CHR 0x60 then 210 else
      if t = CHR 0x27 then 211 else
      if t = CHR 0x5E then 212 else
      if t = CHR 0x7E then 213 else
      if t = CHR 0x3A then 214 else
      0x4F)"

definition accent_o :: "char \<Rightarrow> nat" where
  "accent_o t =
     (if t = CHR 0x26 then 240 else
      if t = CHR 0x60 then 242 else
      if t = CHR 0x27 then 243 else
      if t = CHR 0x5E then 244 else
      if t = CHR 0x7E then 245 else
      if t = CHR 0x3A then 246 else
      0x6F)"

definition accent_U :: "char \<Rightarrow> nat" where
  "accent_U t =
     (if t = CHR 0x60 then 217 else
      if t = CHR 0x27 then 218 else
      if t = CHR 0x5E then 219 else
      if t = CHR 0x3A then 220 else
      0x55)"

definition accent_u :: "char \<Rightarrow> nat" where
  "accent_u t =
     (if t = CHR 0x60 then 249 else
      if t = CHR 0x27 then 250 else
      if t = CHR 0x5E then 251 else
      if t = CHR 0x3A then 252 else
      0x75)"

definition accent_Y :: "char \<Rightarrow> nat" where
  "accent_Y t =
     (if t = CHR 0x27 then 221 else
      0x59)"

definition accent_y :: "char \<Rightarrow> nat" where
  "accent_y t =
     (if t = CHR 0x27 then 253 else
      if t = CHR 0x3A then 255 else
      0x79)"

definition accent_quest :: "char \<Rightarrow> nat" where
  "accent_quest t =
     (if t = CHR 0x75 then 191 else
      0x3F)"

definition accent_excl :: "char \<Rightarrow> nat" where
  "accent_excl t =
     (if t = CHR 0x75 then 161 else
      0x21)"

definition accent_less :: "char \<Rightarrow> nat" where
  "accent_less t =
     (if t = CHR 0x22 then 171 else
      0x3C)"

definition accent_greater :: "char \<Rightarrow> nat" where
  "accent_greater t =
     (if t = CHR 0x22 then 187 else
      0x3E)"

definition accent_s :: "char \<Rightarrow> nat" where
  "accent_s t =
     (if t = CHR 0x42 then 223 else
      0x73)"

definition accent_p :: "char \<Rightarrow> nat" where
  "accent_p t =
     (if t = CHR 0x7C then 254 else
      0x70)"

definition accent_P :: "char \<Rightarrow> nat" where
  "accent_P t =
     (if t = CHR 0x7C then 222 else
      0x50)"

definition accent_D :: "char \<Rightarrow> nat" where
  "accent_D t =
     (if t = CHR 0x2D then 208 else
      0x44)"

definition accent_char :: "char \<Rightarrow> char \<Rightarrow> nat" where
  "accent_char base t =
    (if base = CHR 0x41 then accent_A t else
     if base = CHR 0x61 then accent_a t else
     if base = CHR 0x43 then accent_C t else
     if base = CHR 0x63 then accent_c t else
     if base = CHR 0x45 then accent_E t else
     if base = CHR 0x65 then accent_e t else
     if base = CHR 0x49 then accent_I t else
     if base = CHR 0x69 then accent_i t else
     if base = CHR 0x4E then accent_N t else
     if base = CHR 0x6E then accent_n t else
     if base = CHR 0x4F then accent_O t else
     if base = CHR 0x6F then accent_o t else
     if base = CHR 0x55 then accent_U t else
     if base = CHR 0x75 then accent_u t else
     if base = CHR 0x59 then accent_Y t else
     if base = CHR 0x79 then accent_y t else
     if base = CHR 0x3F then accent_quest t else
     if base = CHR 0x21 then accent_excl t else
     if base = CHR 0x3C then accent_less t else
     if base = CHR 0x3E then accent_greater t else
     if base = CHR 0x73 then accent_s t else
     if base = CHR 0x70 then accent_p t else
     if base = CHR 0x50 then accent_P t else
     if base = CHR 0x44 then accent_D t else
     c_ord base)"

section \<open>The writer\<close>

text \<open>The base and the template have the same length, as the function requires of its caller.\<close>

definition accented :: "(char \<Rightarrow> bool) \<Rightarrow> char \<Rightarrow> char \<Rightarrow> char" where
  "accented char_isprint base t =
     (let c = char_of (accent_char base t) in if char_isprint c then c else base)"

fun safe_accent :: "(char \<Rightarrow> bool) \<Rightarrow> string \<Rightarrow> string \<Rightarrow> writer" where
  "safe_accent char_isprint (c # base) (t # tmplate) b =
     (let (r, b1) = safe_chr (accented char_isprint c t) b in
      if r \<noteq> 0 then (1, b1) else safe_accent char_isprint base tmplate b1)"
| "safe_accent char_isprint _ _ b = (0, b)"

section \<open>Lemmas\<close>

lemmas accent_defs =
  accent_A_def
  accent_a_def
  accent_C_def
  accent_c_def
  accent_E_def
  accent_e_def
  accent_I_def
  accent_i_def
  accent_N_def
  accent_n_def
  accent_O_def
  accent_o_def
  accent_U_def
  accent_u_def
  accent_Y_def
  accent_y_def
  accent_quest_def
  accent_excl_def
  accent_less_def
  accent_greater_def
  accent_s_def
  accent_p_def
  accent_P_def
  accent_D_def

lemma writes_safe_accent [outbuf]:
  "length base = length tmplate \<Longrightarrow>
    writes (safe_accent p base tmplate) (map2 (accented p) base tmplate)"
proof (induction base tmplate rule: list_induct2)
  case (Cons c base t tmplate)
  have "writes (safe_accent p (c # base) (t # tmplate))
      ([accented p c t] @ map2 (accented p) base tmplate)"
    by (rule writes_seq [OF writes_safe_chr Cons.IH]) (auto simp: case_prod_beta)
  then show ?case by (simp del: safe_accent.simps)
qed (simp add: writes_def)

text \<open>
  The letter is the base or a Latin-1 letter: never a control character, and never a new
  ASCII character, so an accented string has no more markup or escape characters than its base.
\<close>

lemma accent_char_range:
  "accent_char base t = c_ord base \<or> (161 \<le> accent_char base t \<and> accent_char base t \<le> 255)"
proof -
  have ord: "c_ord (CHR 0x41) = 65" "c_ord (CHR 0x61) = 97" "c_ord (CHR 0x43) = 67" "c_ord (CHR 0x63) = 99"
    "c_ord (CHR 0x45) = 69" "c_ord (CHR 0x65) = 101" "c_ord (CHR 0x49) = 73" "c_ord (CHR 0x69) = 105"
    "c_ord (CHR 0x4E) = 78" "c_ord (CHR 0x6E) = 110" "c_ord (CHR 0x4F) = 79" "c_ord (CHR 0x6F) = 111"
    "c_ord (CHR 0x55) = 85" "c_ord (CHR 0x75) = 117" "c_ord (CHR 0x59) = 89" "c_ord (CHR 0x79) = 121"
    "c_ord (CHR 0x3F) = 63" "c_ord (CHR 0x21) = 33" "c_ord (CHR 0x3C) = 60" "c_ord (CHR 0x3E) = 62"
    "c_ord (CHR 0x73) = 115" "c_ord (CHR 0x70) = 112" "c_ord (CHR 0x50) = 80" "c_ord (CHR 0x44) = 68"
    by (simp_all add: c_ord_def)
  show ?thesis
    unfolding accent_char_def
    by (simp add: ord accent_defs)
qed

lemma accented_no_control:
  assumes "c_ord (accented p base t) < 128"
  shows "accented p base t = base"
proof (cases "accent_char base t = c_ord base")
  case True
  then have "char_of (accent_char base t) = base" by (simp add: c_ord_def)
  then show ?thesis by (simp add: accented_def Let_def)
next
  case False
  with accent_char_range [of base t]
  have "c_ord (char_of (accent_char base t)) = accent_char base t" "161 \<le> accent_char base t"
    by simp_all
  with assms show ?thesis by (auto simp: accented_def Let_def split: if_splits)
qed

end
