(* ===== verification/Mush_Tokens.thy ===== *)
theory Mush_Tokens
  imports Mush_Strutil
begin

text \<open>
  The tokenizers and replacers of \<open>src/src/strutil.c\<close>.  A function that may read past the
  terminating NUL of its argument returns an \<open>option\<close>, \<open>None\<close> when it does; a loop that may
  run forever is a \<open>partial_function\<close>, \<open>None\<close> when it does not return.  A returned pointer that
  may be \<open>NULL\<close> is an \<open>option\<close> of its own.
\<close>

section \<open>Definitions\<close>

definition TAG_START :: char where "TAG_START = CHR 0x02"
definition TAG_END :: char where "TAG_END = CHR 0x03"
definition ESC_CHAR :: char where "ESC_CHAR = CHR 0x1B"

definition skip_space :: "string option \<Rightarrow> string option" where
  "skip_space s = map_option (dropWhile c_isspace) s"

fun seek_char :: "string \<Rightarrow> char \<Rightarrow> string" where
  "seek_char [] c = []"
| "seek_char (a # s) c = (if a \<noteq> c then seek_char s c else a # s)"

text \<open>\<open>trim_back s n\<close>: the backward loop, \<open>p\<close> at index \<open>n - 1\<close>, and the store of the NUL after it.\<close>

fun trim_back :: "string \<Rightarrow> nat \<Rightarrow> string" where
  "trim_back s 0 = []"
| "trim_back s (Suc p) = (if 0 < p \<and> s ! p = CHR '' '' then trim_back s p else take (Suc p) s)"

definition trim_space_sep :: "string \<Rightarrow> char \<Rightarrow> string" where
  "trim_space_sep str sep =
     (if sep \<noteq> CHR '' '' then str
      else let str = dropWhile (\<lambda>c. c = CHR '' '') str in trim_back str (length str))"

text \<open>
  The scanning loop of \<open>next_token\<close> and \<open>split_token\<close>: the characters passed over and the
  suffix at the separator (or at the end).  Inside a markup tag or an escape sequence the
  separator is not looked at; when the tag is not closed, the \<open>str++\<close> after the inner loop
  steps over the terminating NUL.
\<close>

definition skip_past :: "char \<Rightarrow> string \<Rightarrow> (string \<times> string) option" where
  "skip_past e s =
     (case dropWhile (\<lambda>c. c \<noteq> e) s of [] \<Rightarrow> None | c # r \<Rightarrow> Some (takeWhile (\<lambda>c. c \<noteq> e) s @ [c], r))"

lemma skip_past_Some: "skip_past e s = Some (t, r) \<Longrightarrow> s = t @ r \<and> t \<noteq> []"
  unfolding skip_past_def
  by (cases "dropWhile (\<lambda>c. c \<noteq> e) s")
    (auto, metis append.assoc append_Cons append_Nil takeWhile_dropWhile_id)

lemma skip_past_shorter: "skip_past e s = Some (t, r) \<Longrightarrow> length r < length s"
  by (drule skip_past_Some) auto

function scan_token :: "char \<Rightarrow> string \<Rightarrow> (string \<times> string) option" where
  "scan_token sep [] = Some ([], [])"
| "scan_token sep (c # r) =
     (if c = sep then Some ([], c # r)
      else
        case (if c = TAG_START then skip_past TAG_END (c # r)
              else if c = ESC_CHAR then skip_past (CHR ''m'') (c # r)
              else Some ([c], r)) of
          None \<Rightarrow> None
        | Some (skipped, s) \<Rightarrow>
            (case scan_token sep s of None \<Rightarrow> None | Some (tok, rest) \<Rightarrow> Some (skipped @ tok, rest)))"
  by pat_completeness auto
termination
  by (relation "measure (\<lambda>(sep, s). length s)")
    (auto split: if_splits dest: skip_past_shorter)

definition skip_seps :: "char \<Rightarrow> string \<Rightarrow> string" where
  "skip_seps sep s = (if sep = CHR '' '' then dropWhile (\<lambda>c. c = sep) s else s)"

definition next_token :: "string \<Rightarrow> char \<Rightarrow> string option option" where
  "next_token str sep =
     (case scan_token sep str of
        None \<Rightarrow> None
      | Some (_, []) \<Rightarrow> Some None
      | Some (_, c # rest) \<Rightarrow> Some (Some (skip_seps sep rest)))"

definition split_token :: "string option \<Rightarrow> char \<Rightarrow> (string option \<times> string option) option" where
  "split_token sp sep =
     (case sp of
        None \<Rightarrow> Some (None, None)
      | Some str \<Rightarrow>
          (case scan_token sep str of
             None \<Rightarrow> None
           | Some (tok, []) \<Rightarrow> Some (Some tok, None)
           | Some (tok, c # rest) \<Rightarrow> Some (Some tok, Some (skip_seps sep rest))))"

lemma scan_token_append: "scan_token sep s = Some (tok, rest) \<Longrightarrow> s = tok @ rest"
proof (induction sep s arbitrary: tok rest rule: scan_token.induct)
  case (2 sep c r)
  then show ?case
    by (auto split: if_splits option.splits prod.splits dest: skip_past_Some)
qed simp

lemma skip_seps_shorter: "length (skip_seps sep s) \<le> length s"
  by (simp add: skip_seps_def length_dropWhile_le)

lemma next_token_shorter:
  assumes "next_token str sep = Some (Some r)"
  shows "length r < length str"
proof -
  from assms obtain tok c rest where scan: "scan_token sep str = Some (tok, c # rest)"
    and r: "r = skip_seps sep rest"
    by (auto simp: next_token_def split: option.splits list.splits)
  have "length str = length tok + Suc (length rest)"
    using scan_token_append [OF scan] by simp
  with r skip_seps_shorter [of sep rest] show ?thesis by simp
qed

lemma split_token_shorter:
  assumes "split_token (Some str) sep = Some (tok, Some r)"
  shows "length r < length str"
proof -
  from assms have "next_token str sep = Some (Some r)"
    by (auto simp: split_token_def next_token_def split: option.splits list.splits)
  then show ?thesis by (rule next_token_shorter)
qed

function count_tokens :: "string option \<Rightarrow> char \<Rightarrow> nat option" where
  "count_tokens None sep = Some 0"
| "count_tokens (Some str) sep =
     (case next_token str sep of None \<Rightarrow> None | Some r \<Rightarrow> map_option Suc (count_tokens r sep))"
  by pat_completeness auto
termination
proof (relation "measure (\<lambda>(s, _). case s of None \<Rightarrow> 0 | Some t \<Rightarrow> Suc (length t))", simp)
  fix str :: string and sep :: char and r
  assume "next_token str sep = Some r"
  then show "((r, sep), (Some str, sep)) \<in>
      measure (\<lambda>(s, _). case s of None \<Rightarrow> 0 | Some t \<Rightarrow> Suc (length t))"
    by (auto split: option.splits dest: next_token_shorter)
qed

definition do_wordcount :: "string \<Rightarrow> char \<Rightarrow> nat option" where
  "do_wordcount str sep = (if str = [] then Some 0 else count_tokens (Some str) sep)"

text \<open>The loops of \<open>remove_word\<close>: up to the word, and the rest of the list.\<close>

function copy_tokens :: "string option \<Rightarrow> char \<Rightarrow> buf \<Rightarrow> buf option" where
  "copy_tokens None sep b = Some b"
| "copy_tokens (Some list) sep b =
     (case split_token (Some list) sep of
        None \<Rightarrow> None
      | Some (sp, r) \<Rightarrow> copy_tokens r sep (snd (safe_str sp (snd (safe_chr sep b)))))"
  by pat_completeness auto
termination
proof (relation "measure (\<lambda>(s, _, _). case s of None \<Rightarrow> 0 | Some t \<Rightarrow> Suc (length t))", simp)
  fix list :: string and sep :: char and b :: buf and x sp r
  assume "split_token (Some list) sep = Some x" "(sp, r) = x"
  then show "((r, sep, snd (safe_str sp (snd (safe_chr sep b)))), (Some list, sep, b)) \<in>
      measure (\<lambda>(s, _, _). case s of None \<Rightarrow> 0 | Some t \<Rightarrow> Suc (length t))"
    by (auto split: option.splits dest: split_token_shorter)
qed

function copy_tokens_until :: "string option \<Rightarrow> string \<Rightarrow> char \<Rightarrow> buf \<Rightarrow> (string option \<times> buf) option" where
  "copy_tokens_until None word sep b = Some (None, b)"
| "copy_tokens_until (Some list) word sep b =
     (case split_token (Some list) sep of
        None \<Rightarrow> None
      | Some (sp, r) \<Rightarrow>
          if sp = Some word then Some (r, b)
          else copy_tokens_until r word sep (snd (safe_str sp (snd (safe_chr sep b)))))"
  by pat_completeness auto
termination
proof (relation "measure (\<lambda>(s, _, _, _). case s of None \<Rightarrow> 0 | Some t \<Rightarrow> Suc (length t))", simp)
  fix list word :: string and sep :: char and b :: buf and x sp r
  assume "split_token (Some list) sep = Some x" "(sp, r) = x"
  then show "((r, word, sep, snd (safe_str sp (snd (safe_chr sep b)))), (Some list, word, sep, b)) \<in>
      measure (\<lambda>(s, _, _, _). case s of None \<Rightarrow> 0 | Some t \<Rightarrow> Suc (length t))"
    by (auto split: option.splits dest: split_token_shorter)
qed

definition remove_word :: "string \<Rightarrow> string \<Rightarrow> char \<Rightarrow> string option" where
  "remove_word list word sep =
     (case split_token (Some list) sep of
        None \<Rightarrow> None
      | Some (sp, r) \<Rightarrow>
          if sp = Some word then
            (case split_token r sep of
               None \<Rightarrow> None
             | Some (sp', r') \<Rightarrow> copy_tokens r' sep (snd (safe_str sp' [])))
          else
            (case copy_tokens_until r word sep (snd (safe_str sp [])) of
               None \<Rightarrow> None
             | Some (r', b) \<Rightarrow> copy_tokens r' sep b))"

text \<open>\<open>next_in_list\<close>: the next name and the advanced pointer.\<close>

fun copy_name :: "bool \<Rightarrow> string \<Rightarrow> buf \<Rightarrow> string \<times> buf" where
  "copy_name paren [] b = ([], b)"
| "copy_name paren (c # s) b =
     (if (paren \<or> c \<noteq> CHR '' '') \<and> c \<noteq> CHR 0x22
      then copy_name paren s (snd (safe_chr c b)) else (c # s, b))"

definition next_in_list :: "string \<Rightarrow> string \<times> string" where
  "next_in_list head =
     (let head = dropWhile (\<lambda>c. c = CHR '' '') head;
          paren = (c_head head = CHR 0x22);
          head = (if paren then tl head else head);
          (head, b) = copy_name paren head []
      in (b, if paren \<and> head \<noteq> [] then tl head else head))"

text \<open>\<open>strstr\<close>: what is before the first occurrence, and the suffix that starts with it.\<close>

fun strstr :: "string \<Rightarrow> string \<Rightarrow> (string \<times> string) option" where
  "strstr [] old = (if old = [] then Some ([], []) else None)"
| "strstr (c # s) old =
     (if prefix old (c # s) then Some ([], c # s)
      else map_option (\<lambda>(a, b). (c # a, b)) (strstr s old))"

partial_function (option) replace_loop :: "string \<Rightarrow> string \<Rightarrow> string \<Rightarrow> buf \<Rightarrow> buf option" where
  "replace_loop old newbit str r =
     (if str = [] then Some r
      else case strstr str old of
             Some (before, s) \<Rightarrow>
               replace_loop old newbit (drop (length old) s)
                 (snd (safe_strl (Some newbit) (length newbit)
                        (snd (safe_strl (Some str) (length before) r))))
           | None \<Rightarrow> Some (snd (safe_str (Some str) r)))"

definition replace_string :: "string \<Rightarrow> string \<Rightarrow> string \<Rightarrow> string option" where
  "replace_string old newbit str = replace_loop old newbit str []"

definition standard_tokens :: "string \<times> string" where
  "standard_tokens = (''##'', ''#@'')"

text \<open>One round of \<open>replace_string2\<close>: \<open>strcspn\<close> up to a possible first character, then the token there.\<close>

definition replace2_round ::
  "string \<times> string \<Rightarrow> string \<times> string \<Rightarrow> string \<Rightarrow> buf \<Rightarrow> string \<times> buf" where
  "replace2_round old newbits str rp =
     (let firsts = c_string [c_head (fst old), c_head (snd old), NUL];
          skip = length (takeWhile (\<lambda>c. c \<notin> set firsts) str);
          rp = (if skip \<noteq> 0 then snd (safe_strl (Some str) skip rp) else rp);
          str = drop skip str
      in if str = [] then (str, rp)
         else if prefix (fst old) str then
           (drop (length (fst old)) str, snd (safe_strl (Some (fst newbits)) (length (fst newbits)) rp))
         else if prefix (snd old) str then
           (drop (length (snd old)) str, snd (safe_strl (Some (snd newbits)) (length (snd newbits)) rp))
         else (tl str, snd (safe_chr (c_head str) rp)))"

partial_function (option) replace2_loop ::
  "string \<times> string \<Rightarrow> string \<times> string \<Rightarrow> string \<Rightarrow> buf \<Rightarrow> buf option" where
  "replace2_loop old newbits str rp =
     (if str = [] then Some rp
      else case replace2_round old newbits str rp of (str', rp') \<Rightarrow> replace2_loop old newbits str' rp')"

definition replace_string2 ::
  "string \<times> string \<Rightarrow> string \<times> string \<Rightarrow> string option \<Rightarrow> string option option" where
  "replace_string2 old newbits str =
     (case str of
        None \<Rightarrow> Some None
      | Some s \<Rightarrow> map_option Some (replace2_loop old newbits s []))"

text \<open>\<open>remove_trailing_whitespace\<close>: the buffer, where stripped characters become NUL, and the new length.\<close>

fun remove_trailing_whitespace :: "string \<Rightarrow> nat \<Rightarrow> string \<times> nat" where
  "remove_trailing_whitespace buff 0 = (buff, 0)"
| "remove_trailing_whitespace buff (Suc n) =
     (if c_isspace (buff ! n) then remove_trailing_whitespace (buff[n := NUL]) n else (buff, Suc n))"

fun strchr_unescaped :: "string \<Rightarrow> char \<Rightarrow> string option" where
  "strchr_unescaped [] c = None"
| "strchr_unescaped [a] c = (if a = c then Some [a] else None)"
| "strchr_unescaped (a # d # s) c =
     (if a = c then Some (a # d # s)
      else if a = CHR 0x5C then strchr_unescaped s c
      else strchr_unescaped (d # s) c)"

fun like_loop :: "bool \<Rightarrow> char \<Rightarrow> string \<Rightarrow> buf \<Rightarrow> buf" where
  "like_loop glob esc [] b = b"
| "like_loop glob esc (c # orig) b =
     like_loop glob esc orig
      (if c = CHR ''%'' \<or> c = CHR ''_'' \<or> c = esc then snd (safe_chr c (snd (safe_chr esc b)))
       else if glob \<and> c = CHR ''*'' then snd (safe_chr (CHR ''%'') b)
       else if glob \<and> c = CHR ''?'' then snd (safe_chr (CHR ''_'') b)
       else snd (safe_chr c b))"

definition glob_to_like :: "string \<Rightarrow> char \<Rightarrow> string \<times> nat" where
  "glob_to_like orig esc = (let like = like_loop True esc orig [] in (like, length like))"

definition escape_like :: "string \<Rightarrow> char \<Rightarrow> string \<times> nat" where
  "escape_like orig esc = (let like = like_loop False esc orig [] in (like, length like))"

section \<open>Writers in sequence\<close>

text \<open>What a bounded buffer holds after a sequence of writes is the beginning of the whole text.\<close>

definition fit :: "string \<Rightarrow> buf" where
  "fit s = take (BUFFER_LEN - 1) s"

lemma fit_fit [simp]: "fit (fit s @ t) = fit (s @ t)"
  by (simp add: fit_def min_def)

lemma fit_Nil [simp]: "fit [] = []"
  by (simp add: fit_def)

lemma length_fit [simp]: "length (fit s) \<le> BUFFER_LEN - 1"
  by (simp add: fit_def)

lemma fit_id: "length s \<le> BUFFER_LEN - 1 \<Longrightarrow> fit s = s"
  by (simp add: fit_def)

lemma writes_fit: "writes w out \<Longrightarrow> snd (w (fit s)) = fit (s @ out)"
  by (auto simp: writes_def fit_def buf_room_def min_def)

lemma fit_chr [outbuf, simp]: "snd (safe_chr c (fit s)) = fit (s @ [c])"
  by (rule writes_fit [OF writes_safe_chr])

lemma fit_str [outbuf, simp]: "snd (safe_str (Some t) (fit s)) = fit (s @ t)"
  by (rule writes_fit [OF writes_safe_str])

lemma safe_str_None [simp]: "safe_str None b = (0, b)"
  by (simp add: safe_str_def)

lemma fit_strl [outbuf, simp]: "n \<le> length t \<Longrightarrow> snd (safe_strl (Some t) n (fit s)) = fit (s @ take n t)"
  by (rule writes_fit [OF writes_safe_strl])

section \<open>Lists of tokens\<close>

text \<open>The tokens that repeated calls of \<open>split_token\<close> return.\<close>

function split_all :: "string option \<Rightarrow> char \<Rightarrow> string list option" where
  "split_all None sep = Some []"
| "split_all (Some str) sep =
     (case split_token (Some str) sep of
        Some (Some tok, r) \<Rightarrow> map_option (Cons tok) (split_all r sep)
      | _ \<Rightarrow> None)"
  by pat_completeness auto
termination
proof (relation "measure (\<lambda>(s, _). case s of None \<Rightarrow> 0 | Some t \<Rightarrow> Suc (length t))", simp)
  fix str :: string and sep :: char and x y r t
  assume "split_token (Some str) sep = Some x" "(y, r) = x" "y = Some t"
  then show "((r, sep), (Some str, sep)) \<in>
      measure (\<lambda>(s, _). case s of None \<Rightarrow> 0 | Some t \<Rightarrow> Suc (length t))"
    by (auto split: option.splits dest: split_token_shorter)
qed

fun join :: "char \<Rightarrow> string list \<Rightarrow> string" where
  "join sep [] = []"
| "join sep [t] = t"
| "join sep (t # ts) = t @ sep # join sep ts"

text \<open>Every token but the first, each after a separator.\<close>

definition tail_text :: "char \<Rightarrow> string list \<Rightarrow> string" where
  "tail_text sep ts = concat (map (Cons sep) ts)"

lemma join_Cons: "join sep (t # ts) = t @ tail_text sep ts"
  by (induction sep ts arbitrary: t rule: join.induct) (auto simp: tail_text_def)

lemma tail_text_simps [simp]:
  "tail_text sep [] = []" "tail_text sep (t # ts) = sep # t @ tail_text sep ts"
  by (simp_all add: tail_text_def)

lemma split_all_SomeD:
  assumes "split_all (Some str) sep = Some ts"
  obtains t r ts' where "split_token (Some str) sep = Some (Some t, r)"
    "split_all r sep = Some ts'" "ts = t # ts'"
  using assms by (auto split: option.splits)

lemma count_tokens_split_all: "split_all s sep = Some ts \<Longrightarrow> count_tokens s sep = Some (length ts)"
proof (induction s sep arbitrary: ts rule: split_all.induct)
  case (2 str sep)
  from "2.prems" obtain t r ts' where st: "split_token (Some str) sep = Some (Some t, r)"
    "split_all r sep = Some ts'" "ts = t # ts'" by (rule split_all_SomeD)
  from st(1) have "next_token str sep = Some r"
    by (auto simp: split_token_def next_token_def split: option.splits list.splits)
  moreover have "count_tokens r sep = Some (length ts')"
    using "2.IH" [OF st(1) refl refl] st(2) by simp
  ultimately show ?case using st(3) by simp
qed simp

lemma copy_tokens_split_all:
  "split_all s sep = Some ts \<Longrightarrow> copy_tokens s sep (fit b) = Some (fit (b @ tail_text sep ts))"
proof (induction s sep arbitrary: ts b rule: split_all.induct)
  case (2 str sep)
  from "2.prems" obtain t r ts' where st: "split_token (Some str) sep = Some (Some t, r)"
    "split_all r sep = Some ts'" "ts = t # ts'" by (rule split_all_SomeD)
  then show ?case
    using "2.IH" [OF st(1) refl refl] st(2) by simp
qed simp

lemma copy_tokens_until_split_all:
  "split_all s sep = Some ts \<Longrightarrow>
   \<exists>r b'. copy_tokens_until s word sep (fit b) = Some (r, b')
     \<and> copy_tokens r sep b' = Some (fit (b @ tail_text sep (remove1 word ts)))"
proof (induction s sep arbitrary: ts b rule: split_all.induct)
  case (2 str sep)
  from "2.prems" obtain t r ts' where st: "split_token (Some str) sep = Some (Some t, r)"
    "split_all r sep = Some ts'" "ts = t # ts'" by (rule split_all_SomeD)
  show ?case
  proof (cases "t = word")
    case True
    with st copy_tokens_split_all [OF st(2)] show ?thesis by auto
  next
    case False
    with st "2.IH" [OF st(1) refl refl st(2), of "b @ sep # t"] show ?thesis by auto
  qed
qed (simp add: tail_text_def)

lemma scan_token_no_markup:
  "TAG_START \<notin> set s \<Longrightarrow> ESC_CHAR \<notin> set s \<Longrightarrow>
    scan_token sep s = Some (takeWhile (\<lambda>c. c \<noteq> sep) s, dropWhile (\<lambda>c. c \<noteq> sep) s)"
  by (induction s) auto

lemma skip_seps_subset: "set (skip_seps sep s) \<subseteq> set s"
  by (auto simp: skip_seps_def dest: set_dropWhileD)

lemma split_token_no_markup:
  assumes "TAG_START \<notin> set str" "ESC_CHAR \<notin> set str"
  obtains t r where "split_token (Some str) sep = Some (Some t, r)"
    "\<And>s. r = Some s \<Longrightarrow> TAG_START \<notin> set s \<and> ESC_CHAR \<notin> set s"
proof -
  let ?rest = "dropWhile (\<lambda>c. c \<noteq> sep) str"
  have scan: "scan_token sep str = Some (takeWhile (\<lambda>c. c \<noteq> sep) str, ?rest)"
    by (rule scan_token_no_markup [OF assms])
  show ?thesis
  proof (cases ?rest)
    case Nil
    with scan show ?thesis by (intro that) (auto simp: split_token_def)
  next
    case (Cons c s)
    then have "set s \<subseteq> set str"
      using set_dropWhileD [of _ "\<lambda>c. c \<noteq> sep" str] by auto
    then have "set (skip_seps sep s) \<subseteq> set str"
      using skip_seps_subset by blast
    with scan Cons assms show ?thesis by (intro that) (auto simp: split_token_def)
  qed
qed

lemma split_all_no_markup:
  "(\<And>s. str = Some s \<Longrightarrow> TAG_START \<notin> set s \<and> ESC_CHAR \<notin> set s) \<Longrightarrow>
    \<exists>ts. split_all str sep = Some ts"
proof (induction str sep rule: split_all.induct)
  case (2 str sep)
  obtain t r where st: "split_token (Some str) sep = Some (Some t, r)"
    "\<And>s. r = Some s \<Longrightarrow> TAG_START \<notin> set s \<and> ESC_CHAR \<notin> set s"
    using split_token_no_markup "2.prems" by blast
  from "2.IH" [OF st(1) refl refl st(2)] obtain ts where "split_all r sep = Some ts" by blast
  with st(1) show ?case by simp
qed simp

lemma scan_token_rest: "scan_token sep str = Some (t, c # s) \<Longrightarrow> c = sep"
proof (induction sep str arbitrary: t rule: scan_token.induct)
  case (2 sep a r)
  then show ?case by (auto split: if_splits option.splits prod.splits)
qed simp

lemma tokens_join_aux:
  "sep \<noteq> CHR '' '' \<Longrightarrow> split_all s sep = Some ts \<Longrightarrow> s = Some str \<Longrightarrow> ts \<noteq> [] \<and> join sep ts = str"
proof (induction s sep arbitrary: str ts rule: split_all.induct)
  case (2 str0 sep)
  then have "split_all (Some str) sep = Some ts" by simp
  then obtain t r ts' where st: "split_token (Some str) sep = Some (Some t, r)"
    "split_all r sep = Some ts'" "ts = t # ts'" by (rule split_all_SomeD)
  from st(1) obtain rest where scan: "scan_token sep str = Some (t, rest)"
    by (auto simp: split_token_def split: option.splits list.splits)
  show ?case
  proof (cases rest)
    case Nil
    with scan st have "r = None" by (simp add: split_token_def)
    with st scan Nil show ?thesis using scan_token_append [OF scan] by simp
  next
    case (Cons c s)
    with scan have c: "c = sep" by (blast dest: scan_token_rest)
    from scan Cons st(1) "2.prems"(1) have r: "r = Some s"
      by (simp add: split_token_def skip_seps_def)
    have "ts' \<noteq> [] \<and> join sep ts' = s"
      using "2.IH" [OF _ refl refl "2.prems"(1) st(2) r] st(1) "2.prems"(3) by simp
    then have "tail_text sep ts' = sep # s"
      by (cases ts') (auto simp: join_Cons)
    then show ?thesis
      using scan_token_append [OF scan] Cons c st(3) by (simp add: join_Cons)
  qed
qed simp

lemma tokens_join: "sep \<noteq> CHR '' '' \<Longrightarrow> split_all (Some s) sep = Some ts \<Longrightarrow> join sep ts = s"
  using tokens_join_aux [OF _ _ refl] by blast

lemma strstr_Some: "strstr s old = Some (a, b) \<Longrightarrow> s = a @ b \<and> prefix old b"
  by (induction s arbitrary: a b) (auto split: if_splits)

lemma strstr_nonempty: "strstr s old = Some (a, b) \<Longrightarrow> s \<noteq> [] \<Longrightarrow> b \<noteq> []"
proof (induction s arbitrary: a b)
  case (Cons c s)
  show ?case
  proof (cases "prefix old (c # s)")
    case False
    with Cons.prems obtain a' where "strstr s old = Some (a', b)" by auto
    moreover from this False have "s \<noteq> []"
      by (cases s) (auto split: if_splits)
    ultimately show ?thesis by (rule Cons.IH)
  qed (use Cons.prems in auto)
qed simp

text \<open>The specification of \<open>replace_string\<close>: replace at the first occurrence, go on behind it.\<close>

function replace_all :: "string \<Rightarrow> string \<Rightarrow> string \<Rightarrow> string" where
  "replace_all old new s =
     (case strstr s old of
        Some (a, b) \<Rightarrow> if old = [] then s else a @ new @ replace_all old new (drop (length old) b)
      | None \<Rightarrow> s)"
  by pat_completeness auto
termination
proof (relation "measure (\<lambda>(old, new, s). length s)", simp)
  fix old new s :: string and x a b
  assume "strstr s old = Some x" "(a, b) = x" "old \<noteq> []"
  then have "strstr s old = Some (a, b)" and old: "0 < length old" by simp_all
  then have "s = a @ b" "prefix old b" using strstr_Some by blast+
  then have "length b - length old < length s"
    using prefix_length_le [of old b] \<open>old \<noteq> []\<close> by (cases old) auto
  then show "((old, new, drop (length old) b), (old, new, s)) \<in> measure (\<lambda>(old, new, s). length s)"
    by simp
qed

declare replace_all.simps [simp del]

lemma replace_loop_correct:
  "old \<noteq> [] \<Longrightarrow> replace_loop old new s (fit r) = Some (fit (r @ replace_all old new s))"
proof (induction old new s arbitrary: r rule: replace_all.induct)
  case (1 old new s)
  show ?case
  proof (cases "strstr s old")
    case None
    then have eq: "replace_all old new s = s"
      by (simp add: replace_all.simps [of old new s])
    show ?thesis
      unfolding eq using None by (subst replace_loop.simps) simp
  next
    case (Some ab)
    obtain a b where ab: "ab = (a, b)" by (cases ab)
    with Some have sab: "s = a @ b" using strstr_Some by blast
    have s: "s \<noteq> []"
      using Some "1.prems" by (cases s) auto
    let ?s = "drop (length old) b"
    have IH: "replace_loop old new ?s (fit x) = Some (fit (x @ replace_all old new ?s))" for x
      using "1.IH" [OF Some ab [symmetric] "1.prems"(1) "1.prems"(1)] .
    have "replace_loop old new s (fit r) = replace_loop old new ?s (fit ((r @ a) @ new))"
      using s Some ab sab by (subst replace_loop.simps) auto
    with IH Some ab "1.prems" show ?thesis
      by (simp add: replace_all.simps [of old new s])
  qed
qed

text \<open>Reading an escaped pattern back: drop the escape character before the character it protects.\<close>

fun like_unescape :: "char \<Rightarrow> string \<Rightarrow> string" where
  "like_unescape esc [] = []"
| "like_unescape esc [c] = [c]"
| "like_unescape esc (c # d # s) =
     (if c = esc then d # like_unescape esc s else c # like_unescape esc (d # s))"

fun like_text :: "bool \<Rightarrow> char \<Rightarrow> string \<Rightarrow> string" where
  "like_text glob esc [] = []"
| "like_text glob esc (c # s) =
     (if c = CHR ''%'' \<or> c = CHR ''_'' \<or> c = esc then [esc, c]
      else if glob \<and> c = CHR ''*'' then ''%''
      else if glob \<and> c = CHR ''?'' then ''_''
      else [c]) @ like_text glob esc s"

lemma like_loop_text: "like_loop glob esc s (fit b) = fit (b @ like_text glob esc s)"
  by (induction s arbitrary: b) auto

lemma like_unescape_Cons: "c \<noteq> esc \<Longrightarrow> like_unescape esc (c # s) = c # like_unescape esc s"
  by (cases s) auto

lemma like_unescape_text: "like_unescape esc (like_text False esc s) = s"
  by (induction s) (auto simp: like_unescape_Cons)

lemma length_like_text: "length (like_text glob esc s) \<le> 2 * length s"
  by (induction s) auto

text \<open>\<open>trim_space_sep\<close> against the one-line specification.\<close>

definition strip_spaces :: "string \<Rightarrow> string" where
  "strip_spaces s = rev (dropWhile (\<lambda>c. c = CHR '' '') (rev (dropWhile (\<lambda>c. c = CHR '' '') s)))"

lemma trim_back_strip:
  "n \<le> length s \<Longrightarrow> 0 < n \<Longrightarrow> s ! 0 \<noteq> CHR '' '' \<Longrightarrow>
    trim_back s n = rev (dropWhile (\<lambda>c. c = CHR '' '') (rev (take n s)))"
proof (induction s n rule: trim_back.induct)
  case (2 s p)
  then have t: "take (Suc p) s = take p s @ [s ! p]"
    by (simp add: take_Suc_conv_app_nth)
  show ?case
  proof (cases "0 < p \<and> s ! p = CHR '' ''")
    case True
    with 2 t show ?thesis by simp
  next
    case False
    with 2 t show ?thesis by (cases "p = 0") auto
  qed
qed simp

lemma trim_back_all:
  "d = [] \<or> d ! 0 \<noteq> CHR '' '' \<Longrightarrow>
    trim_back d (length d) = rev (dropWhile (\<lambda>c. c = CHR '' '') (rev d))"
  using trim_back_strip [of "length d" d] by (cases "d = []") auto

lemma trim_space_sep_strip: "trim_space_sep s (CHR '' '') = strip_spaces s"
proof -
  let ?d = "dropWhile (\<lambda>c. c = CHR '' '') s"
  have "?d \<noteq> [] \<Longrightarrow> ?d ! 0 \<noteq> CHR '' ''"
    using hd_dropWhile [of "\<lambda>c. c = CHR '' ''" s] by (simp add: hd_conv_nth)
  then have "trim_back ?d (length ?d) = rev (dropWhile (\<lambda>c. c = CHR '' '') (rev ?d))"
    by (intro trim_back_all) blast
  then show ?thesis
    by (simp only: trim_space_sep_def strip_spaces_def Let_def) simp
qed

section \<open>Properties\<close>

text \<open>C36: \<open>remove_word\<close> writes the list without the first occurrence of the word: its result is
  the separated list of the tokens that \<open>split_token\<close> finds, less the first one equal to the
  word, cut to the buffer.  It holds whenever the tokenizer stays inside the string.\<close>

theorem remove_word_removes_first:
  assumes "split_all (Some list) sep = Some ts"
  shows "remove_word list word sep = Some (fit (join sep (remove1 word ts)))"
proof -
  from assms obtain t r ts' where st: "split_token (Some list) sep = Some (Some t, r)"
    "split_all r sep = Some ts'" "ts = t # ts'" by (rule split_all_SomeD)
  show ?thesis
  proof (cases "t = word")
    case True
    show ?thesis
    proof (cases r)
      case None
      with st True show ?thesis
        by (auto simp: remove_word_def split_token_def)
    next
      case (Some s)
      from st(2) Some obtain t2 r2 ts2 where st2: "split_token (Some s) sep = Some (Some t2, r2)"
        "split_all r2 sep = Some ts2" "ts' = t2 # ts2" by (metis split_all_SomeD)
      show ?thesis
        using st st2 True Some copy_tokens_split_all [OF st2(2), of t2] fit_str [of t2 "[]"]
        by (simp add: remove_word_def join_Cons)
    qed
  next
    case False
    then show ?thesis
      using st copy_tokens_until_split_all [OF st(2), of word t] fit_str [of t "[]"]
      by (auto simp: remove_word_def join_Cons)
  qed
qed

theorem remove_word_removes_first_witness:
  "remove_word ''adam boy charles'' ''boy'' (CHR '' '') = Some ''adam charles''"
proof -
  have "split_all (Some ''adam boy charles'') (CHR '' '') = Some [''adam'', ''boy'', ''charles'']"
    by code_simp
  from remove_word_removes_first [OF this, of "''boy''"] show ?thesis
    by (simp add: fit_def BUFFER_LEN_def)
qed

text \<open>\<open>do_wordcount\<close> counts exactly the tokens that \<open>split_token\<close> hands out.\<close>

theorem do_wordcount_counts:
  assumes "str \<noteq> []" and "split_all (Some str) sep = Some ts"
  shows "do_wordcount str sep = Some (length ts)"
  using assms count_tokens_split_all [OF assms(2)] by (simp add: do_wordcount_def)

theorem do_wordcount_counts_witness: "do_wordcount ''A  B  C  D'' (CHR '' '') = Some 4"
proof -
  have "split_all (Some ''A  B  C  D'') (CHR '' '') = Some [''A'', ''B'', ''C'', ''D'']"
    by code_simp
  from do_wordcount_counts [OF _ this] show ?thesis by simp
qed



text \<open>The tokenizer stays inside a string without markup and escape characters, and there it
  cuts at the first separator; an unclosed tag makes it step over the terminating NUL.\<close>

theorem split_token_stays_inside:
  "(TAG_START \<notin> set str \<and> ESC_CHAR \<notin> set str \<longrightarrow>
      (\<exists>r. split_token (Some str) sep = Some (Some (takeWhile (\<lambda>c. c \<noteq> sep) str), r)))
   \<and> (sep \<noteq> TAG_START \<and> TAG_END \<notin> set str \<longrightarrow> split_token (Some (TAG_START # str)) sep = None)"
proof (intro conjI impI)
  assume "TAG_START \<notin> set str \<and> ESC_CHAR \<notin> set str"
  then have "scan_token sep str =
      Some (takeWhile (\<lambda>c. c \<noteq> sep) str, dropWhile (\<lambda>c. c \<noteq> sep) str)"
    by (simp add: scan_token_no_markup)
  then show "\<exists>r. split_token (Some str) sep = Some (Some (takeWhile (\<lambda>c. c \<noteq> sep) str), r)"
    by (cases "dropWhile (\<lambda>c. c \<noteq> sep) str") (auto simp: split_token_def)
next
  assume "sep \<noteq> TAG_START \<and> TAG_END \<notin> set str"
  moreover from this have "dropWhile (\<lambda>c. c \<noteq> TAG_END) (TAG_START # str) = []"
    by (auto simp: TAG_START_def TAG_END_def)
  ultimately show "split_token (Some (TAG_START # str)) sep = None"
    by (auto simp: split_token_def skip_past_def simp del: dropWhile_eq_Nil_conv)
qed

theorem split_token_stays_inside_witness:
  "split_token (Some ''a b'') (CHR '' '') = Some (Some ''a'', Some ''b'')
   \<and> split_token (Some [TAG_START, CHR ''a'']) (CHR '' '') = None"
proof
  have "TAG_START \<notin> set ''a b'' \<and> ESC_CHAR \<notin> set ''a b''"
    by (simp add: TAG_START_def ESC_CHAR_def)
  then obtain r where "split_token (Some ''a b'') (CHR '' '') = Some (Some ''a'', r)"
    using split_token_stays_inside [of "''a b''" "CHR '' ''"] by auto
  moreover have "split_token (Some ''a b'') (CHR '' '') = Some (Some ''a'', Some ''b'')"
    by code_simp
  ultimately show "split_token (Some ''a b'') (CHR '' '') = Some (Some ''a'', Some ''b'')" by simp
  show "split_token (Some [TAG_START, CHR ''a'']) (CHR '' '') = None"
    using split_token_stays_inside [of "[CHR ''a'']" "CHR '' ''"]
    by (simp add: TAG_START_def TAG_END_def)
qed

text \<open>C38: \<open>replace_string\<close> with a non-empty \<open>old\<close> returns, and its result is the text with every
  occurrence of \<open>old\<close> replaced from the left, cut to the buffer.\<close>

theorem replace_string_correct:
  assumes "old \<noteq> []"
  shows "replace_string old newbit str = Some (fit (replace_all old newbit str))"
  using replace_loop_correct [OF assms, of newbit str "[]"] by (simp add: replace_string_def)

theorem replace_string_correct_witness:
  "replace_string ''##'' ''x'' ''a##b##'' = Some ''axbx''"
proof -
  have "replace_all ''##'' ''x'' ''a##b##'' = ''axbx''"
    by (simp add: replace_all.simps)
  then show ?thesis
    using replace_string_correct [of "''##''" "''x''" "''a##b##''"]
    by (simp add: fit_def BUFFER_LEN_def)
qed

text \<open>\<open>escape_like\<close> is undone by dropping the escape characters, when the escaped text fits.\<close>

theorem escape_like_roundtrip:
  assumes "2 * length str < BUFFER_LEN"
  shows "like_unescape esc (fst (escape_like str esc)) = str"
proof -
  have "length (like_text False esc str) \<le> BUFFER_LEN - 1"
    using length_like_text [of False esc str] assms by simp
  then show ?thesis
    using like_loop_text [of False esc str "[]"]
    by (simp add: escape_like_def Let_def fit_id like_unescape_text)
qed

theorem escape_like_roundtrip_witness:
  "like_unescape (CHR ''$'') (fst (escape_like ''f_o%'' (CHR ''$''))) = ''f_o%''"
  by (rule escape_like_roundtrip) (simp add: BUFFER_LEN_def)

end
