(* ===== verification/Mush_Privtab.thy ===== *)
theory Mush_Privtab
  imports Mush_Tokens
begin

unbundle bit_operations_syntax

text \<open>
  The privilege tables of \<open>src/src/privtab.c\<close>: a table of names, one-letter aliases and bits,
  and the conversions between strings and \<open>privbits\<close> (\<open>uint32_t\<close>).  The table is the list of
  its entries before the one with a NULL name.  A string that does not fit the local buffer it
  is copied to with \<open>strcpy\<close>, or a word on which the tokenizer leaves the string, is \<open>None\<close>.
\<close>

section \<open>Definitions\<close>

type_synonym privbits = "32 word"

record priv_info =
  priv_name :: string
  priv_letter :: char
  bits_to_set :: privbits
  bits_to_show :: privbits

text \<open>The bits to set and to clear, with what one entry adds to them.\<close>

type_synonym yes_no = "privbits \<times> privbits"

definition add_bits :: "bool \<Rightarrow> privbits \<Rightarrow> yes_no \<Rightarrow> yes_no" where
  "add_bits neg bits yn = (if neg then (fst yn, snd yn OR bits) else (fst yn OR bits, snd yn))"

definition add_entry :: "bool \<Rightarrow> priv_info option \<Rightarrow> yes_no \<Rightarrow> yes_no" where
  "add_entry neg e yn = (case e of None \<Rightarrow> yn | Some c \<Rightarrow> add_bits neg (bits_to_set c) yn)"

definition apply_yes_no :: "privbits \<Rightarrow> yes_no \<Rightarrow> privbits" where
  "apply_yes_no origprivs yn = (origprivs OR fst yn) AND NOT (snd yn)"

fun letter_loop :: "priv_info list \<Rightarrow> string \<Rightarrow> yes_no \<Rightarrow> yes_no" where
  "letter_loop table [] yn = yn"
| "letter_loop table (p # s) yn =
     (if p = CHR ''!'' then
        (case s of
           [] \<Rightarrow> yn
         | q # s' \<Rightarrow>
             letter_loop table s' (add_entry True (find (\<lambda>c. priv_letter c = q) table) yn))
      else letter_loop table s (add_entry False (find (\<lambda>c. priv_letter c = p) table) yn))"

definition letter_to_privs :: "priv_info list \<Rightarrow> string option \<Rightarrow> privbits \<Rightarrow> privbits" where
  "letter_to_privs table str origprivs =
     (case str of
        None \<Rightarrow> origprivs
      | Some s \<Rightarrow> if s = [] then origprivs else apply_yes_no origprivs (letter_loop table s (0, 0)))"

text \<open>One word of \<open>string_to_privs\<close>.\<close>

definition string_word :: "priv_info list \<Rightarrow> string \<Rightarrow> yes_no \<Rightarrow> yes_no" where
  "string_word table p yn =
     (let neg = (c_head p = CHR ''!''); p = (if neg then tl p else p) in
      if neg \<and> p = [] then yn
      else
        let ltr = (if length p = 1 then letter_to_privs table (Some p) 0 else 0);
            yn = (if length p = 1 then add_bits neg ltr yn else yn)
        in if ltr = 0
           then add_entry neg (find (\<lambda>c. string_prefix (Some (priv_name c)) (Some p)) table) yn
           else yn)"

definition string_to_privs :: "priv_info list \<Rightarrow> string option \<Rightarrow> privbits \<Rightarrow> privbits option" where
  "string_to_privs table str origprivs =
     (case str of
        None \<Rightarrow> Some origprivs
      | Some s \<Rightarrow>
        if s = [] then Some origprivs
        else if BUFFER_LEN \<le> length s then None
        else
          case split_all (Some (trim_space_sep s (CHR '' ''))) (CHR '' '') of
            None \<Rightarrow> None
          | Some ws \<Rightarrow>
              let yn = fold (string_word table) ws (0, 0) in
              if snd yn = 0 \<and> fst yn = 0 \<and> length ws = 1
              then Some (letter_to_privs table (Some s) origprivs)
              else Some (apply_yes_no origprivs yn))"

definition list_word :: "priv_info list \<Rightarrow> string \<Rightarrow> yes_no \<Rightarrow> yes_no" where
  "list_word table p yn =
     (let neg = (c_head p = CHR ''!''); p = (if neg then tl p else p) in
      if neg \<and> p = [] then yn
      else add_entry neg (find (\<lambda>c. strcasecmp (priv_name c) p = 0) table) yn)"

definition list_to_privs :: "priv_info list \<Rightarrow> string option \<Rightarrow> privbits \<Rightarrow> privbits option" where
  "list_to_privs table str origprivs =
     (case str of
        None \<Rightarrow> Some origprivs
      | Some s \<Rightarrow>
        if s = [] then Some origprivs
        else if BUFFER_LEN \<le> length s then None
        else
          case split_all (Some (trim_space_sep s (CHR '' ''))) (CHR '' '') of
            None \<Rightarrow> None
          | Some ws \<Rightarrow> Some (apply_yes_no origprivs (fold (list_word table) ws (0, 0))))"

text \<open>
  \<open>string_to_privsets\<close>: the result code with the two sets; the loop keeps \<open>err\<close> and \<open>found\<close> too.
\<close>

record privset_state =
  ps_sets :: yes_no
  ps_err :: bool
  ps_found :: nat

definition privset_word :: "priv_info list \<Rightarrow> string \<Rightarrow> privset_state \<Rightarrow> privset_state" where
  "privset_word table p st =
     (let neg = (c_head p = CHR ''!''); p = (if neg then tl p else p) in
      if neg \<and> p = [] then st\<lparr>ps_err := True\<rparr>
      else
        let ltr = (if length p = 1 then letter_to_privs table (Some p) 0 else 0);
            st = (if length p = 1 then st\<lparr>ps_sets := add_bits neg ltr (ps_sets st)\<rparr> else st)
        in if ltr \<noteq> 0 then st\<lparr>ps_found := Suc (ps_found st)\<rparr>
           else case find (\<lambda>c. string_prefix (Some (priv_name c)) (Some p)) table of
                  None \<Rightarrow> st
                | Some c \<Rightarrow>
                    st\<lparr>ps_found := Suc (ps_found st),
                       ps_sets := add_bits neg (bits_to_set c) (ps_sets st)\<rparr>)"

definition string_to_privsets :: "priv_info list \<Rightarrow> string option \<Rightarrow> (int \<times> yes_no) option" where
  "string_to_privsets table str =
     (case str of
        None \<Rightarrow> Some (0, (0, 0))
      | Some s \<Rightarrow>
        if s = [] then Some (0, (0, 0))
        else if BUFFER_LEN \<le> length s then None
        else
          case split_all (Some (trim_space_sep s (CHR '' ''))) (CHR '' '') of
            None \<Rightarrow> None
          | Some ws \<Rightarrow>
              let st = fold (privset_word table) ws
                         \<lparr>ps_sets = (0, 0), ps_err = False, ps_found = 0\<rparr>
              in Some (if ps_err st \<or> length ws \<noteq> ps_found st then -1 else 1, ps_sets st))"

fun names_loop :: "priv_info list \<Rightarrow> privbits \<Rightarrow> buf \<Rightarrow> buf" where
  "names_loop [] privs b = b"
| "names_loop (c # table) privs b =
     (if privs AND bits_to_show c = bits_to_show c
      then let b1 = (if b \<noteq> [] then snd (safe_chr (CHR '' '') b) else b)
           in names_loop table (privs AND NOT (bits_to_set c)) (snd (safe_str (Some (priv_name c)) b1))
      else names_loop table privs b)"

definition privs_to_string :: "priv_info list \<Rightarrow> privbits \<Rightarrow> string" where
  "privs_to_string table privs = names_loop table privs []"

fun letters_loop :: "priv_info list \<Rightarrow> privbits \<Rightarrow> buf \<Rightarrow> buf" where
  "letters_loop [] privs b = b"
| "letters_loop (c # table) privs b =
     (if privs AND bits_to_show c = bits_to_show c \<and> priv_letter c \<noteq> NUL
      then letters_loop table (privs AND NOT (bits_to_set c)) (snd (safe_chr (priv_letter c) b))
      else letters_loop table privs b)"

definition privs_to_letters :: "priv_info list \<Rightarrow> privbits \<Rightarrow> string" where
  "privs_to_letters table privs = letters_loop table privs []"

section \<open>Lemmas\<close>

text \<open>Every bit an entry of the table can set.\<close>

definition table_mask :: "priv_info list \<Rightarrow> privbits" where
  "table_mask table = fold (\<lambda>c m. m OR bits_to_set c) table 0"

definition covers :: "privbits \<Rightarrow> privbits \<Rightarrow> bool" where
  "covers m x \<longleftrightarrow> (\<forall>n. bit x n \<longrightarrow> bit m n)"

lemma bit_fold_or:
  "bit (fold (\<lambda>c m. m OR f c) table (m :: privbits)) n \<longleftrightarrow> bit m n \<or> (\<exists>c \<in> set table. bit (f c) n)"
  by (induction table arbitrary: m) (auto simp: bit_or_iff)

lemma covers_table_mask: "c \<in> set table \<Longrightarrow> covers (table_mask table) (bits_to_set c)"
  by (auto simp: covers_def table_mask_def bit_fold_or)

definition covered :: "privbits \<Rightarrow> yes_no \<Rightarrow> bool" where
  "covered m yn \<longleftrightarrow> covers m (fst yn) \<and> covers m (snd yn)"

lemma covered_add_bits: "covered m yn \<Longrightarrow> covers m b \<Longrightarrow> covered m (add_bits neg b yn)"
  by (auto simp: covered_def covers_def add_bits_def bit_or_iff)

lemma covered_add_entry:
  "covered (table_mask table) yn \<Longrightarrow> covered (table_mask table) (add_entry neg (find P table) yn)"
  by (auto simp: add_entry_def covered_add_bits covers_table_mask find_Some_iff split: option.splits)

lemma covered_letter_loop:
  "covered (table_mask table) yn \<Longrightarrow> covered (table_mask table) (letter_loop table s yn)"
  by (induction table s yn rule: letter_loop.induct) (auto simp: covered_add_entry split: list.splits)

lemma covered_zero [simp]: "covered m (0, 0)"
  by (simp add: covered_def covers_def)

lemma covers_0 [simp]: "covers m 0"
  by (simp add: covers_def)

lemma add_bits_0 [simp]: "add_bits neg 0 yn = yn"
  by (simp add: add_bits_def)

lemma covers_apply: "covered m yn \<Longrightarrow> covers m (apply_yes_no p yn XOR p)"
  by (auto simp: covered_def covers_def apply_yes_no_def bit_or_iff bit_and_iff bit_not_iff bit_xor_iff
      dest: bit_imp_le_length)

lemma covers_letter_to_privs: "covers (table_mask table) (letter_to_privs table s p XOR p)"
  by (auto simp: letter_to_privs_def covers_0 intro!: covers_apply covered_letter_loop split: option.splits)

lemma covered_string_word:
  "covered (table_mask table) yn \<Longrightarrow> covered (table_mask table) (string_word table w yn)"
  using covers_letter_to_privs [of table _ 0]
  by (auto simp: string_word_def Let_def covered_add_entry intro!: covered_add_bits)

lemma covered_fold:
  "(\<And>w yn. covered m yn \<Longrightarrow> covered m (f w yn)) \<Longrightarrow> covered m yn \<Longrightarrow> covered m (fold f ws yn)"
  by (induction ws arbitrary: yn) auto

text \<open>
  A table without ambiguity: the names are single words that do not start with the negation
  sign, they differ also when case is ignored, and no two entries share a bit.
\<close>

definition plain_word :: "string \<Rightarrow> bool" where
  "plain_word w \<longleftrightarrow> w \<noteq> [] \<and> hd w \<noteq> CHR ''!'' \<and> no_nul w
     \<and> CHR '' '' \<notin> set w \<and> TAG_START \<notin> set w \<and> ESC_CHAR \<notin> set w"

definition plain_table :: "priv_info list \<Rightarrow> bool" where
  "plain_table table \<longleftrightarrow>
     distinct (map (\<lambda>c. case_key (priv_name c)) table)
     \<and> (\<forall>c \<in> set table. plain_word (priv_name c) \<and> bits_to_show c = bits_to_set c)
     \<and> pairwise (\<lambda>c d. bits_to_set c AND bits_to_set d = 0) (set table)"

definition shown :: "privbits \<Rightarrow> priv_info \<Rightarrow> bool" where
  "shown privs c \<longleftrightarrow> privs AND bits_to_show c = bits_to_show c"

lemma and_not_disjoint:
  "(x :: privbits) AND y = 0 \<Longrightarrow> (p AND NOT x) AND y = p AND y"
  by (rule bit_eqI) (auto simp: bit_and_iff bit_not_iff bit_eq_iff)

lemma shown_other:
  assumes "bits_to_set c AND bits_to_show d = 0"
  shows "shown (privs AND NOT (bits_to_set c)) d \<longleftrightarrow> shown privs d"
  by (simp add: shown_def and_not_disjoint assms)

text \<open>What the loops of \<open>privs_to_string\<close> need of a table; it holds of every tail.\<close>

definition disjoint_table :: "priv_info list \<Rightarrow> bool" where
  "disjoint_table table \<longleftrightarrow> distinct table \<and> (\<forall>c \<in> set table. bits_to_show c = bits_to_set c)
     \<and> pairwise (\<lambda>c d. bits_to_set c AND bits_to_set d = 0) (set table)"

lemma disjoint_table_Cons:
  assumes "disjoint_table (c # table)"
  shows "disjoint_table table"
    and "filter (shown (privs AND NOT (bits_to_set c))) table = filter (shown privs) table"
    and "bits_to_show c = bits_to_set c"
proof -
  show "disjoint_table table" "bits_to_show c = bits_to_set c"
    using assms by (auto simp: disjoint_table_def pairwise_insert)
  have "\<forall>d \<in> set table. shown (privs AND NOT (bits_to_set c)) d = shown privs d"
  proof
    fix d assume d: "d \<in> set table"
    with assms have "c \<noteq> d" by (auto simp: disjoint_table_def)
    with d assms have "bits_to_set c AND bits_to_show d = 0"
      by (simp add: disjoint_table_def pairwise_insert)
    then show "shown (privs AND NOT (bits_to_set c)) d = shown privs d"
      by (rule shown_other)
  qed
  then show "filter (shown (privs AND NOT (bits_to_set c))) table = filter (shown privs) table"
    by (simp cong: filter_cong)
qed

lemma names_loop_nonempty:
  "disjoint_table table \<Longrightarrow> b \<noteq> [] \<Longrightarrow> names_loop table privs (fit b) =
    fit (b @ tail_text (CHR '' '') (map priv_name (filter (shown privs) table)))"
proof (induction table arbitrary: privs b)
  case (Cons c table)
  note t = disjoint_table_Cons [OF Cons.prems(1)]
  have ne: "fit b \<noteq> []"
    using Cons.prems(2) by (simp add: fit_def BUFFER_LEN_def)
  show ?case
  proof (cases "shown privs c")
    case True
    then show ?thesis
      using ne Cons.IH [OF t(1), of "b @ CHR '' '' # priv_name c" "privs AND NOT (bits_to_set c)"] t(2)
      by (simp add: shown_def [symmetric])
  next
    case False
    then show ?thesis
      using Cons.IH [OF t(1) Cons.prems(2), of privs] by (simp add: shown_def)
  qed
qed simp

lemma names_loop_empty:
  "disjoint_table table \<Longrightarrow> \<forall>c \<in> set table. priv_name c \<noteq> [] \<Longrightarrow> names_loop table privs [] =
    fit (join (CHR '' '') (map priv_name (filter (shown privs) table)))"
proof (induction table)
  case (Cons c table)
  note t = disjoint_table_Cons [OF Cons.prems(1)]
  show ?case
  proof (cases "shown privs c")
    case True
    then show ?thesis
      using names_loop_nonempty [OF t(1), of "priv_name c" "privs AND NOT (bits_to_set c)"] t(2)
        Cons.prems(2) fit_str [of "priv_name c" "[]"]
      by (simp add: shown_def [symmetric] join_Cons)
  next
    case False
    then show ?thesis
      using Cons t(1) by (simp add: shown_def [symmetric])
  qed
qed simp

text \<open>Splitting a line of plain words gives the words back.\<close>

lemma split_token_word:
  assumes "plain_word w"
  shows "split_token (Some (w @ CHR '' '' # s)) (CHR '' '') = Some (Some w, Some (skip_seps (CHR '' '') s))"
    and "split_token (Some w) (CHR '' '') = Some (Some w, None)"
proof -
  have "scan_token (CHR '' '') (w @ r) = (case scan_token (CHR '' '') r of
      None \<Rightarrow> None | Some (t, rest) \<Rightarrow> Some (w @ t, rest))" for r
  proof -
    have "CHR '' '' \<notin> set w" "TAG_START \<notin> set w" "ESC_CHAR \<notin> set w"
      using assms by (simp_all add: plain_word_def)
    then show ?thesis
      by (induction w) (auto split: option.splits)
  qed
  from this [of "CHR '' '' # s"] this [of "[]"] show
    "split_token (Some (w @ CHR '' '' # s)) (CHR '' '') = Some (Some w, Some (skip_seps (CHR '' '') s))"
    "split_token (Some w) (CHR '' '') = Some (Some w, None)"
    by (simp_all add: split_token_def)
qed

lemma split_all_words:
  "\<forall>w \<in> set ws. plain_word w \<Longrightarrow> ws \<noteq> [] \<Longrightarrow>
    split_all (Some (join (CHR '' '') ws)) (CHR '' '') = Some ws"
proof (induction "CHR '' ''" ws rule: join.induct)
  case (3 t u ts)
  have "join (CHR '' '') (u # ts) \<noteq> [] \<and> hd (join (CHR '' '') (u # ts)) \<noteq> CHR '' ''"
    using "3.prems" by (cases u) (auto simp: join_Cons plain_word_def)
  then have "skip_seps (CHR '' '') (join (CHR '' '') (u # ts)) = join (CHR '' '') (u # ts)"
    by (cases "join (CHR '' '') (u # ts)") (simp_all add: skip_seps_def)
  with 3 show ?case
    by (simp add: split_token_word del: join.simps(2) split_token_def)
qed (simp_all add: split_token_word)

lemma plain_word_ends: "plain_word w \<Longrightarrow> w \<noteq> [] \<and> hd w \<noteq> CHR '' '' \<and> last w \<noteq> CHR '' ''"
  unfolding plain_word_def by (metis hd_in_set last_in_set)

lemma trim_words:
  assumes "\<forall>w \<in> set ws. plain_word w" "ws \<noteq> []"
  shows "trim_space_sep (join (CHR '' '') ws) (CHR '' '') = join (CHR '' '') ws"
proof -
  let ?j = "join (CHR '' '') ws"
  have first: "?j \<noteq> [] \<and> hd ?j \<noteq> CHR '' ''"
    using assms by (cases ws rule: remdups_adj.cases) (auto simp: join_Cons dest: plain_word_ends)
  have last: "last ?j \<noteq> CHR '' ''"
    using assms
  proof (induction "CHR '' ''" ws rule: join.induct)
    case (3 t u ts)
    have "join (CHR '' '') (u # ts) \<noteq> []"
      using "3.prems" by (auto simp: join_Cons plain_word_def)
    with 3 show ?case by (simp del: join.simps(2))
  qed (auto dest: plain_word_ends)
  have "dropWhile (\<lambda>c. c = CHR '' '') ?j = ?j" "dropWhile (\<lambda>c. c = CHR '' '') (rev ?j) = rev ?j"
    using first last by (cases ?j, simp_all) (cases ?j rule: rev_cases, simp_all)
  then show ?thesis by (simp add: trim_space_sep_strip strip_spaces_def)
qed

lemma find_name:
  assumes "distinct (map (\<lambda>c. case_key (priv_name c)) table)" "c \<in> set table"
    "\<forall>d \<in> set table. no_nul (priv_name d)"
  shows "find (\<lambda>d. strcasecmp (priv_name d) (priv_name c) = 0) table = Some c"
  using assms
proof (induction table)
  case (Cons d table)
  have "strcasecmp (priv_name d) (priv_name c) = 0 \<longleftrightarrow> case_key (priv_name d) = case_key (priv_name c)"
    using Cons.prems by (intro strcasecmp_zero) auto
  then show ?case
    using Cons by auto
qed simp

lemma fold_list_word_names:
  assumes "plain_table table" "set cs \<subseteq> set table"
  shows "fold (list_word table) (map priv_name cs) (y, n) = (fold (\<lambda>c m. m OR bits_to_set c) cs y, n)"
  using assms(2)
proof (induction cs arbitrary: y)
  case (Cons c cs)
  then have c: "plain_word (priv_name c)"
    using assms(1) by (simp add: plain_table_def)
  then have "c_head (priv_name c) \<noteq> CHR ''!''"
    by (cases "priv_name c") (simp_all add: plain_word_def)
  moreover have "find (\<lambda>d. strcasecmp (priv_name d) (priv_name c) = 0) table = Some c"
    using assms(1) Cons.prems by (intro find_name) (auto simp: plain_table_def plain_word_def)
  ultimately have "list_word table (priv_name c) (y, n) = (y OR bits_to_set c, n)"
    by (simp add: list_word_def add_entry_def add_bits_def)
  with Cons show ?case by simp
qed simp

lemma plain_table_disjoint: "plain_table table \<Longrightarrow> disjoint_table table"
  unfolding plain_table_def disjoint_table_def by (auto simp: distinct_map)

text \<open>The bits of all entries shown in a set that is made of entries are that set.\<close>

lemma fold_or_shown:
  assumes "\<forall>c \<in> set table. bits_to_show c = bits_to_set c"
    and that: "privs = fold (\<lambda>c m. m OR bits_to_set c) (filter P table) 0"
  shows "fold (\<lambda>c m. m OR bits_to_set c) (filter (shown privs) table) 0 = privs" (is "?f = _")
proof (rule bit_eqI)
  fix n
  assume "possible_bit TYPE(32 word) n"
  have priv: "bit privs n \<longleftrightarrow> (\<exists>c \<in> set table. P c \<and> bit (bits_to_set c) n)" for n
    using that bit_fold_or [of bits_to_set "filter P table" 0 n] by auto
  have "shown privs c" if "c \<in> set table" "P c" for c
    unfolding shown_def
    by (rule bit_eqI) (use \<open>c \<in> set table\<close> \<open>P c\<close> assms(1) priv in \<open>auto simp: bit_and_iff\<close>)
  moreover have "bit privs n" if "shown privs c" "c \<in> set table" "bit (bits_to_set c) n" for c
  proof -
    have "n < 32"
      using bit_imp_le_length [OF \<open>bit (bits_to_set c) n\<close>] by simp
    then show ?thesis
      using \<open>shown privs c\<close> \<open>c \<in> set table\<close> \<open>bit (bits_to_set c) n\<close> assms(1)
      by (auto simp: shown_def bit_eq_iff bit_and_iff)
  qed
  ultimately show "bit ?f n = bit privs n"
    using priv [of n] by (auto simp: bit_fold_or)
qed

lemma list_to_privs_names:
  assumes "plain_table table"
    and "length (join (CHR '' '') (map priv_name (filter (shown privs) table))) < BUFFER_LEN"
  shows "list_to_privs table (Some (privs_to_string table privs)) 0 =
    Some (fold (\<lambda>c m. m OR bits_to_set c) (filter (shown privs) table) 0)"
proof -
  let ?cs = "filter (shown privs) table" and ?j = "join (CHR '' '') (map priv_name (filter (shown privs) table))"
  have plain: "\<forall>c \<in> set table. plain_word (priv_name c)"
    using assms(1) by (simp add: plain_table_def)
  have "privs_to_string table privs = fit ?j"
    unfolding privs_to_string_def
    using plain by (intro names_loop_empty plain_table_disjoint assms(1)) (simp add: plain_word_def)
  then have str: "privs_to_string table privs = ?j"
    using assms(2) by (simp add: fit_id)
  show ?thesis
  proof (cases "?cs = []")
    case True
    with str show ?thesis by (simp add: list_to_privs_def)
  next
    case False
    then have ws: "map priv_name ?cs \<noteq> []" "\<forall>w \<in> set (map priv_name ?cs). plain_word w"
      using plain by auto
    then have "?j \<noteq> []"
      by (cases "map priv_name ?cs" rule: remdups_adj.cases) (auto simp: join_Cons dest: plain_word_ends)
    then show ?thesis
      using assms(2) fold_list_word_names [OF assms(1), of ?cs 0 0]
      by (simp add: list_to_privs_def str trim_words [OF ws(2,1)] split_all_words [OF ws(2,1)]
          apply_yes_no_def del: split_all.simps)
  qed
qed

section \<open>Properties\<close>

text \<open>C28: \<open>list_to_privs\<close> reads back what \<open>privs_to_string\<close> prints: for a table without
  ambiguity and a set of privileges made of its entries, the printed names are parsed to
  exactly that set.\<close>

theorem privs_string_roundtrip:
  assumes "plain_table table"
    and "privs = fold (\<lambda>c m. m OR bits_to_set c) (filter P table) 0"
    and "length (join (CHR '' '') (map priv_name (filter (shown privs) table))) < BUFFER_LEN"
  shows "list_to_privs table (Some (privs_to_string table privs)) 0 = Some privs"
proof -
  have "\<forall>c \<in> set table. bits_to_show c = bits_to_set c"
    using assms(1) by (simp add: plain_table_def)
  then show ?thesis
    using list_to_privs_names [OF assms(1,3)] fold_or_shown [OF _ assms(2)] by simp
qed

definition sample_privs :: "priv_info list" where
  "sample_privs =
     [\<lparr>priv_name = ''Wizard'', priv_letter = CHR ''W'', bits_to_set = 1, bits_to_show = 1\<rparr>,
      \<lparr>priv_name = ''Royalty'', priv_letter = CHR ''R'', bits_to_set = 2, bits_to_show = 2\<rparr>,
      \<lparr>priv_name = ''Player'', priv_letter = CHR ''P'', bits_to_set = 4, bits_to_show = 4\<rparr>]"

lemma plain_sample: "plain_table sample_privs"
proof -
  have "distinct (map (\<lambda>c. case_key (priv_name c)) sample_privs)"
    by (simp add: sample_privs_def case_key_def DOWNCASE_def c_isupper_def c_ord_def)
  moreover have "list_all (\<lambda>c. plain_word (priv_name c) \<and> bits_to_show c = bits_to_set c) sample_privs"
    by code_simp
  moreover have "\<forall>c \<in> set sample_privs. \<forall>d \<in> set sample_privs. c \<noteq> d \<longrightarrow> bits_to_set c AND bits_to_set d = 0"
    by (simp add: sample_privs_def)
  ultimately show ?thesis
    by (simp add: plain_table_def pairwise_def list_all_iff)
qed

theorem privs_string_roundtrip_witness:
  "list_to_privs sample_privs (Some (privs_to_string sample_privs 5)) 0 = Some 5"
proof (rule privs_string_roundtrip [where P = "\<lambda>c. bits_to_set c \<noteq> 2"])
  show "plain_table sample_privs" by (rule plain_sample)
  show "(5 :: privbits) = fold (\<lambda>c m. m OR bits_to_set c) (filter (\<lambda>c. bits_to_set c \<noteq> 2) sample_privs) 0"
    by (simp add: sample_privs_def)
  show "length (join (CHR '' '') (map priv_name (filter (shown 5) sample_privs))) < BUFFER_LEN"
    by (simp add: sample_privs_def shown_def BUFFER_LEN_def)
qed

text \<open>Whatever words it is given, \<open>string_to_privs\<close> changes only bits that some entry of the
  table sets.\<close>

theorem string_to_privs_only_table_bits:
  assumes "string_to_privs table str origprivs = Some p"
  shows "(p XOR origprivs) AND NOT (table_mask table) = 0"
proof -
  have "covers (table_mask table) (p XOR origprivs)"
    using assms covers_letter_to_privs [of table str origprivs]
    by (auto simp: string_to_privs_def Let_def intro!: covers_apply covered_fold covered_string_word
        split: option.splits if_splits)
  then show ?thesis
    by (intro bit_eqI) (auto simp: covers_def bit_and_iff bit_not_iff)
qed

theorem string_to_privs_only_table_bits_witness:
  "string_to_privs sample_privs (Some ''wiz !player'') 12 = Some 9
   \<and> (9 XOR 12) AND NOT (table_mask sample_privs) = 0"
proof -
  have "string_to_privs sample_privs (Some ''wiz !player'') 12 = Some 9"
    by code_simp
  with string_to_privs_only_table_bits [OF this] show ?thesis by blast
qed

end
