(* ===== verification/Mush_Bufferq.thy ===== *)
theory Mush_Bufferq
  imports Mush_Strutil
begin

text \<open>
  The buffer queues of \<open>src/src/bufferq.c\<close>: a byte buffer that holds messages one after the
  other, oldest first, each as its length, player, type, time and text with its NUL.  When a
  message does not fit, the oldest ones are dropped.  The buffer is modelled byte by byte,
  from \<open>buffer\<close> to \<open>buffer_end\<close>; \<open>int\<close> and \<open>dbref\<close> are 4 bytes and \<open>time_t\<close> is 8.  A write
  past an array (the buffer, \<open>last_string\<close>, the static copy of \<open>iter_bufferq\<close>) or a walk over a
  corrupt size field is \<open>None\<close>.
\<close>

section \<open>Definitions\<close>

record bufferq =
  bq_data :: "char list"
  bq_size :: int
  bq_num :: int
  bq_last_string :: string
  bq_last_type :: char

definition BUFFERQLINEOVERHEAD :: nat where
  "BUFFERQLINEOVERHEAD = 2 * 4 + 8 + 4"

definition allocate_bufferq :: "nat \<Rightarrow> bufferq" where
  "allocate_bufferq n =
     \<lparr>bq_data = [], bq_size = int (n * (BUFFER_LEN + BUFFERQLINEOVERHEAD)), bq_num = 0,
      bq_last_string = [], bq_last_type = NUL\<rparr>"

text \<open>The loop of \<open>shift_bufferq\<close>: the offset \<open>p\<close>, the space still needed and the skipped messages.\<close>

function shift_scan :: "char list \<Rightarrow> int \<Rightarrow> nat \<Rightarrow> int \<Rightarrow> (nat \<times> int \<times> int) option" where
  "shift_scan data need p skipped =
     (if 0 < need \<and> p < length data then
        (if length data < p + 4 then None
         else
           let size = sint (read_int (drop p data));
               jump = size + int BUFFERQLINEOVERHEAD + 1
           in if jump \<le> 0 then None
              else shift_scan data (need - jump) (p + nat jump) (skipped + 1))
      else Some (p, need, skipped))"
  by pat_completeness auto
termination
  by (relation "measure (\<lambda>(data, need, p, skipped). length data - p)") auto

declare shift_scan.simps [simp del]

definition shift_bufferq :: "bufferq \<Rightarrow> int \<Rightarrow> bufferq option" where
  "shift_bufferq bq space_needed =
     (case shift_scan (bq_data bq) space_needed 0 0 of
        None \<Rightarrow> None
      | Some (p, need, skipped) \<Rightarrow>
          if p \<noteq> length (bq_data bq) \<and> 0 < need then Some bq
          else Some (bq\<lparr>bq_data := drop p (bq_data bq), bq_num := bq_num bq - skipped\<rparr>))"

text \<open>One message as it is laid out in the buffer.\<close>

record bq_entry =
  be_player :: "32 word"
  be_type :: "32 word"
  be_time :: "64 word"
  be_msg :: string

definition entry_bytes :: "bq_entry \<Rightarrow> char list" where
  "entry_bytes e =
     int_bytes (word_of_nat (length (be_msg e))) @ int_bytes (be_player e) @ int_bytes (be_type e)
       @ long_bytes (be_time e) @ be_msg e @ [NUL]"

definition add_to_bufferq ::
  "64 word \<Rightarrow> bufferq option \<Rightarrow> 32 word \<Rightarrow> 32 word \<Rightarrow> string \<Rightarrow> bufferq option option" where
  "add_to_bufferq mudtime bq type player msg =
     (let len = length msg; room = int len + 1 + int BUFFERQLINEOVERHEAD in
      case bq of
        None \<Rightarrow> Some None
      | Some q \<Rightarrow>
        if bq_size q < room then Some (Some q)
        else
          case (if 0 < length (bq_data q) \<and> bq_size q - int (length (bq_data q)) < room
                then shift_bufferq q room else Some q) of
            None \<Rightarrow> None
          | Some q \<Rightarrow>
              if bq_size q < int (length (bq_data q)) + room \<or> BUFFER_LEN \<le> len then None
              else Some (Some
                (q\<lparr>bq_data := bq_data q @ entry_bytes
                     \<lparr>be_player = player, be_type = type, be_time = mudtime, be_msg = msg\<rparr>,
                   bq_last_string := msg,
                   bq_last_type := char_of (unat type),
                   bq_num := bq_num q + 1\<rparr>)))"

text \<open>\<open>realloc_ok\<close> is whether \<open>realloc\<close> succeeds.\<close>

definition reallocate_bufferq :: "bool \<Rightarrow> bufferq option \<Rightarrow> nat \<Rightarrow> bufferq option" where
  "reallocate_bufferq realloc_ok bq n =
     (let bytes = int (n * (BUFFER_LEN + 2 * BUFFERQLINEOVERHEAD)) in
      case bq of
        None \<Rightarrow> Some (allocate_bufferq n)
      | Some q \<Rightarrow>
        if bq_size q = bytes then Some q
        else
          case (if bytes < bq_size q \<and> bytes \<le> int (length (bq_data q))
                then shift_bufferq q (int (length (bq_data q)) - bytes) else Some q) of
            None \<Rightarrow> None
          | Some q \<Rightarrow> Some (if realloc_ok then q\<lparr>bq_size := bytes\<rparr> else q))"

text \<open>
  \<open>iter_bufferq\<close>: the position is an offset, \<open>None\<close> for the null pointer.  The result is the
  message with its fields and the new position; \<open>None\<close> inside is the C \<open>NULL\<close>, with the
  position the pointer then has.
\<close>

definition iter_bufferq ::
  "bufferq option \<Rightarrow> nat option \<Rightarrow> (bq_entry option \<times> nat option) option" where
  "iter_bufferq bq p =
     (case bq of
        None \<Rightarrow> Some (None, p)
      | Some q \<Rightarrow>
        if bq_data q = [] then Some (None, p)
        else if p = Some (length (bq_data q)) then Some (None, p)
        else
          let i = (case p of None \<Rightarrow> 0 | Some i \<Rightarrow> i);
              d = drop i (bq_data q);
              size = sint (read_int d);
              player = read_int (drop 4 d);
              type = read_int (drop 8 d);
              time = read_long (drop 12 d);
              msg = take (nat size) (drop 20 d)
          in if size < 0 \<or> int BUFFER_LEN < size + 1 \<or> length d < 20 + nat size + 1 then None
             else Some (Some \<lparr>be_player = player, be_type = type, be_time = time, be_msg = msg\<rparr>,
                        Some (i + 20 + nat size + 1)))"

definition isempty_bufferq :: "bufferq option \<Rightarrow> bool" where
  "isempty_bufferq bq = (case bq of None \<Rightarrow> True | Some q \<Rightarrow> bq_data q = [])"

definition bufferq_blocks :: "bufferq option \<Rightarrow> int" where
  "bufferq_blocks bq =
     (case bq of None \<Rightarrow> 0 | Some q \<Rightarrow> bq_size q div int (BUFFER_LEN + BUFFERQLINEOVERHEAD))"

lemma iter_bufferq_advances:
  assumes "iter_bufferq (Some q) p = Some (Some e, p')"
  shows "\<exists>i. p' = Some i \<and> i \<le> length (bq_data q) \<and> (case p of None \<Rightarrow> 0 | Some j \<Rightarrow> j) < i"
  using assms by (auto simp: iter_bufferq_def Let_def split: if_splits option.splits)

function count_lines :: "bufferq \<Rightarrow> nat option \<Rightarrow> nat option" where
  "count_lines q p =
     (case iter_bufferq (Some q) p of
        None \<Rightarrow> None
      | Some (None, _) \<Rightarrow> Some 0
      | Some (Some e, p') \<Rightarrow> map_option Suc (count_lines q p'))"
  by pat_completeness auto
termination
proof (relation "measure (\<lambda>(q, p). length (bq_data q) - (case p of None \<Rightarrow> 0 | Some i \<Rightarrow> i))", simp)
  fix q :: bufferq and p x y p' e
  assume "iter_bufferq (Some q) p = Some x" "(y, p') = x" "y = Some e"
  then obtain i where "p' = Some i" "i \<le> length (bq_data q)" "(case p of None \<Rightarrow> 0 | Some j \<Rightarrow> j) < i"
    using iter_bufferq_advances by blast
  then show "((q, p'), (q, p)) \<in>
      measure (\<lambda>(q, p). length (bq_data q) - (case p of None \<Rightarrow> 0 | Some i \<Rightarrow> i))"
    by auto
qed

declare count_lines.simps [simp del]

definition bufferq_lines :: "bufferq option \<Rightarrow> nat option" where
  "bufferq_lines bq =
     (if isempty_bufferq bq then Some 0
      else case bq of None \<Rightarrow> Some 0 | Some q \<Rightarrow> count_lines q None)"

section \<open>The queue of messages\<close>

text \<open>Well-formed queues hold a list of messages, and their fields agree with it.\<close>

definition entry_ok :: "bq_entry \<Rightarrow> bool" where
  "entry_ok e \<longleftrightarrow> length (be_msg e) < BUFFER_LEN"

definition entry_room :: "bq_entry \<Rightarrow> nat" where
  "entry_room e = length (be_msg e) + 1 + BUFFERQLINEOVERHEAD"

definition holds :: "bufferq \<Rightarrow> bq_entry list \<Rightarrow> bool" where
  "holds q es \<longleftrightarrow> bq_data q = concat (map entry_bytes es) \<and> bq_num q = int (length es)
     \<and> (\<forall>e \<in> set es. entry_ok e) \<and> int (length (bq_data q)) \<le> bq_size q"

lemma length_entry_bytes [simp]: "length (entry_bytes e) = entry_room e"
  by (simp add: entry_bytes_def entry_room_def BUFFERQLINEOVERHEAD_def)

lemma entry_bytes_neq_Nil [simp]: "entry_bytes e \<noteq> []"
  by (simp add: entry_bytes_def)

lemma entry_size:
  assumes "entry_ok e"
  shows "sint (read_int (entry_bytes e @ r)) = int (length (be_msg e))"
proof -
  have "length (be_msg e) < 8192"
    using assms by (simp add: entry_ok_def BUFFER_LEN_def)
  then have "sint (word_of_nat (length (be_msg e)) :: 32 word) = int (length (be_msg e))"
    using sint_sbintrunc' [of "int (length (be_msg e))", where 'a = 32]
    by (simp add: signed_take_bit_int_eq_self)
  then show ?thesis
    by (simp add: entry_bytes_def)
qed

text \<open>Which messages \<open>shift_bufferq\<close> drops: from the front, until enough room is gained.\<close>

fun drop_for :: "int \<Rightarrow> bq_entry list \<Rightarrow> bq_entry list" where
  "drop_for need [] = []"
| "drop_for need (e # es) = (if 0 < need then drop_for (need - int (entry_room e)) es else e # es)"

lemma drop_for_drop: "\<exists>n \<le> length es. drop_for need es = drop n es"
proof (induction es arbitrary: need)
  case (Cons e es)
  then obtain n where "n \<le> length es" "drop_for (need - int (entry_room e)) es = drop n es"
    by blast
  then have "drop_for need (e # es) = drop (if 0 < need then Suc n else 0) (e # es)"
    by simp
  then show ?case
    using \<open>n \<le> length es\<close> by (metis Suc_le_mono length_Cons zero_le)
qed simp

lemma length_drop_for: "length (drop_for need es) \<le> length es"
  using drop_for_drop [of es need] by auto

lemma bytes_drop_for:
  "\<exists>r. concat (map entry_bytes es) = r @ concat (map entry_bytes (drop_for need es))
    \<and> (drop_for need es = [] \<or> need \<le> int (length r))"
proof (induction es arbitrary: need)
  case (Cons e es)
  show ?case
  proof (cases "0 < need")
    case True
    from Cons [of "need - int (entry_room e)"] obtain r where
      "concat (map entry_bytes es) = r @ concat (map entry_bytes (drop_for (need - int (entry_room e)) es))"
      "drop_for (need - int (entry_room e)) es = [] \<or> need - int (entry_room e) \<le> int (length r)"
      by blast
    then show ?thesis
      using True by (intro exI [of _ "entry_bytes e @ r"]) auto
  qed (intro exI [of _ "[]"], simp)
qed simp

lemma shift_scan_entries:
  assumes "\<forall>e \<in> set es. entry_ok e"
  shows "\<exists>need'. shift_scan (pre @ concat (map entry_bytes es)) need (length pre) skipped =
      Some (length pre + (length (concat (map entry_bytes es))
              - length (concat (map entry_bytes (drop_for need es)))), need',
            skipped + int (length es) - int (length (drop_for need es)))
    \<and> (drop_for need es \<noteq> [] \<longrightarrow> need' \<le> 0)"
  using assms
proof (induction es arbitrary: pre need skipped)
  case Nil
  then show ?case by (simp add: shift_scan.simps)
next
  case (Cons e es)
  let ?r = "concat (map entry_bytes es)"
  show ?case
  proof (cases "0 < need")
    case False
    then show ?thesis by (simp add: shift_scan.simps [of _ need])
  next
    case True
    have e: "entry_ok e" using Cons.prems by simp
    have jump: "int (length (be_msg e)) + int BUFFERQLINEOVERHEAD + 1 = int (entry_room e)"
      by (simp add: entry_room_def)
    have pos: "4 < entry_room e"
      by (simp add: entry_room_def BUFFERQLINEOVERHEAD_def)
    let ?need = "need - int (entry_room e)"
    let ?left = "concat (map entry_bytes (drop_for ?need es))"
    have step: "shift_scan (pre @ concat (map entry_bytes (e # es))) need (length pre) skipped =
        shift_scan ((pre @ entry_bytes e) @ ?r) ?need (length (pre @ entry_bytes e)) (skipped + 1)"
      using True pos by (subst shift_scan.simps) (simp add: entry_size [OF e] jump)
    have short: "length ?left \<le> length ?r"
      using bytes_drop_for [of es ?need] by (metis le_add2 length_append)
    obtain need' where rec: "shift_scan ((pre @ entry_bytes e) @ ?r) ?need
          (length (pre @ entry_bytes e)) (skipped + 1) =
        Some (length (pre @ entry_bytes e) + (length ?r - length ?left), need',
            skipped + 1 + int (length es) - int (length (drop_for ?need es)))"
      "drop_for ?need es \<noteq> [] \<longrightarrow> need' \<le> 0"
      using Cons.IH [of "pre @ entry_bytes e" ?need "skipped + 1"] Cons.prems
      by (metis list.set_intros(2))
    have "length (pre @ entry_bytes e) + (length ?r - length ?left)
        = length pre + (length (concat (map entry_bytes (e # es))) - length ?left)"
      using short by (simp del: length_concat)
    moreover have "skipped + 1 + int (length es) - x = skipped + int (length (e # es)) - x" for x
      by simp
    moreover have "drop_for need (e # es) = drop_for ?need es"
      using True by simp
    ultimately show ?thesis
      using rec by (metis step)
  qed
qed

lemma shift_bufferq_holds:
  assumes "holds q es"
  shows "\<exists>q'. shift_bufferq q need = Some q' \<and> holds q' (drop_for need es)
    \<and> bq_size q' = bq_size q
    \<and> (0 \<le> need \<longrightarrow> bq_data q' = [] \<or> int (length (bq_data q')) + need \<le> int (length (bq_data q)))"
proof -
  let ?all = "concat (map entry_bytes es)" and ?left = "concat (map entry_bytes (drop_for need es))"
  have ok: "\<forall>e \<in> set es. entry_ok e" and data: "bq_data q = ?all"
    and num: "bq_num q = int (length es)" and size: "int (length ?all) \<le> bq_size q"
    using assms by (auto simp: holds_def)
  obtain r where r: "?all = r @ ?left" "drop_for need es = [] \<or> need \<le> int (length r)"
    using bytes_drop_for by blast
  obtain need' where scan: "shift_scan ?all need 0 0 =
      Some (length ?all - length ?left, need', int (length es) - int (length (drop_for need es)))"
    "drop_for need es \<noteq> [] \<longrightarrow> need' \<le> 0"
    using shift_scan_entries [OF ok, of "[]" need 0] by auto
  have len: "length ?all - length ?left = length r" and d: "drop (length r) ?all = ?left"
    using r(1) by simp_all
  have ok': "\<forall>e \<in> set (drop_for need es). entry_ok e"
    using ok drop_for_drop [of es need] by (metis in_set_dropD)
  have go: "\<not> (length r \<noteq> length ?all \<and> 0 < need')"
    using scan(2) r by (cases "drop_for need es = []") auto
  let ?q = "q\<lparr>bq_data := ?left, bq_num := int (length (drop_for need es))\<rparr>"
  have "shift_bufferq q need = Some ?q"
    using go by (simp add: shift_bufferq_def data scan(1) len d num del: de_Morgan_conj)
  moreover have "holds ?q (drop_for need es)"
    using ok' size r(1) by (simp add: holds_def)
  ultimately show ?thesis
    using r data by (intro exI [of _ ?q]) auto
qed

text \<open>Adding a message, on the list of messages: the oldest ones make room for it.\<close>

definition make_room :: "bufferq \<Rightarrow> bq_entry list \<Rightarrow> bq_entry \<Rightarrow> bq_entry list" where
  "make_room q es e =
     (if bq_size q < int (length (bq_data q) + entry_room e) then drop_for (int (entry_room e)) es else es)"

lemma add_to_bufferq_holds:
  assumes q: "holds q es" and e: "entry_ok e" and fits: "int (entry_room e) \<le> bq_size q"
  shows "\<exists>q'. add_to_bufferq (be_time e) (Some q) (be_type e) (be_player e) (be_msg e) = Some (Some q')
    \<and> holds q' (make_room q es e @ [e]) \<and> bq_size q' = bq_size q
    \<and> bq_last_string q' = be_msg e"
proof -
  let ?room = "int (entry_room e)"
  have room: "int (length (be_msg e)) + 1 + int BUFFERQLINEOVERHEAD = ?room"
    by (simp add: entry_room_def)
  have [simp]: "\<lparr>be_player = be_player e, be_type = be_type e, be_time = be_time e, be_msg = be_msg e\<rparr> = e"
    by simp
  let ?shift = "0 < length (bq_data q) \<and> bq_size q - int (length (bq_data q)) < ?room"
  have "\<exists>q1. (if ?shift then shift_bufferq q ?room else Some q) = Some q1
      \<and> holds q1 (make_room q es e) \<and> bq_size q1 = bq_size q
      \<and> int (length (bq_data q1)) + ?room \<le> bq_size q1"
  proof (cases ?shift)
    case True
    obtain q1 where "shift_bufferq q ?room = Some q1" "holds q1 (drop_for ?room es)"
      "bq_size q1 = bq_size q"
      "bq_data q1 = [] \<or> int (length (bq_data q1)) + ?room \<le> int (length (bq_data q))"
      using shift_bufferq_holds [OF q, of ?room] by auto
    moreover have "make_room q es e = drop_for ?room es"
      using True by (simp add: make_room_def)
    moreover have "int (length (bq_data q)) \<le> bq_size q"
      using q unfolding holds_def by blast
    ultimately show ?thesis
      using True fits by auto
  next
    case False
    with q fits show ?thesis
      by (auto simp: make_room_def)
  qed
  then obtain q1 where q1: "(if ?shift then shift_bufferq q ?room else Some q) = Some q1"
    "holds q1 (make_room q es e)" "bq_size q1 = bq_size q"
    "int (length (bq_data q1)) + ?room \<le> bq_size q1" by blast
  let ?q = "q1\<lparr>bq_data := bq_data q1 @ entry_bytes e, bq_last_string := be_msg e,
    bq_last_type := char_of (unat (be_type e)), bq_num := bq_num q1 + 1\<rparr>"
  have "add_to_bufferq (be_time e) (Some q) (be_type e) (be_player e) (be_msg e) = Some (Some ?q)"
    unfolding add_to_bufferq_def Let_def room option.case q1(1)
    using fits q1(4) e by (simp add: entry_ok_def)
  moreover have "holds ?q (make_room q es e @ [e])"
    using q1(2,4) e by (auto simp: holds_def)
  ultimately show ?thesis
    using q1(3) by (intro exI [of _ ?q]) simp
qed

lemma add_to_bufferq_size:
  assumes "add_to_bufferq t (Some q) ty pl msg = Some (Some q')"
  shows "bq_size q' = bq_size q"
  using assms
  by (auto simp: add_to_bufferq_def shift_bufferq_def Let_def split: if_splits option.splits)

text \<open>What reading the whole queue with \<open>iter_bufferq\<close> gives.\<close>

function messages :: "bufferq \<Rightarrow> nat option \<Rightarrow> bq_entry list option" where
  "messages q p =
     (case iter_bufferq (Some q) p of
        None \<Rightarrow> None
      | Some (None, _) \<Rightarrow> Some []
      | Some (Some e, p') \<Rightarrow> map_option ((#) e) (messages q p'))"
  by pat_completeness auto
termination
proof (relation "measure (\<lambda>(q, p). length (bq_data q) - (case p of None \<Rightarrow> 0 | Some i \<Rightarrow> i))", simp)
  fix q :: bufferq and p x y p' e
  assume "iter_bufferq (Some q) p = Some x" "(y, p') = x" "y = Some e"
  then obtain i where "p' = Some i" "i \<le> length (bq_data q)" "(case p of None \<Rightarrow> 0 | Some j \<Rightarrow> j) < i"
    using iter_bufferq_advances by blast
  then show "((q, p'), (q, p)) \<in>
      measure (\<lambda>(q, p). length (bq_data q) - (case p of None \<Rightarrow> 0 | Some i \<Rightarrow> i))"
    by auto
qed

declare messages.simps [simp del]

lemma count_lines_messages: "count_lines q p = map_option length (messages q p)"
proof (induction q p rule: messages.induct)
  case (1 q p)
  then show ?case
    by (subst count_lines.simps, subst messages.simps)
       (auto simp: option.map_comp o_def split: option.splits prod.splits)
qed

lemma read_fields:
  "read_int (drop 4 (entry_bytes e @ r)) = be_player e"
  "read_int (drop 8 (entry_bytes e @ r)) = be_type e"
  "read_long (drop 12 (entry_bytes e @ r)) = be_time e"
  "take (length (be_msg e)) (drop 20 (entry_bytes e @ r)) = be_msg e"
  by (simp_all add: entry_bytes_def)

lemma iter_bufferq_entry:
  assumes "entry_ok e" "bq_data q = pre @ entry_bytes e @ r" "i = length pre"
    "p = Some i \<or> p = None \<and> i = 0"
  shows "iter_bufferq (Some q) p = Some (Some e, Some (length (pre @ entry_bytes e)))"
proof -
  have len: "length (be_msg e) < BUFFER_LEN"
    using assms(1) by (simp add: entry_ok_def)
  have room: "entry_room e = 20 + length (be_msg e) + 1"
    by (simp add: entry_room_def BUFFERQLINEOVERHEAD_def)
  have data: "drop i (bq_data q) = entry_bytes e @ r" "bq_data q \<noteq> []" "i \<noteq> length (bq_data q)"
    using assms(2,3) by (auto simp: room)
  have p: "(case p of None \<Rightarrow> 0 | Some j \<Rightarrow> j) = i" "p \<noteq> Some (length (bq_data q))"
    using assms(4) data(3) by auto
  have "\<not> length (drop i (bq_data q)) < 20 + length (be_msg e) + 1"
    by (simp add: data(1) room del: length_drop)
  then show ?thesis
    using len data(2) p(2) read_fields [of e r]
    by (simp add: iter_bufferq_def Let_def p(1) data(1) entry_size [OF assms(1)] room
        assms(3) [symmetric] del: drop_drop drop_append take_append length_drop)
qed

lemma messages_from:
  assumes "bq_data q = pre @ concat (map entry_bytes es)" "\<forall>e \<in> set es. entry_ok e" "bq_data q \<noteq> []"
  shows "messages q (Some (length pre)) = Some es"
  using assms
proof (induction es arbitrary: pre)
  case Nil
  then show ?case
    by (subst messages.simps) (simp add: iter_bufferq_def)
next
  case (Cons e es)
  then have "iter_bufferq (Some q) (Some (length pre)) = Some (Some e, Some (length (pre @ entry_bytes e)))"
    by (intro iter_bufferq_entry [where r = "concat (map entry_bytes es)" and pre = pre]) auto
  moreover have "messages q (Some (length (pre @ entry_bytes e))) = Some es"
    using Cons.prems by (intro Cons.IH) auto
  ultimately show ?case
    by (subst messages.simps) simp
qed

lemma messages_holds:
  assumes "holds q es"
  shows "messages q None = Some es"
proof (cases es)
  case Nil
  with assms show ?thesis
    by (subst messages.simps) (simp add: holds_def iter_bufferq_def)
next
  case (Cons e es')
  have ok: "\<forall>e \<in> set es. entry_ok e" and d: "bq_data q = entry_bytes e @ concat (map entry_bytes es')"
    using assms Cons by (auto simp: holds_def)
  have ne: "bq_data q \<noteq> []"
    using d by simp
  have "iter_bufferq (Some q) None = Some (Some e, Some (length ([] @ entry_bytes e)))"
    using ok Cons d by (intro iter_bufferq_entry [where r = "concat (map entry_bytes es')" and i = 0]) auto
  moreover have "messages q (Some (length (entry_bytes e))) = Some es'"
    using ok Cons d ne by (intro messages_from) auto
  ultimately show ?thesis
    using Cons by (subst messages.simps) simp
qed

section \<open>The contract of a bounded queue\<close>

fun add_all :: "('q \<Rightarrow> 'e \<Rightarrow> 'q option) \<Rightarrow> 'q \<Rightarrow> 'e list \<Rightarrow> 'q option" where
  "add_all add q [] = Some q"
| "add_all add q (e # es) = (case add q e of None \<Rightarrow> None | Some q' \<Rightarrow> add_all add q' es)"

locale bounded_queue =
  fixes add :: "'q \<Rightarrow> 'e \<Rightarrow> 'q option"
    and contents :: "'q \<Rightarrow> 'e list \<Rightarrow> bool"
    and fits :: "'q \<Rightarrow> 'e \<Rightarrow> bool"
  assumes add_contents: "contents q es \<Longrightarrow> fits q e \<Longrightarrow>
      \<exists>q' n. add q e = Some q' \<and> n \<le> length es \<and> contents q' (drop n es @ [e])"
    and add_fits: "add q e = Some q' \<Longrightarrow> fits q' = fits q"
begin

lemma add_all_contents:
  assumes "contents q es" "\<forall>e \<in> set new. fits q e"
  shows "\<exists>q' n. add_all add q new = Some q' \<and> contents q' (drop n (es @ new))
    \<and> (new = [] \<and> n = 0 \<or> n < length (es @ new))"
  using assms
proof (induction new arbitrary: q es)
  case (Cons e new)
  then obtain q1 n where q1: "add q e = Some q1" "n \<le> length es" "contents q1 (drop n es @ [e])"
    using add_contents [of q es e] by auto
  obtain q' m where q': "add_all add q1 new = Some q'" "contents q' (drop m ((drop n es @ [e]) @ new))"
    "new = [] \<and> m = 0 \<or> m < length ((drop n es @ [e]) @ new)"
    using Cons.IH [OF q1(3)] Cons.prems(2) add_fits [OF q1(1)] by auto
  have "drop m ((drop n es @ [e]) @ new) = drop (m + n) (es @ e # new)"
    using q1(2) by (simp add: drop_drop [symmetric] del: drop_drop)
  with q1 q' show ?case
    by (intro exI [of _ q'] exI [of _ "m + n"]) auto
qed (metis add_all.simps(1) append_Nil2 drop0)

end

definition bq_add :: "bufferq \<Rightarrow> bq_entry \<Rightarrow> bufferq option" where
  "bq_add q e =
     (case add_to_bufferq (be_time e) (Some q) (be_type e) (be_player e) (be_msg e) of
        Some (Some q') \<Rightarrow> Some q'
      | _ \<Rightarrow> None)"

definition bq_fits :: "bufferq \<Rightarrow> bq_entry \<Rightarrow> bool" where
  "bq_fits q e \<longleftrightarrow> entry_ok e \<and> int (entry_room e) \<le> bq_size q"

interpretation bq: bounded_queue bq_add holds bq_fits
proof
  fix q es e assume q: "holds q es" and "bq_fits q e"
  then have e: "entry_ok e" "int (entry_room e) \<le> bq_size q"
    by (auto simp: bq_fits_def)
  obtain n where "n \<le> length es" "make_room q es e = drop n es"
    using drop_for_drop [of es "int (entry_room e)"] drop0
    unfolding make_room_def by (metis zero_le)
  moreover obtain q' where "bq_add q e = Some q'" "holds q' (make_room q es e @ [e])"
    using add_to_bufferq_holds [OF q e] by (auto simp: bq_add_def)
  ultimately show "\<exists>q' n. bq_add q e = Some q' \<and> n \<le> length es \<and> holds q' (drop n es @ [e])"
    by metis
next
  fix q e q' assume "bq_add q e = Some q'"
  then show "bq_fits q' = bq_fits q"
    by (auto simp: bq_add_def bq_fits_def fun_eq_iff dest: add_to_bufferq_size split: option.splits)
qed

section \<open>Properties\<close>

lemma holds_allocate: "holds (allocate_bufferq n) []"
  by (simp add: holds_def allocate_bufferq_def)

lemma allocate_fits: "0 < n \<Longrightarrow> entry_ok e \<Longrightarrow> bq_fits (allocate_bufferq n) e"
proof -
  assume "0 < n" "entry_ok e"
  then have "entry_room e \<le> 1 * (BUFFER_LEN + BUFFERQLINEOVERHEAD)"
    and "1 * (BUFFER_LEN + BUFFERQLINEOVERHEAD) \<le> n * (BUFFER_LEN + BUFFERQLINEOVERHEAD)"
    by (simp_all add: entry_ok_def entry_room_def)
  then have "int (entry_room e) \<le> int (n * (BUFFER_LEN + BUFFERQLINEOVERHEAD))"
    by linarith
  with \<open>entry_ok e\<close> show ?thesis
    unfolding bq_fits_def allocate_bufferq_def by simp
qed

text \<open>C27: any number of messages can be added to a queue made by \<open>allocate_bufferq\<close>: no write leaves
  the buffer, and reading the queue back with \<open>iter_bufferq\<close> gives a suffix of what was added,
  which always has the newest message, each with its player, type, time and text, and
  \<open>bufferq_lines\<close> counts them.\<close>

theorem bufferq_keeps_newest:
  assumes "0 < n" "\<forall>e \<in> set es. length (be_msg e) < BUFFER_LEN"
  shows "\<exists>q k. add_all bq_add (allocate_bufferq n) es = Some q
    \<and> messages q None = Some (drop k es) \<and> (es \<noteq> [] \<longrightarrow> k < length es)
    \<and> bufferq_lines (Some q) = Some (length es - k)
    \<and> int (length (bq_data q)) \<le> bq_size q"
proof -
  obtain q k where q: "add_all bq_add (allocate_bufferq n) es = Some q" "holds q (drop k ([] @ es))"
    "es = [] \<and> k = 0 \<or> k < length ([] @ es)"
    using bq.add_all_contents [OF holds_allocate, of es n] assms allocate_fits
    by (auto simp: entry_ok_def)
  have "messages q None = Some (drop k es)"
    using messages_holds [OF q(2)] by simp
  moreover have "bufferq_lines (Some q) = Some (length es - k)"
  proof (cases "bq_data q = []")
    case True
    with calculation have "drop k es = []"
      by (subst (asm) messages.simps) (simp add: iter_bufferq_def)
    with True show ?thesis by (simp add: bufferq_lines_def isempty_bufferq_def)
  qed (simp add: bufferq_lines_def isempty_bufferq_def count_lines_messages calculation)
  ultimately show ?thesis
    using q by (intro exI [of _ q] exI [of _ k]) (auto simp: holds_def)
qed

lemma bufferq_keeps_newest_witness:
  "\<exists>q k. add_all bq_add (allocate_bufferq 1)
      [\<lparr>be_player = 1, be_type = 2, be_time = 3, be_msg = ''hello''\<rparr>] = Some q
    \<and> messages q None = Some (drop k [\<lparr>be_player = 1, be_type = 2, be_time = 3, be_msg = ''hello''\<rparr>])"
proof -
  have "\<forall>e \<in> set [\<lparr>be_player = 1, be_type = 2, be_time = 3, be_msg = ''hello''\<rparr>].
      length (be_msg e) < BUFFER_LEN"
    by (simp add: BUFFER_LEN_def)
  from bufferq_keeps_newest [OF _ this, of 1] show ?thesis
    by (metis zero_less_one)
qed

end
