(* ===== verification/Mush_Ptab.thy ===== *)
theory Mush_Ptab
  imports Mush_Strutil
begin

text \<open>
  The prefix tables of \<open>src/src/ptab.c\<close>: entries sorted by key without regard to case, filled
  in one go between \<open>ptab_start_inserts\<close> and \<open>ptab_end_inserts\<close> or one at a time, and looked
  up by a unique prefix or exactly, by a linear search when there are fewer than ten entries
  and by a binary search otherwise.  \<open>pt_entries\<close> is \<open>tab[0 .. len - 1]\<close>; the array has
  \<open>pt_maxlen\<close> slots, and a write past them is \<open>None\<close>.  A null data pointer is the result
  \<open>None\<close> of a lookup.  Entries are pointers to immutable keys, so that copying a slot is
  copying the entry.
\<close>

section \<open>Definitions\<close>

record 'a ptab_entry =
  pe_key :: string
  pe_data :: 'a

record 'a ptab =
  pt_state :: bool
  pt_entries :: "'a ptab_entry list"
  pt_maxlen :: nat
  pt_current :: nat

definition ptab_init :: "'a ptab" where
  "ptab_init = \<lparr>pt_state = False, pt_entries = [], pt_maxlen = 0, pt_current = 0\<rparr>"

definition ptab_free :: "'a ptab \<Rightarrow> 'a ptab" where
  "ptab_free tab = tab\<lparr>pt_state := False, pt_entries := [], pt_maxlen := 0, pt_current := 0\<rparr>"

text \<open>\<open>ptab_find\<close> on a small table: the first entry with the prefix, unless the next has it too.\<close>

fun ptab_find_linear :: "string \<Rightarrow> 'a ptab_entry list \<Rightarrow> 'a option" where
  "ptab_find_linear key [] = None"
| "ptab_find_linear key (e # es) =
     (if prefix_loop (pe_key e) key
      then (case es of
              f # _ \<Rightarrow> if prefix_loop (pe_key f) key then None else Some (pe_data e)
            | [] \<Rightarrow> Some (pe_data e))
      else ptab_find_linear key es)"

text \<open>
  The two scans of the binary search, from \<open>n - 1\<close> down and from \<open>n + 1\<close> up: the data of an
  exact match, or where the scan stopped.  \<open>scan_down\<close> counts from \<open>m + 1\<close>.
\<close>

fun scan_down :: "'a ptab_entry list \<Rightarrow> string \<Rightarrow> nat \<Rightarrow> 'a + nat" where
  "scan_down es key 0 = Inr 0"
| "scan_down es key (Suc m) =
     (if prefix_loop (pe_key (es ! m)) key
      then if strcasecmp (pe_key (es ! m)) key = 0 then Inl (pe_data (es ! m)) else scan_down es key m
      else Inr (Suc m))"

function scan_up :: "'a ptab_entry list \<Rightarrow> string \<Rightarrow> nat \<Rightarrow> 'a + nat" where
  "scan_up es key i =
     (if i < length es then
        if prefix_loop (pe_key (es ! i)) key
        then if strcasecmp (pe_key (es ! i)) key = 0 then Inl (pe_data (es ! i)) else scan_up es key (i + 1)
        else Inr i
      else Inr i)"
  by pat_completeness auto
termination
  by (relation "measure (\<lambda>(es, key, i). length es - i)") auto

declare scan_up.simps [simp del]

definition unique_prefix :: "'a ptab_entry list \<Rightarrow> string \<Rightarrow> nat \<Rightarrow> 'a option" where
  "unique_prefix es key n =
     (case scan_down es key n of
        Inl d \<Rightarrow> Some d
      | Inr m \<Rightarrow>
          if m \<noteq> n then None
          else case scan_up es key (n + 1) of
                 Inl d \<Rightarrow> Some d
               | Inr i \<Rightarrow> if i \<noteq> n + 1 then None else Some (pe_data (es ! n)))"

function ptab_find_binary :: "'a ptab_entry list \<Rightarrow> string \<Rightarrow> nat \<Rightarrow> nat \<Rightarrow> 'a option" where
  "ptab_find_binary es key left right =
     (let n = (left + right) div 2 in
      if right < left then None
      else
        let cmp = strcasecmp key (pe_key (es ! n)) in
        if cmp = 0 then Some (pe_data (es ! n))
        else if cmp < 0 then
          if prefix_loop (pe_key (es ! n)) key then unique_prefix es key n
          else if left = right then None
          else if n = 0 then None
          else ptab_find_binary es key left (n - 1)
        else if left = right then None
        else ptab_find_binary es key (n + 1) right)"
  by pat_completeness auto
termination
  by (relation "measure (\<lambda>(es, key, left, right). Suc right - left)") auto

declare ptab_find_binary.simps [simp del]

definition ptab_find :: "'a ptab option \<Rightarrow> string option \<Rightarrow> 'a option" where
  "ptab_find tab key =
     (case (tab, key) of
        (Some t, Some k) \<Rightarrow>
          if k = [] \<or> pt_state t then None
          else if length (pt_entries t) < 10 then ptab_find_linear k (pt_entries t)
          else ptab_find_binary (pt_entries t) k 0 (length (pt_entries t) - 1)
      | _ \<Rightarrow> None)"

fun exact_linear :: "'a ptab_entry list \<Rightarrow> string \<Rightarrow> nat \<Rightarrow> nat option" where
  "exact_linear [] key n = None"
| "exact_linear (e # es) key n =
     (let cmp = strcasecmp (pe_key e) key in
      if cmp = 0 then Some n else if 0 < cmp then None else exact_linear es key (n + 1))"

function exact_binary :: "'a ptab_entry list \<Rightarrow> string \<Rightarrow> nat \<Rightarrow> nat \<Rightarrow> nat option" where
  "exact_binary es key left right =
     (let n = (left + right) div 2 in
      if right < left then None
      else
        let cmp = strcasecmp key (pe_key (es ! n)) in
        if cmp = 0 then Some n
        else if left = right then None
        else if cmp < 0 then
          if n = 0 then None else exact_binary es key left (n - 1)
        else exact_binary es key (n + 1) right)"
  by pat_completeness auto
termination
  by (relation "measure (\<lambda>(es, key, left, right). Suc right - left)") auto

declare exact_binary.simps [simp del]

text \<open>The index, or \<open>None\<close> for -1.\<close>

definition ptab_find_exact_nun :: "'a ptab option \<Rightarrow> string option \<Rightarrow> nat option" where
  "ptab_find_exact_nun tab key =
     (case (tab, key) of
        (Some t, Some k) \<Rightarrow>
          if pt_state t then None
          else if length (pt_entries t) < 10 then exact_linear (pt_entries t) k 0
          else exact_binary (pt_entries t) k 0 (length (pt_entries t) - 1)
      | _ \<Rightarrow> None)"

definition ptab_find_exact :: "'a ptab option \<Rightarrow> string option \<Rightarrow> 'a option" where
  "ptab_find_exact tab key =
     (case (tab, ptab_find_exact_nun tab key) of
        (Some t, Some n) \<Rightarrow> Some (pe_data (pt_entries t ! n))
      | _ \<Rightarrow> None)"

definition delete_entry :: "'a ptab \<Rightarrow> nat \<Rightarrow> 'a ptab" where
  "delete_entry tab n =
     (let es = pt_entries tab in
      if es = [] then tab
      else if n < length es - 1 then tab\<lparr>pt_entries := take n es @ drop (n + 1) es\<rparr>
      else tab\<lparr>pt_entries := take (length es - 1) es\<rparr>)"

definition ptab_delete :: "'a ptab \<Rightarrow> string \<Rightarrow> 'a ptab" where
  "ptab_delete tab key =
     (case ptab_find_exact_nun (Some tab) (Some key) of
        Some n \<Rightarrow> delete_entry tab n
      | None \<Rightarrow> tab)"

definition ptab_start_inserts :: "'a ptab \<Rightarrow> 'a ptab" where
  "ptab_start_inserts tab = tab\<lparr>pt_state := True\<rparr>"

definition ptab_cmp :: "'a ptab_entry \<Rightarrow> 'a ptab_entry \<Rightarrow> int" where
  "ptab_cmp a b = strcasecmp (pe_key a) (pe_key b)"

text \<open>
  \<open>qsort\<close> of the C library, as an insertion sort; what is proved of a sorted table does not
  depend on the order in which it leaves equal entries.
\<close>

fun sort_into :: "('e \<Rightarrow> 'e \<Rightarrow> int) \<Rightarrow> 'e \<Rightarrow> 'e list \<Rightarrow> 'e list" where
  "sort_into cmp x [] = [x]"
| "sort_into cmp x (y # ys) = (if cmp x y \<le> 0 then x # y # ys else y # sort_into cmp x ys)"

fun c_qsort :: "('e \<Rightarrow> 'e \<Rightarrow> int) \<Rightarrow> 'e list \<Rightarrow> 'e list" where
  "c_qsort cmp [] = []"
| "c_qsort cmp (x # xs) = sort_into cmp x (c_qsort cmp xs)"

text \<open>The booleans say whether \<open>realloc\<close> succeeds.\<close>

definition ptab_end_inserts :: "bool \<Rightarrow> 'a ptab \<Rightarrow> 'a ptab" where
  "ptab_end_inserts realloc_ok tab =
     (let t = tab\<lparr>pt_state := False, pt_entries := c_qsort ptab_cmp (pt_entries tab)\<rparr> in
      if realloc_ok then t\<lparr>pt_maxlen := length (pt_entries t) + 10\<rparr> else t)"

definition ptab_grow :: "bool \<Rightarrow> 'a ptab \<Rightarrow> 'a ptab" where
  "ptab_grow realloc_ok tab =
     (let newlen = (if pt_maxlen tab = 0 then 200 else pt_maxlen tab * 2) in
      if realloc_ok then tab\<lparr>pt_maxlen := newlen\<rparr> else tab)"

definition ptab_insert :: "bool \<Rightarrow> 'a ptab \<Rightarrow> string \<Rightarrow> 'a \<Rightarrow> 'a ptab option" where
  "ptab_insert realloc_ok tab key data =
     (if \<not> pt_state tab then Some tab
      else
        let t = (if pt_maxlen tab \<le> length (pt_entries tab) then ptab_grow realloc_ok tab else tab) in
        if pt_maxlen t \<le> length (pt_entries t) then None
        else Some (t\<lparr>pt_entries := pt_entries t @ [\<lparr>pe_key = key, pe_data = data\<rparr>]\<rparr>))"

text \<open>Where \<open>ptab_insert_one\<close> splices the new entry in; \<open>None\<close> for a duplicate.\<close>

fun insert_position :: "'a ptab_entry list \<Rightarrow> string \<Rightarrow> nat \<Rightarrow> nat option" where
  "insert_position [] key n = Some n"
| "insert_position (e # es) key n =
     (let m = strcasecmp (pe_key e) key in
      if m = 0 then None else if 0 < m then Some n else insert_position es key (n + 1))"

definition ptab_insert_one :: "bool \<Rightarrow> 'a ptab \<Rightarrow> string \<Rightarrow> 'a \<Rightarrow> 'a ptab option" where
  "ptab_insert_one realloc_ok tab key data =
     (if pt_state tab then ptab_insert realloc_ok tab key data
      else
        let t = (if pt_maxlen tab \<le> length (pt_entries tab) + 1 then ptab_grow realloc_ok tab else tab);
            es = pt_entries t
        in case insert_position es key 0 of
             None \<Rightarrow> Some t
           | Some n \<Rightarrow>
               if pt_maxlen t \<le> length es then None
               else Some (t\<lparr>pt_entries := take n es @ \<lparr>pe_key = key, pe_data = data\<rparr> # drop n es\<rparr>))"

text \<open>The key is the second result; the last is the table with its new position.\<close>

definition ptab_firstentry_new :: "'a ptab \<Rightarrow> ('a \<times> string) option \<times> 'a ptab" where
  "ptab_firstentry_new tab =
     (case pt_entries tab of
        [] \<Rightarrow> (None, tab)
      | e # _ \<Rightarrow> (Some (pe_data e, pe_key e), tab\<lparr>pt_current := 1\<rparr>))"

definition ptab_nextentry_new :: "'a ptab \<Rightarrow> ('a \<times> string) option \<times> 'a ptab" where
  "ptab_nextentry_new tab =
     (if length (pt_entries tab) \<le> pt_current tab then (None, tab)
      else let e = pt_entries tab ! pt_current tab in
        (Some (pe_data e, pe_key e), tab\<lparr>pt_current := pt_current tab + 1\<rparr>))"

text \<open>The memory column of \<open>ptab_stats\<close>: pointers are 8 bytes, an entry without its key is 8.\<close>

definition ptab_memory :: "'a ptab \<Rightarrow> nat" where
  "ptab_memory tab = 8 * pt_maxlen tab + sum_list (map (\<lambda>e. 8 + length (pe_key e) + 1) (pt_entries tab))"

section \<open>Sorted tables\<close>

definition ekey :: "'a ptab_entry \<Rightarrow> nat list" where
  "ekey e = case_key (pe_key e)"

definition sorted_tab :: "'a ptab_entry list \<Rightarrow> bool" where
  "sorted_tab es \<longleftrightarrow> sorted_wrt (\<lambda>a b. ekey a < ekey b) es \<and> (\<forall>e \<in> set es. no_nul (pe_key e))"

lemma prefix_le: "prefix p (q :: 'a :: linorder list) \<Longrightarrow> p \<le> q"
proof (induction p arbitrary: q)
  case (Cons a p)
  then show ?case by (cases q) auto
qed simp

lemma prefix_between: "prefix p q \<Longrightarrow> p \<le> r \<Longrightarrow> r \<le> q \<Longrightarrow> prefix p (r :: 'a :: linorder list)"
proof (induction p arbitrary: q r)
  case (Cons a p)
  then obtain q' where q: "q = a # q'" "prefix p q'" by (cases q) auto
  with Cons.prems obtain r' where r: "r = a # r'" "p \<le> r'" "r' \<le> q'"
    by (cases r) auto
  with Cons.IH [OF q(2)] show ?case by simp
qed simp

lemma sorted_tab_nth_less:
  "sorted_tab es \<Longrightarrow> i < j \<Longrightarrow> j < length es \<Longrightarrow> ekey (es ! i) < ekey (es ! j)"
  by (auto simp: sorted_tab_def sorted_wrt_iff_nth_less)

lemma sorted_tab_nth_iff:
  assumes "sorted_tab es" "i < length es" "j < length es"
  shows "ekey (es ! i) < ekey (es ! j) \<longleftrightarrow> i < j"
  using assms sorted_tab_nth_less [of es i j] sorted_tab_nth_less [of es j i]
  by (metis less_asym' linorder_neqE_nat)

lemma sorted_tab_no_nul: "sorted_tab es \<Longrightarrow> i < length es \<Longrightarrow> no_nul (pe_key (es ! i))"
  by (auto simp: sorted_tab_def)

lemma sorted_tab_Cons:
  "sorted_tab (e # es) \<longleftrightarrow> no_nul (pe_key e) \<and> (\<forall>f \<in> set es. ekey e < ekey f) \<and> sorted_tab es"
  by (auto simp: sorted_tab_def)

lemma sorted_tab_distinct: "sorted_tab es \<Longrightarrow> distinct (map ekey es)"
  by (induction es) (auto simp: sorted_tab_Cons)

lemma sorted_tab_append:
  "sorted_tab (xs @ ys) \<longleftrightarrow> sorted_tab xs \<and> sorted_tab ys \<and> (\<forall>x \<in> set xs. \<forall>y \<in> set ys. ekey x < ekey y)"
  by (auto simp: sorted_tab_def sorted_wrt_append)

text \<open>The entries a key is a prefix of, and the one it names exactly.\<close>

definition has_prefix :: "string \<Rightarrow> 'a ptab_entry \<Rightarrow> bool" where
  "has_prefix key e \<longleftrightarrow> prefix (case_key key) (ekey e)"

definition is_named :: "string \<Rightarrow> 'a ptab_entry \<Rightarrow> bool" where
  "is_named key e \<longleftrightarrow> ekey e = case_key key"

lemma prefix_loop_has: "prefix_loop (pe_key e) key = has_prefix key e"
  by (simp add: prefix_loop_key has_prefix_def ekey_def)

lemma strcasecmp_named:
  assumes "no_nul (pe_key e)" "no_nul key"
  shows "strcasecmp (pe_key e) key = 0 \<longleftrightarrow> is_named key e" "strcasecmp key (pe_key e) = 0 \<longleftrightarrow> is_named key e"
    "strcasecmp key (pe_key e) < 0 \<longleftrightarrow> case_key key < ekey e"
    "0 < strcasecmp key (pe_key e) \<longleftrightarrow> ekey e < case_key key"
    "0 < strcasecmp (pe_key e) key \<longleftrightarrow> case_key key < ekey e"
  using assms strcasecmp_order.cmp_greater
  by (auto simp: strcasecmp_zero strcasecmp_less is_named_def ekey_def)

lemma named_has_prefix: "is_named key e \<Longrightarrow> has_prefix key e"
  by (simp add: is_named_def has_prefix_def)

lemma has_prefix_le: "has_prefix key e \<Longrightarrow> case_key key \<le> ekey e"
  by (simp add: has_prefix_def prefix_le)

lemma has_prefix_between:
  assumes "sorted_tab es" "has_prefix key (es ! j)" "j < length es" "i \<le> j" "case_key key \<le> ekey (es ! i)"
  shows "has_prefix key (es ! i)"
  using assms sorted_tab_nth_less [of es i j] prefix_between [of "case_key key" "ekey (es ! j)" "ekey (es ! i)"]
  by (cases "i = j") (auto simp: has_prefix_def)

lemma named_unique:
  "sorted_tab es \<Longrightarrow> i < length es \<Longrightarrow> j < length es \<Longrightarrow> is_named key (es ! i) \<Longrightarrow> is_named key (es ! j) \<Longrightarrow> i = j"
  using sorted_tab_nth_iff [of es i j] sorted_tab_nth_iff [of es j i]
  by (metis is_named_def less_irrefl linorder_neqE_nat)

section \<open>What the searches compute\<close>

definition ptab_spec :: "'a ptab_entry list \<Rightarrow> string \<Rightarrow> 'a option" where
  "ptab_spec es key =
     (case filter (has_prefix key) es of
        [] \<Rightarrow> None
      | [e] \<Rightarrow> Some (pe_data e)
      | _ \<Rightarrow> (case find (is_named key) es of Some e \<Rightarrow> Some (pe_data e) | None \<Rightarrow> None))"

lemma filter_single:
  assumes "n < length xs" "P (xs ! n)" "\<forall>i < length xs. P (xs ! i) \<longrightarrow> i = n"
  shows "filter P xs = [xs ! n]"
proof -
  have xs: "xs = take n xs @ xs ! n # drop (Suc n) xs"
    using assms(1) by (rule id_take_nth_drop)
  have "\<not> P x" if "x \<in> set (take n xs)" for x
    using that assms(1,3) by (metis in_set_conv_nth length_take less_irrefl min_less_iff_conj nth_take)
  then have "filter P (take n xs) = []"
    by (simp add: filter_empty_conv)
  moreover have "\<not> P x" if "x \<in> set (drop (Suc n) xs)" for x
  proof -
    from that obtain i where "i < length xs - Suc n" "x = xs ! (Suc n + i)"
      by (auto simp: in_set_conv_nth)
    moreover from this have "Suc n + i < length xs" by simp
    ultimately show ?thesis using assms(3) [rule_format, of "Suc n + i"] by auto
  qed
  then have "filter P (drop (Suc n) xs) = []"
    by (simp add: filter_empty_conv)
  ultimately show ?thesis
    using assms(2) by (subst xs) simp
qed

lemma filter_two:
  assumes "i < length xs" "j < length xs" "i \<noteq> j" "P (xs ! i)" "P (xs ! j)"
  shows "\<exists>a b r. filter P xs = a # b # r"
proof -
  have "card {k. k < length xs \<and> P (xs ! k)} \<ge> card {i, j}"
    using assms by (intro card_mono) auto
  then have "2 \<le> length (filter P xs)"
    using assms(3) by (simp add: length_filter_conv_card)
  then show ?thesis
    by (metis Suc_le_length_iff numeral_2_eq_2)
qed

lemma find_named:
  assumes "sorted_tab es" "n < length es" "is_named key (es ! n)"
  shows "find (is_named key) es = Some (es ! n)"
  using assms named_unique [of es n] unfolding find_Some_iff
  by (intro exI [of _ n]) (metis less_irrefl order_less_trans)

lemma find_none: "\<forall>i < length es. \<not> is_named key (es ! i) \<Longrightarrow> find (is_named key) es = None"
  by (auto simp: find_None_iff in_set_conv_nth)

lemma ptab_spec_named:
  assumes "sorted_tab es" "n < length es" "is_named key (es ! n)"
  shows "ptab_spec es key = Some (pe_data (es ! n))"
proof (cases "\<forall>i < length es. has_prefix key (es ! i) \<longrightarrow> i = n")
  case True
  from filter_single [OF assms(2) named_has_prefix [OF assms(3)] this] show ?thesis
    by (simp add: ptab_spec_def)
next
  case False
  then obtain j where "j < length es" "has_prefix key (es ! j)" "n \<noteq> j" by blast
  from filter_two [OF assms(2) this(1,3) named_has_prefix [OF assms(3)] this(2)]
  obtain a b r where "filter (has_prefix key) es = a # b # r" by blast
  then show ?thesis
    unfolding ptab_spec_def by (simp only: list.case find_named [OF assms] option.case)
qed

lemma ptab_spec_unique:
  assumes "n < length es" "has_prefix key (es ! n)" "\<forall>i < length es. has_prefix key (es ! i) \<longrightarrow> i = n"
  shows "ptab_spec es key = Some (pe_data (es ! n))"
  using filter_single [OF assms] by (simp add: ptab_spec_def)

lemma ptab_spec_ambiguous:
  assumes "i < length es" "j < length es" "i \<noteq> j" "has_prefix key (es ! i)" "has_prefix key (es ! j)"
    "\<forall>k < length es. \<not> is_named key (es ! k)"
  shows "ptab_spec es key = None"
proof -
  obtain a b r where "filter (has_prefix key) es = a # b # r"
    using filter_two [OF assms(1-5)] by blast
  then show ?thesis
    unfolding ptab_spec_def by (simp only: list.case find_none [OF assms(6)] option.case)
qed

lemma ptab_spec_absent:
  assumes "\<forall>i < length es. \<not> has_prefix key (es ! i)"
  shows "ptab_spec es key = None"
proof -
  have "filter (has_prefix key) es = []"
    using assms by (auto simp: filter_empty_conv in_set_conv_nth)
  then show ?thesis by (simp add: ptab_spec_def)
qed

section \<open>The searches\<close>

lemma ptab_find_linear_filter:
  assumes "sorted_tab es"
  shows "ptab_find_linear key es =
    (case filter (has_prefix key) es of [e] \<Rightarrow> Some (pe_data e) | _ \<Rightarrow> None)"
  using assms
proof (induction es)
  case (Cons e es)
  show ?case
  proof (cases "has_prefix key e")
    case e: True
    show ?thesis
    proof (cases es)
      case (Cons f fs)
      have "filter (has_prefix key) fs = []" if "\<not> has_prefix key f"
      proof -
        have "\<not> has_prefix key g" if "g \<in> set fs" for g
        proof
          assume g: "has_prefix key g"
          have "case_key key \<le> ekey e" "ekey e < ekey f" "ekey f < ekey g"
            using has_prefix_le [OF e] Cons.prems that by (auto simp: Cons sorted_tab_Cons)
          then have "has_prefix key f"
            using g prefix_between [of "case_key key" "ekey g" "ekey f"] by (simp add: has_prefix_def)
          with \<open>\<not> has_prefix key f\<close> show False by simp
        qed
        then show ?thesis by (simp add: filter_empty_conv)
      qed
      then show ?thesis using e Cons by (simp add: prefix_loop_has)
    qed (simp add: e prefix_loop_has)
  next
    case False
    with Cons show ?thesis by (simp add: prefix_loop_has sorted_tab_Cons)
  qed
qed simp

lemma scan_down_Inl:
  assumes "scan_down es key n = Inl d" "n \<le> length es" "sorted_tab es" "no_nul key"
  shows "\<exists>m < n. is_named key (es ! m) \<and> d = pe_data (es ! m)"
  using assms
proof (induction n)
  case (Suc n)
  then show ?case
    using sorted_tab_no_nul [of es n]
    by (auto simp: prefix_loop_has strcasecmp_named less_Suc_eq split: if_splits)
qed simp

lemma scan_down_Inr:
  assumes "scan_down es key n = Inr j" "n \<le> length es" "sorted_tab es" "no_nul key"
  shows "j \<le> n \<and> (\<forall>m. j \<le> m \<and> m < n \<longrightarrow> has_prefix key (es ! m) \<and> \<not> is_named key (es ! m))
    \<and> (0 < j \<longrightarrow> \<not> has_prefix key (es ! (j - 1)))"
  using assms
proof (induction n)
  case (Suc n)
  then show ?case
    using sorted_tab_no_nul [of es n]
    by (auto simp: prefix_loop_has strcasecmp_named less_Suc_eq split: if_splits)
qed simp

lemma scan_up_Inl:
  assumes "scan_up es key i = Inl d" "sorted_tab es" "no_nul key"
  shows "\<exists>m \<ge> i. m < length es \<and> is_named key (es ! m) \<and> d = pe_data (es ! m)"
  using assms
proof (induction es key i rule: scan_up.induct)
  case (1 es key i)
  then show ?case
    using sorted_tab_no_nul [of es i]
    by (subst (asm) scan_up.simps)
      (auto simp: prefix_loop_has strcasecmp_named Suc_le_eq split: if_splits intro: less_imp_le)
qed

lemma scan_up_Inr:
  assumes "scan_up es key i = Inr j"
  shows "i \<le> j \<and> (j = i \<longrightarrow> i < length es \<longrightarrow> \<not> has_prefix key (es ! i))
    \<and> (j \<noteq> i \<longrightarrow> i < length es \<and> has_prefix key (es ! i))"
  using assms
proof (induction es key i rule: scan_up.induct)
  case (1 es key i)
  show ?case
  proof (cases "i < length es \<and> prefix_loop (pe_key (es ! i)) key \<and> strcasecmp (pe_key (es ! i)) key \<noteq> 0")
    case True
    with "1.prems" have "scan_up es key (i + 1) = Inr j"
      by (subst (asm) scan_up.simps) simp
    with "1.IH" True have "i + 1 \<le> j" by blast
    with True show ?thesis by (simp add: prefix_loop_has)
  next
    case False
    with "1.prems" show ?thesis
      by (subst (asm) scan_up.simps) (auto simp: prefix_loop_has split: if_splits)
  qed
qed

lemma unique_prefix_spec:
  assumes s: "sorted_tab es" and k: "no_nul key" and n: "n < length es" "has_prefix key (es ! n)"
    and less: "case_key key < ekey (es ! n)"
  shows "unique_prefix es key n = ptab_spec es key"
proof -
  have named: "m < n" if "m < length es" "is_named key (es ! m)" for m
    using that less sorted_tab_nth_iff [OF s that(1) n(1)] by (simp add: is_named_def)
  show ?thesis
  proof (cases "scan_down es key n")
    case (Inl d)
    then obtain m where "m < n" "is_named key (es ! m)" "d = pe_data (es ! m)"
      using scan_down_Inl [OF Inl _ s k] n by auto
    with Inl n ptab_spec_named [OF s, of m key] show ?thesis
      by (simp add: unique_prefix_def)
  next
    case (Inr j)
    have j: "j \<le> n" "\<And>m. j \<le> m \<Longrightarrow> m < n \<Longrightarrow> has_prefix key (es ! m) \<and> \<not> is_named key (es ! m)"
      "0 < j \<Longrightarrow> \<not> has_prefix key (es ! (j - 1))"
      using scan_down_Inr [OF Inr _ s k] n by auto
    have low: "j \<le> m" if "m < length es" "has_prefix key (es ! m)" for m
    proof (rule ccontr)
      assume "\<not> j \<le> m"
      moreover from this have "m < j - 1 \<or> m = j - 1" "j - 1 < length es"
        using j(1) n(1) by auto
      then have "ekey (es ! m) \<le> ekey (es ! (j - 1))"
        using sorted_tab_nth_less [OF s, of m "j - 1"] by (auto intro: less_imp_le)
      ultimately show False
        using has_prefix_between [OF s n(2) n(1), of "j - 1"] has_prefix_le [OF that(2)] j by force
    qed
    have no_name: "\<forall>m < length es. \<not> is_named key (es ! m)"
      using low named named_has_prefix j(2) by metis
    show ?thesis
    proof (cases "j = n")
      case False
      with j n have "ptab_spec es key = None"
        using ptab_spec_ambiguous [of j es n key] no_name by simp
      with False Inr show ?thesis by (simp add: unique_prefix_def)
    next
      case True
      show ?thesis
      proof (cases "scan_up es key (n + 1)")
        case up: (Inl d)
        with scan_up_Inl [OF up s k] named show ?thesis by force
      next
        case up: (Inr i)
        note i = scan_up_Inr [OF up]
        show ?thesis
        proof (cases "i = n + 1")
          case False
          with i have "ptab_spec es key = None"
            using ptab_spec_ambiguous [of n es "n + 1" key] no_name n by simp
          with False Inr up True show ?thesis by (simp add: unique_prefix_def)
        next
          case alone: True
          have "m = n" if m: "m < length es" "has_prefix key (es ! m)" for m
          proof (rule ccontr)
            assume "m \<noteq> n"
            with low [OF m] True have "n + 1 \<le> m" by simp
            with m s have "has_prefix key (es ! (n + 1))"
              using has_prefix_between [of es key m "n + 1"] less sorted_tab_nth_less [of es n "n + 1"]
              by (meson less_add_one less_le_not_le less_trans order_le_less_trans)
            with i alone m \<open>n + 1 \<le> m\<close> show False by simp
          qed
          with n ptab_spec_unique [of n es key] have "ptab_spec es key = Some (pe_data (es ! n))"
            by blast
          with alone Inr up True show ?thesis by (simp add: unique_prefix_def)
        qed
      qed
    qed
  qed
qed

lemma ptab_find_binary_spec:
  assumes "sorted_tab es" "no_nul key" "right < length es"
    "\<forall>i < length es. has_prefix key (es ! i) \<longrightarrow> left \<le> i \<and> i \<le> right"
  shows "ptab_find_binary es key left right = ptab_spec es key"
  using assms
proof (induction es key left right rule: ptab_find_binary.induct)
  case (1 es key left right)
  note s = "1.prems"(1) and k = "1.prems"(2) and inside = "1.prems"(4)
  define n where "n = (left + right) div 2"
  show ?case
  proof (cases "right < left")
    case True
    then have "\<forall>i < length es. \<not> has_prefix key (es ! i)"
      using inside by force
    from ptab_spec_absent [OF this] True show ?thesis
      by (subst ptab_find_binary.simps) simp
  next
    case False
    then have n: "left \<le> n" "n \<le> right" "n < length es"
      using "1.prems"(3) by (auto simp: n_def)
    have nn: "no_nul (pe_key (es ! n))" using s n(3) by (rule sorted_tab_no_nul)
    note cmp = strcasecmp_named [OF nn k]
    have after: "i \<le> n - 1 \<and> n \<noteq> 0" if "case_key key < ekey (es ! n)" "\<not> has_prefix key (es ! n)"
        "i < length es" "has_prefix key (es ! i)" for i
    proof -
      have "\<not> n \<le> i"
        using has_prefix_between [OF s that(4,3), of n] less_imp_le [OF that(1)] that(2) by auto
      then show ?thesis by simp
    qed
    have before: "n + 1 \<le> i" if "ekey (es ! n) < case_key key" "i < length es" "has_prefix key (es ! i)" for i
      using order_less_le_trans [OF that(1) has_prefix_le [OF that(3)]] sorted_tab_nth_iff [OF s n(3) that(2)]
      by simp
    consider (named) "is_named key (es ! n)"
      | (less) "case_key key < ekey (es ! n)" | (greater) "ekey (es ! n) < case_key key"
      unfolding is_named_def by (metis linorder_neqE)
    then show ?thesis
    proof cases
      case named
      then show ?thesis
        using False n by (subst ptab_find_binary.simps) (simp add: cmp ptab_spec_named [OF s] flip: n_def)
    next
      case less
      then have not_named: "\<not> is_named key (es ! n)" by (simp add: is_named_def)
      show ?thesis
      proof (cases "has_prefix key (es ! n)")
        case True
        then show ?thesis
          using False less not_named unique_prefix_spec [OF s k n(3) True less]
          by (subst ptab_find_binary.simps) (simp add: cmp prefix_loop_has flip: n_def)
      next
        case no: False
        show ?thesis
        proof (cases "left = right \<or> n = 0")
          case True
          then have "\<forall>i < length es. \<not> has_prefix key (es ! i)"
            using inside after less no n by (metis antisym_conv diff_is_0_eq' le_antisym linorder_not_le
                less_numeral_extra(3) not_less_eq_eq One_nat_def Suc_pred neq0_conv)
          with ptab_spec_absent have "ptab_spec es key = None" by blast
          with True False less not_named no show ?thesis
            by (subst ptab_find_binary.simps) (auto simp: cmp prefix_loop_has simp flip: n_def)
        next
          case go: False
          have "ptab_find_binary es key left (n - 1) = ptab_spec es key"
            using "1.IH"(1) [OF n_def False refl] False less not_named no go cmp s k n inside after less
            by (simp add: prefix_loop_has)
          with go False less not_named no show ?thesis
            by (subst ptab_find_binary.simps) (simp add: cmp prefix_loop_has flip: n_def)
        qed
      qed
    next
      case greater
      then have not: "\<not> is_named key (es ! n)" "\<not> case_key key < ekey (es ! n)"
        by (auto simp: is_named_def)
      show ?thesis
      proof (cases "left = right")
        case True
        then have "\<forall>i < length es. \<not> has_prefix key (es ! i)"
          using inside before [OF greater] n by force
        with ptab_spec_absent have "ptab_spec es key = None" by blast
        with True False not show ?thesis
          unfolding ptab_find_binary.simps [of es key left right] n_def [symmetric] Let_def
          by (simp add: cmp)
      next
        case go: False
        have "ptab_find_binary es key (n + 1) right = ptab_spec es key"
          using "1.IH"(2) [OF n_def False refl] False not go cmp s k n inside before [OF greater] "1.prems"(3)
          by simp
        with go False not show ?thesis
          by (subst ptab_find_binary.simps) (simp add: cmp flip: n_def)
      qed
    qed
  qed
qed

text \<open>What an exact search returns: the index of the entry with that name, if there is one.\<close>

definition names :: "'a ptab_entry list \<Rightarrow> string \<Rightarrow> nat option \<Rightarrow> bool" where
  "names es key r \<longleftrightarrow>
     (case r of Some i \<Rightarrow> i < length es \<and> is_named key (es ! i) | None \<Rightarrow> \<forall>e \<in> set es. \<not> is_named key e)"

lemma names_None: "names es key None \<longleftrightarrow> (\<forall>i < length es. \<not> is_named key (es ! i))"
  unfolding names_def option.case by (metis in_set_conv_nth)

lemma exact_linear_names:
  assumes "sorted_tab es" "no_nul key"
  shows "case exact_linear es key n of
      Some i \<Rightarrow> n \<le> i \<and> i < n + length es \<and> is_named key (es ! (i - n))
    | None \<Rightarrow> \<forall>e \<in> set es. \<not> is_named key e"
  using assms
proof (induction es arbitrary: n)
  case (Cons e es)
  then have e: "no_nul (pe_key e)" "\<forall>f \<in> set es. ekey e < ekey f" "sorted_tab es"
    by (auto simp: sorted_tab_Cons)
  note cmp = strcasecmp_named [OF e(1) Cons.prems(2)]
  consider "is_named key e" | "case_key key < ekey e" | "\<not> is_named key e" "ekey e < case_key key"
    unfolding is_named_def by (metis linorder_neqE less_irrefl)
  then show ?case
  proof cases
    case 2
    then show ?thesis using e by (auto simp: Let_def cmp is_named_def)
  next
    case 3
    then show ?thesis
      using Cons.IH [OF e(3) Cons.prems(2), of "n + 1"]
      by (auto simp: Let_def cmp Suc_diff_le nth_Cons' split: option.splits)
  qed (simp add: Let_def cmp)
qed simp

lemma exact_binary_names:
  assumes "sorted_tab es" "no_nul key" "right < length es"
    "\<forall>i < length es. is_named key (es ! i) \<longrightarrow> left \<le> i \<and> i \<le> right"
  shows "names es key (exact_binary es key left right)"
  using assms
proof (induction es key left right rule: exact_binary.induct)
  case (1 es key left right)
  note s = "1.prems"(1) and k = "1.prems"(2) and inside = "1.prems"(4)
  define n where "n = (left + right) div 2"
  show ?case
  proof (cases "right < left")
    case True
    then have "names es key None"
      using inside by (force simp: names_None)
    with True show ?thesis by (subst exact_binary.simps) simp
  next
    case False
    then have n: "left \<le> n" "n \<le> right" "n < length es"
      using "1.prems"(3) by (auto simp: n_def)
    note cmp = strcasecmp_named [OF sorted_tab_no_nul [OF s n(3)] k]
    have after: "i < n" if "case_key key < ekey (es ! n)" "i < length es" "is_named key (es ! i)" for i
      using that sorted_tab_nth_iff [OF s that(2) n(3)] by (simp add: is_named_def)
    have before: "n < i" if "ekey (es ! n) < case_key key" "i < length es" "is_named key (es ! i)" for i
      using that sorted_tab_nth_iff [OF s n(3) that(2)] by (simp add: is_named_def)
    consider (named) "is_named key (es ! n)"
      | (less) "\<not> is_named key (es ! n)" "case_key key < ekey (es ! n)"
      | (greater) "\<not> is_named key (es ! n)" "\<not> case_key key < ekey (es ! n)" "ekey (es ! n) < case_key key"
      unfolding is_named_def by (metis linorder_neqE less_asym')
    then show ?thesis
    proof cases
      case named
      then show ?thesis
        using False n by (subst exact_binary.simps) (simp add: cmp names_def flip: n_def)
    next
      case less
      show ?thesis
      proof (cases "left = right \<or> n = 0")
        case True
        then have "names es key None"
          unfolding names_None using inside after [OF less(2)] n by force
        with True False less show ?thesis
          by (subst exact_binary.simps) (auto simp: cmp simp flip: n_def)
      next
        case go: False
        have "\<forall>i < length es. is_named key (es ! i) \<longrightarrow> left \<le> i \<and> i \<le> n - 1"
          using inside after [OF less(2)] by force
        then have "names es key (exact_binary es key left (n - 1))"
          using "1.IH"(1) [OF n_def False refl] less go cmp s k n by simp
        with go False less show ?thesis
          by (subst exact_binary.simps) (simp add: cmp flip: n_def)
      qed
    next
      case greater
      show ?thesis
      proof (cases "left = right")
        case True
        then have "names es key None"
          unfolding names_None using inside before [OF greater(3)] n by force
        with True False greater show ?thesis
          unfolding exact_binary.simps [of es key left right] n_def [symmetric] Let_def by (simp add: cmp)
      next
        case go: False
        have "\<forall>i < length es. is_named key (es ! i) \<longrightarrow> n + 1 \<le> i \<and> i \<le> right"
          using inside before [OF greater(3)] by force
        then have "names es key (exact_binary es key (n + 1) right)"
          using "1.IH"(2) [OF n_def False refl] greater go cmp s k n "1.prems"(3) by simp
        with go False greater show ?thesis
          by (subst exact_binary.simps) (simp add: cmp flip: n_def)
      qed
    qed
  qed
qed

lemma find_exact_nun_names:
  assumes "\<not> pt_state t" "sorted_tab (pt_entries t)" "no_nul key"
  shows "names (pt_entries t) key (ptab_find_exact_nun (Some t) (Some key))"
proof (cases "length (pt_entries t) < 10")
  case True
  with exact_linear_names [OF assms(2,3), of 0] assms(1) show ?thesis
    by (auto simp: ptab_find_exact_nun_def names_def split: option.splits)
next
  case False
  then have "names (pt_entries t) key (exact_binary (pt_entries t) key 0 (length (pt_entries t) - 1))"
    using assms by (intro exact_binary_names) auto
  with False assms(1) show ?thesis by (simp add: ptab_find_exact_nun_def)
qed

section \<open>A table as a finite map\<close>

definition ptab_map :: "'a ptab \<Rightarrow> nat list \<Rightarrow> 'a option" where
  "ptab_map t = map_of (map (\<lambda>e. (ekey e, pe_data e)) (pt_entries t))"

lemma ptab_map_None: "ptab_map t k = None \<longleftrightarrow> (\<forall>e \<in> set (pt_entries t). ekey e \<noteq> k)"
  unfolding ptab_map_def map_of_eq_None_iff by force

definition ptab_ok :: "'a ptab \<Rightarrow> bool" where
  "ptab_ok t \<longleftrightarrow> \<not> pt_state t \<and> sorted_tab (pt_entries t) \<and> length (pt_entries t) \<le> pt_maxlen t"

lemma sorted_tab_splice:
  "sorted_tab (xs @ e # ys) \<longleftrightarrow> sorted_tab xs \<and> sorted_tab ys \<and> no_nul (pe_key e)
    \<and> (\<forall>x \<in> set xs. ekey x < ekey e) \<and> (\<forall>y \<in> set ys. ekey e < ekey y)
    \<and> (\<forall>x \<in> set xs. \<forall>y \<in> set ys. ekey x < ekey y)"
  by (auto simp: sorted_tab_append sorted_tab_Cons)

lemma map_of_absent:
  "\<forall>e \<in> set es. ekey e \<noteq> k \<Longrightarrow> map_of (map (\<lambda>e. (ekey e, pe_data e)) es) k = None"
  by (auto simp: map_of_eq_None_iff)

lemma map_of_splice:
  assumes "\<forall>x \<in> set xs. ekey x \<noteq> ekey e" "\<forall>y \<in> set ys. ekey y \<noteq> ekey e"
  shows "map_of (map (\<lambda>e. (ekey e, pe_data e)) (xs @ e # ys))
      = (map_of (map (\<lambda>e. (ekey e, pe_data e)) (xs @ ys)))(ekey e \<mapsto> pe_data e)"
    "(map_of (map (\<lambda>e. (ekey e, pe_data e)) (xs @ e # ys)))(ekey e := None)
      = map_of (map (\<lambda>e. (ekey e, pe_data e)) (xs @ ys))"
  using map_of_absent [OF assms(1)] map_of_absent [OF assms(2)]
  by (auto simp: fun_eq_iff map_add_def split: option.splits)

lemma ptab_find_exact_map:
  assumes "ptab_ok t" "no_nul key"
  shows "ptab_find_exact (Some t) (Some key) = ptab_map t (case_key key)"
proof -
  let ?es = "pt_entries t"
  have s: "sorted_tab ?es" and r: "names ?es key (ptab_find_exact_nun (Some t) (Some key))"
    using assms find_exact_nun_names [of t key] by (auto simp: ptab_ok_def)
  show ?thesis
  proof (cases "ptab_find_exact_nun (Some t) (Some key)")
    case None
    with r show ?thesis
      by (auto simp: ptab_find_exact_def ptab_map_def names_def is_named_def intro!: map_of_absent [symmetric])
  next
    case (Some i)
    with r have i: "i < length ?es" "ekey (?es ! i) = case_key key"
      by (auto simp: names_def is_named_def)
    have es: "?es = take i ?es @ ?es ! i # drop (Suc i) ?es"
      using i(1) by (rule id_take_nth_drop)
    with s have "sorted_tab (take i ?es @ ?es ! i # drop (Suc i) ?es)" by simp
    then have "map_of (map (\<lambda>e. (ekey e, pe_data e)) (take i ?es @ ?es ! i # drop (Suc i) ?es)) (case_key key)
        = Some (pe_data (?es ! i))"
      unfolding i(2) [symmetric] sorted_tab_splice by (subst map_of_splice(1)) auto
    then show ?thesis
      using Some by (subst (asm) es [symmetric]) (simp add: ptab_find_exact_def ptab_map_def)
  qed
qed

lemma insert_position_split:
  assumes "sorted_tab es" "no_nul key"
  shows "case insert_position es key n of
      None \<Rightarrow> \<exists>e \<in> set es. is_named key e
    | Some p \<Rightarrow> \<exists>xs ys. es = xs @ ys \<and> p = n + length xs
        \<and> (\<forall>x \<in> set xs. ekey x < case_key key) \<and> (\<forall>y \<in> set ys. case_key key < ekey y)"
  using assms
proof (induction es arbitrary: n)
  case (Cons e es)
  then have e: "no_nul (pe_key e)" "\<forall>f \<in> set es. ekey e < ekey f" "sorted_tab es"
    by (auto simp: sorted_tab_Cons)
  note cmp = strcasecmp_named [OF e(1) Cons.prems(2)]
  consider "is_named key e" | "\<not> is_named key e" "case_key key < ekey e"
    | "\<not> is_named key e" "\<not> case_key key < ekey e" "ekey e < case_key key"
    unfolding is_named_def by (metis linorder_neqE less_asym')
  then show ?case
  proof cases
    case 2
    then have "\<forall>y \<in> set (e # es). case_key key < ekey y"
      using e(2) by auto
    with 2 show ?thesis
      by (auto simp: Let_def cmp intro!: exI [of _ "[]"] exI [of _ "e # es"])
  next
    case 3
    show ?thesis
    proof (cases "insert_position es key (n + 1)")
      case None
      with 3 Cons.IH [OF e(3) Cons.prems(2), of "n + 1"] show ?thesis
        by (auto simp: Let_def cmp)
    next
      case (Some p)
      with Cons.IH [OF e(3) Cons.prems(2), of "n + 1"] obtain xs ys where
        "es = xs @ ys" "p = n + 1 + length xs" "\<forall>x \<in> set xs. ekey x < case_key key"
        "\<forall>y \<in> set ys. case_key key < ekey y" by auto
      with 3 Some show ?thesis
        by (simp add: Let_def cmp) (rule exI [of _ "e # xs"], simp)
    qed
  qed (simp add: Let_def cmp)
qed simp

lemma ptab_insert_one_map:
  assumes "ptab_ok t" "no_nul key"
  shows "\<exists>t'. ptab_insert_one True t key v = Some t' \<and> ptab_ok t'
    \<and> ptab_map t' = (if ptab_map t (case_key key) = None then (ptab_map t)(case_key key \<mapsto> v) else ptab_map t)"
proof -
  define t1 where "t1 = (if pt_maxlen t \<le> length (pt_entries t) + 1 then ptab_grow True t else t)"
  have t1: "pt_entries t1 = pt_entries t" "\<not> pt_state t1" "length (pt_entries t1) < pt_maxlen t1"
    using assms(1) by (auto simp: t1_def ptab_grow_def ptab_ok_def)
  have s: "sorted_tab (pt_entries t)" and st: "\<not> pt_state t"
    using assms(1) by (auto simp: ptab_ok_def)
  show ?thesis
  proof (cases "insert_position (pt_entries t) key 0")
    case None
    with insert_position_split [OF s assms(2), of 0] obtain e where
      "e \<in> set (pt_entries t)" "is_named key e" by auto
    then have "ptab_map t (case_key key) \<noteq> None"
      by (metis is_named_def ptab_map_None)
    moreover have "ptab_insert_one True t key v = Some t1"
      unfolding ptab_insert_one_def t1_def [symmetric] Let_def using st None t1(1) by simp
    ultimately show ?thesis
      using t1 s by (intro exI [of _ t1]) (auto simp: ptab_ok_def ptab_map_def)
  next
    case (Some p)
    let ?e = "\<lparr>pe_key = key, pe_data = v\<rparr>"
    from Some insert_position_split [OF s assms(2), of 0] obtain xs ys where
      es: "pt_entries t = xs @ ys" and p: "p = length xs"
      and less: "\<forall>x \<in> set xs. ekey x < case_key key" "\<forall>y \<in> set ys. case_key key < ekey y" by auto
    have key: "ekey ?e = case_key key" by (simp add: ekey_def)
    let ?t = "t1\<lparr>pt_entries := xs @ ?e # ys\<rparr>"
    have "ptab_insert_one True t key v = Some ?t"
      unfolding ptab_insert_one_def t1_def [symmetric] Let_def using st Some t1 es p by simp
    moreover have "ptab_ok ?t"
      using s less t1 assms(2) by (auto simp: ptab_ok_def es sorted_tab_append sorted_tab_Cons key)
    moreover have "ptab_map t (case_key key) = None"
      unfolding ptab_map_def es using less by (intro map_of_absent) auto
    moreover have "ptab_map ?t = (ptab_map t)(case_key key \<mapsto> v)"
    proof -
      have "\<forall>x \<in> set xs. ekey x \<noteq> ekey ?e" "\<forall>y \<in> set ys. ekey y \<noteq> ekey ?e"
        using less by (auto simp: key)
      from map_of_splice(1) [OF this] show ?thesis
        by (simp add: ptab_map_def es key)
    qed
    ultimately show ?thesis by auto
  qed
qed

lemma ptab_delete_map:
  assumes "ptab_ok t" "no_nul key"
  shows "ptab_ok (ptab_delete t key) \<and> ptab_map (ptab_delete t key) = (ptab_map t)(case_key key := None)"
proof -
  let ?es = "pt_entries t"
  have s: "sorted_tab ?es" and r: "names ?es key (ptab_find_exact_nun (Some t) (Some key))"
    using assms find_exact_nun_names [of t key] by (auto simp: ptab_ok_def)
  show ?thesis
  proof (cases "ptab_find_exact_nun (Some t) (Some key)")
    case None
    with r have "ptab_map t (case_key key) = None"
      by (auto simp: ptab_map_def names_def is_named_def intro!: map_of_absent)
    with None assms show ?thesis by (auto simp: ptab_delete_def fun_upd_idem)
  next
    case (Some i)
    with r have i: "i < length ?es" "ekey (?es ! i) = case_key key"
      by (auto simp: names_def is_named_def)
    define xs ys where "xs = take i ?es" and "ys = drop (Suc i) ?es"
    have es: "?es = xs @ ?es ! i # ys"
      using i(1) unfolding xs_def ys_def by (rule id_take_nth_drop)
    with s have s': "sorted_tab (xs @ ?es ! i # ys)" by simp
    have del: "delete_entry t i = t\<lparr>pt_entries := xs @ ys\<rparr>"
    proof (cases "i < length ?es - 1")
      case False
      with i(1) have "i = length ?es - 1" "ys = []" by (auto simp: ys_def)
      with i(1) show ?thesis by (auto simp: delete_entry_def Let_def xs_def)
    qed (use i(1) in \<open>auto simp: delete_entry_def Let_def xs_def ys_def\<close>)
    have "(map_of (map (\<lambda>e. (ekey e, pe_data e)) (xs @ ?es ! i # ys)))(ekey (?es ! i) := None)
      = map_of (map (\<lambda>e. (ekey e, pe_data e)) (xs @ ys))"
      using s' by (intro map_of_splice(2)) (auto simp: sorted_tab_splice)
    then have "ptab_map (delete_entry t i) = (ptab_map t)(case_key key := None)"
      by (simp add: ptab_map_def del i(2) flip: es)
    moreover have "ptab_ok (delete_entry t i)"
    proof -
      have "sorted_tab (xs @ ys)"
        using s' [unfolded sorted_tab_splice] by (simp add: sorted_tab_append)
      moreover have "length (xs @ ys) \<le> length ?es"
        using i(1) by (simp add: xs_def ys_def)
      ultimately show ?thesis
        using assms(1) by (simp add: ptab_ok_def del)
    qed
    ultimately show ?thesis using Some by (simp add: ptab_delete_def)
  qed
qed

interpretation ptab: lookup_table ptab_ok no_nul case_key ptab_map
  "\<lambda>t key. ptab_find_exact (Some t) (Some key)" "ptab_insert_one True"
  "\<lambda>t key. Some (ptab_delete t key)"
  by unfold_locales (auto simp: ptab_find_exact_map ptab_insert_one_map ptab_delete_map)

section \<open>Filling a table\<close>

lemma set_sort_into [simp]: "set (sort_into cmp x ys) = insert x (set ys)"
  by (induction ys) auto

lemma set_c_qsort [simp]: "set (c_qsort cmp xs) = set xs"
  by (induction xs) auto

lemma length_c_qsort [simp]: "length (c_qsort cmp xs) = length xs"
proof -
  have "length (sort_into cmp x ys) = Suc (length ys)" for x ys
    by (induction ys) auto
  then show ?thesis by (induction xs) auto
qed

lemma sort_into_sorted:
  assumes "sorted_tab ys" "no_nul (pe_key x)" "ekey x \<notin> ekey ` set ys"
  shows "sorted_tab (sort_into ptab_cmp x ys)"
  using assms
proof (induction ys)
  case (Cons y ys)
  then have y: "no_nul (pe_key y)" "\<forall>z \<in> set ys. ekey y < ekey z" "sorted_tab ys" "ekey x \<noteq> ekey y"
    by (auto simp: sorted_tab_Cons)
  have cmp: "ptab_cmp x y \<le> 0 \<longleftrightarrow> ekey x < ekey y"
    using strcasecmp_less [OF Cons.prems(2) y(1)] strcasecmp_zero [OF Cons.prems(2) y(1)] y(4)
    by (auto simp: ptab_cmp_def ekey_def)
  show ?case
  proof (cases "ekey x < ekey y")
    case True
    moreover have "\<forall>z \<in> set ys. ekey x < ekey z"
      using True y(2) by (meson less_trans)
    ultimately show ?thesis
      using Cons.prems y cmp by (simp add: sorted_tab_Cons)
  next
    case False
    with y(4) have "ekey y < ekey x" by (metis linorder_neqE)
    with False Cons.IH [OF y(3) Cons.prems(2)] Cons.prems y cmp show ?thesis
      by (simp add: sorted_tab_Cons)
  qed
qed (simp add: sorted_tab_def)

lemma c_qsort_sorted:
  assumes "distinct (map ekey es)" "\<forall>e \<in> set es. no_nul (pe_key e)"
  shows "sorted_tab (c_qsort ptab_cmp es)"
  using assms
proof (induction es)
  case (Cons e es)
  then show ?case by (auto intro!: sort_into_sorted)
qed (simp add: sorted_tab_def)

text \<open>A whole fill, between \<open>ptab_start_inserts\<close> and \<open>ptab_end_inserts\<close>.\<close>

fun fill_entries :: "'a ptab \<Rightarrow> (string \<times> 'a) list \<Rightarrow> 'a ptab option" where
  "fill_entries t [] = Some t"
| "fill_entries t ((key, data) # kvs) =
     (case ptab_insert True t key data of None \<Rightarrow> None | Some t' \<Rightarrow> fill_entries t' kvs)"

definition ptab_fill :: "(string \<times> 'a) list \<Rightarrow> 'a ptab option" where
  "ptab_fill kvs = map_option (ptab_end_inserts True) (fill_entries (ptab_start_inserts ptab_init) kvs)"

lemma fill_entries_append:
  assumes "pt_state t" "length (pt_entries t) \<le> pt_maxlen t"
  shows "\<exists>t'. fill_entries t kvs = Some t' \<and> pt_state t'
    \<and> pt_entries t' = pt_entries t @ map (\<lambda>(k, v). \<lparr>pe_key = k, pe_data = v\<rparr>) kvs"
  using assms
proof (induction kvs arbitrary: t)
  case (Cons kv kvs)
  obtain k v where kv: "kv = (k, v)" by (cases kv)
  define t0 where "t0 = (if pt_maxlen t \<le> length (pt_entries t) then ptab_grow True t else t)"
  have t0: "pt_entries t0 = pt_entries t" "pt_state t0" "length (pt_entries t) < pt_maxlen t0"
    using Cons.prems by (auto simp: t0_def ptab_grow_def)
  have "ptab_insert True t k v = Some (t0\<lparr>pt_entries := pt_entries t @ [\<lparr>pe_key = k, pe_data = v\<rparr>]\<rparr>)"
    unfolding ptab_insert_def t0_def [symmetric] Let_def using Cons.prems t0 by simp
  then obtain t1 where "ptab_insert True t k v = Some t1" "pt_state t1"
    "pt_entries t1 = pt_entries t @ [\<lparr>pe_key = k, pe_data = v\<rparr>]" "length (pt_entries t1) \<le> pt_maxlen t1"
    using t0 by auto
  with Cons.IH [of t1] kv show ?case by auto
qed simp

lemma ptab_fill_ok:
  assumes "distinct (map (case_key \<circ> fst) kvs)" "\<forall>(k, v) \<in> set kvs. no_nul k"
  shows "\<exists>t. ptab_fill kvs = Some t \<and> ptab_ok t
    \<and> set (pt_entries t) = (\<lambda>(k, v). \<lparr>pe_key = k, pe_data = v\<rparr>) ` set kvs"
proof -
  let ?es = "map (\<lambda>(k, v). \<lparr>pe_key = k, pe_data = v\<rparr>) kvs"
  obtain t where t: "fill_entries (ptab_start_inserts ptab_init) kvs = Some t" "pt_entries t = ?es"
    using fill_entries_append [of "ptab_start_inserts ptab_init" kvs]
    by (auto simp: ptab_start_inserts_def ptab_init_def)
  have "map ekey ?es = map (case_key \<circ> fst) kvs"
    by (auto simp: ekey_def)
  then have "distinct (map ekey ?es)"
    using assms(1) by metis
  moreover have "\<forall>e \<in> set ?es. no_nul (pe_key e)"
    using assms(2) by auto
  ultimately have "sorted_tab (c_qsort ptab_cmp ?es)"
    by (rule c_qsort_sorted)
  then show ?thesis
    using t by (intro exI [of _ "ptab_end_inserts True t"])
      (simp add: ptab_fill_def ptab_end_inserts_def ptab_ok_def Let_def)
qed

section \<open>Properties\<close>

lemma small_table_find:
  "ptab_ok t \<Longrightarrow> key \<noteq> [] \<Longrightarrow> length (pt_entries t) < 10 \<Longrightarrow>
   ptab_find (Some t) (Some key) = ptab_find_linear key (pt_entries t)"
  by (simp add: ptab_find_def ptab_ok_def)

text \<open>C34: on a table of ten entries or more, \<open>ptab_find\<close> (the binary search with its two scans)
  returns the entry the key names exactly if there is one, otherwise the only entry the key
  is a prefix of, and nothing if it is a prefix of none or of several.\<close>

theorem ptab_find_binary_unique_prefix:
  assumes "ptab_ok t" "no_nul key" "key \<noteq> []" "10 \<le> length (pt_entries t)"
  shows "ptab_find (Some t) (Some key) = ptab_spec (pt_entries t) key"
proof -
  have "ptab_find_binary (pt_entries t) key 0 (length (pt_entries t) - 1) = ptab_spec (pt_entries t) key"
    using assms by (intro ptab_find_binary_spec) (auto simp: ptab_ok_def)
  with assms show ?thesis by (simp add: ptab_find_def ptab_ok_def)
qed

definition ten_entries :: "nat ptab" where
  "ten_entries = \<lparr>pt_state = False,
     pt_entries = map (\<lambda>(k, v). \<lparr>pe_key = k, pe_data = v\<rparr>)
       [(''boot'', 0), (''chown'', 1), (''clone'', 2), (''create'', 3), (''dig'', 4), (''drain'', 5),
        (''link'', 6), (''lock'', 7), (''open'', 8), (''parent'', 9)],
     pt_maxlen = 20, pt_current = 0\<rparr>"

lemma ten_entries_ok: "ptab_ok ten_entries"
  by (simp add: ptab_ok_def ten_entries_def sorted_tab_def ekey_def case_key_def c_ord_def DOWNCASE_def
      c_isupper_def)

lemma ptab_find_binary_unique_prefix_witness:
  "ptab_find (Some ten_entries) (Some ''Cl'') = Some 2 \<and> ptab_find (Some ten_entries) (Some ''c'') = None"
proof -
  have "ptab_find (Some ten_entries) (Some k) = ptab_spec (pt_entries ten_entries) k"
    if "no_nul k" "k \<noteq> []" for k
    using ptab_find_binary_unique_prefix [OF ten_entries_ok that] by (simp add: ten_entries_def)
  then show ?thesis
    by (simp add: ten_entries_def ptab_spec_def has_prefix_def ekey_def case_key_def c_ord_def DOWNCASE_def
        c_isupper_def is_named_def)
qed

text \<open>On a table of fewer than ten entries \<open>ptab_find\<close> returns the only entry the key is a
  prefix of; unlike the binary search it finds nothing when the key names one entry exactly
  and is a proper prefix of another.\<close>

theorem ptab_find_linear_misses_exact:
  assumes "ptab_ok t" "key \<noteq> []" "length (pt_entries t) < 10"
  shows "ptab_find (Some t) (Some key) =
      (case filter (has_prefix key) (pt_entries t) of [e] \<Rightarrow> Some (pe_data e) | _ \<Rightarrow> None)
    \<and> (filter (has_prefix key) (pt_entries t) = e # f # r \<longrightarrow> find (is_named key) (pt_entries t) = Some e
        \<longrightarrow> ptab_find (Some t) (Some key) = None \<and> ptab_spec (pt_entries t) key = Some (pe_data e))"
proof -
  have "ptab_find (Some t) (Some key) =
      (case filter (has_prefix key) (pt_entries t) of [e] \<Rightarrow> Some (pe_data e) | _ \<Rightarrow> None)"
    using assms ptab_find_linear_filter [of "pt_entries t" key]
    by (simp add: small_table_find ptab_ok_def)
  then show ?thesis
    unfolding ptab_spec_def by simp
qed

definition two_entries :: "nat ptab" where
  "two_entries = \<lparr>pt_state = False,
     pt_entries = [\<lparr>pe_key = ''foo'', pe_data = 1\<rparr>, \<lparr>pe_key = ''foobar'', pe_data = 2\<rparr>],
     pt_maxlen = 20, pt_current = 0\<rparr>"

lemma ptab_find_linear_misses_exact_witness:
  "ptab_find (Some two_entries) (Some ''foo'') = None
    \<and> ptab_spec (pt_entries two_entries) ''foo'' = Some 1"
proof -
  have "ptab_ok two_entries"
    by (simp add: ptab_ok_def two_entries_def sorted_tab_def ekey_def case_key_def)
  moreover have "filter (has_prefix ''foo'') (pt_entries two_entries) = pt_entries two_entries"
    by (simp add: two_entries_def has_prefix_def ekey_def case_key_def)
  moreover have "find (is_named ''foo'') (pt_entries two_entries) = Some \<lparr>pe_key = ''foo'', pe_data = 1\<rparr>"
    by (simp add: two_entries_def is_named_def ekey_def)
  ultimately show ?thesis
    using ptab_find_linear_misses_exact [of two_entries "''foo''" "\<lparr>pe_key = ''foo'', pe_data = 1\<rparr>"
        "\<lparr>pe_key = ''foobar'', pe_data = 2\<rparr>" "[]"]
    by (simp add: two_entries_def)
qed

text \<open>C26: any sequence of \<open>ptab_insert_one\<close> and \<open>ptab_delete\<close> on a sorted table stays within the
  array and is the same sequence on a finite map from case-folded keys: an insertion keeps the
  entry that is there, and \<open>ptab_find_exact\<close> reads the map.\<close>

theorem ptab_operations_refine_map:
  assumes "ptab_ok t" "\<forall>x \<in> set ops. no_nul (op_key x)" "no_nul key"
  shows "\<exists>t'. table_run (ptab_insert_one True) (\<lambda>t k. Some (ptab_delete t k)) t ops = Some t'
    \<and> ptab_find_exact (Some t') (Some key) = table_spec case_key (ptab_map t) ops (case_key key)"
  using ptab.run_find [OF assms] .

lemma ptab_operations_refine_map_witness:
  "\<exists>t'. table_run (ptab_insert_one True) (\<lambda>t k. Some (ptab_delete t k)) ten_entries
      [Insert ''look'' 10, Delete ''lock'', Insert ''Dig'' 11] = Some t'
    \<and> ptab_find_exact (Some t') (Some ''LOOK'') = Some 10"
proof -
  have "\<forall>x \<in> set [Insert ''look'' (10 :: nat), Delete ''lock'', Insert ''Dig'' 11]. no_nul (op_key x)"
    "no_nul ''LOOK''" by simp_all
  from ptab_operations_refine_map [OF ten_entries_ok this] show ?thesis
    by (simp add: ptab_map_def ten_entries_def ekey_def case_key_def c_ord_def DOWNCASE_def c_isupper_def)
qed

text \<open>C35: a table filled between \<open>ptab_start_inserts\<close> and \<open>ptab_end_inserts\<close> with distinct keys,
  in any order, is sorted, has exactly the entries put in, stays within its array and is
  searched correctly: \<open>ptab_find_exact\<close> finds every key.\<close>

theorem ptab_fill_finds_all:
  assumes "distinct (map (case_key \<circ> fst) kvs)" "\<forall>(k, v) \<in> set kvs. no_nul k"
  shows "\<exists>t. ptab_fill kvs = Some t \<and> ptab_ok t
    \<and> (\<forall>(k, v) \<in> set kvs. ptab_find_exact (Some t) (Some k) = Some v)"
proof -
  obtain t where t: "ptab_fill kvs = Some t" "ptab_ok t"
    "set (pt_entries t) = (\<lambda>(k, v). \<lparr>pe_key = k, pe_data = v\<rparr>) ` set kvs"
    using ptab_fill_ok [OF assms] by blast
  have "ptab_find_exact (Some t) (Some k) = Some v" if kv: "(k, v) \<in> set kvs" for k v
  proof -
    have "\<lparr>pe_key = k, pe_data = v\<rparr> \<in> set (pt_entries t)"
      using kv t(3) by force
    moreover have "distinct (map fst (map (\<lambda>e. (ekey e, pe_data e)) (pt_entries t)))"
      using sorted_tab_distinct [of "pt_entries t"] t(2) by (simp add: ptab_ok_def comp_def)
    ultimately have "ptab_map t (case_key k) = Some v"
      unfolding ptab_map_def by (intro map_of_is_SomeI) (force simp: ekey_def)+
    with ptab_find_exact_map [OF t(2)] assms(2) kv show ?thesis by auto
  qed
  with t show ?thesis by blast
qed

lemma ptab_fill_finds_all_witness:
  "\<exists>t. ptab_fill [(''who'', 1 :: nat), (''QUIT'', 2), (''doing'', 3)] = Some t
    \<and> ptab_find_exact (Some t) (Some ''QUIT'') = Some 2"
proof -
  have "distinct (map (case_key \<circ> fst) [(''who'', 1 :: nat), (''QUIT'', 2), (''doing'', 3)])"
    "\<forall>(k, v) \<in> set [(''who'', 1 :: nat), (''QUIT'', 2), (''doing'', 3)]. no_nul k"
    by (simp_all add: case_key_def c_ord_def DOWNCASE_def c_isupper_def)
  from ptab_fill_finds_all [OF this] show ?thesis by auto
qed

end
