(* ===== verification/Mush_Boolexp.thy ===== *)
theory Mush_Boolexp
  imports Mush_Tokens
begin

text \<open>
  Lock keys, part one of \<open>src/src/boolexp.c\<close>: the opcodes and the parse tree, the tests on the
  database that a key is made of, what a key means, and the optimiser of the parse tree.
  The rest of the server is seen through the record \<open>world\<close>: object properties, attributes,
  flags, channels and softcode are functions of it, and evaluating a lock does not change it.
\<close>

section \<open>Opcodes and parse trees\<close>

type_synonym dbref = "32 word"

datatype bvm_opcode =
    OP_JMPT | OP_JMPF | OP_TCONST | OP_TATR | OP_TIND | OP_TCARRY | OP_TIS | OP_TOWNER | OP_TEVAL
  | OP_TFLAG | OP_TTYPE | OP_TNAME | OP_TPOWER | OP_TCHANNEL | OP_TIP | OP_THOSTNAME
  | OP_TDBREFLIST | OP_LOADS | OP_LOADR | OP_NEGR | OP_PAREN | OP_LABEL | OP_RET

definition opcodes :: "bvm_opcode list" where
  "opcodes =
     [OP_JMPT, OP_JMPF, OP_TCONST, OP_TATR, OP_TIND, OP_TCARRY, OP_TIS, OP_TOWNER, OP_TEVAL,
      OP_TFLAG, OP_TTYPE, OP_TNAME, OP_TPOWER, OP_TCHANNEL, OP_TIP, OP_THOSTNAME,
      OP_TDBREFLIST, OP_LOADS, OP_LOADR, OP_NEGR, OP_PAREN, OP_LABEL, OP_RET]"

fun opcode_num :: "bvm_opcode \<Rightarrow> nat" where
  "opcode_num OP_JMPT = 0" | "opcode_num OP_JMPF = 1" | "opcode_num OP_TCONST = 2"
| "opcode_num OP_TATR = 3" | "opcode_num OP_TIND = 4" | "opcode_num OP_TCARRY = 5"
| "opcode_num OP_TIS = 6" | "opcode_num OP_TOWNER = 7" | "opcode_num OP_TEVAL = 8"
| "opcode_num OP_TFLAG = 9" | "opcode_num OP_TTYPE = 10" | "opcode_num OP_TNAME = 11"
| "opcode_num OP_TPOWER = 12" | "opcode_num OP_TCHANNEL = 13" | "opcode_num OP_TIP = 14"
| "opcode_num OP_THOSTNAME = 15" | "opcode_num OP_TDBREFLIST = 16" | "opcode_num OP_LOADS = 17"
| "opcode_num OP_LOADR = 18" | "opcode_num OP_NEGR = 19" | "opcode_num OP_PAREN = 20"
| "opcode_num OP_LABEL = 21" | "opcode_num OP_RET = 22"

definition opcode_of :: "nat \<Rightarrow> bvm_opcode option" where
  "opcode_of n = (if n < length opcodes then Some (opcodes ! n) else None)"

lemma opcode_of_num [simp]: "opcode_of (opcode_num op) = Some op"
  by (cases op) (simp_all add: opcode_of_def opcodes_def)

lemma opcode_num_less: "opcode_num op < 23"
  by (cases op) simp_all

datatype boolexp_node =
    B_AND boolexp_node boolexp_node
  | B_OR boolexp_node boolexp_node
  | B_NOT boolexp_node
  | B_CONST dbref
  | B_ATR string string
  | B_IND dbref string
  | B_CARRY dbref
  | B_IS dbref
  | B_OWNER dbref
  | B_EVAL string string
  | B_FLAG string string
  | B_BOOL "32 word"

section \<open>Names of flag locks\<close>

text \<open>
  The perfect hash of \<open>bflags.c\<close>: the value of the first character for \<open>C D F H I N O P T\<close> and 20
  for every other one, plus the length.
\<close>

definition bflag_asso :: "char \<Rightarrow> nat" where
  "bflag_asso c =
     (let n = c_ord c in
      if n = 67 then 0 else if n = 68 then 10 else if n = 70 then 10 else if n = 72 then 0
      else if n = 73 then 0 else if n = 78 then 5 else if n = 79 then 5 else if n = 80 then 0
      else if n = 84 then 0 else 20)"

definition bflag_hash :: "string \<Rightarrow> nat" where
  "bflag_hash str = length str + bflag_asso (c_head str)"

definition bflag_wordlist :: "(string \<times> bvm_opcode option) list" where
  "bflag_wordlist =
     [('''', None), ('''', None), (''IP'', Some OP_TIP), ('''', None), (''TYPE'', Some OP_TTYPE),
      (''POWER'', Some OP_TPOWER), ('''', None), (''CHANNEL'', Some OP_TCHANNEL),
      (''HOSTNAME'', Some OP_THOSTNAME), (''NAME'', Some OP_TNAME), (''OBJID'', Some OP_TIS),
      ('''', None), ('''', None), ('''', None), (''FLAG'', Some OP_TFLAG), ('''', None), ('''', None),
      ('''', None), ('''', None), (''DBREFLIST'', Some OP_TDBREFLIST)]"

definition bflag_lengthtable :: "nat list" where
  "bflag_lengthtable = [0, 0, 2, 0, 4, 5, 0, 7, 8, 4, 5, 0, 0, 0, 4, 0, 0, 0, 0, 9]"

definition is_allowed_bflag :: "string \<Rightarrow> bvm_opcode option" where
  "is_allowed_bflag str =
     (let len = length str in
      if len \<le> 9 \<and> 2 \<le> len then
        let key = bflag_hash str in
        if key \<le> 19 \<and> len = bflag_lengthtable ! key
        then (if str = fst (bflag_wordlist ! key) then snd (bflag_wordlist ! key) else None)
        else None
      else None)"

text \<open>The table the hash function was generated from, \<open>bflags.gperf\<close>.\<close>

definition bflag_gperf :: "(string \<times> bvm_opcode) list" where
  "bflag_gperf =
     [(''FLAG'', OP_TFLAG), (''POWER'', OP_TPOWER), (''TYPE'', OP_TTYPE), (''NAME'', OP_TNAME),
      (''CHANNEL'', OP_TCHANNEL), (''OBJID'', OP_TIS), (''IP'', OP_TIP), (''HOSTNAME'', OP_THOSTNAME),
      (''DBREFLIST'', OP_TDBREFLIST)]"

section \<open>The database seen by a lock\<close>

record ATTR =
  at_name :: string
  at_value :: string

text \<open>The bytecode of a lock; \<open>None\<close> is \<open>TRUE_BOOLEXP\<close>.\<close>

type_synonym boolexp = "char list option"

record world =
  w_max_depth :: nat
  w_good_object :: "dbref \<Rightarrow> bool"
  w_garbage :: "dbref \<Rightarrow> bool"
  w_contents :: "dbref \<Rightarrow> dbref list"
  w_owner :: "dbref \<Rightarrow> dbref"
  w_typeof :: "dbref \<Rightarrow> nat"
  w_name :: "dbref \<Rightarrow> string"
  w_connected :: "dbref \<Rightarrow> bool"
  w_can_read_lock :: "dbref \<Rightarrow> dbref \<Rightarrow> string \<Rightarrow> bool"
  w_getlock :: "dbref \<Rightarrow> string \<Rightarrow> boolexp"
  w_atr_get :: "dbref \<Rightarrow> string \<Rightarrow> ATTR option"
  w_can_read_attr :: "dbref \<Rightarrow> dbref \<Rightarrow> ATTR \<Rightarrow> bool"
  w_local_wild_match :: "string \<Rightarrow> string \<Rightarrow> bool"
  w_quick_wild :: "string \<Rightarrow> string \<Rightarrow> bool"
  w_match_aliases :: "dbref \<Rightarrow> string \<Rightarrow> bool"
  w_sees_flag :: "string \<Rightarrow> dbref \<Rightarrow> dbref \<Rightarrow> string \<Rightarrow> bool"
  w_find_channel :: "string \<Rightarrow> dbref \<Rightarrow> nat option"
  w_onchannel :: "dbref \<Rightarrow> nat \<Rightarrow> bool"
  w_least_idle_ip :: "dbref \<Rightarrow> string option"
  w_least_idle_hostname :: "dbref \<Rightarrow> string option"
  w_fetch_ufun :: "string \<Rightarrow> dbref \<Rightarrow> string option"
  w_call_ufun :: "string \<Rightarrow> dbref \<Rightarrow> string"
  w_parse_objid :: "string \<Rightarrow> dbref"

definition truth :: "bool \<Rightarrow> 32 word" where
  "truth b = (if b then 1 else 0)"

text \<open>\<open>check_attrib_lock\<close>: an eval lock, with an exact match.\<close>

definition check_attrib_lock :: "world \<Rightarrow> dbref \<Rightarrow> dbref \<Rightarrow> string \<Rightarrow> string \<Rightarrow> bool" where
  "check_attrib_lock w player target atrname str =
     (if atrname = [] \<or> str = [] then False
      else case w_fetch_ufun w atrname target of
             None \<Rightarrow> False
           | Some ufun \<Rightarrow> strcasecmp (w_call_ufun w ufun player) str = 0)"

text \<open>The loop of a \<open>DBREFLIST^\<close> lock over the words of the attribute.\<close>

function dbref_in_list :: "world \<Rightarrow> dbref \<Rightarrow> string option \<Rightarrow> 32 word option" where
  "dbref_in_list w player None = Some 0"
| "dbref_in_list w player (Some idstr) =
     (case split_token (Some idstr) (CHR '' '') of
        None \<Rightarrow> None
      | Some (None, _) \<Rightarrow> Some 0
      | Some (Some word, rest) \<Rightarrow>
          if w_parse_objid w word = player then Some 1 else dbref_in_list w player rest)"
  by pat_completeness auto
termination
  by (relation "measure (\<lambda>(w, p, s). case s of None \<Rightarrow> 0 | Some t \<Rightarrow> Suc (length t))")
    (auto split: option.splits dest: split_token_shorter)

text \<open>The tests with an object argument, and those with a string argument.\<close>

definition test_thing :: "world \<Rightarrow> dbref \<Rightarrow> bvm_opcode \<Rightarrow> dbref \<Rightarrow> bool" where
  "test_thing w player op arg =
     (w_good_object w arg \<and> \<not> w_garbage w arg \<and>
      (case op of
         OP_TCONST \<Rightarrow> arg = player \<or> arg \<in> set (w_contents w player)
       | OP_TIS \<Rightarrow> arg = player
       | OP_TCARRY \<Rightarrow> arg \<in> set (w_contents w player)
       | OP_TOWNER \<Rightarrow> w_owner w arg = w_owner w player
       | _ \<Rightarrow> False))"

definition test_site :: "world \<Rightarrow> dbref \<Rightarrow> dbref \<Rightarrow> string \<Rightarrow> string option \<Rightarrow> string \<Rightarrow> bool" where
  "test_site w player target atrname site str =
     (if \<not> w_connected w (w_owner w player) then False
      else case w_atr_get w (w_owner w player) atrname of
             None \<Rightarrow> False
           | Some a \<Rightarrow>
               if \<not> w_can_read_attr w target player a then False
               else case site of None \<Rightarrow> False | Some p \<Rightarrow> w_quick_wild w str p)"

definition TYPE_ROOM :: nat where "TYPE_ROOM = 1"
definition TYPE_THING :: nat where "TYPE_THING = 2"
definition TYPE_EXIT :: nat where "TYPE_EXIT = 4"
definition TYPE_PLAYER :: nat where "TYPE_PLAYER = 8"

text \<open>\<open>r\<close> is the register before the test; only \<open>OP_TTYPE\<close> can leave it.\<close>

definition test_string ::
  "world \<Rightarrow> dbref \<Rightarrow> dbref \<Rightarrow> bvm_opcode \<Rightarrow> string option \<Rightarrow> string \<Rightarrow> 32 word \<Rightarrow> 32 word option" where
  "test_string w player target op s str r =
     (case op of
        OP_TATR \<Rightarrow>
          (case s of
             None \<Rightarrow> None
           | Some name \<Rightarrow> Some (truth
               (case w_atr_get w player name of
                  None \<Rightarrow> False
                | Some a \<Rightarrow> w_can_read_attr w target player a \<and> w_local_wild_match w str (at_value a))))
      | OP_TEVAL \<Rightarrow>
          Some (truth (case s of None \<Rightarrow> False | Some name \<Rightarrow> check_attrib_lock w player target name str))
      | OP_TNAME \<Rightarrow> Some (truth (w_quick_wild w str (w_name w player) \<or> w_match_aliases w player str))
      | OP_TFLAG \<Rightarrow> Some (truth (w_sees_flag w ''FLAG'' target player str))
      | OP_TPOWER \<Rightarrow> Some (truth (w_sees_flag w ''POWER'' target player str))
      | OP_TCHANNEL \<Rightarrow>
          Some (truth (case w_find_channel w str target of
                         None \<Rightarrow> False | Some chan \<Rightarrow> w_onchannel w player chan))
      | OP_TIP \<Rightarrow>
          Some (truth (test_site w player target ''LASTIP'' (w_least_idle_ip w (w_owner w player)) str))
      | OP_THOSTNAME \<Rightarrow>
          Some (truth
            (test_site w player target ''LASTSITE'' (w_least_idle_hostname w (w_owner w player)) str))
      | OP_TTYPE \<Rightarrow>
          Some (let c = c_head str in
            if c = CHR ''R'' \<or> c = CHR ''r'' then truth (w_typeof w player = TYPE_ROOM)
            else if c = CHR ''E'' \<or> c = CHR ''e'' then truth (w_typeof w player = TYPE_EXIT)
            else if c = CHR ''T'' \<or> c = CHR ''t'' then truth (w_typeof w player = TYPE_THING)
            else if c = CHR ''P'' \<or> c = CHR ''p'' then truth (w_typeof w player = TYPE_PLAYER)
            else r)
      | OP_TDBREFLIST \<Rightarrow>
          (case w_atr_get w target str of
             None \<Rightarrow> Some 0
           | Some a \<Rightarrow> dbref_in_list w player (Some (trim_space_sep (at_value a) (CHR '' ''))))
      | _ \<Rightarrow> None)"

text \<open>\<open>OP_TIND\<close>: \<open>ind\<close> evaluates the lock of another object for the same player.\<close>

definition test_ind ::
  "world \<Rightarrow> (dbref \<Rightarrow> string \<Rightarrow> 'v) \<Rightarrow> 'v \<Rightarrow> dbref \<Rightarrow> dbref \<Rightarrow> string \<Rightarrow> 'v" where
  "test_ind w ind no target arg s =
     (if \<not> w_good_object w arg \<or> w_garbage w arg then no
      else if \<not> w_can_read_lock w target arg s then no
      else ind arg s)"

section \<open>What a key means\<close>

text \<open>
  The value of a parse tree, given the value \<open>r\<close> the register has before it; \<open>None\<close> when a
  test reads past the end of a string.
\<close>

fun bool_value ::
  "world \<Rightarrow> (dbref \<Rightarrow> string \<Rightarrow> 32 word option) \<Rightarrow> dbref \<Rightarrow> dbref \<Rightarrow> boolexp_node \<Rightarrow> 32 word \<Rightarrow> 32 word option"
  where
  "bool_value w ind p t (B_AND a b) r =
     (case bool_value w ind p t a r of
        None \<Rightarrow> None | Some v \<Rightarrow> if v = 0 then Some v else bool_value w ind p t b v)"
| "bool_value w ind p t (B_OR a b) r =
     (case bool_value w ind p t a r of
        None \<Rightarrow> None | Some v \<Rightarrow> if v \<noteq> 0 then Some v else bool_value w ind p t b v)"
| "bool_value w ind p t (B_NOT a) r =
     (case bool_value w ind p t a r of None \<Rightarrow> None | Some v \<Rightarrow> Some (truth (v = 0)))"
| "bool_value w ind p t (B_CONST d) r = Some (truth (test_thing w p OP_TCONST d))"
| "bool_value w ind p t (B_ATR name text) r = test_string w p t OP_TATR (Some name) text r"
| "bool_value w ind p t (B_IND d lock) r = test_ind w ind (Some 0) t d lock"
| "bool_value w ind p t (B_CARRY d) r = Some (truth (test_thing w p OP_TCARRY d))"
| "bool_value w ind p t (B_IS d) r = Some (truth (test_thing w p OP_TIS d))"
| "bool_value w ind p t (B_OWNER d) r = Some (truth (test_thing w p OP_TOWNER d))"
| "bool_value w ind p t (B_EVAL name text) r = test_string w p t OP_TEVAL (Some name) text r"
| "bool_value w ind p t (B_FLAG name text) r =
     (case is_allowed_bflag name of None \<Rightarrow> None | Some op \<Rightarrow> test_string w p t op None text r)"
| "bool_value w ind p t (B_BOOL v) r = Some v"

section \<open>The optimiser of the parse tree\<close>

fun optimize_bvm_ast :: "boolexp_node \<Rightarrow> boolexp_node" where
  "optimize_bvm_ast (B_OR a b) =
     (case (a, b) of
        (B_IS x, B_CARRY y) \<Rightarrow> if x = y then B_CONST x else B_OR (optimize_bvm_ast a) (optimize_bvm_ast b)
      | (B_CARRY x, B_IS y) \<Rightarrow> if x = y then B_CONST x else B_OR (optimize_bvm_ast a) (optimize_bvm_ast b)
      | _ \<Rightarrow> B_OR (optimize_bvm_ast a) (optimize_bvm_ast b))"
| "optimize_bvm_ast (B_AND a b) = B_AND (optimize_bvm_ast a) (optimize_bvm_ast b)"
| "optimize_bvm_ast (B_NOT a) =
     (case a of
        B_NOT n \<Rightarrow> optimize_bvm_ast n
      | B_BOOL v \<Rightarrow> B_BOOL (truth (v = 0))
      | _ \<Rightarrow> B_NOT (optimize_bvm_ast a))"
| "optimize_bvm_ast (B_CONST d) = B_CONST d"
| "optimize_bvm_ast (B_ATR name text) = B_ATR name text"
| "optimize_bvm_ast (B_IND d lock) = B_IND d lock"
| "optimize_bvm_ast (B_CARRY d) = B_CARRY d"
| "optimize_bvm_ast (B_IS d) = B_IS d"
| "optimize_bvm_ast (B_OWNER d) = B_OWNER d"
| "optimize_bvm_ast (B_EVAL name text) = B_EVAL name text"
| "optimize_bvm_ast (B_FLAG name text) = B_FLAG name text"
| "optimize_bvm_ast (B_BOOL v) = B_BOOL v"

section \<open>Properties of keys\<close>

lemma truth_simps [simp]: "truth True = 1" "truth False = 0" "truth b = 0 \<longleftrightarrow> \<not> b"
  by (simp_all add: truth_def)

lemma is_allowed_bflag_gperf: "is_allowed_bflag str = map_of bflag_gperf str"
proof (cases "str \<in> fst ` set bflag_gperf")
  case True
  then show ?thesis
    by (auto simp: bflag_gperf_def is_allowed_bflag_def bflag_hash_def bflag_asso_def Let_def c_ord_def
        bflag_lengthtable_def bflag_wordlist_def)
next
  case False
  then have "map_of bflag_gperf str = None"
    by (auto simp: map_of_eq_None_iff)
  moreover have "snd (bflag_wordlist ! k) = None" if "str = fst (bflag_wordlist ! k)" "k \<le> 19" for k
  proof -
    have "\<forall>k < 20. fst (bflag_wordlist ! k) \<in> fst ` set bflag_gperf \<or> snd (bflag_wordlist ! k) = None"
      unfolding bflag_wordlist_def bflag_gperf_def by code_simp
    moreover have "k < 20"
      using that(2) by simp
    ultimately show ?thesis
      using that(1) False by blast
  qed
  ultimately show ?thesis
    by (auto simp: is_allowed_bflag_def Let_def)
qed

text \<open>C40: the perfect hash of \<open>bflags.c\<close> accepts exactly the names of \<open>bflags.gperf\<close>, each with
  its opcode, and rejects every other string, whatever its length and first character.\<close>

theorem is_allowed_bflag_lookup: "is_allowed_bflag str = Some op \<longleftrightarrow> (str, op) \<in> set bflag_gperf"
proof -
  have "distinct (map fst bflag_gperf)"
    unfolding bflag_gperf_def by simp
  then show ?thesis
    by (simp add: is_allowed_bflag_gperf)
qed

lemma optimize_or_merge:
  "bool_value w ind p t (B_CONST x) r = bool_value w ind p t (B_OR (B_IS x) (B_CARRY x)) r"
  "bool_value w ind p t (B_CONST x) r = bool_value w ind p t (B_OR (B_CARRY x) (B_IS x)) r"
  by (auto simp: test_thing_def truth_def)

lemma optimize_or_cases:
  obtains (merge) x where "a = B_IS x \<and> b = B_CARRY x \<or> a = B_CARRY x \<and> b = B_IS x"
      "optimize_bvm_ast (B_OR a b) = B_CONST x"
    | (keep) "optimize_bvm_ast (B_OR a b) = B_OR (optimize_bvm_ast a) (optimize_bvm_ast b)"
proof (cases "\<exists>x. a = B_IS x \<and> b = B_CARRY x \<or> a = B_CARRY x \<and> b = B_IS x")
  case True
  then obtain x where x: "a = B_IS x \<and> b = B_CARRY x \<or> a = B_CARRY x \<and> b = B_IS x" by blast
  then have "optimize_bvm_ast (B_OR a b) = B_CONST x" by auto
  with x show ?thesis by (rule merge)
next
  case False
  then have "optimize_bvm_ast (B_OR a b) = B_OR (optimize_bvm_ast a) (optimize_bvm_ast b)"
    by (cases a; cases b) (simp_all del: optimize_bvm_ast.simps(2-))
  then show ?thesis by (rule keep)
qed

text \<open>The register holds 0 or 1: the parser makes no other constant, and no test gives another value.\<close>

definition bit_value :: "32 word \<Rightarrow> bool" where
  "bit_value v \<longleftrightarrow> v = 0 \<or> v = 1"

fun bool_consts :: "boolexp_node \<Rightarrow> bool" where
  "bool_consts (B_AND a b) = (bool_consts a \<and> bool_consts b)"
| "bool_consts (B_OR a b) = (bool_consts a \<and> bool_consts b)"
| "bool_consts (B_NOT a) = bool_consts a"
| "bool_consts (B_BOOL v) = bit_value v"
| "bool_consts a = True"

lemma bit_value_simps [simp]: "bit_value 0" "bit_value 1" "bit_value (truth b)"
  by (simp_all add: bit_value_def truth_def)

lemma truth_not_zero: "bit_value v \<Longrightarrow> truth (v \<noteq> 0) = v" "bit_value v \<Longrightarrow> truth (\<not> v = 0) = v"
  by (auto simp: bit_value_def)

lemma dbref_in_list_bit: "dbref_in_list w p s = Some v \<Longrightarrow> bit_value v"
  by (induction w p s rule: dbref_in_list.induct) (auto split: option.splits if_splits)

lemma test_string_bit: "test_string w p t op s str r = Some v \<Longrightarrow> bit_value r \<Longrightarrow> bit_value v"
  by (auto simp: test_string_def Let_def dest: dbref_in_list_bit split: bvm_opcode.splits option.splits if_splits)

lemma bool_value_bit:
  assumes "bool_value w ind p t a r = Some v" "bool_consts a" "bit_value r"
    "\<And>d s v. ind d s = Some v \<Longrightarrow> bit_value v"
  shows "bit_value v"
  using assms
proof (induction a arbitrary: r v)
  case (B_AND a b)
  then show ?case by (fastforce split: option.splits if_splits)
next
  case (B_OR a b)
  then show ?case by (fastforce split: option.splits if_splits)
next
  case (B_IND d lock)
  then show ?case by (auto simp: test_ind_def split: if_splits)
qed (auto dest: test_string_bit split: option.splits)

lemma optimize_bvm_ast_value:
  assumes "bool_consts a" "bit_value r" "\<And>d s v. ind d s = Some v \<Longrightarrow> bit_value v"
  shows "bool_value w ind p t (optimize_bvm_ast a) r = bool_value w ind p t a r"
  using assms
proof (induction a arbitrary: r rule: measure_induct_rule [of size])
  case (less a)
  note bit = bool_value_bit [OF _ _ \<open>bit_value r\<close> less.prems(3)]
  show ?case
  proof (cases a)
    case (B_OR x y)
    show ?thesis
    proof (cases rule: optimize_or_cases [of x y])
      case (merge d)
      with B_OR optimize_or_merge [of w ind p t d r] show ?thesis by auto
    next
      case keep
      with B_OR less.IH [of x] less.IH [of y] less.prems bit [where a = x] show ?thesis
        by (auto split: option.splits)
    qed
  next
    case (B_AND x y)
    with less.IH [of x] less.IH [of y] less.prems bit [where a = x] show ?thesis
      by (auto split: option.splits)
  next
    case (B_NOT x)
    show ?thesis
    proof (cases x)
      case n: (B_NOT n)
      with B_NOT less.IH [of n] less.prems bit [where a = n] show ?thesis
        by (auto simp: truth_not_zero split: option.splits)
    next
      case (B_BOOL v)
      with B_NOT show ?thesis by simp
    qed (use B_NOT less.IH [of x] less.prems in
        \<open>simp_all del: optimize_bvm_ast.simps(1,2,4-) bool_value.simps(1,2,4-)\<close>)
  qed simp_all
qed

lemma optimize_bvm_ast_consts: "bool_consts a \<Longrightarrow> bool_consts (optimize_bvm_ast a)"
proof (induction a rule: measure_induct_rule [of size])
  case (less a)
  show ?case
  proof (cases a)
    case (B_OR x y)
    with less show ?thesis by (cases rule: optimize_or_cases [of x y]) auto
  next
    case (B_AND x y)
    with less show ?thesis by auto
  next
    case (B_NOT x)
    with less show ?thesis by (cases x) (auto simp del: optimize_bvm_ast.simps(1,2,4-))
  qed (use less in simp_all)
qed

end
