(* ===== verification/Mush_Boolexp_Asm.thy ===== *)
theory Mush_Boolexp_Asm
  imports Mush_Boolexp
begin

text \<open>
  Lock keys, part two of \<open>src/src/boolexp.c\<close>: from the parse tree to the assembler list, the
  thread jumping optimiser of that list, and the bytecode with its string section.  The two
  linked lists of \<open>struct bvm_asm\<close> are lists, and a pointer to an assembler node is its index.
\<close>

section \<open>Definitions\<close>

record bvm_asmnode =
  an_op :: bvm_opcode
  an_arg :: int

text \<open>\<open>strcount\<close> is the length of the list of strings.\<close>

record bvm_asm =
  ba_insns :: "bvm_asmnode list"
  ba_strs :: "string list"
  ba_label :: int

datatype boolexp_type =
    BOOLEXP_AND | BOOLEXP_OR | BOOLEXP_NOT | BOOLEXP_CONST | BOOLEXP_ATR | BOOLEXP_IND
  | BOOLEXP_CARRY | BOOLEXP_IS | BOOLEXP_OWNER | BOOLEXP_EVAL | BOOLEXP_FLAG | BOOLEXP_BOOL

definition INSN_LEN :: nat where
  "INSN_LEN = 1 + 4"

definition gen_label_id :: "bvm_asm \<Rightarrow> int \<times> bvm_asm" where
  "gen_label_id a = (ba_label a, a\<lparr>ba_label := ba_label a + 1\<rparr>)"

text \<open>The search of \<open>append_insn\<close> for an existing string, counting from \<open>n\<close>.\<close>

fun find_string :: "string list \<Rightarrow> string \<Rightarrow> nat \<Rightarrow> nat option" where
  "find_string [] s n = None"
| "find_string (t # ts) s n = (if strcmp t s = 0 then Some n else find_string ts s (n + 1))"

definition append_insn :: "bvm_asm \<Rightarrow> bvm_opcode \<Rightarrow> int \<Rightarrow> string option \<Rightarrow> bvm_asm" where
  "append_insn a op arg s =
     (let (arg, strs) =
        (case s of
           None \<Rightarrow> (arg, ba_strs a)
         | Some str \<Rightarrow>
             (case find_string (ba_strs a) str 0 of
                Some n \<Rightarrow> (int n, ba_strs a)
              | None \<Rightarrow> (int (length (ba_strs a)), ba_strs a @ [str])))
      in a\<lparr>ba_insns := ba_insns a @ [\<lparr>an_op = op, an_arg = arg\<rparr>], ba_strs := strs\<rparr>)"

definition paren_if :: "bool \<Rightarrow> int \<Rightarrow> bvm_asm \<Rightarrow> bvm_asm" where
  "paren_if c arg a = (if c then append_insn a OP_PAREN arg None else a)"

text \<open>A flag lock with a name that is not allowed does not occur: the code would read a null pointer.\<close>

fun generate_bvm_asm1 :: "bvm_asm \<Rightarrow> boolexp_node \<Rightarrow> boolexp_type \<Rightarrow> bvm_asm" where
  "generate_bvm_asm1 a (B_AND x y) outer =
     (let (lbl, a) = gen_label_id a;
          a = paren_if (outer = BOOLEXP_NOT) 0 a;
          a = generate_bvm_asm1 a x BOOLEXP_AND;
          a = append_insn a OP_JMPF lbl None;
          a = generate_bvm_asm1 a y BOOLEXP_AND;
          a = paren_if (outer = BOOLEXP_NOT) 1 a
      in append_insn a OP_LABEL lbl None)"
| "generate_bvm_asm1 a (B_OR x y) outer =
     (let (lbl, a) = gen_label_id a;
          a = paren_if (outer = BOOLEXP_NOT \<or> outer = BOOLEXP_AND) 0 a;
          a = generate_bvm_asm1 a x BOOLEXP_OR;
          a = append_insn a OP_JMPT lbl None;
          a = generate_bvm_asm1 a y BOOLEXP_OR;
          a = paren_if (outer = BOOLEXP_NOT \<or> outer = BOOLEXP_AND) 1 a
      in append_insn a OP_LABEL lbl None)"
| "generate_bvm_asm1 a (B_IND thing lock) outer =
     append_insn (append_insn a OP_LOADS 0 (Some lock)) OP_TIND (sint thing) None"
| "generate_bvm_asm1 a (B_IS thing) outer = append_insn a OP_TIS (sint thing) None"
| "generate_bvm_asm1 a (B_CARRY thing) outer = append_insn a OP_TCARRY (sint thing) None"
| "generate_bvm_asm1 a (B_OWNER thing) outer = append_insn a OP_TOWNER (sint thing) None"
| "generate_bvm_asm1 a (B_NOT x) outer =
     append_insn (generate_bvm_asm1 a x BOOLEXP_NOT) OP_NEGR 0 None"
| "generate_bvm_asm1 a (B_CONST thing) outer = append_insn a OP_TCONST (sint thing) None"
| "generate_bvm_asm1 a (B_BOOL thing) outer = append_insn a OP_LOADR (sint thing) None"
| "generate_bvm_asm1 a (B_ATR name str) outer =
     append_insn (append_insn a OP_LOADS 0 (Some name)) OP_TATR 0 (Some str)"
| "generate_bvm_asm1 a (B_EVAL name str) outer =
     append_insn (append_insn a OP_LOADS 0 (Some name)) OP_TEVAL 0 (Some str)"
| "generate_bvm_asm1 a (B_FLAG name str) outer =
     (case is_allowed_bflag name of
        None \<Rightarrow> a
      | Some op \<Rightarrow> append_insn a op 0 (Some str))"

definition generate_bvm_asm :: "boolexp_node \<Rightarrow> bvm_asm" where
  "generate_bvm_asm b =
     append_insn (generate_bvm_asm1 \<lparr>ba_insns = [], ba_strs = [], ba_label = 0\<rparr> b BOOLEXP_CONST) OP_RET 0 None"

definition is_label :: "bvm_asmnode \<Rightarrow> bool" where
  "is_label n \<longleftrightarrow> an_op n = OP_LABEL"

definition is_jump :: "bvm_asmnode \<Rightarrow> bool" where
  "is_jump n \<longleftrightarrow> an_op n = OP_JMPT \<or> an_op n = OP_JMPF"

fun pos_of_label :: "bvm_asmnode list \<Rightarrow> int \<Rightarrow> nat" where
  "pos_of_label [] label = 0"
| "pos_of_label (a # as) label =
     (if is_label a then if an_arg a = label then 0 else pos_of_label as label
      else Suc (pos_of_label as label))"

fun offset_to_string :: "string list \<Rightarrow> nat \<Rightarrow> nat" where
  "offset_to_string [] c = 0"
| "offset_to_string (s # ss) 0 = 0"
| "offset_to_string (s # ss) (Suc c) = length s + 1 + offset_to_string ss c"

text \<open>
  The index of the first instruction after the label; \<open>Some None\<close> is the C \<open>NULL\<close> for a label
  that is not there, and \<open>None\<close> the walk off the end of the list.
\<close>

definition insn_after_label :: "bvm_asmnode list \<Rightarrow> int \<Rightarrow> nat option option" where
  "insn_after_label as label =
     (case dropWhile (\<lambda>n. \<not> (is_label n \<and> an_arg n = label)) as of
        [] \<Rightarrow> Some None
      | _ # rest \<Rightarrow>
          (case dropWhile is_label rest of
             [] \<Rightarrow> None
           | _ # after \<Rightarrow> Some (Some (length as - length after - 1))))"

definition redirect_same :: "bvm_asm \<Rightarrow> nat \<Rightarrow> nat \<Rightarrow> bvm_asm" where
  "redirect_same a i k =
     (let is = ba_insns a in a\<lparr>ba_insns := is[i := (is ! i)\<lparr>an_arg := an_arg (is ! k)\<rparr>]\<rparr>)"

definition redirect_after :: "bvm_asm \<Rightarrow> nat \<Rightarrow> nat \<Rightarrow> bvm_asm" where
  "redirect_after a i k =
     (let (lbl, a) = gen_label_id a;
          is = (ba_insns a)[i := (ba_insns a ! i)\<lparr>an_arg := lbl\<rparr>]
      in a\<lparr>ba_insns := take (k + 1) is @ \<lparr>an_op = OP_LABEL, an_arg = lbl\<rparr> # drop (k + 1) is\<rparr>)"

text \<open>The loop of \<open>optimize_bvm_asm\<close> at the node with index \<open>i\<close>.\<close>

partial_function (option) optimize_loop :: "bvm_asm \<Rightarrow> nat \<Rightarrow> bvm_asm option" where
  "optimize_loop a i =
     (if length (ba_insns a) \<le> i then Some a
      else if is_jump (ba_insns a ! i) then
        (case insn_after_label (ba_insns a) (an_arg (ba_insns a ! i)) of
           None \<Rightarrow> None
         | Some None \<Rightarrow> optimize_loop a (i + 1)
         | Some (Some k) \<Rightarrow>
             if is_jump (ba_insns a ! k) then
               if an_op (ba_insns a ! k) = an_op (ba_insns a ! i)
               then optimize_loop (redirect_same a i k) i
               else optimize_loop (redirect_after a i k) (if k < i then i + 1 else i)
             else optimize_loop a (i + 1))
      else optimize_loop a (i + 1))"

definition optimize_bvm_asm :: "bvm_asm \<Rightarrow> bvm_asm option" where
  "optimize_bvm_asm a = optimize_loop a 0"

definition has_string :: "bvm_opcode \<Rightarrow> bool" where
  "has_string op \<longleftrightarrow> op \<in> {OP_LOADS, OP_TEVAL, OP_TATR, OP_TFLAG, OP_TNAME, OP_TPOWER, OP_TTYPE,
     OP_TCHANNEL, OP_TIP, OP_THOSTNAME, OP_TDBREFLIST}"

definition code_insns :: "bvm_asmnode list \<Rightarrow> bvm_asmnode list" where
  "code_insns as = filter (\<lambda>n. \<not> is_label n) as"

definition emit_arg :: "bvm_asm \<Rightarrow> bvm_asmnode \<Rightarrow> int" where
  "emit_arg a i =
     (if is_jump i then int (pos_of_label (ba_insns a) (an_arg i) * INSN_LEN)
      else if has_string (an_op i)
      then int (length (code_insns (ba_insns a)) * INSN_LEN + offset_to_string (ba_strs a) (nat (an_arg i)))
      else an_arg i)"

definition emit_insn :: "bvm_asm \<Rightarrow> bvm_asmnode \<Rightarrow> char list" where
  "emit_insn a i = char_of (opcode_num (an_op i)) # int_bytes (word_of_int (emit_arg a i))"

definition emit_bytecode :: "bvm_asm \<Rightarrow> char list" where
  "emit_bytecode a =
     concat (map (emit_insn a) (code_insns (ba_insns a))) @ concat (map (\<lambda>s. s @ [NUL]) (ba_strs a))"

text \<open>The compiler, after parsing.\<close>

definition compile_boolexp :: "boolexp_node \<Rightarrow> char list option" where
  "compile_boolexp ast =
     map_option emit_bytecode (optimize_bvm_asm (generate_bvm_asm (optimize_bvm_ast ast)))"

end
