(* ===== verification/Mush_Boolexp_VM.thy ===== *)
theory Mush_Boolexp_VM
  imports Mush_Boolexp_Asm
begin

text \<open>
  Lock keys, part three of \<open>src/src/boolexp.c\<close>: the virtual machine that evaluates the bytecode.
\<close>

section \<open>Definitions\<close>

text \<open>
  A result of the machine: it returns, it accesses memory out of bounds, or the allowance of
  steps (one for each instruction executed by one activation) is used up.
\<close>

datatype vm_result = Returns "32 word" | Fault | Timeout

text \<open>What an instruction does, besides moving to the next one.\<close>

datatype vm_action = A_ret | A_next "32 word" | A_jump | A_loads | A_fail vm_result

definition next_of :: "32 word option \<Rightarrow> vm_action" where
  "next_of v = (case v of None \<Rightarrow> A_fail Fault | Some r \<Rightarrow> A_next r)"

definition next_result :: "vm_result \<Rightarrow> vm_action" where
  "next_result v = (case v of Returns r \<Rightarrow> A_next r | x \<Rightarrow> A_fail x)"

text \<open>
  The \<open>switch\<close> of \<open>eval_boolexp\<close>: \<open>str\<close> is the string at offset \<open>arg\<close>, if there is one, and
  \<open>s\<close> the register: \<open>None\<close> for the null pointer, \<open>Some None\<close> for a pointer to no string.
\<close>

definition vm_exec ::
  "world \<Rightarrow> (dbref \<Rightarrow> string \<Rightarrow> vm_result) \<Rightarrow> dbref \<Rightarrow> dbref \<Rightarrow> bvm_opcode option \<Rightarrow> dbref \<Rightarrow> string option
    \<Rightarrow> string option option \<Rightarrow> 32 word \<Rightarrow> vm_action" where
  "vm_exec w ind p t opcode arg str s r =
     (case opcode of
        None \<Rightarrow> A_next 0
      | Some op \<Rightarrow>
          if op = OP_RET then A_ret
          else if op = OP_JMPT then (if r \<noteq> 0 then A_jump else A_next r)
          else if op = OP_JMPF then (if r = 0 then A_jump else A_next r)
          else if op = OP_LABEL \<or> op = OP_PAREN then A_next r
          else if op = OP_LOADS then A_loads
          else if op = OP_LOADR then A_next arg
          else if op = OP_NEGR then A_next (truth (r = 0))
          else if op \<in> {OP_TCONST, OP_TIS, OP_TCARRY, OP_TOWNER} then A_next (truth (test_thing w p op arg))
          else if op = OP_TIND then
            (case s of
               Some (Some lock) \<Rightarrow> next_result (test_ind w ind (Returns 0) t arg lock)
             | _ \<Rightarrow> if \<not> w_good_object w arg \<or> w_garbage w arg then A_next 0 else A_fail Fault)
          else
            (case str of
               None \<Rightarrow> A_fail Fault
             | Some text \<Rightarrow>
                 if s = Some None \<and> (op = OP_TATR \<or> op = OP_TEVAL) then A_fail Fault
                 else next_of (test_string w p t op (case s of None \<Rightarrow> None | Some x \<Rightarrow> x) text r)))"

text \<open>The C string at an offset of the bytecode.\<close>

definition cstr_at :: "char list \<Rightarrow> int \<Rightarrow> string option" where
  "cstr_at bc i =
     (if i < 0 \<or> NUL \<notin> set (drop (nat i) bc) then None
      else Some (takeWhile (\<lambda>c. c \<noteq> NUL) (drop (nat i) bc)))"

fun vm_loop ::
  "world \<Rightarrow> (dbref \<Rightarrow> string \<Rightarrow> vm_result) \<Rightarrow> dbref \<Rightarrow> dbref \<Rightarrow> char list
    \<Rightarrow> nat \<Rightarrow> nat \<Rightarrow> 32 word \<Rightarrow> int option \<Rightarrow> vm_result" where
  "vm_loop w ind p t bc 0 pc r s = Timeout"
| "vm_loop w ind p t bc (Suc n) pc r s =
     (if length bc < pc + INSN_LEN then Fault
      else
        let opcode = opcode_of (c_ord (bc ! pc));
            arg = read_int (drop (pc + 1) bc)
        in case vm_exec w ind p t opcode arg (cstr_at bc (sint arg)) (map_option (cstr_at bc) s) r of
             A_ret \<Rightarrow> Returns r
           | A_next r' \<Rightarrow> vm_loop w ind p t bc n (pc + INSN_LEN) r' s
           | A_jump \<Rightarrow> if sint arg < 0 then Fault else vm_loop w ind p t bc n (nat (sint arg)) r s
           | A_loads \<Rightarrow> vm_loop w ind p t bc n (pc + INSN_LEN) r (Some (sint arg))
           | A_fail x \<Rightarrow> x)"

text \<open>
  \<open>boolexp_recursion\<close> is \<open>depth\<close>: the lock of another object is evaluated one level deeper.
\<close>

function eval_boolexp ::
  "world \<Rightarrow> nat \<Rightarrow> nat \<Rightarrow> dbref \<Rightarrow> boolexp \<Rightarrow> dbref \<Rightarrow> vm_result" where
  "eval_boolexp w steps depth player b target =
     (if \<not> w_good_object w player then Returns 0
      else if w_max_depth w < depth then Returns 0
      else case b of
             None \<Rightarrow> Returns 1
           | Some bytecode \<Rightarrow>
               vm_loop w (\<lambda>arg s. eval_boolexp w steps (depth + 1) player (w_getlock w arg s) arg)
                 player target bytecode steps 0 0 None)"
  by pat_completeness auto
termination
  by (relation "measure (\<lambda>(w, steps, depth, _). Suc (w_max_depth w) - depth)") auto

declare eval_boolexp.simps [simp del]

text \<open>Is this an eval or an indirect lock?  \<open>None\<close> is a read past the bytecode.\<close>

function scan_eval_lock :: "char list \<Rightarrow> nat \<Rightarrow> bool option" where
  "scan_eval_lock bc pc =
     (if length bc \<le> pc then None
      else
        let op = opcode_of (c_ord (bc ! pc)) in
        if op = Some OP_TEVAL \<or> op = Some OP_TIND then Some True
        else if op = Some OP_RET then Some False
        else scan_eval_lock bc (pc + INSN_LEN))"
  by pat_completeness auto
termination
  by (relation "measure (\<lambda>(bc, pc). length bc - pc)") (auto simp: INSN_LEN_def)

declare scan_eval_lock.simps [simp del]

definition is_eval_lock :: "boolexp \<Rightarrow> bool option" where
  "is_eval_lock b = (case b of None \<Rightarrow> Some False | Some bc \<Rightarrow> scan_eval_lock bc 0)"

definition sizeof_boolexp :: "boolexp \<Rightarrow> nat" where
  "sizeof_boolexp b = (case b of None \<Rightarrow> 0 | Some bc \<Rightarrow> length bc)"

definition warning_lock_type :: "boolexp \<Rightarrow> nat" where
  "warning_lock_type l =
     (if l = None then 1 else if sizeof_boolexp l = INSN_LEN + INSN_LEN then 2 else 3)"

text \<open>\<open>cleanup_boolexp\<close>: tests of garbage objects become \<open>LOADR 0\<close>; the flag is \<open>revised\<close>.\<close>

definition false_op :: "char list" where
  "false_op = char_of (opcode_num OP_LOADR) # replicate (INSN_LEN - 1) NUL"

function cleanup_scan :: "world \<Rightarrow> char list \<Rightarrow> nat \<Rightarrow> bool \<Rightarrow> (bool \<times> char list) option" where
  "cleanup_scan w bc pc revised =
     (if length bc < pc + INSN_LEN then None
      else
        let op = opcode_of (c_ord (bc ! pc));
            arg = read_int (drop (pc + 1) bc)
        in if op = Some OP_RET then Some (revised, bc)
           else if (op = Some OP_TCONST \<or> op = Some OP_TCARRY \<or> op = Some OP_TIS \<or> op = Some OP_TOWNER
                    \<or> op = Some OP_TIND) \<and> w_garbage w arg
           then cleanup_scan w (take pc bc @ false_op @ drop (pc + INSN_LEN) bc) (pc + INSN_LEN) True
           else cleanup_scan w bc (pc + INSN_LEN) revised)"
  by pat_completeness auto
termination
  by (relation "measure (\<lambda>(w, bc, pc, _). length bc - pc)") (auto simp: INSN_LEN_def false_op_def)

declare cleanup_scan.simps [simp del]

definition cleanup_boolexp :: "world \<Rightarrow> boolexp \<Rightarrow> boolexp option" where
  "cleanup_boolexp w b =
     (case b of
        None \<Rightarrow> Some None
      | Some bc \<Rightarrow>
          (case cleanup_scan w bc 0 False of
             None \<Rightarrow> None
           | Some (revised, copy) \<Rightarrow> Some (if revised then Some copy else b)))"

end
