(* ===== verification/Mush_Boolexp_Correct.thy ===== *)
theory Mush_Boolexp_Correct
  imports Mush_Boolexp_VM
begin

text \<open>
  The lock compiler and the virtual machine agree on what a key means.  Between the two
  stands the resolved code: the assembler list without its labels, jumps as positions and
  strings in place.  The generator computes the value of the parse tree on resolved code, the
  thread jumping optimiser redirects one jump at a time without changing a result, and the
  bytecode runs as its resolved code does.
\<close>

section \<open>Resolved code\<close>

type_synonym rinsn = "bvm_opcode \<times> int \<times> string option"

definition rinsn_of :: "bvm_asmnode list \<Rightarrow> string list \<Rightarrow> bvm_asmnode \<Rightarrow> rinsn" where
  "rinsn_of P S n =
     (an_op n,
      if is_jump n then int (pos_of_label P (an_arg n)) else an_arg n,
      if has_string (an_op n) then Some (S ! nat (an_arg n)) else None)"

definition rcode :: "bvm_asmnode list \<Rightarrow> string list \<Rightarrow> rinsn list" where
  "rcode P S = map (rinsn_of P S) (code_insns P)"

fun rrun ::
  "world \<Rightarrow> (dbref \<Rightarrow> string \<Rightarrow> vm_result) \<Rightarrow> dbref \<Rightarrow> dbref \<Rightarrow> rinsn list
    \<Rightarrow> nat \<Rightarrow> nat \<Rightarrow> 32 word \<Rightarrow> string option \<Rightarrow> vm_result" where
  "rrun w ind p t C 0 pc r s = Timeout"
| "rrun w ind p t C (Suc n) pc r s =
     (if length C \<le> pc then Fault
      else case C ! pc of (op, arg, str) \<Rightarrow>
        (case vm_exec w ind p t (Some op) (word_of_int arg) str (map_option Some s) r of
           A_ret \<Rightarrow> Returns r
         | A_next r' \<Rightarrow> rrun w ind p t C n (pc + 1) r' s
         | A_jump \<Rightarrow> rrun w ind p t C n (nat arg) r s
         | A_loads \<Rightarrow> rrun w ind p t C n (pc + 1) r str
         | A_fail x \<Rightarrow> x))"

lemma rrun_mono:
  assumes "rrun w ind p t C n pc r s \<noteq> Timeout" "n \<le> m"
  shows "rrun w ind p t C m pc r s = rrun w ind p t C n pc r s"
  using assms
proof (induction n arbitrary: m pc r s)
  case (Suc n)
  then obtain m' where m: "m = Suc m'" "n \<le> m'" by (cases m) auto
  obtain op arg str where C: "C ! pc = (op, arg, str)" by (cases "C ! pc")
  have IH: "rrun w ind p t C m' pc' r' s' = rrun w ind p t C n pc' r' s'"
    if "rrun w ind p t C n pc' r' s' \<noteq> Timeout" for pc' r' s'
    using Suc.IH [OF that m(2)] .
  show ?case
    using Suc.prems(1) IH unfolding m(1)
    by (cases "vm_exec w ind p t (Some op) (word_of_int arg) str (map_option Some s) r")
      (simp_all add: C split: if_splits)
qed simp

section \<open>Redirecting a jump\<close>

definition is_jmp :: "bvm_opcode \<Rightarrow> bool" where
  "is_jmp op \<longleftrightarrow> op = OP_JMPT \<or> op = OP_JMPF"

definition jump_cond :: "bvm_opcode \<Rightarrow> 32 word \<Rightarrow> bool" where
  "jump_cond op r \<longleftrightarrow> (if op = OP_JMPT then r \<noteq> 0 else r = 0)"

lemma vm_exec_jump:
  "is_jmp op \<Longrightarrow> vm_exec w ind p t (Some op) arg str s r = (if jump_cond op r then A_jump else A_next r)"
  by (auto simp: is_jmp_def vm_exec_def jump_cond_def)

lemma jump_cond_opposite: "is_jmp op \<Longrightarrow> is_jmp op' \<Longrightarrow> op \<noteq> op' \<Longrightarrow> jump_cond op' r = (\<not> jump_cond op r)"
  by (auto simp: is_jmp_def jump_cond_def)

text \<open>
  The jump at \<open>j\<close> leads to a jump at \<open>k\<close>: on the same condition it goes where that one goes, on
  the opposite condition to the instruction after it.
\<close>

definition redirect_at :: "nat \<Rightarrow> rinsn list \<Rightarrow> rinsn list \<Rightarrow> bool" where
  "redirect_at j C C' \<longleftrightarrow>
     (\<exists>op k str op' x str'. j < length C \<and> C ! j = (op, int k, str) \<and> is_jmp op \<and> k < length C \<and> k \<noteq> j
        \<and> C ! k = (op', x, str') \<and> is_jmp op'
        \<and> C' = C[j := (op, if op' = op then x else int (k + 1), str)])"

definition redirect :: "rinsn list \<Rightarrow> rinsn list \<Rightarrow> bool" where
  "redirect C C' \<longleftrightarrow> (\<exists>j. redirect_at j C C')"

lemma redirect_length: "redirect C C' \<Longrightarrow> length C' = length C"
  by (auto simp: redirect_def redirect_at_def)

lemma redirect_run:
  assumes "redirect C C'" "rrun w ind p t C n pc r s \<noteq> Timeout"
  shows "rrun w ind p t C' n pc r s = rrun w ind p t C n pc r s"
  using assms(2)
proof (induction n arbitrary: pc r s rule: less_induct)
  case (less n)
  obtain j op k str op' x str' where R: "j < length C" "C ! j = (op, int k, str)" "is_jmp op"
    "k < length C" "k \<noteq> j" "C ! k = (op', x, str')" "is_jmp op'"
    "C' = C[j := (op, if op' = op then x else int (k + 1), str)]"
    using assms(1) unfolding redirect_def redirect_at_def by blast
  obtain m where n: "n = Suc m"
    using less.prems by (cases n) auto
  have IH: "rrun w ind p t C' m pc' r' s' = rrun w ind p t C m pc' r' s'"
    if "rrun w ind p t C m pc' r' s' \<noteq> Timeout" for pc' r' s'
    using less.IH [of m] that n by simp
  show ?case
  proof (cases "pc = j")
    case False
    then have "C' ! pc = C ! pc" using R(8) by simp
    with less.prems IH n R(8) show ?thesis
      by (auto split: vm_action.splits prod.splits)
  next
    case True
    show ?thesis
    proof (cases "jump_cond op r")
      case False
      with less.prems IH n R True show ?thesis
        by (simp add: vm_exec_jump)
    next
      case taken: True
      let ?to = "if op' = op then nat x else k + 1"
      have [simp]: "nat (1 + int k) = Suc k" by linarith
      have runs: "rrun w ind p t C n pc r s = rrun w ind p t C m k r s"
        "rrun w ind p t C' n pc r s = rrun w ind p t C' m ?to r s"
        using R True taken n by (simp_all add: vm_exec_jump)
      with less.prems obtain l where m: "m = Suc l" by (cases m) auto
      have step: "rrun w ind p t C m k r s = rrun w ind p t C l ?to r s"
        using R taken jump_cond_opposite [OF R(3,7)] m by (auto simp: vm_exec_jump)
      have "rrun w ind p t C l ?to r s \<noteq> Timeout"
        using less.prems runs(1) step by simp
      then have "rrun w ind p t C' l ?to r s = rrun w ind p t C l ?to r s"
        using less.IH [of l] n m by simp
      moreover have "rrun w ind p t C' m ?to r s = rrun w ind p t C' l ?to r s"
        using rrun_mono [of w ind p t C' l ?to r s m] \<open>rrun w ind p t C l ?to r s \<noteq> Timeout\<close> calculation m
        by simp
      ultimately show ?thesis
        using runs step by simp
    qed
  qed
qed

lemma redirects_run:
  assumes "redirect\<^sup>*\<^sup>* C C'" "rrun w ind p t C n pc r s \<noteq> Timeout"
  shows "rrun w ind p t C' n pc r s = rrun w ind p t C n pc r s"
  using assms by (induction rule: rtranclp_induct) (auto simp: redirect_run)

section \<open>Assembler lists with forward jumps\<close>

lemma code_insns_simps [simp]:
  "code_insns [] = []"
  "code_insns (n # ns) = (if is_label n then code_insns ns else n # code_insns ns)"
  "code_insns (xs @ ys) = code_insns xs @ code_insns ys"
  by (simp_all add: code_insns_def)

text \<open>
  Every jump has its label after it, and no label stands before a label or a jump with the
  same number: so the first label with the number of a jump is the one it goes to.
\<close>

fun fwd :: "bvm_asmnode list \<Rightarrow> bool" where
  "fwd [] = True"
| "fwd (n # ns) =
     (fwd ns \<and> (is_jump n \<longrightarrow> (\<exists>m \<in> set ns. is_label m \<and> an_arg m = an_arg n))
      \<and> (is_label n \<longrightarrow> (\<forall>m \<in> set ns. is_label m \<or> is_jump m \<longrightarrow> an_arg m \<noteq> an_arg n)))"

definition labels :: "bvm_asmnode list \<Rightarrow> int set" where
  "labels ns = an_arg ` {n \<in> set ns. is_label n}"

definition idents :: "bvm_asmnode list \<Rightarrow> int set" where
  "idents ns = an_arg ` {n \<in> set ns. is_label n \<or> is_jump n}"

lemma mem_labels: "l \<in> labels ns \<longleftrightarrow> (\<exists>m \<in> set ns. is_label m \<and> an_arg m = l)"
  by (auto simp: labels_def)

lemma mem_idents: "l \<in> idents ns \<longleftrightarrow> (\<exists>m \<in> set ns. (is_label m \<or> is_jump m) \<and> an_arg m = l)"
  by (auto simp: idents_def)

lemma labels_simps [simp]:
  "labels [] = {}" "labels (n # ns) = (if is_label n then insert (an_arg n) (labels ns) else labels ns)"
  "labels (xs @ ys) = labels xs \<union> labels ys"
  by (auto simp: labels_def)

lemma idents_simps [simp]:
  "idents [] = {}"
  "idents (n # ns) = (if is_label n \<or> is_jump n then insert (an_arg n) (idents ns) else idents ns)"
  "idents (xs @ ys) = idents xs \<union> idents ys"
  by (auto simp: idents_def)

lemma labels_idents: "labels ns \<subseteq> idents ns"
  by (auto simp: labels_def idents_def)

lemma fwd_Cons:
  "fwd (n # ns) \<longleftrightarrow> fwd ns \<and> (is_jump n \<longrightarrow> an_arg n \<in> labels ns) \<and> (is_label n \<longrightarrow> an_arg n \<notin> idents ns)"
  by (auto simp: mem_labels mem_idents simp del: labels_simps idents_simps)

lemma fwd_appendI: "fwd xs \<Longrightarrow> fwd ys \<Longrightarrow> labels xs \<inter> idents ys = {} \<Longrightarrow> fwd (xs @ ys)"
  by (induction xs) (auto simp: fwd_Cons split: if_splits simp del: fwd.simps(2))

lemma fwd_appendD: "fwd (xs @ ys) \<Longrightarrow> fwd ys \<and> labels xs \<inter> idents ys = {}"
  by (induction xs) (auto simp: fwd_Cons split: if_splits simp del: fwd.simps(2))

lemma pos_of_label_append: "l \<notin> labels xs \<Longrightarrow> pos_of_label (xs @ ys) l = length (code_insns xs) + pos_of_label ys l"
  by (induction xs) (auto split: if_splits)

lemma pos_of_label_found:
  "l \<notin> labels xs \<Longrightarrow> is_label n \<Longrightarrow> an_arg n = l \<Longrightarrow> pos_of_label (xs @ n # ys) l = length (code_insns xs)"
  by (simp add: pos_of_label_append)

section \<open>The generator\<close>

definition label_node :: "int \<Rightarrow> bvm_asmnode" where
  "label_node l = \<lparr>an_op = OP_LABEL, an_arg = l\<rparr>"

definition block_ok :: "int \<Rightarrow> int \<Rightarrow> nat \<Rightarrow> bvm_asmnode list \<Rightarrow> bool" where
  "block_ok lo hi k blk \<longleftrightarrow> fwd blk \<and> idents blk \<subseteq> {lo ..< hi}
     \<and> (\<forall>n \<in> set blk. an_op n \<noteq> OP_RET \<and> (has_string (an_op n) \<longrightarrow> 0 \<le> an_arg n \<and> an_arg n < int k))"

text \<open>What code generation adds to an assembler list.\<close>

definition extends :: "bvm_asm \<Rightarrow> bvm_asm \<Rightarrow> bool" where
  "extends a a' \<longleftrightarrow> ba_label a \<le> ba_label a'
     \<and> (\<exists>blk extra. ba_insns a' = ba_insns a @ blk \<and> ba_strs a' = ba_strs a @ extra
          \<and> block_ok (ba_label a) (ba_label a') (length (ba_strs a')) blk)"

lemma block_ok_append:
  assumes "block_ok lo mid k xs" "block_ok mid hi m ys" "k \<le> m" "lo \<le> mid" "mid \<le> hi"
  shows "block_ok lo hi m (xs @ ys)"
proof -
  have "labels xs \<inter> idents ys = {}"
    using assms(1,2) labels_idents [of xs] by (fastforce simp: block_ok_def)
  moreover have "idents xs \<union> idents ys \<subseteq> {lo ..< hi}"
    using assms by (force simp: block_ok_def)
  moreover have "\<forall>n \<in> set (xs @ ys). an_op n \<noteq> OP_RET \<and> (has_string (an_op n) \<longrightarrow> 0 \<le> an_arg n \<and> an_arg n < int m)"
    using assms(1-3) by (force simp: block_ok_def)
  ultimately show ?thesis
    using assms(1,2) by (simp add: block_ok_def fwd_appendI)
qed

lemma extends_refl: "extends a a"
  by (simp add: extends_def block_ok_def)

lemma extends_trans:
  assumes "extends a b" "extends b c"
  shows "extends a c"
proof -
  obtain x xs where x: "ba_insns b = ba_insns a @ x" "ba_strs b = ba_strs a @ xs"
    "block_ok (ba_label a) (ba_label b) (length (ba_strs b)) x" "ba_label a \<le> ba_label b"
    using assms(1) unfolding extends_def by blast
  obtain y ys where y: "ba_insns c = ba_insns b @ y" "ba_strs c = ba_strs b @ ys"
    "block_ok (ba_label b) (ba_label c) (length (ba_strs c)) y" "ba_label b \<le> ba_label c"
    using assms(2) unfolding extends_def by blast
  have "block_ok (ba_label a) (ba_label c) (length (ba_strs c)) (x @ y)"
    using x(3,4) y(2-4) by (intro block_ok_append [where mid = "ba_label b" and k = "length (ba_strs b)"]) auto
  then show ?thesis
    unfolding extends_def using x y by (intro conjI exI [of _ "x @ y"] exI [of _ "xs @ ys"]) auto
qed

lemma find_string_Some:
  assumes "find_string ss s n = Some i"
  shows "n \<le> i \<and> i < n + length ss \<and> strcmp (ss ! (i - n)) s = 0"
  using assms
proof (induction ss arbitrary: n)
  case (Cons x ss)
  then show ?case
    by (cases "strcmp x s = 0") (auto simp: Suc_diff_le nth_Cons' dest!: Cons.IH)
qed simp

definition plain_op :: "bvm_opcode \<Rightarrow> bool" where
  "plain_op op \<longleftrightarrow> op \<notin> {OP_JMPT, OP_JMPF, OP_LABEL, OP_RET}"

lemma extends_append_insn:
  assumes "plain_op op" "has_string op \<longrightarrow> str \<noteq> None"
  shows "extends a (append_insn a op arg str)"
proof (cases str)
  case None
  with assms show ?thesis
    unfolding extends_def
    by (auto simp: append_insn_def block_ok_def plain_op_def is_jump_def is_label_def)
next
  case (Some s)
  show ?thesis
  proof (cases "find_string (ba_strs a) s 0")
    case None
    with Some assms show ?thesis
      unfolding extends_def
      by (auto simp: append_insn_def block_ok_def plain_op_def is_jump_def is_label_def)
  next
    case (Some i)
    with \<open>str = Some s\<close> assms find_string_Some [OF Some] show ?thesis
      unfolding extends_def
      by (auto simp: append_insn_def block_ok_def plain_op_def is_jump_def is_label_def)
  qed
qed

lemma extends_paren_if: "extends a (paren_if c i a)"
  by (simp add: paren_if_def extends_refl extends_append_insn plain_op_def has_string_def)

lemma append_insn_simps [simp]:
  "ba_label (append_insn a op arg str) = ba_label a"
  "ba_insns (append_insn a op arg None) = ba_insns a @ [\<lparr>an_op = op, an_arg = arg\<rparr>]"
  "ba_strs (append_insn a op arg None) = ba_strs a"
  by (simp_all add: append_insn_def Let_def split: prod.splits option.splits)

text \<open>A compound: a fresh label, code for \<open>x\<close>, a jump to the label, code for \<open>y\<close>, the label.\<close>

lemma extends_compound:
  assumes "extends (snd (gen_label_id a)) b" "is_jmp op" "extends (append_insn b op (ba_label a) None) c"
  shows "extends a (append_insn c OP_LABEL (ba_label a) None)"
proof -
  let ?l = "ba_label a" and ?b = "append_insn b op (ba_label a) None"
  let ?j = "\<lparr>an_op = op, an_arg = ba_label a\<rparr>" and ?t = "\<lparr>an_op = OP_LABEL, an_arg = ba_label a\<rparr>"
  obtain x xs where x: "ba_insns b = ba_insns a @ x" "ba_strs b = ba_strs a @ xs"
    "block_ok (?l + 1) (ba_label b) (length (ba_strs b)) x" "?l + 1 \<le> ba_label b"
    using assms(1) unfolding extends_def gen_label_id_def by auto
  obtain y ys where y: "ba_insns c = ba_insns ?b @ y" "ba_strs c = ba_strs b @ ys"
    "block_ok (ba_label b) (ba_label c) (length (ba_strs c)) y" "ba_label b \<le> ba_label c"
    using assms(3) unfolding extends_def by auto
  have op: "is_jump ?j" "\<not> is_label ?j" "is_label ?t" "\<not> is_jump ?t" "op \<noteq> OP_RET" "\<not> has_string op"
    "\<not> has_string OP_LABEL"
    using assms(2) by (auto simp: is_jump_def is_label_def is_jmp_def has_string_def)
  have ids: "idents x \<subseteq> {?l + 1 ..< ba_label b}" "idents y \<subseteq> {ba_label b ..< ba_label c}"
    using x(3) y(3) by (auto simp: block_ok_def)
  have "fwd (y @ [?t])"
    using y(3) x(4) ids(2) labels_idents [of y] by (intro fwd_appendI) (force simp: block_ok_def op)+
  then have "fwd (?j # y @ [?t])"
    by (simp add: fwd_Cons op del: fwd.simps(2))
  moreover have "labels x \<inter> idents (?j # y @ [?t]) = {}"
    using ids labels_idents [of x] by (fastforce simp: op)
  ultimately have "fwd (x @ ?j # y @ [?t])"
    using x(3) by (intro fwd_appendI) (simp_all add: block_ok_def)
  moreover have "idents (x @ ?j # y @ [?t]) \<subseteq> {?l ..< ba_label c}"
    using ids x(4) y(4) by (force simp: op)
  moreover have "\<forall>n \<in> set (x @ ?j # y @ [?t]). an_op n \<noteq> OP_RET
      \<and> (has_string (an_op n) \<longrightarrow> 0 \<le> an_arg n \<and> an_arg n < int (length (ba_strs c)))"
    using x(3) y(2,3) op by (force simp: block_ok_def)
  ultimately have "block_ok ?l (ba_label c) (length (ba_strs c)) (x @ ?j # y @ [?t])"
    by (simp add: block_ok_def)
  then show ?thesis
    unfolding extends_def using x y
    by (intro conjI exI [of _ "x @ ?j # y @ [?t]"] exI [of _ "xs @ ys"]) auto
qed

lemma bflag_op: "is_allowed_bflag name = Some op \<Longrightarrow> plain_op op"
  unfolding is_allowed_bflag_gperf
  by (auto simp: bflag_gperf_def plain_op_def split: if_splits dest!: map_of_SomeD)

lemma extends_generate: "extends a (generate_bvm_asm1 a b outer)"
proof (induction b arbitrary: a outer)
  case (B_AND x y)
  show ?case
    unfolding generate_bvm_asm1.simps Let_def gen_label_id_def prod.case
    by (rule extends_compound [OF _ _ extends_trans [OF B_AND(2) extends_paren_if]])
      (simp_all add: is_jmp_def gen_label_id_def extends_trans [OF extends_paren_if B_AND(1)])
next
  case (B_OR x y)
  show ?case
    unfolding generate_bvm_asm1.simps Let_def gen_label_id_def prod.case
    by (rule extends_compound [OF _ _ extends_trans [OF B_OR(2) extends_paren_if]])
      (simp_all add: is_jmp_def gen_label_id_def extends_trans [OF extends_paren_if B_OR(1)])
next
  case (B_NOT x)
  show ?case
    unfolding generate_bvm_asm1.simps
    by (rule extends_trans [OF B_NOT extends_append_insn]) (simp_all add: plain_op_def has_string_def)
next
  case (B_FLAG name str)
  then show ?case
    by (auto simp: extends_refl bflag_op intro: extends_append_insn split: option.splits)
qed (auto simp: plain_op_def has_string_def intro!: extends_append_insn
      extends_trans [OF extends_append_insn extends_append_insn])

section \<open>The generated code computes the value of the key\<close>

definition nreal :: "bvm_asm \<Rightarrow> nat" where
  "nreal a = length (code_insns (ba_insns a))"

definition part_of :: "bvm_asm \<Rightarrow> bvm_asmnode list \<Rightarrow> string list \<Rightarrow> bool" where
  "part_of a P S \<longleftrightarrow> prefix (ba_insns a) P \<and> prefix (ba_strs a) S"

definition labels_below :: "bvm_asm \<Rightarrow> bool" where
  "labels_below a \<longleftrightarrow> labels (ba_insns a) \<subseteq> {..< ba_label a}"

definition strs_ok :: "bvm_asm \<Rightarrow> bool" where
  "strs_ok a \<longleftrightarrow> (\<forall>s \<in> set (ba_strs a). no_nul s)"

text \<open>What the parser guarantees of a parse tree.\<close>

fun node_ok :: "boolexp_node \<Rightarrow> bool" where
  "node_ok (B_AND a b) = (node_ok a \<and> node_ok b)"
| "node_ok (B_OR a b) = (node_ok a \<and> node_ok b)"
| "node_ok (B_NOT a) = node_ok a"
| "node_ok (B_ATR name text) = (no_nul name \<and> no_nul text)"
| "node_ok (B_EVAL name text) = (no_nul name \<and> no_nul text)"
| "node_ok (B_IND d lock) = no_nul lock"
| "node_ok (B_FLAG name text) =
     (no_nul text \<and> is_allowed_bflag name \<noteq> None \<and> is_allowed_bflag name \<noteq> Some OP_TIS)"
| "node_ok (B_BOOL v) = bit_value v"
| "node_ok a = True"

lemma node_ok_consts: "node_ok a \<Longrightarrow> bool_consts a"
  by (induction a) auto

lemma extends_part: "extends a b \<Longrightarrow> part_of b P S \<Longrightarrow> part_of a P S"
  by (auto simp: extends_def part_of_def prefix_def)

lemma extends_labels_below: "extends a b \<Longrightarrow> labels_below a \<Longrightarrow> labels_below b"
proof -
  assume "extends a b" "labels_below a"
  then obtain blk where "ba_insns b = ba_insns a @ blk" "idents blk \<subseteq> {ba_label a ..< ba_label b}"
    "ba_label a \<le> ba_label b" "labels (ba_insns a) \<subseteq> {..< ba_label a}"
    unfolding extends_def block_ok_def labels_below_def by blast
  then show "labels_below b"
    using labels_idents [of blk] by (force simp: labels_below_def)
qed

lemma extends_nreal: "extends a b \<Longrightarrow> nreal a \<le> nreal b"
  by (auto simp: extends_def nreal_def)

lemma rcode_nth:
  assumes "prefix (xs @ [n]) P" "\<not> is_label n"
  shows "length (code_insns xs) < length (rcode P S)" "rcode P S ! length (code_insns xs) = rinsn_of P S n"
  using assms by (auto simp: prefix_def rcode_def nth_append)

definition res_of :: "32 word option \<Rightarrow> vm_result" where
  "res_of v = (case v of None \<Rightarrow> Fault | Some r \<Rightarrow> Returns r)"

text \<open>From \<open>pc\<close> to \<open>pc'\<close> in at most as many steps, computing \<open>f\<close> of the register.\<close>

definition runs ::
  "world \<Rightarrow> (dbref \<Rightarrow> string \<Rightarrow> vm_result) \<Rightarrow> dbref \<Rightarrow> dbref \<Rightarrow> rinsn list \<Rightarrow> nat \<Rightarrow> nat
    \<Rightarrow> (32 word \<Rightarrow> 32 word option) \<Rightarrow> bool" where
  "runs w ind p t C pc pc' f \<longleftrightarrow> pc \<le> pc' \<and>
     (\<forall>r s. \<exists>k s'. k \<le> pc' - pc \<and>
        (\<forall>n. rrun w ind p t C (k + n) pc r s =
           (case f r of None \<Rightarrow> Fault | Some v \<Rightarrow> rrun w ind p t C n pc' v s')))"

lemma runs_refl: "runs w ind p t C pc pc Some"
  unfolding runs_def by (auto intro!: exI [of _ 0])

lemma runs_trans:
  assumes "runs w ind p t C a b f" "runs w ind p t C b c g"
  shows "runs w ind p t C a c (\<lambda>r. case f r of None \<Rightarrow> None | Some v \<Rightarrow> g v)"
  unfolding runs_def
proof (intro conjI allI)
  show "a \<le> c" using assms by (simp add: runs_def)
  fix r s
  obtain k s' where k: "k \<le> b - a" "\<And>n. rrun w ind p t C (k + n) a r s =
      (case f r of None \<Rightarrow> Fault | Some v \<Rightarrow> rrun w ind p t C n b v s')"
    using assms(1) unfolding runs_def by blast
  show "\<exists>k s'. k \<le> c - a \<and> (\<forall>n. rrun w ind p t C (k + n) a r s =
      (case case f r of None \<Rightarrow> None | Some v \<Rightarrow> g v of
         None \<Rightarrow> Fault | Some v \<Rightarrow> rrun w ind p t C n c v s'))"
  proof (cases "f r")
    case None
    with k assms show ?thesis
      by (intro exI [of _ k] exI [of _ s]) (auto simp: runs_def)
  next
    case (Some v)
    obtain l s'' where l: "l \<le> c - b" "\<And>n. rrun w ind p t C (l + n) b v s' =
        (case g v of None \<Rightarrow> Fault | Some v \<Rightarrow> rrun w ind p t C n c v s'')"
      using assms(2) unfolding runs_def by blast
    have "rrun w ind p t C (k + l + n) a r s =
        (case g v of None \<Rightarrow> Fault | Some v \<Rightarrow> rrun w ind p t C n c v s'')" for n
      using k(2) [of "l + n"] l(2) [of n] Some by (simp add: add.assoc)
    with Some k(1) l(1) assms show ?thesis
      by (intro exI [of _ "k + l"] exI [of _ s'']) (auto simp: runs_def)
  qed
qed

lemma runs_insn:
  assumes "pc < length C" "C ! pc = (op, arg, str)"
    "\<And>r s. vm_exec w ind p t (Some op) (word_of_int arg) str s r = next_of (f r)"
  shows "runs w ind p t C pc (pc + 1) f"
  unfolding runs_def
proof (intro conjI allI exI)
  fix r s n
  show "rrun w ind p t C (1 + n) pc r s =
      (case f r of None \<Rightarrow> Fault | Some v \<Rightarrow> rrun w ind p t C n (pc + 1) v s)"
    using assms by (simp add: next_of_def split: option.splits)
qed simp_all

lemma runs_loads:
  assumes "pc + 1 < length C" "C ! pc = (OP_LOADS, x, Some name)" "C ! (pc + 1) = (op, arg, str)"
    "\<And>r. vm_exec w ind p t (Some op) (word_of_int arg) str (Some (Some name)) r = next_of (f r)"
  shows "runs w ind p t C pc (pc + 2) f"
  unfolding runs_def
proof (intro conjI allI exI)
  fix r s n
  have "vm_exec w ind p t (Some OP_LOADS) (word_of_int x) (Some name) (map_option Some s) r = A_loads"
    by (simp add: vm_exec_def)
  then show "rrun w ind p t C (2 + n) pc r s =
      (case f r of None \<Rightarrow> Fault | Some v \<Rightarrow> rrun w ind p t C n (pc + 2) v (Some name))"
    using assms by (simp add: next_of_def numeral_2_eq_2 split: option.splits)
qed simp_all

lemma append_insn_string:
  assumes "strs_ok a" "no_nul str"
  obtains i extra where "append_insn a op arg (Some str) =
      a\<lparr>ba_insns := ba_insns a @ [\<lparr>an_op = op, an_arg = int i\<rparr>], ba_strs := ba_strs a @ extra\<rparr>"
    "i < length (ba_strs a @ extra)" "(ba_strs a @ extra) ! i = str" "\<forall>s \<in> set extra. no_nul s"
proof (cases "find_string (ba_strs a) str 0")
  case None
  then show thesis
    using assms that [of "[str]" "length (ba_strs a)"] by (simp add: append_insn_def)
next
  case (Some i)
  have "i < length (ba_strs a)" "strcmp (ba_strs a ! i) str = 0"
    using find_string_Some [OF Some] by simp_all
  moreover have "no_nul (ba_strs a ! i)"
    using assms(1) calculation(1) by (simp add: strs_ok_def)
  ultimately show thesis
    using Some assms(2) that [of "[]" i] by (simp add: append_insn_def strcmp_zero)
qed

lemma strs_ok_append_insn:
  "strs_ok a \<Longrightarrow> (\<And>s. str = Some s \<Longrightarrow> no_nul s) \<Longrightarrow> strs_ok (append_insn a op arg str)"
  by (auto simp: append_insn_def strs_ok_def split: option.splits)

lemma strs_ok_paren_if: "strs_ok a \<Longrightarrow> strs_ok (paren_if c i a)"
  by (auto simp: paren_if_def intro: strs_ok_append_insn)

lemma strs_ok_generate: "strs_ok a \<Longrightarrow> node_ok b \<Longrightarrow> strs_ok (generate_bvm_asm1 a b outer)"
proof (induction b arbitrary: a outer)
  case (B_AND x y)
  have "strs_ok (a\<lparr>ba_label := ba_label a + 1\<rparr>)" using B_AND.prems(1) by (simp add: strs_ok_def)
  with B_AND show ?case
    by (auto simp: Let_def gen_label_id_def intro!: strs_ok_append_insn strs_ok_paren_if B_AND.IH)
next
  case (B_OR x y)
  have "strs_ok (a\<lparr>ba_label := ba_label a + 1\<rparr>)" using B_OR.prems(1) by (simp add: strs_ok_def)
  with B_OR show ?case
    by (auto simp: Let_def gen_label_id_def intro!: strs_ok_append_insn strs_ok_paren_if B_OR.IH)
qed (auto intro!: strs_ok_append_insn split: option.splits)

lemma part_of_rcode:
  assumes "part_of (b\<lparr>ba_insns := ba_insns a @ [n], ba_strs := S'\<rparr>) P S" "\<not> is_label n"
  shows "nreal a < length (rcode P S)" "rcode P S ! nreal a = rinsn_of P S n"
  using rcode_nth [of "ba_insns a" n P S] assms by (auto simp: part_of_def nreal_def)

lemma part_of_string:
  assumes "part_of (b\<lparr>ba_insns := I, ba_strs := S'\<rparr>) P S" "i < length S'"
  shows "S ! i = S' ! i"
  using assms by (auto simp: part_of_def prefix_def nth_append)

lemma of_int_sint: "word_of_int (sint (d :: 'a :: len word)) = d"
  by simp

lemma append_insn_plain:
  "append_insn a op arg None = a\<lparr>ba_insns := ba_insns a @ [\<lparr>an_op = op, an_arg = arg\<rparr>], ba_strs := ba_strs a\<rparr>"
  by (simp add: append_insn_def)

lemma nreal_append_insn: "nreal (append_insn a op arg str) = nreal a + (if op = OP_LABEL then 0 else 1)"
  by (simp add: append_insn_def nreal_def is_label_def split: prod.splits)

lemma runs_plain:
  assumes "part_of (append_insn a op arg None) P S" "plain_op op" "\<not> has_string op"
    "\<And>r s. vm_exec w ind p t (Some op) (word_of_int arg) None s r = next_of (f r)"
  shows "runs w ind p t (rcode P S) (nreal a) (nreal (append_insn a op arg None)) f"
proof -
  have "\<not> is_label \<lparr>an_op = op, an_arg = arg\<rparr>" "\<not> is_jump \<lparr>an_op = op, an_arg = arg\<rparr>" "op \<noteq> OP_LABEL"
    using assms(2) by (auto simp: is_label_def is_jump_def plain_op_def)
  with part_of_rcode [OF assms(1) [unfolded append_insn_plain]] assms(3,4) show ?thesis
    using runs_insn [of "nreal a" "rcode P S" op arg None w ind p t f]
    by (simp add: rinsn_of_def nreal_append_insn)
qed

lemma runs_paren_if:
  assumes "part_of (paren_if c i a) P S"
  shows "runs w ind p t (rcode P S) (nreal a) (nreal (paren_if c i a)) Some"
proof (cases c)
  case True
  with assms show ?thesis
    using runs_plain [of a OP_PAREN i P S w ind p t Some]
    by (simp add: paren_if_def plain_op_def has_string_def vm_exec_def next_of_def)
qed (simp add: paren_if_def runs_refl)

lemma runs_string:
  assumes "part_of (append_insn a op arg (Some str)) P S" "plain_op op" "has_string op" "strs_ok a" "no_nul str"
    "\<And>arg r s. vm_exec w ind p t (Some op) arg (Some str) s r = next_of (f r)"
  shows "runs w ind p t (rcode P S) (nreal a) (nreal (append_insn a op arg (Some str))) f"
proof -
  obtain i extra where e: "append_insn a op arg (Some str) =
      a\<lparr>ba_insns := ba_insns a @ [\<lparr>an_op = op, an_arg = int i\<rparr>], ba_strs := ba_strs a @ extra\<rparr>"
    "i < length (ba_strs a @ extra)" "(ba_strs a @ extra) ! i = str"
    using append_insn_string [OF assms(4,5)] by metis
  have n: "\<not> is_label \<lparr>an_op = op, an_arg = int i\<rparr>" "\<not> is_jump \<lparr>an_op = op, an_arg = int i\<rparr>" "op \<noteq> OP_LABEL"
    using assms(2) by (auto simp: is_label_def is_jump_def plain_op_def)
  show ?thesis
    using part_of_rcode [OF assms(1) [unfolded e(1)] n(1)] part_of_string [OF assms(1) [unfolded e(1)] e(2)]
      assms(3,6) n e(3) runs_insn [of "nreal a" "rcode P S" op "int i" "Some str" w ind p t f]
    by (simp add: rinsn_of_def nreal_append_insn)
qed

lemma loads_rcode:
  assumes "part_of (append_insn a OP_LOADS arg (Some str)) P S" "strs_ok a" "no_nul str"
  obtains x where "nreal a < length (rcode P S)" "rcode P S ! nreal a = (OP_LOADS, x, Some str)"
proof -
  obtain i extra where e: "append_insn a OP_LOADS arg (Some str) =
      a\<lparr>ba_insns := ba_insns a @ [\<lparr>an_op = OP_LOADS, an_arg = int i\<rparr>], ba_strs := ba_strs a @ extra\<rparr>"
    "i < length (ba_strs a @ extra)" "(ba_strs a @ extra) ! i = str"
    using append_insn_string [OF assms(2,3)] by metis
  have n: "\<not> is_label \<lparr>an_op = OP_LOADS, an_arg = int i\<rparr>" "\<not> is_jump \<lparr>an_op = OP_LOADS, an_arg = int i\<rparr>"
    by (auto simp: is_label_def is_jump_def)
  show thesis
    using part_of_rcode [OF assms(1) [unfolded e(1)] n(1)] part_of_string [OF assms(1) [unfolded e(1)] e(2)]
      n e(3) that [of "int i"] by (simp add: rinsn_of_def has_string_def)
qed

text \<open>A test that uses the string register: the string is loaded just before.\<close>

lemma runs_loads_plain:
  assumes "part_of (append_insn (append_insn a OP_LOADS 0 (Some name)) op arg None) P S"
    "plain_op op" "\<not> has_string op" "strs_ok a" "no_nul name"
    "\<And>r. vm_exec w ind p t (Some op) (word_of_int arg) None (Some (Some name)) r = next_of (f r)"
  shows "runs w ind p t (rcode P S) (nreal a)
    (nreal (append_insn (append_insn a OP_LOADS 0 (Some name)) op arg None)) f"
proof -
  let ?a = "append_insn a OP_LOADS 0 (Some name)"
  have "part_of ?a P S"
    using assms(1-3) by (intro extends_part [OF extends_append_insn assms(1)]) auto
  then obtain x where x: "rcode P S ! nreal a = (OP_LOADS, x, Some name)"
    using loads_rcode assms(4,5) by blast
  have n: "\<not> is_label \<lparr>an_op = op, an_arg = arg\<rparr>" "\<not> is_jump \<lparr>an_op = op, an_arg = arg\<rparr>" "op \<noteq> OP_LABEL"
    using assms(2) by (auto simp: is_label_def is_jump_def plain_op_def)
  have a: "nreal ?a = nreal a + 1"
    by (simp add: nreal_append_insn)
  show ?thesis
    using part_of_rcode [OF assms(1) [unfolded append_insn_plain] n(1)] x n a assms(3,6)
      runs_loads [of "nreal a" "rcode P S" x name op arg None w ind p t f]
    by (simp add: rinsn_of_def nreal_append_insn)
qed

lemma runs_loads_string:
  assumes "part_of (append_insn (append_insn a OP_LOADS 0 (Some name)) op 0 (Some str)) P S"
    "plain_op op" "has_string op" "strs_ok a" "no_nul name" "no_nul str"
    "\<And>arg r. vm_exec w ind p t (Some op) arg (Some str) (Some (Some name)) r = next_of (f r)"
  shows "runs w ind p t (rcode P S) (nreal a)
    (nreal (append_insn (append_insn a OP_LOADS 0 (Some name)) op 0 (Some str))) f"
proof -
  let ?a = "append_insn a OP_LOADS 0 (Some name)"
  have "part_of ?a P S"
    using assms(1-3) by (intro extends_part [OF extends_append_insn assms(1)]) auto
  then obtain x where x: "rcode P S ! nreal a = (OP_LOADS, x, Some name)"
    using loads_rcode assms(4,5) by blast
  have ok: "strs_ok ?a"
    using assms(4,5) by (intro strs_ok_append_insn) auto
  obtain i extra where e: "append_insn ?a op 0 (Some str) =
      ?a\<lparr>ba_insns := ba_insns ?a @ [\<lparr>an_op = op, an_arg = int i\<rparr>], ba_strs := ba_strs ?a @ extra\<rparr>"
    "i < length (ba_strs ?a @ extra)" "(ba_strs ?a @ extra) ! i = str"
    using append_insn_string [OF ok assms(6)] by metis
  have n: "\<not> is_label \<lparr>an_op = op, an_arg = int i\<rparr>" "\<not> is_jump \<lparr>an_op = op, an_arg = int i\<rparr>" "op \<noteq> OP_LABEL"
    using assms(2) by (auto simp: is_label_def is_jump_def plain_op_def)
  have a: "nreal ?a = nreal a + 1"
    by (simp add: nreal_append_insn)
  show ?thesis
    using part_of_rcode [OF assms(1) [unfolded e(1)] n(1)] part_of_string [OF assms(1) [unfolded e(1)] e(2)]
      x n a e(3) assms(3,7) runs_loads [of "nreal a" "rcode P S" x name op "int i" "Some str" w ind p t f]
    by (simp add: rinsn_of_def nreal_append_insn)
qed

lemma runs_jump:
  assumes "i < length C" "C ! i = (op, int j, str)" "is_jmp op" "i + 1 \<le> j" "runs w ind p t C (i + 1) j g"
  shows "runs w ind p t C i j (\<lambda>v. if jump_cond op v then Some v else g v)"
  unfolding runs_def
proof (intro conjI allI)
  show "i \<le> j" using assms(4) by simp
  fix r s
  show "\<exists>k s'. k \<le> j - i \<and> (\<forall>n. rrun w ind p t C (k + n) i r s =
      (case if jump_cond op r then Some r else g r of
         None \<Rightarrow> Fault | Some v \<Rightarrow> rrun w ind p t C n j v s'))"
  proof (cases "jump_cond op r")
    case True
    with assms show ?thesis
      by (intro exI [of _ 1] exI [of _ s]) (simp add: vm_exec_jump)
  next
    case False
    obtain k s' where k: "k \<le> j - (i + 1)" "\<And>n. rrun w ind p t C (k + n) (i + 1) r s =
        (case g r of None \<Rightarrow> Fault | Some v \<Rightarrow> rrun w ind p t C n j v s')"
      using assms(5) unfolding runs_def by blast
    have "rrun w ind p t C (Suc k + n) i r s =
        (case g r of None \<Rightarrow> Fault | Some v \<Rightarrow> rrun w ind p t C n j v s')" for n
      using assms False k(2) [of n] by (simp add: vm_exec_jump)
    with False k(1) assms(4) show ?thesis
      by (intro exI [of _ "Suc k"] exI [of _ s']) auto
  qed
qed

lemma runs_compound:
  assumes P: "part_of (append_insn c OP_LABEL (ba_label a) None) P S"
    and ext: "extends (snd (gen_label_id a)) b" "extends (append_insn b op (ba_label a) None) c"
    and op: "is_jmp op" and below: "labels_below a"
    and f: "runs w ind p t (rcode P S) (nreal a) (nreal b) f"
    and g: "runs w ind p t (rcode P S) (nreal b + 1) (nreal c) g"
  shows "runs w ind p t (rcode P S) (nreal a) (nreal c)
    (\<lambda>r. case f r of None \<Rightarrow> None | Some v \<Rightarrow> if jump_cond op v then Some v else g v)"
proof -
  let ?l = "ba_label a" and ?n = "\<lparr>an_op = op, an_arg = ba_label a\<rparr>"
  obtain x where x: "ba_insns b = ba_insns a @ x" "idents x \<subseteq> {?l + 1 ..< ba_label b}" "?l + 1 \<le> ba_label b"
    using ext(1) by (auto simp: extends_def gen_label_id_def block_ok_def)
  obtain y where y: "ba_insns c = ba_insns b @ ?n # y" "idents y \<subseteq> {ba_label b ..< ba_label c}"
    using ext(2) by (auto simp: extends_def block_ok_def)
  have n: "\<not> is_label ?n" "is_jump ?n" "\<not> has_string op"
    using op by (auto simp: is_label_def is_jump_def is_jmp_def has_string_def)
  obtain rest where rest: "P = ba_insns c @ \<lparr>an_op = OP_LABEL, an_arg = ?l\<rparr> # rest"
    using P by (auto simp: part_of_def prefix_def)
  have "?l \<notin> labels (ba_insns c)"
    using below x y labels_idents [of x] labels_idents [of y] n(1)
    by (force simp: labels_below_def)
  then have pos: "pos_of_label P ?l = nreal c"
    unfolding rest nreal_def by (intro pos_of_label_found) (simp_all add: is_label_def)
  have "prefix (ba_insns b @ [?n]) P"
    by (simp add: rest y(1) prefix_def)
  from rcode_nth [OF this n(1)] n pos
  have C: "nreal b < length (rcode P S)" "rcode P S ! nreal b = (op, int (nreal c), None)"
    by (simp_all add: nreal_def rinsn_of_def)
  have "nreal b + 1 \<le> nreal c"
    using n(1) by (simp add: nreal_def y(1))
  from runs_trans [OF f runs_jump [OF C op this g]] show ?thesis .
qed

lemma vm_exec_thing:
  "op \<in> {OP_TCONST, OP_TIS, OP_TCARRY, OP_TOWNER} \<Longrightarrow>
   vm_exec w ind p t (Some op) arg str s r = next_of (Some (truth (test_thing w p op arg)))"
  by (auto simp: vm_exec_def next_of_def)

lemma vm_exec_string:
  "op \<in> {OP_TNAME, OP_TFLAG, OP_TPOWER, OP_TCHANNEL, OP_TIP, OP_THOSTNAME, OP_TTYPE, OP_TDBREFLIST} \<Longrightarrow>
   vm_exec w ind p t (Some op) arg (Some str) s r = next_of (test_string w p t op None str r)"
  by (auto simp: vm_exec_def test_string_def)

lemma vm_exec_named:
  "op \<in> {OP_TATR, OP_TEVAL} \<Longrightarrow>
   vm_exec w ind p t (Some op) arg (Some str) (Some (Some name)) r = next_of (test_string w p t op (Some name) str r)"
  by (auto simp: vm_exec_def)

lemma vm_exec_ind:
  assumes "\<And>d s. vind d s = res_of (ind d s)"
  shows "vm_exec w vind p t (Some OP_TIND) arg str (Some (Some lock)) r =
    next_of (test_ind w ind (Some 0) t arg lock)"
  using assms by (auto simp: vm_exec_def next_of_def next_result_def test_ind_def res_of_def split: option.splits)

lemma bflag_string_op:
  "is_allowed_bflag name = Some op \<Longrightarrow> op \<noteq> OP_TIS \<Longrightarrow>
   op \<in> {OP_TNAME, OP_TFLAG, OP_TPOWER, OP_TCHANNEL, OP_TIP, OP_THOSTNAME, OP_TTYPE, OP_TDBREFLIST}
   \<and> plain_op op \<and> has_string op"
  unfolding is_allowed_bflag_gperf
  by (auto simp: bflag_gperf_def plain_op_def has_string_def split: if_splits dest!: map_of_SomeD)

lemma generate_compound_runs:
  assumes X: "\<And>a. labels_below a \<Longrightarrow> strs_ok a \<Longrightarrow> part_of (generate_bvm_asm1 a x ty) P S \<Longrightarrow>
      runs w vind p t (rcode P S) (nreal a) (nreal (generate_bvm_asm1 a x ty)) f"
    and Y: "\<And>a. labels_below a \<Longrightarrow> strs_ok a \<Longrightarrow> part_of (generate_bvm_asm1 a y ty) P S \<Longrightarrow>
      runs w vind p t (rcode P S) (nreal a) (nreal (generate_bvm_asm1 a y ty)) g"
    and ok: "labels_below a" "strs_ok a" "node_ok x" and op: "is_jmp op"
    and e: "e = paren_if q 1 (generate_bvm_asm1 (append_insn
      (generate_bvm_asm1 (paren_if q 0 (snd (gen_label_id a))) x ty) op (ba_label a) None) y ty)"
    and P: "part_of (append_insn e OP_LABEL (ba_label a) None) P S"
  shows "runs w vind p t (rcode P S) (nreal a) (nreal (append_insn e OP_LABEL (ba_label a) None))
    (\<lambda>r. case f r of None \<Rightarrow> None | Some v \<Rightarrow> if jump_cond op v then Some v else g v)"
proof -
  define a0 where "a0 = snd (gen_label_id a)"
  define a1 where "a1 = paren_if q 0 a0"
  define b where "b = generate_bvm_asm1 a1 x ty"
  define j where "j = append_insn b op (ba_label a) None"
  define c where "c = generate_bvm_asm1 j y ty"
  have e': "e = paren_if q 1 c"
    by (simp add: e c_def j_def b_def a1_def a0_def)
  have a0: "nreal a0 = nreal a" "labels_below a0" "strs_ok a0" "ba_label a0 = ba_label a + 1"
    using ok by (auto simp: a0_def gen_label_id_def nreal_def labels_below_def strs_ok_def)
  have ext: "extends a0 a1" "extends a1 b" "extends j c" "extends c e"
    by (simp_all add: a1_def b_def c_def e' extends_paren_if extends_generate)
  have j: "part_of j Q T \<Longrightarrow> part_of b Q T" for Q T
    by (auto simp: j_def part_of_def prefix_def)
  have parts: "part_of e P S"
    using P by (auto simp: part_of_def prefix_def)
  then have "part_of c P S" "part_of j P S" "part_of b P S" "part_of a1 P S"
    using ext extends_part j by blast+
  have ok1: "labels_below a1" "strs_ok a1" "labels_below b" "strs_ok b"
    using extends_labels_below [OF ext(1) a0(2)] extends_labels_below [OF ext(2)] a0(3) ok(3)
    by (auto simp: a1_def b_def strs_ok_paren_if strs_ok_generate)
  have okj: "labels_below j" "strs_ok j"
    using ok1(3,4) op by (auto simp: j_def labels_below_def is_label_def is_jmp_def strs_ok_def)
  have "runs w vind p t (rcode P S) (nreal a) (nreal b) f"
  proof -
    have "runs w vind p t (rcode P S) (nreal a) (nreal a1) Some"
      using runs_paren_if [of q 0 a0 P S w vind p t] \<open>part_of a1 P S\<close> a0(1) by (simp add: a1_def)
    moreover have "runs w vind p t (rcode P S) (nreal a1) (nreal b) f"
      using X [of a1] ok1(1,2) \<open>part_of b P S\<close> by (simp add: b_def)
    ultimately have "runs w vind p t (rcode P S) (nreal a) (nreal b)
        (\<lambda>r. case Some r of None \<Rightarrow> None | Some v \<Rightarrow> f v)"
      by (rule runs_trans)
    then show ?thesis by simp
  qed
  moreover have "runs w vind p t (rcode P S) (nreal b + 1) (nreal e) g"
  proof -
    have "runs w vind p t (rcode P S) (nreal j) (nreal c) g"
      using Y [of j] okj \<open>part_of c P S\<close> by (simp add: c_def)
    moreover have "runs w vind p t (rcode P S) (nreal c) (nreal e) Some"
      using runs_paren_if [of q 1 c P S w vind p t] parts by (simp add: e')
    ultimately have "runs w vind p t (rcode P S) (nreal j) (nreal e) (\<lambda>r. case g r of None \<Rightarrow> None | Some v \<Rightarrow> Some v)"
      by (rule runs_trans)
    moreover have "(\<lambda>r. case g r of None \<Rightarrow> None | Some v \<Rightarrow> Some v) = g"
      by (auto simp: fun_eq_iff split: option.splits)
    moreover have "nreal j = nreal b + 1"
      using op by (auto simp: j_def nreal_append_insn is_jmp_def)
    ultimately show ?thesis by simp
  qed
  moreover have "extends (snd (gen_label_id a)) b" "extends (append_insn b op (ba_label a) None) e"
    using ext extends_trans by (auto simp: a0_def j_def)
  ultimately show ?thesis
    using runs_compound [OF P _ _ op ok(1)] by (simp add: nreal_append_insn)
qed

lemma generate_runs:
  assumes "\<And>d s. vind d s = res_of (ind d s)" "labels_below a" "strs_ok a" "node_ok b"
    "part_of (generate_bvm_asm1 a b outer) P S"
  shows "runs w vind p t (rcode P S) (nreal a) (nreal (generate_bvm_asm1 a b outer)) (bool_value w ind p t b)"
  using assms(2-5)
proof (induction b arbitrary: a outer)
  case (B_IND d lock)
  then show ?case
    by (simp only: generate_bvm_asm1.simps)
      (rule runs_loads_plain, simp_all add: plain_op_def has_string_def of_int_sint vm_exec_ind [OF assms(1)])
next
  case (B_ATR name str)
  then show ?case
    by (simp only: generate_bvm_asm1.simps)
      (rule runs_loads_string, simp_all add: plain_op_def has_string_def vm_exec_named)
next
  case (B_EVAL name str)
  then show ?case
    by (simp only: generate_bvm_asm1.simps)
      (rule runs_loads_string, simp_all add: plain_op_def has_string_def vm_exec_named)
next
  case (B_FLAG name str)
  then obtain op where op: "is_allowed_bflag name = Some op" "op \<noteq> OP_TIS" by auto
  with B_FLAG bflag_string_op [OF op] show ?case
    by (simp only: generate_bvm_asm1.simps option.case)
      (rule runs_string, auto simp: vm_exec_string)
next
  case (B_NOT x)
  then have P: "part_of (append_insn (generate_bvm_asm1 a x BOOLEXP_NOT) OP_NEGR 0 None) P S"
    by simp
  have "part_of (generate_bvm_asm1 a x BOOLEXP_NOT) P S"
    by (rule extends_part [OF extends_append_insn P]) (simp_all add: plain_op_def has_string_def)
  with B_NOT have "runs w vind p t (rcode P S) (nreal a) (nreal (generate_bvm_asm1 a x BOOLEXP_NOT))
      (bool_value w ind p t x)" by simp
  moreover have "runs w vind p t (rcode P S) (nreal (generate_bvm_asm1 a x BOOLEXP_NOT))
      (nreal (append_insn (generate_bvm_asm1 a x BOOLEXP_NOT) OP_NEGR 0 None)) (\<lambda>v. Some (truth (v = 0)))"
    by (rule runs_plain [OF P]) (simp_all add: plain_op_def has_string_def vm_exec_def next_of_def)
  ultimately show ?case
    using runs_trans by (simp add: fun_eq_iff)
next
  case (B_AND x y)
  have "runs w vind p t (rcode P S) (nreal a) (nreal (generate_bvm_asm1 a (B_AND x y) outer))
      (\<lambda>r. case bool_value w ind p t x r of
        None \<Rightarrow> None | Some v \<Rightarrow> if jump_cond OP_JMPF v then Some v else bool_value w ind p t y v)"
    using B_AND.prems(4) B_AND.prems(3)
    unfolding generate_bvm_asm1.simps Let_def gen_label_id_def prod.case
    by (intro generate_compound_runs [where ty = BOOLEXP_AND and x = x and y = y and q = "outer = BOOLEXP_NOT"]
        B_AND.prems(1,2)) (simp_all add: is_jmp_def gen_label_id_def B_AND.IH)
  then show ?case
    by (simp add: jump_cond_def cong: option.case_cong)
next
  case (B_OR x y)
  have "runs w vind p t (rcode P S) (nreal a) (nreal (generate_bvm_asm1 a (B_OR x y) outer))
      (\<lambda>r. case bool_value w ind p t x r of
        None \<Rightarrow> None | Some v \<Rightarrow> if jump_cond OP_JMPT v then Some v else bool_value w ind p t y v)"
    using B_OR.prems(4) B_OR.prems(3)
    unfolding generate_bvm_asm1.simps Let_def gen_label_id_def prod.case
    by (intro generate_compound_runs [where ty = BOOLEXP_OR and x = x and y = y
          and q = "outer = BOOLEXP_NOT \<or> outer = BOOLEXP_AND"]
        B_OR.prems(1,2)) (simp_all add: is_jmp_def gen_label_id_def B_OR.IH)
  then show ?case
    by (simp add: jump_cond_def cong: option.case_cong)
qed (simp_all add: runs_plain plain_op_def has_string_def of_int_sint vm_exec_thing,
      auto intro!: runs_plain simp: plain_op_def has_string_def vm_exec_def next_of_def)

section \<open>The thread jumping optimiser\<close>

text \<open>What the generator establishes and every redirection keeps.\<close>

definition opt_inv :: "bvm_asm \<Rightarrow> bool" where
  "opt_inv a \<longleftrightarrow> fwd (ba_insns a) \<and> idents (ba_insns a) \<subseteq> {..< ba_label a}
     \<and> (\<exists>xs. ba_insns a = xs @ [\<lparr>an_op = OP_RET, an_arg = 0\<rparr>])
     \<and> (\<forall>n \<in> set (ba_insns a). has_string (an_op n) \<longrightarrow> 0 \<le> an_arg n \<and> an_arg n < int (length (ba_strs a)))"

lemma fwd_replace:
  "fwd (xs @ zs) \<Longrightarrow> fwd zs' \<Longrightarrow> labels zs \<subseteq> labels zs' \<Longrightarrow> labels xs \<inter> idents zs' = {} \<Longrightarrow> fwd (xs @ zs')"
  by (induction xs) (auto simp: fwd_Cons split: if_splits simp del: fwd.simps(2))

lemma jump_target:
  assumes inv: "opt_inv a" and P: "ba_insns a = xs @ n # ys" and n: "is_jump n"
  obtains y1 lab ls m rest where "ys = y1 @ lab # ls @ m # rest" "is_label lab" "an_arg lab = an_arg n"
    "an_arg n \<notin> labels (xs @ n # y1)" "\<forall>l \<in> set ls. is_label l" "\<not> is_label m"
    "insn_after_label (ba_insns a) (an_arg n) = Some (Some (length (xs @ n # y1 @ lab # ls)))"
proof -
  let ?is = "\<lambda>m. is_label m \<and> an_arg m = an_arg n"
  have nl: "\<not> is_label n" using n by (auto simp: is_jump_def is_label_def)
  have f: "fwd (n # ys)" "labels xs \<inter> idents (n # ys) = {}"
    using inv fwd_appendD [of xs "n # ys"] by (auto simp: opt_inv_def P)
  then have "an_arg n \<in> labels ys" and xs: "an_arg n \<notin> labels xs"
    using n nl by (auto simp: fwd_Cons simp del: fwd.simps(2))
  then have "\<exists>m \<in> set ys. ?is m" by (auto simp: mem_labels)
  then obtain y1 lab y2 where y: "ys = y1 @ lab # y2" "?is lab" "\<forall>m \<in> set y1. \<not> ?is m"
    by (rule split_list_first_propE)
  have none: "\<forall>m \<in> set (xs @ n # y1). \<not> ?is m"
    using xs y(3) nl by (auto simp: mem_labels)
  obtain zs where z: "ba_insns a = zs @ [\<lparr>an_op = OP_RET, an_arg = 0\<rparr>]"
    using inv by (auto simp: opt_inv_def)
  have "\<exists>m \<in> set y2. \<not> is_label m"
  proof (rule ccontr)
    assume "\<not> (\<exists>m \<in> set y2. \<not> is_label m)"
    then have "is_label (last (ba_insns a))"
      using y(2) by (auto simp: P y(1))
    then show False by (simp add: z is_label_def)
  qed
  then obtain ls m rest where l: "y2 = ls @ m # rest" "\<not> is_label m" "\<forall>x \<in> set ls. \<not> \<not> is_label x"
    by (rule split_list_first_propE)
  have "dropWhile (\<lambda>m. \<not> ?is m) (ba_insns a) = dropWhile (\<lambda>m. \<not> ?is m) (lab # y2)"
    using none dropWhile_append2 [of "xs @ n # y1" "\<lambda>m. \<not> ?is m" "lab # y2"] by (simp add: P y(1))
  then have "dropWhile (\<lambda>m. \<not> ?is m) (ba_insns a) = lab # y2"
    using y(2) by simp
  moreover have "dropWhile is_label y2 = m # rest"
    using l dropWhile_append2 [of ls is_label "m # rest"] by simp
  ultimately have "insn_after_label (ba_insns a) (an_arg n) = Some (Some (length (xs @ n # y1 @ lab # ls)))"
    by (simp add: insn_after_label_def P y(1) l(1))
  with that [of y1 lab ls m rest] y l none show thesis
    by (auto simp: mem_labels)
qed

lemma pos_of_label_le: "pos_of_label ns l \<le> length (code_insns ns)"
  by (induction ns) auto

text \<open>Positions and resolved instructions do not see a change of a jump's argument.\<close>

lemma pos_of_label_swap:
  "is_label m = is_label n \<Longrightarrow> (is_label n \<longrightarrow> an_arg m = an_arg n) \<Longrightarrow>
   pos_of_label (xs @ m # ys) l = pos_of_label (xs @ n # ys) l"
  by (induction xs) auto

lemma rcode_swap:
  assumes "\<not> is_label m" "\<not> is_label n"
  shows "rcode (xs @ m # ys) S = (rcode (xs @ n # ys) S)[length (code_insns xs) := rinsn_of (xs @ m # ys) S m]"
proof -
  have "rinsn_of (xs @ m # ys) S = rinsn_of (xs @ n # ys) S"
    using pos_of_label_swap [of m n xs ys] assms by (auto simp: rinsn_of_def)
  then show ?thesis
    using assms by (simp add: rcode_def list_update_append)
qed

lemma pos_of_label_insert:
  "is_label t \<Longrightarrow> l \<noteq> an_arg t \<Longrightarrow> pos_of_label (xs @ t # ys) l = pos_of_label (xs @ ys) l"
  by (induction xs) auto

lemma rcode_insert:
  assumes "is_label t" "an_arg t \<notin> idents (xs @ ys)"
  shows "rcode (xs @ t # ys) S = rcode (xs @ ys) S"
proof -
  have "rinsn_of (xs @ t # ys) S n = rinsn_of (xs @ ys) S n" if "n \<in> set (xs @ ys)" for n
    using that assms pos_of_label_insert [OF assms(1), of "an_arg n" xs ys]
    by (force simp: rinsn_of_def mem_idents simp del: idents_simps)
  moreover have "code_insns (xs @ t # ys) = code_insns (xs @ ys)"
    using assms(1) by simp
  moreover have "set (code_insns (xs @ ys)) \<subseteq> set (xs @ ys)"
    by (auto simp: code_insns_def)
  ultimately show ?thesis
    unfolding rcode_def by (intro map_cong) (auto simp del: code_insns_simps)
qed

lemma jump_pos:
  assumes "fwd (xs @ n # ys)" "is_jump n"
  shows "length (code_insns xs) < pos_of_label (xs @ n # ys) (an_arg n)"
proof -
  have nl: "\<not> is_label n" using assms(2) by (auto simp: is_jump_def is_label_def)
  have "an_arg n \<notin> labels xs"
    using fwd_appendD [OF assms(1)] assms(2) by auto
  then show ?thesis
    using nl by (simp add: pos_of_label_append)
qed

lemma is_jump_op: "is_jump n = is_jmp (an_op n)"
  by (simp add: is_jump_def is_jmp_def)

lemma jump_real: "is_jump n \<Longrightarrow> \<not> is_label n" "is_jump n \<Longrightarrow> \<not> has_string (an_op n)" "is_jump n \<Longrightarrow> an_op n \<noteq> OP_RET"
  by (auto simp: is_jump_def is_label_def has_string_def)

lemma rcode_at:
  "\<not> is_label n \<Longrightarrow> rcode (xs @ n # ys) S ! length (code_insns xs) = rinsn_of (xs @ n # ys) S n"
  "\<not> is_label n \<Longrightarrow> length (code_insns xs) < length (rcode (xs @ n # ys) S)"
  by (simp_all add: rcode_def nth_append)

text \<open>
  One round of the optimiser at a jump \<open>n\<close> that leads to a jump \<open>m\<close>: the new list keeps the
  invariant, its resolved code is one redirection away, and the jump goes further.
\<close>

definition round_ok :: "bvm_asm \<Rightarrow> bvm_asm \<Rightarrow> nat \<Rightarrow> bool" where
  "round_ok a a' i \<longleftrightarrow> opt_inv a' \<and> ba_strs a' = ba_strs a
     \<and> redirect_at (length (code_insns (take i (ba_insns a))))
         (rcode (ba_insns a) (ba_strs a)) (rcode (ba_insns a') (ba_strs a'))
     \<and> (\<exists>xs n ys n' ys'. ba_insns a = xs @ n # ys \<and> ba_insns a' = xs @ n' # ys' \<and> i = length xs
          \<and> is_jump n \<and> is_jump n' \<and> length (code_insns ys') = length (code_insns ys)
          \<and> pos_of_label (ba_insns a) (an_arg n) < pos_of_label (ba_insns a') (an_arg n'))"

lemma redirect_same_ok:
  assumes inv: "opt_inv a" and P: "ba_insns a = xs @ n # ys" and n: "is_jump n"
    and k: "insn_after_label (ba_insns a) (an_arg n) = Some (Some k)"
    and m: "is_jump (ba_insns a ! k)" "an_op (ba_insns a ! k) = an_op n"
  shows "round_ok a (redirect_same a (length xs) k) (length xs)"
proof -
  obtain y1 lab ls m rest where T: "ys = y1 @ lab # ls @ m # rest" "is_label lab" "an_arg lab = an_arg n"
    "an_arg n \<notin> labels (xs @ n # y1)" "\<forall>l \<in> set ls. is_label l" "\<not> is_label m"
    "insn_after_label (ba_insns a) (an_arg n) = Some (Some (length (xs @ n # y1 @ lab # ls)))"
    by (rule jump_target [OF inv P n])
  have k': "k = length (xs @ n # y1 @ lab # ls)"
    using T(7) k by simp
  have mk: "ba_insns a ! k = m"
    unfolding P T(1) k' by (simp add: nth_append)
  let ?n = "n\<lparr>an_arg := an_arg m\<rparr>"
  have n': "is_jump ?n" "is_jump m" "an_op m = an_op n"
    using n m mk by (simp_all add: is_jump_def)
  note real = jump_real [OF n] jump_real [OF n'(1)] jump_real [OF n'(2)]
  define P' where "P' = xs @ ?n # ys"
  have P': "ba_insns (redirect_same a (length xs) k) = P'"
    using mk by (simp add: redirect_same_def Let_def P P'_def)
  have fn: "fwd (n # ys)" "labels xs \<inter> idents (n # ys) = {}" and fP: "fwd (xs @ n # ys)"
    using inv fwd_appendD [of xs "n # ys"] by (auto simp: opt_inv_def P)
  have fm: "fwd (m # rest)"
    using fwd_appendD [of "n # y1 @ lab # ls" "m # rest"] fn(1) by (simp add: T(1) del: fwd.simps(2))
  then have lm: "an_arg m \<in> labels ys" and im: "an_arg m \<in> idents ys"
    using n'(2) by (auto simp: T(1) fwd_Cons simp del: fwd.simps(2))
  have "fwd (?n # ys)"
    using fn(1) lm real by (simp add: fwd_Cons del: fwd.simps(2))
  then have "fwd P'"
    unfolding P'_def using fP fn(2) im real by (intro fwd_replace [OF fP]) auto
  moreover have "idents P' \<subseteq> {..< ba_label a}"
    using inv im by (auto simp: opt_inv_def P P'_def split: if_splits)
  moreover have "\<exists>zs. P' = zs @ [\<lparr>an_op = OP_RET, an_arg = 0\<rparr>]"
  proof -
    have "ys \<noteq> []" using T(1) by simp
    moreover have "last ys = \<lparr>an_op = OP_RET, an_arg = 0\<rparr>"
    proof -
      obtain zs where "ba_insns a = zs @ [\<lparr>an_op = OP_RET, an_arg = 0\<rparr>]"
        using inv by (auto simp: opt_inv_def)
      then show ?thesis using P \<open>ys \<noteq> []\<close> by (metis last_ConsR last_appendR last_snoc list.distinct(1))
    qed
    ultimately show ?thesis
      unfolding P'_def by (metis append.assoc append_Cons append_butlast_last_id)
  qed
  moreover have "\<forall>n \<in> set P'. has_string (an_op n) \<longrightarrow> 0 \<le> an_arg n \<and> an_arg n < int (length (ba_strs a))"
    using inv real by (auto simp: opt_inv_def P P'_def)
  ultimately have inv': "opt_inv (redirect_same a (length xs) k)"
    by (simp add: opt_inv_def P') (simp add: redirect_same_def Let_def)
  have S: "ba_strs (redirect_same a (length xs) k) = ba_strs a"
    by (simp add: redirect_same_def Let_def)
  let ?C = "rcode (ba_insns a) (ba_strs a)"
  let ?pre = "xs @ n # y1 @ lab # ls"
  define j where "j = length (code_insns xs)"
  define q where "q = length (code_insns ?pre)"
  have pos: "pos_of_label (ba_insns a) (an_arg n) = q"
    using pos_of_label_append [OF T(4)] real T(2,3,5)
    by (simp add: P T(1) q_def code_insns_def)
  have posn: "pos_of_label P' (an_arg m) = pos_of_label (ba_insns a) (an_arg m)"
    unfolding P'_def P using real by (intro pos_of_label_swap) auto
  have Pm: "ba_insns a = ?pre @ m # rest"
    by (simp add: P T(1))
  have Cj: "j < length ?C" "?C ! j = (an_op n, int q, None)"
    using rcode_at [of n xs ys] real n pos by (simp_all add: P j_def rinsn_of_def)
  have Cq: "q < length ?C" "?C ! q = (an_op m, int (pos_of_label (ba_insns a) (an_arg m)), None)"
    using rcode_at [of m ?pre rest] real n'(2) by (simp_all add: Pm q_def rinsn_of_def del: code_insns_simps append_assoc)
  have "rcode P' (ba_strs a) = ?C[j := (an_op n, int (pos_of_label (ba_insns a) (an_arg m)), None)]"
    using rcode_swap [of ?n n xs ys "ba_strs a"] real n'(1) posn
    by (simp add: P P'_def j_def rinsn_of_def)
  moreover have "q \<noteq> j"
    using real by (simp add: q_def j_def)
  ultimately have "redirect_at j ?C (rcode P' (ba_strs a))"
    unfolding redirect_at_def using Cj Cq n n'(2,3)
    by (intro exI [of _ "an_op n"] exI [of _ q] exI [of _ None] exI [of _ "an_op m"]
        exI [of _ "int (pos_of_label (ba_insns a) (an_arg m))"]) (simp add: is_jump_op)
  moreover have "pos_of_label (ba_insns a) (an_arg n) < pos_of_label P' (an_arg m)"
    using jump_pos [of ?pre m rest] inv n'(2) unfolding pos posn q_def
    by (simp add: Pm opt_inv_def del: code_insns_simps append_assoc)
  ultimately show ?thesis
    unfolding round_ok_def using inv' S n n'(1)
    by (intro conjI exI [of _ xs] exI [of _ n] exI [of _ ys] exI [of _ ?n]) (simp_all add: P' P P'_def j_def)
qed

lemma last_ret:
  assumes "opt_inv a" "ba_insns a = xs @ ys" "ys \<noteq> []"
  obtains zs where "ys = zs @ [\<lparr>an_op = OP_RET, an_arg = 0\<rparr>]"
proof -
  obtain vs where v: "ba_insns a = vs @ [\<lparr>an_op = OP_RET, an_arg = 0\<rparr>]"
    using assms(1) by (auto simp: opt_inv_def)
  then have "last ys = \<lparr>an_op = OP_RET, an_arg = 0\<rparr>"
    using assms(2,3) by (metis last_appendR last_snoc)
  with that [of "butlast ys"] assms(3) show thesis
    by (metis append_butlast_last_id)
qed

lemma splice_at: "take (length xs) (xs @ ys) @ zs @ drop (length xs) (xs @ ys) = xs @ zs @ ys"
  "take (length xs) (xs @ ys) @ z # drop (length xs) (xs @ ys) = xs @ z # ys"
  by simp_all

lemma redirect_after_ok:
  assumes inv: "opt_inv a" and P: "ba_insns a = xs @ n # ys" and n: "is_jump n"
    and k: "insn_after_label (ba_insns a) (an_arg n) = Some (Some k)"
    and m: "is_jump (ba_insns a ! k)" "an_op (ba_insns a ! k) \<noteq> an_op n"
  shows "round_ok a (redirect_after a (length xs) k) (length xs) \<and> length xs < k"
proof -
  obtain y1 lab ls m rest where T: "ys = y1 @ lab # ls @ m # rest" "is_label lab" "an_arg lab = an_arg n"
    "an_arg n \<notin> labels (xs @ n # y1)" "\<forall>l \<in> set ls. is_label l" "\<not> is_label m"
    "insn_after_label (ba_insns a) (an_arg n) = Some (Some (length (xs @ n # y1 @ lab # ls)))"
    by (rule jump_target [OF inv P n])
  have k': "k = length (xs @ n # y1 @ lab # ls)"
    using T(7) k by simp
  have mk: "ba_insns a ! k = m"
    unfolding P T(1) k' by (simp add: nth_append)
  let ?l = "ba_label a"
  let ?n = "n\<lparr>an_arg := ?l\<rparr>" and ?t = "\<lparr>an_op = OP_LABEL, an_arg = ?l\<rparr>"
  let ?mid = "y1 @ lab # ls @ [m]"
  have n': "is_jump ?n" "is_jump m" "an_op m \<noteq> an_op n" "is_label ?t"
    using n m mk by (simp_all add: is_jump_def is_label_def)
  note real = jump_real [OF n] jump_real [OF n'(1)] jump_real [OF n'(2)]
  define P' where "P' = xs @ ?n # ?mid @ ?t # rest"
  have ys: "ys = ?mid @ rest" by (simp add: T(1))
  have upd: "(ba_insns a)[length xs := ?n] = (xs @ ?n # ?mid) @ rest"
    by (simp add: P ys)
  have kk: "k + 1 = length (xs @ ?n # ?mid)"
    by (simp add: k')
  have at: "ba_insns a ! length xs = n"
    by (simp add: P)
  have "ba_insns (redirect_after a (length xs) k) =
      take (k + 1) ((xs @ ?n # ?mid) @ rest) @ ?t # drop (k + 1) ((xs @ ?n # ?mid) @ rest)"
    unfolding redirect_after_def gen_label_id_def Let_def prod.case by (simp add: at upd)
  also have "\<dots> = P'"
    unfolding kk splice_at by (simp add: P'_def)
  finally have P': "ba_insns (redirect_after a (length xs) k) = P'" "ba_label (redirect_after a (length xs) k) = ?l + 1"
    "ba_strs (redirect_after a (length xs) k) = ba_strs a"
    by (simp_all add: redirect_after_def gen_label_id_def Let_def)
  have ids: "idents (xs @ n # ys) \<subseteq> {..< ?l}" and fP: "fwd (xs @ n # ys)"
    using inv by (auto simp: opt_inv_def P)
  have "?l \<notin> idents (xs @ n # ys)"
    using ids by blast
  then have fresh: "?l \<notin> idents xs" "?l \<notin> idents ?mid" "?l \<notin> idents rest"
    by (auto simp: ys split: if_splits)
  then have fresh': "?l \<notin> labels xs" "?l \<notin> labels ?mid"
    using labels_idents by blast+
  have fn: "fwd (n # ys)" "labels xs \<inter> idents (n # ys) = {}"
    using fwd_appendD [OF fP] by auto
  have fys: "fwd (?mid @ rest)"
    using fn(1) by (simp add: ys)
  then have "fwd rest" "labels ?mid \<inter> idents rest = {}"
    using fwd_appendD [of ?mid rest] by auto
  moreover have "fwd (?t # rest)"
    using \<open>fwd rest\<close> fresh(3) n'(4) by (simp add: fwd_Cons is_jump_def del: fwd.simps(2))
  ultimately have f1: "fwd (?mid @ ?t # rest)"
    using fresh fresh' n'(4) by (intro fwd_replace [OF fys]) auto
  then have "fwd (?n # ?mid @ ?t # rest)"
    using real n'(4) by (simp add: fwd_Cons del: fwd.simps(2))
  then have "fwd P'"
    unfolding P'_def using fP fn(2) fresh fresh' real n'(4)
    by (intro fwd_replace [OF fP]) (auto simp: ys split: if_splits)
  moreover have "idents P' \<subseteq> {..< ?l + 1}"
  proof -
    have "idents P' \<subseteq> insert ?l (idents (xs @ n # ys))"
      using n'(4) by (auto simp: P'_def ys)
    also have "\<dots> \<subseteq> insert ?l {..< ?l}"
      using ids by (rule insert_mono)
    finally show ?thesis by fastforce
  qed
  moreover have "\<exists>zs. P' = zs @ [\<lparr>an_op = OP_RET, an_arg = 0\<rparr>]"
  proof -
    have "rest \<noteq> []"
    proof
      assume "rest = []"
      then have "ba_insns a = (xs @ n # y1 @ lab # ls) @ [m]"
        by (simp add: P ys)
      then have "m = \<lparr>an_op = OP_RET, an_arg = 0\<rparr>"
        using inv unfolding opt_inv_def by (metis append1_eq_conv)
      then show False using real by simp
    qed
    then obtain zs where "rest = zs @ [\<lparr>an_op = OP_RET, an_arg = 0\<rparr>]"
      using last_ret [OF inv, of "xs @ n # ?mid" rest] by (auto simp: P ys)
    then show ?thesis
      by (intro exI [of _ "xs @ ?n # ?mid @ ?t # zs"]) (simp add: P'_def)
  qed
  moreover have "\<forall>n \<in> set P'. has_string (an_op n) \<longrightarrow> 0 \<le> an_arg n \<and> an_arg n < int (length (ba_strs a))"
    using inv real by (auto simp: opt_inv_def P P'_def ys has_string_def)
  ultimately have inv': "opt_inv (redirect_after a (length xs) k)"
    by (simp add: opt_inv_def P')
  let ?C = "rcode (ba_insns a) (ba_strs a)"
  let ?pre = "xs @ n # y1 @ lab # ls"
  define j where "j = length (code_insns xs)"
  define q where "q = length (code_insns ?pre)"
  have pos: "pos_of_label (ba_insns a) (an_arg n) = q"
    using pos_of_label_append [OF T(4)] real T(2,3,5)
    by (simp add: P T(1) q_def code_insns_def)
  have posn: "pos_of_label P' ?l = q + 1"
    using pos_of_label_found [of ?l "xs @ ?n # ?mid" ?t rest] fresh' real n'(4)
    by (simp add: P'_def q_def)
  have Pm: "ba_insns a = ?pre @ m # rest"
    by (simp add: P T(1))
  have Cj: "j < length ?C" "?C ! j = (an_op n, int q, None)"
    using rcode_at [of n xs ys] real n pos by (simp_all add: P j_def rinsn_of_def)
  have Cq: "q < length ?C" "?C ! q = (an_op m, int (pos_of_label (ba_insns a) (an_arg m)), None)"
    using rcode_at [of m ?pre rest] real n'(2) by (simp_all add: Pm q_def rinsn_of_def del: code_insns_simps append_assoc)
  have "rcode P' (ba_strs a) = (rcode (xs @ n # ?mid @ ?t # rest) (ba_strs a))[j := rinsn_of P' (ba_strs a) ?n]"
    unfolding P'_def j_def by (rule rcode_swap) (use real in simp_all)
  moreover have "?l \<notin> idents ((xs @ n # ?mid) @ rest)"
    using ids unfolding ys by fastforce
  then have "rcode (xs @ n # ?mid @ ?t # rest) (ba_strs a) = ?C"
    using rcode_insert [of ?t "xs @ n # ?mid" rest "ba_strs a"] n'(4) by (simp add: P ys del: idents_simps)
  ultimately have C': "rcode P' (ba_strs a) = ?C[j := (an_op n, int (q + 1), None)]"
    using n'(1) real posn by (simp add: rinsn_of_def)
  have "q \<noteq> j"
    using real by (simp add: q_def j_def)
  then have "redirect_at j ?C (rcode P' (ba_strs a))"
    unfolding redirect_at_def C' using Cj Cq n n'(2,3)
    by (intro exI [of _ "an_op n"] exI [of _ q] exI [of _ None] exI [of _ "an_op m"]
        exI [of _ "int (pos_of_label (ba_insns a) (an_arg m))"]) (simp add: is_jump_op)
  then have "round_ok a (redirect_after a (length xs) k) (length xs)"
    unfolding round_ok_def using inv' n n'(1) posn pos n'(4)
    by (intro conjI exI [of _ xs] exI [of _ n] exI [of _ ys] exI [of _ ?n] exI [of _ "?mid @ ?t # rest"])
      (simp_all add: P' P P'_def ys j_def)
  then show ?thesis by (simp add: k')
qed

definition head_labels :: "bvm_asmnode list \<Rightarrow> nat" where
  "head_labels ns = length (takeWhile is_label ns)"

definition room_ahead :: "bvm_asm \<Rightarrow> nat \<Rightarrow> nat" where
  "room_ahead a i = Suc (length (code_insns (ba_insns a)))
     - (if i < length (ba_insns a) then pos_of_label (ba_insns a) (an_arg (ba_insns a ! i)) else 0)"

text \<open>The loop ends: real instructions left, then labels in front, then how far the jump can still go.\<close>

definition loop_measure :: "((bvm_asm \<times> nat) \<times> (bvm_asm \<times> nat)) set" where
  "loop_measure = measures
     [\<lambda>(a, i). length (code_insns (drop i (ba_insns a))),
      \<lambda>(a, i). head_labels (drop i (ba_insns a)),
      \<lambda>(a, i). room_ahead a i]"

lemma wf_loop_measure: "wf loop_measure"
  by (simp add: loop_measure_def)

lemma loop_measure_next:
  assumes "ba_insns a = xs @ n # ys"
  shows "((a, Suc (length xs)), (a, length xs)) \<in> loop_measure"
  using assms by (cases "is_label n") (simp_all add: loop_measure_def head_labels_def)

lemma loop_measure_round:
  assumes "round_ok a a' i"
  shows "((a', i), (a, i)) \<in> loop_measure"
proof -
  obtain xs n ys n' ys' where R: "ba_insns a = xs @ n # ys" "ba_insns a' = xs @ n' # ys'" "i = length xs"
    "is_jump n" "is_jump n'" "length (code_insns ys') = length (code_insns ys)"
    "pos_of_label (ba_insns a) (an_arg n) < pos_of_label (ba_insns a') (an_arg n')"
    using assms unfolding round_ok_def by blast
  have "pos_of_label (ba_insns a') (an_arg n') \<le> length (code_insns (ba_insns a'))"
    by (rule pos_of_label_le)
  moreover have "length (code_insns (ba_insns a')) = length (code_insns (ba_insns a))"
    using R jump_real by simp
  ultimately have "room_ahead a' i < room_ahead a i"
    using R(1-3,7) by (simp add: room_ahead_def)
  with R jump_real show ?thesis
    by (simp add: loop_measure_def head_labels_def)
qed

text \<open>Jumps before position \<open>j\<close> do not lead to jumps.\<close>

definition threaded :: "rinsn list \<Rightarrow> nat \<Rightarrow> bool" where
  "threaded C j \<longleftrightarrow> (\<forall>pc < j. is_jmp (fst (C ! pc)) \<longrightarrow> \<not> is_jmp (fst (C ! nat (fst (snd (C ! pc))))))"

lemma redirect_at_threaded:
  assumes "redirect_at j C C'" "threaded C j"
  shows "threaded C' j"
proof -
  obtain op k str y where C: "j < length C" "C ! j = (op, int k, str)" "C' = C[j := (op, y, str)]"
    using assms(1) unfolding redirect_at_def by blast
  then have "fst (C' ! i) = fst (C ! i)" for i
    by (cases "i = j") auto
  with assms(2) C(3) show ?thesis
    by (simp add: threaded_def)
qed

lemma threaded_next:
  assumes inv: "opt_inv a" and P: "ba_insns a = xs @ n # ys"
    and t: "threaded (rcode (ba_insns a) (ba_strs a)) (length (code_insns xs))"
    and n: "\<And>k. is_jump n \<Longrightarrow> insn_after_label (ba_insns a) (an_arg n) = Some (Some k) \<Longrightarrow> \<not> is_jump (ba_insns a ! k)"
  shows "threaded (rcode (ba_insns a) (ba_strs a)) (length (code_insns (xs @ [n])))"
proof (cases "is_label n")
  case False
  let ?C = "rcode (ba_insns a) (ba_strs a)"
  have at: "?C ! length (code_insns xs) = rinsn_of (ba_insns a) (ba_strs a) n"
    using rcode_at(1) [OF False, of xs ys] by (simp add: P)
  have "\<not> is_jmp (fst (?C ! nat (fst (snd (?C ! length (code_insns xs))))))" if j: "is_jmp (fst (?C ! length (code_insns xs)))"
  proof -
    have jump: "is_jump n"
      using j by (simp add: at rinsn_of_def is_jump_op)
    obtain y1 lab ls m rest where T: "ys = y1 @ lab # ls @ m # rest" "is_label lab" "an_arg lab = an_arg n"
      "an_arg n \<notin> labels (xs @ n # y1)" "\<forall>l \<in> set ls. is_label l" "\<not> is_label m"
      "insn_after_label (ba_insns a) (an_arg n) = Some (Some (length (xs @ n # y1 @ lab # ls)))"
      by (rule jump_target [OF inv P jump])
    have "\<not> is_jump m"
      using n [OF jump T(7)] unfolding P T(1) by (simp add: nth_append)
    moreover define q where "q = length (code_insns (xs @ n # y1 @ lab # ls))"
    have "pos_of_label (ba_insns a) (an_arg n) = q"
      using pos_of_label_append [OF T(4)] T(2,3,5) by (simp add: P T(1) code_insns_def q_def)
    moreover have "?C ! q = rinsn_of (ba_insns a) (ba_strs a) m"
      using rcode_at(1) [OF T(6), of "xs @ n # y1 @ lab # ls" rest "ba_strs a"]
      by (simp add: P T(1) q_def del: code_insns_simps)
    ultimately show ?thesis
      using jump by (simp add: at rinsn_of_def is_jump_op)
  qed
  with t False show ?thesis
    by (auto simp: threaded_def less_Suc_eq)
qed (use t in simp)

lemma optimize_loop_correct:
  assumes "opt_inv a" "threaded (rcode (ba_insns a) (ba_strs a)) (length (code_insns (take i (ba_insns a))))"
  shows "\<exists>a'. optimize_loop a i = Some a' \<and> opt_inv a' \<and> ba_strs a' = ba_strs a
    \<and> redirect\<^sup>*\<^sup>* (rcode (ba_insns a) (ba_strs a)) (rcode (ba_insns a') (ba_strs a'))
    \<and> threaded (rcode (ba_insns a') (ba_strs a')) (length (rcode (ba_insns a') (ba_strs a')))"
  using assms
proof (induction "(a, i)" arbitrary: a i rule: wf_induct_rule [OF wf_loop_measure])
  case (1 a i)
  note IH = "1.hyps" and inv = "1.prems"(1) and thr = "1.prems"(2)
  show ?case
  proof (cases "length (ba_insns a) \<le> i")
    case True
    then have "optimize_loop a i = Some a"
      by (subst optimize_loop.simps) simp
    with inv thr True show ?thesis by (auto simp: rcode_def)
  next
    case False
    define n where "n = ba_insns a ! i"
    obtain xs ys where P: "ba_insns a = xs @ n # ys" "i = length xs"
      using False id_take_nth_drop [of i "ba_insns a"] by (metis n_def length_take linorder_not_le min.absorb4)
    have next_ok: "\<exists>a'. optimize_loop a (i + 1) = Some a' \<and> opt_inv a' \<and> ba_strs a' = ba_strs a
        \<and> redirect\<^sup>*\<^sup>* (rcode (ba_insns a) (ba_strs a)) (rcode (ba_insns a') (ba_strs a'))
        \<and> threaded (rcode (ba_insns a') (ba_strs a')) (length (rcode (ba_insns a') (ba_strs a')))"
      if "\<And>k. is_jump n \<Longrightarrow> insn_after_label (ba_insns a) (an_arg n) = Some (Some k) \<Longrightarrow> \<not> is_jump (ba_insns a ! k)"
    proof -
      have "take (i + 1) (ba_insns a) = xs @ [n]"
        by (simp add: P)
      moreover have "threaded (rcode (ba_insns a) (ba_strs a)) (length (code_insns (xs @ [n])))"
        using that thr P by (intro threaded_next [OF inv P(1)]) auto
      ultimately show ?thesis
        using IH [of a "i + 1"] inv loop_measure_next [OF P(1)] P(2) by simp
    qed
    have round: "\<exists>b. optimize_loop a' i = Some b \<and> opt_inv b \<and> ba_strs b = ba_strs a
        \<and> redirect\<^sup>*\<^sup>* (rcode (ba_insns a) (ba_strs a)) (rcode (ba_insns b) (ba_strs b))
        \<and> threaded (rcode (ba_insns b) (ba_strs b)) (length (rcode (ba_insns b) (ba_strs b)))"
      if r: "round_ok a a' i" for a'
    proof -
      have R: "redirect_at (length (code_insns (take i (ba_insns a))))
          (rcode (ba_insns a) (ba_strs a)) (rcode (ba_insns a') (ba_strs a'))"
        "take i (ba_insns a') = take i (ba_insns a)" "opt_inv a'" "ba_strs a' = ba_strs a"
        using r by (auto simp: round_ok_def)
      obtain b where "optimize_loop a' i = Some b" "opt_inv b" "ba_strs b = ba_strs a'"
        "redirect\<^sup>*\<^sup>* (rcode (ba_insns a') (ba_strs a')) (rcode (ba_insns b) (ba_strs b))"
        "threaded (rcode (ba_insns b) (ba_strs b)) (length (rcode (ba_insns b) (ba_strs b)))"
        using IH [OF loop_measure_round [OF r] R(3)] redirect_at_threaded [OF R(1) thr] R(2) by auto
      with R show ?thesis
        unfolding redirect_def by (metis (no_types, lifting) converse_rtranclp_into_rtranclp)
    qed
    show ?thesis
    proof (cases "is_jump n")
      case no: False
      then have "optimize_loop a i = optimize_loop a (i + 1)"
        using False by (subst optimize_loop.simps) (simp add: n_def)
      with next_ok no show ?thesis by simp
    next
      case jump: True
      obtain k where k: "insn_after_label (ba_insns a) (an_arg n) = Some (Some k)"
        by (rule jump_target [OF inv P(1) jump]) blast
      show ?thesis
      proof (cases "is_jump (ba_insns a ! k)")
        case no: False
        then have "optimize_loop a i = optimize_loop a (i + 1)"
          using False jump k by (subst optimize_loop.simps) (simp add: n_def)
        moreover have "\<not> is_jump (ba_insns a ! k')"
          if "insn_after_label (ba_insns a) (an_arg n) = Some (Some k')" for k'
          using that k no by simp
        ultimately show ?thesis using next_ok by simp
      next
        case target: True
        show ?thesis
        proof (cases "an_op (ba_insns a ! k) = an_op n")
          case True
          then have "optimize_loop a i = optimize_loop (redirect_same a i k) i"
            using False jump k target by (subst optimize_loop.simps) (simp add: n_def)
          moreover have "round_ok a (redirect_same a i k) i"
            using redirect_same_ok [OF inv P(1) jump k target True] P(2) by simp
          ultimately show ?thesis using round by simp
        next
          case op: False
          have r: "round_ok a (redirect_after a i k) i" "i < k"
            using redirect_after_ok [OF inv P(1) jump k target op] P(2) by simp_all
          then have "optimize_loop a i = optimize_loop (redirect_after a i k) i"
            using False jump k target op by (subst optimize_loop.simps) (simp add: n_def)
          with round [OF r(1)] show ?thesis by simp
        qed
      qed
    qed
  qed
qed

section \<open>The bytecode runs as its resolved code\<close>

definition closed :: "rinsn list \<Rightarrow> bool" where
  "closed C \<longleftrightarrow> (\<forall>pc < length C. (fst (C ! pc) \<noteq> OP_RET \<longrightarrow> pc + 1 < length C)
     \<and> (is_jmp (fst (C ! pc)) \<longrightarrow> (\<exists>k < length C. fst (snd (C ! pc)) = int k)))"

lemma code_insns_split:
  assumes "pc < length (code_insns P)"
  obtains xs ys where "P = xs @ code_insns P ! pc # ys" "length (code_insns xs) = pc"
    "\<not> is_label (code_insns P ! pc)"
  using assms
proof (induction P arbitrary: pc thesis)
  case (Cons n P)
  show ?case
  proof (cases "is_label n")
    case True
    with Cons.prems(2) obtain xs ys where "P = xs @ code_insns P ! pc # ys" "length (code_insns xs) = pc"
      "\<not> is_label (code_insns P ! pc)"
      using Cons.IH [of pc] by auto
    with True Cons.prems(1) [of "n # xs" ys] show thesis by simp
  next
    case real: False
    show thesis
    proof (cases pc)
      case 0
      with real Cons.prems(1) [of "[]" P] show thesis by simp
    next
      case (Suc q)
      with Cons.prems(2) real obtain xs ys where "P = xs @ code_insns P ! q # ys" "length (code_insns xs) = q"
        "\<not> is_label (code_insns P ! q)"
        using Cons.IH [of q] by auto
      with Suc real Cons.prems(1) [of "n # xs" ys] show thesis by simp
    qed
  qed
qed simp

lemma closed_rcode:
  assumes "opt_inv a"
  shows "closed (rcode (ba_insns a) (ba_strs a))"
  unfolding closed_def
proof (intro allI impI conjI)
  fix pc assume pc: "pc < length (rcode (ba_insns a) (ba_strs a))"
  define n where "n = code_insns (ba_insns a) ! pc"
  obtain xs ys where P: "ba_insns a = xs @ n # ys" "length (code_insns xs) = pc" "\<not> is_label n"
    using code_insns_split [of pc "ba_insns a"] pc by (auto simp: rcode_def n_def)
  have at: "rcode (ba_insns a) (ba_strs a) ! pc = rinsn_of (ba_insns a) (ba_strs a) n"
    using rcode_at(1) [OF P(3), of xs ys] P(1,2) by simp
  show "pc + 1 < length (rcode (ba_insns a) (ba_strs a))"
    if "fst (rcode (ba_insns a) (ba_strs a) ! pc) \<noteq> OP_RET"
  proof -
    have "an_op n \<noteq> OP_RET"
      using that by (simp add: at rinsn_of_def)
    moreover obtain zs where "n # ys = zs @ [\<lparr>an_op = OP_RET, an_arg = 0\<rparr>]"
      using last_ret [OF assms P(1)] by blast
    ultimately obtain zs' where "ys = zs' @ [\<lparr>an_op = OP_RET, an_arg = 0\<rparr>]"
      by (cases zs) auto
    with P show ?thesis
      by (simp add: rcode_def is_label_def)
  qed
  show "\<exists>k < length (rcode (ba_insns a) (ba_strs a)). fst (snd (rcode (ba_insns a) (ba_strs a) ! pc)) = int k"
    if "is_jmp (fst (rcode (ba_insns a) (ba_strs a) ! pc))"
  proof -
    have n: "is_jump n"
      using that by (simp add: at rinsn_of_def is_jump_op)
    obtain y1 lab ls m rest where T: "ys = y1 @ lab # ls @ m # rest" "is_label lab" "an_arg lab = an_arg n"
      "an_arg n \<notin> labels (xs @ n # y1)" "\<not> is_label m"
      by (rule jump_target [OF assms P(1) n])
    have "pos_of_label (ba_insns a) (an_arg n) = length (code_insns (xs @ n # y1))"
      using pos_of_label_found [OF T(4,2,3), of "ls @ m # rest"] by (simp add: P(1) T(1))
    moreover have "length (code_insns (xs @ n # y1)) < length (code_insns (ba_insns a))"
      using T(2,5) P(3) by (simp add: P(1) T(1))
    ultimately have "pos_of_label (ba_insns a) (an_arg n) < length (rcode (ba_insns a) (ba_strs a))"
      by (simp add: rcode_def)
    moreover have "fst (snd (rcode (ba_insns a) (ba_strs a) ! pc)) = int (pos_of_label (ba_insns a) (an_arg n))"
      using n by (simp add: at rinsn_of_def)
    ultimately show ?thesis by blast
  qed
qed

lemma vm_exec_cong:
  assumes "has_string op \<Longrightarrow> str = str'" "\<not> has_string op \<Longrightarrow> \<not> is_jmp op \<Longrightarrow> arg = arg'"
    "map_option f s = map_option g s'"
  shows "vm_exec w ind p t (Some op) arg str (map_option f s) r = vm_exec w ind p t (Some op) arg' str' (map_option g s') r"
  using assms by (cases op) (simp_all add: vm_exec_def has_string_def is_jmp_def)

lemma drop_concat:
  "\<forall>x \<in> set xs. length (f x) = k \<Longrightarrow> n \<le> length xs \<Longrightarrow>
   drop (n * k) (concat (map f xs)) = concat (map f (drop n xs))"
proof (induction xs arbitrary: n)
  case (Cons x xs)
  then show ?case by (cases n) simp_all
qed simp

lemma drop_string:
  "c < length S \<Longrightarrow> \<exists>r. drop (offset_to_string S c) (concat (map (\<lambda>s. s @ [NUL]) S)) = S ! c @ NUL # r"
proof (induction S c rule: offset_to_string.induct)
  case (3 s ss c)
  then show ?case by (simp add: drop_Cons')
qed simp_all

lemma takeWhile_no_nul: "no_nul s \<Longrightarrow> takeWhile (\<lambda>c. c \<noteq> NUL) (s @ NUL # r) = s"
  by (induction s) auto

lemma offset_in_range: "c < length S \<Longrightarrow> offset_to_string S c < length (concat (map (\<lambda>s. s @ [NUL]) S))"
  by (induction S c rule: offset_to_string.induct) auto

lemma sint_of_nat: "n < 2 ^ 31 \<Longrightarrow> sint (word_of_int (int n) :: 32 word) = int n"
  using sint_sbintrunc' [of "int n", where 'a = 32] by (simp add: signed_take_bit_int_eq_self)

text \<open>What the machine reads at an instruction.\<close>

lemma emit_fetch:
  assumes a: "opt_inv a" "strs_ok a" and pc: "pc < length (code_insns (ba_insns a))"
    and len: "length (emit_bytecode a) < 2 ^ 31"
  defines "bc \<equiv> emit_bytecode a" and "n \<equiv> code_insns (ba_insns a) ! pc"
  shows "pc * INSN_LEN + INSN_LEN \<le> length bc" "opcode_of (c_ord (bc ! (pc * INSN_LEN))) = Some (an_op n)"
    "read_int (drop (pc * INSN_LEN + 1) bc) = word_of_int (emit_arg a n)"
    "is_jump n \<Longrightarrow> sint (word_of_int (emit_arg a n) :: 32 word) = int (pos_of_label (ba_insns a) (an_arg n) * INSN_LEN)"
    "has_string (an_op n) \<Longrightarrow> cstr_at bc (sint (word_of_int (emit_arg a n) :: 32 word)) = Some (ba_strs a ! nat (an_arg n))"
proof -
  let ?code = "code_insns (ba_insns a)" and ?S = "ba_strs a"
  let ?strs = "concat (map (\<lambda>s. s @ [NUL]) ?S)"
  have len5: "length (emit_insn a i) = INSN_LEN" for i
    by (simp add: emit_insn_def INSN_LEN_def)
  then have codelen: "length (concat (map (emit_insn a) ?code)) = length ?code * INSN_LEN"
    by (simp add: length_concat o_def sum_list_triv)
  have "?code = take pc ?code @ n # drop (Suc pc) ?code"
    unfolding n_def using pc by (rule id_take_nth_drop)
  have dr: "drop (pc * INSN_LEN) bc = emit_insn a n @ concat (map (emit_insn a) (drop (Suc pc) ?code)) @ ?strs"
  proof -
    have "drop (pc * INSN_LEN) (concat (map (emit_insn a) ?code)) = concat (map (emit_insn a) (drop pc ?code))"
      using pc len5 by (intro drop_concat) auto
    moreover have "drop pc ?code = n # drop (Suc pc) ?code"
      unfolding n_def using pc by (simp add: Cons_nth_drop_Suc)
    moreover have "pc * INSN_LEN \<le> length (concat (map (emit_insn a) ?code))"
      using pc by (simp add: codelen)
    ultimately show ?thesis
      by (simp add: bc_def emit_bytecode_def)
  qed
  have "length (drop (pc * INSN_LEN) bc) \<ge> INSN_LEN"
    unfolding dr using len5 by simp
  then show le: "pc * INSN_LEN + INSN_LEN \<le> length bc"
    by (simp add: INSN_LEN_def)
  have "bc ! (pc * INSN_LEN) = drop (pc * INSN_LEN) bc ! 0"
    using le by (simp add: INSN_LEN_def)
  then show "opcode_of (c_ord (bc ! (pc * INSN_LEN))) = Some (an_op n)"
    using opcode_num_less [of "an_op n"] by (simp add: dr emit_insn_def)
  have "drop (pc * INSN_LEN + 1) bc = drop 1 (drop (pc * INSN_LEN) bc)"
    by (simp add: add.commute)
  then show "read_int (drop (pc * INSN_LEN + 1) bc) = word_of_int (emit_arg a n)"
    unfolding dr by (simp add: emit_insn_def)
  have small: "length ?code * INSN_LEN + length ?strs < 2 ^ 31"
    using len codelen by (simp add: emit_bytecode_def)
  show "sint (word_of_int (emit_arg a n) :: 32 word) = int (pos_of_label (ba_insns a) (an_arg n) * INSN_LEN)"
    if "is_jump n"
  proof -
    have "pos_of_label (ba_insns a) (an_arg n) * INSN_LEN \<le> length ?code * INSN_LEN"
      by (intro mult_le_mono1 pos_of_label_le)
    with small have "pos_of_label (ba_insns a) (an_arg n) * INSN_LEN < 2 ^ 31" by linarith
    from sint_of_nat [OF this] that show ?thesis by (simp add: emit_arg_def)
  qed
  show "cstr_at bc (sint (word_of_int (emit_arg a n) :: 32 word)) = Some (?S ! nat (an_arg n))"
    if str: "has_string (an_op n)"
  proof -
    let ?c = "nat (an_arg n)"
    have "n \<in> set (ba_insns a)"
      using pc nth_mem [of pc ?code] by (auto simp: n_def code_insns_def)
    with str a(1) have c: "?c < length ?S"
      by (auto simp: opt_inv_def)
    define q where "q = length ?code * INSN_LEN + offset_to_string ?S ?c"
    have "\<not> is_jump n"
      using str jump_real(2) by blast
    with str have arg: "emit_arg a n = int q"
      by (simp add: emit_arg_def q_def)
    have "q < 2 ^ 31"
      using small offset_in_range [OF c] unfolding q_def by linarith
    then have "sint (word_of_int (emit_arg a n) :: 32 word) = int q"
      unfolding arg by (rule sint_of_nat)
    moreover obtain r where "drop (offset_to_string ?S ?c) ?strs = ?S ! ?c @ NUL # r"
      using drop_string [OF c] by blast
    then have "drop q bc = ?S ! ?c @ NUL # r"
      by (simp add: bc_def emit_bytecode_def codelen q_def)
    moreover have "no_nul (?S ! ?c)"
      using a(2) c by (simp add: strs_ok_def)
    ultimately show ?thesis
      by (simp add: cstr_at_def takeWhile_no_nul)
  qed
qed

lemma vm_loop_rrun:
  assumes a: "opt_inv a" "strs_ok a" and len: "length (emit_bytecode a) < 2 ^ 31"
    and "pc < length (code_insns (ba_insns a))" "map_option (cstr_at (emit_bytecode a)) s = map_option Some s'"
  shows "vm_loop w ind p t (emit_bytecode a) n (pc * INSN_LEN) r s
    = rrun w ind p t (rcode (ba_insns a) (ba_strs a)) n pc r s'"
  using assms(4,5)
proof (induction n arbitrary: pc r s s')
  case (Suc m)
  let ?bc = "emit_bytecode a" and ?C = "rcode (ba_insns a) (ba_strs a)"
  define n where "n = code_insns (ba_insns a) ! pc"
  note F = emit_fetch [OF a Suc.prems(1) len, folded n_def]
  have at: "?C ! pc = rinsn_of (ba_insns a) (ba_strs a) n" and pc: "pc < length ?C"
    using Suc.prems(1) by (simp_all add: rcode_def n_def)
  obtain arg str where C: "?C ! pc = (an_op n, arg, str)" "str = snd (snd (?C ! pc))" "arg = fst (snd (?C ! pc))"
    by (simp add: at rinsn_of_def)
  have str: "has_string (an_op n) \<Longrightarrow> str = Some (ba_strs a ! nat (an_arg n))"
    and arg: "\<not> is_jump n \<Longrightarrow> arg = an_arg n" "is_jump n \<Longrightarrow> arg = int (pos_of_label (ba_insns a) (an_arg n))"
    by (simp_all add: C(2,3) at rinsn_of_def)
  have exec: "vm_exec w ind p t (Some (an_op n)) (word_of_int (emit_arg a n))
        (cstr_at ?bc (sint (word_of_int (emit_arg a n) :: 32 word))) (map_option (cstr_at ?bc) s) r
      = vm_exec w ind p t (Some (an_op n)) (word_of_int arg) str (map_option Some s') r"
    using F(5) str arg(1) Suc.prems(2)
    by (intro vm_exec_cong) (auto simp: emit_arg_def is_jump_op)
  have cl: "closed ?C" using a(1) by (rule closed_rcode)
  have next_pc: "pc + 1 < length (code_insns (ba_insns a))" if "an_op n \<noteq> OP_RET"
    using cl pc that C(1) by (auto simp: closed_def rcode_def)
  have "(pc + 1) * INSN_LEN = pc * INSN_LEN + INSN_LEN" by simp
  note step = Suc.IH [of "pc + 1", unfolded this]
  show ?case
  proof (cases "vm_exec w ind p t (Some (an_op n)) (word_of_int arg) str (map_option Some s') r")
    case A_ret
    with F(1-3) exec C(1) pc show ?thesis by simp
  next
    case (A_next r')
    then have "an_op n \<noteq> OP_RET" by (auto simp: vm_exec_def)
    with F(1-3) exec C(1) pc A_next step [OF next_pc Suc.prems(2)] show ?thesis by simp
  next
    case A_jump
    then have j: "is_jump n"
      by (auto simp: vm_exec_def is_jump_def next_of_def next_result_def split: if_splits option.splits vm_result.splits)
    then obtain k where k: "k < length ?C" "arg = int k"
      using cl pc C(1) by (auto simp: closed_def is_jump_op)
    then have "k < length (code_insns (ba_insns a))" "k = pos_of_label (ba_insns a) (an_arg n)"
      using arg(2) [OF j] by (simp_all add: rcode_def)
    moreover from this F(4) [OF j]
    have "\<not> sint (word_of_int (emit_arg a n) :: 32 word) < 0"
      "nat (sint (word_of_int (emit_arg a n) :: 32 word)) = k * INSN_LEN"
      by (metis of_nat_less_0_iff, metis nat_int)
    moreover have "vm_loop w ind p t ?bc m (k * INSN_LEN) r s = rrun w ind p t ?C m k r s'"
      using Suc.IH [of k s s'] Suc.prems(2) calculation(1) by blast
    ultimately show ?thesis
      using F(1-3) exec C(1) pc A_jump k by simp
  next
    case A_loads
    then have op: "an_op n = OP_LOADS"
      by (auto simp: vm_exec_def next_of_def next_result_def split: if_splits option.splits vm_result.splits)
    then have "map_option (cstr_at ?bc) (Some (sint (word_of_int (emit_arg a n) :: 32 word))) = map_option Some str"
      using F(5) str by (simp add: has_string_def)
    with F(1-3) exec C(1) pc A_loads step [OF next_pc] op show ?thesis by simp
  next
    case (A_fail x)
    with F(1-3) exec C(1) pc show ?thesis by simp
  qed
qed simp

section \<open>Compiling and evaluating\<close>

lemma optimize_bvm_ast_ok: "node_ok a \<Longrightarrow> node_ok (optimize_bvm_ast a)"
proof (induction a rule: measure_induct_rule [of size])
  case (less a)
  show ?case
  proof (cases a)
    case (B_OR x y)
    with less show ?thesis by (cases rule: optimize_or_cases [of x y]) auto
  next
    case (B_AND x y)
    with less show ?thesis by auto
  next
    case (B_NOT x)
    with less show ?thesis by (cases x) (auto simp del: optimize_bvm_ast.simps(1,2,4-))
  qed (use less in simp_all)
qed

lemma generate_ready:
  assumes "node_ok b"
  shows "opt_inv (generate_bvm_asm b)" "strs_ok (generate_bvm_asm b)"
proof -
  let ?e = "\<lparr>ba_insns = [], ba_strs = [], ba_label = 0\<rparr> :: bvm_asm"
  let ?g = "generate_bvm_asm1 ?e b BOOLEXP_CONST"
  have "strs_ok ?e" by (simp add: strs_ok_def)
  with assms have g: "strs_ok ?g" by (rule strs_ok_generate [rotated])
  then show "strs_ok (generate_bvm_asm b)"
    unfolding generate_bvm_asm_def by (rule strs_ok_append_insn) simp
  have "block_ok 0 (ba_label ?g) (length (ba_strs ?g)) (ba_insns ?g)"
    using extends_generate [of ?e b BOOLEXP_CONST] by (auto simp: extends_def)
  then show "opt_inv (generate_bvm_asm b)"
    unfolding generate_bvm_asm_def opt_inv_def block_ok_def
    by (auto simp: is_jump_def is_label_def has_string_def intro!: fwd_appendI)
qed

text \<open>A compiled lock is the optimised list of some parse tree, and its instructions are five bytes each.\<close>

lemma compile_cases:
  assumes "node_ok b"
  obtains a where "compile_boolexp b = Some (emit_bytecode a)" "opt_inv a" "strs_ok a"
    "ba_strs a = ba_strs (generate_bvm_asm (optimize_bvm_ast b))"
    "redirect\<^sup>*\<^sup>* (rcode (ba_insns (generate_bvm_asm (optimize_bvm_ast b))) (ba_strs (generate_bvm_asm (optimize_bvm_ast b))))
       (rcode (ba_insns a) (ba_strs a))"
    "node_ok (optimize_bvm_ast b)"
proof -
  have ok: "node_ok (optimize_bvm_ast b)"
    using assms by (rule optimize_bvm_ast_ok)
  obtain a where "optimize_bvm_asm (generate_bvm_asm (optimize_bvm_ast b)) = Some a" "opt_inv a"
    "ba_strs a = ba_strs (generate_bvm_asm (optimize_bvm_ast b))"
    "redirect\<^sup>*\<^sup>* (rcode (ba_insns (generate_bvm_asm (optimize_bvm_ast b))) (ba_strs (generate_bvm_asm (optimize_bvm_ast b))))
       (rcode (ba_insns a) (ba_strs a))"
    using optimize_loop_correct [OF generate_ready(1) [OF ok], of 0] by (auto simp: optimize_bvm_asm_def threaded_def)
  with that [of a] ok generate_ready(2) [OF ok] show thesis
    by (simp add: compile_boolexp_def strs_ok_def)
qed

lemma redirects_length: "redirect\<^sup>*\<^sup>* C C' \<Longrightarrow> length C' = length C"
  by (induction rule: rtranclp_induct) (auto simp: redirect_length)

definition insn_count :: "boolexp_node \<Rightarrow> nat" where
  "insn_count b = length (code_insns (ba_insns (generate_bvm_asm (optimize_bvm_ast b))))"

lemma generated_value:
  assumes "node_ok b" "\<And>d s. vind d s = res_of (ind d s)" "insn_count b \<le> steps"
    "b' = optimize_bvm_ast b" "node_ok b'"
  shows "rrun w vind p t (rcode (ba_insns (generate_bvm_asm b')) (ba_strs (generate_bvm_asm b'))) steps 0 0 None
    = res_of (bool_value w ind p t b' 0)"
proof -
  let ?e = "\<lparr>ba_insns = [], ba_strs = [], ba_label = 0\<rparr> :: bvm_asm"
  let ?g = "generate_bvm_asm1 ?e b' BOOLEXP_CONST" and ?a = "generate_bvm_asm b'"
  let ?C = "rcode (ba_insns ?a) (ba_strs ?a)"
  have a: "ba_insns ?a = ba_insns ?g @ [\<lparr>an_op = OP_RET, an_arg = 0\<rparr>]" "ba_strs ?a = ba_strs ?g"
    by (simp_all add: generate_bvm_asm_def)
  have e0: "nreal ?e = 0"
    by (simp add: nreal_def)
  have "runs w vind p t ?C (nreal ?e) (nreal ?g) (bool_value w ind p t b')"
    using assms(2,5) by (intro generate_runs)
      (simp_all add: labels_below_def strs_ok_def part_of_def a)
  then obtain k s' where k: "k \<le> nreal ?g" "\<And>n. rrun w vind p t ?C (k + n) 0 0 None =
      (case bool_value w ind p t b' 0 of None \<Rightarrow> Fault | Some v \<Rightarrow> rrun w vind p t ?C n (nreal ?g) v s')"
    unfolding runs_def e0 diff_zero by blast
  have count: "insn_count b = nreal ?g + 1"
    by (simp add: insn_count_def nreal_def a is_label_def assms(4) [symmetric])
  then have "k + 1 \<le> steps"
    using k(1) assms(3) by linarith
  then obtain m where "steps = k + 1 + m"
    using le_Suc_ex by blast
  then have n: "steps = k + Suc m" by simp
  have ret: "nreal ?g < length ?C" "?C ! nreal ?g = (OP_RET, 0, None)"
    by (simp_all add: rcode_def a nreal_def is_label_def nth_append rinsn_of_def is_jump_def has_string_def)
  show ?thesis
    unfolding n k(2) using ret by (simp add: res_of_def vm_exec_def split: option.splits)
qed

lemma compiled_value:
  assumes ok: "node_ok b" and ind: "\<And>d s. vind d s = res_of (ind d s)"
    and bits: "\<And>d s v. ind d s = Some v \<Longrightarrow> bit_value v"
    and bc: "compile_boolexp b = Some bc" and len: "length bc < 2 ^ 31" and steps: "insn_count b \<le> steps"
  shows "vm_loop w vind p t bc steps 0 0 None = res_of (bool_value w ind p t b 0)"
proof -
  let ?b = "optimize_bvm_ast b"
  obtain a where a: "bc = emit_bytecode a" "opt_inv a" "strs_ok a" "ba_strs a = ba_strs (generate_bvm_asm ?b)"
    "redirect\<^sup>*\<^sup>* (rcode (ba_insns (generate_bvm_asm ?b)) (ba_strs (generate_bvm_asm ?b)))
       (rcode (ba_insns a) (ba_strs a))" "node_ok ?b"
    by (rule compile_cases [OF ok]) (use bc in auto)
  have gen: "rrun w vind p t (rcode (ba_insns (generate_bvm_asm ?b)) (ba_strs (generate_bvm_asm ?b))) steps 0 0 None
      = res_of (bool_value w ind p t ?b 0)"
    using generated_value [OF ok ind steps refl a(6)] .
  have nonempty: "0 < length (code_insns (ba_insns a))"
    using a(2) by (auto simp: opt_inv_def is_label_def)
  have "vm_loop w vind p t bc steps (0 * INSN_LEN) 0 None = rrun w vind p t (rcode (ba_insns a) (ba_strs a)) steps 0 0 None"
    unfolding a(1) using a(2,3) len nonempty by (intro vm_loop_rrun) (simp_all add: a(1))
  also have "\<dots> = res_of (bool_value w ind p t ?b 0)"
    using redirects_run [OF a(5), of w vind p t steps 0 0 None] gen by (simp add: res_of_def split: option.splits)
  also have "bool_value w ind p t ?b 0 = bool_value w ind p t b 0"
    using bits node_ok_consts [OF ok] by (intro optimize_bvm_ast_value) auto
  finally show ?thesis by simp
qed

lemma compile_total: "node_ok b \<Longrightarrow> \<exists>bc. compile_boolexp b = Some bc"
  by (rule compile_cases) auto

text \<open>The size of a compiled lock: five bytes for each instruction, and the strings.\<close>

definition lock_size :: "boolexp_node \<Rightarrow> nat" where
  "lock_size b = insn_count b * INSN_LEN
     + length (concat (map (\<lambda>s. s @ [NUL]) (ba_strs (generate_bvm_asm (optimize_bvm_ast b)))))"

lemma compile_length:
  assumes "node_ok b" "compile_boolexp b = Some bc"
  shows "length bc = lock_size b"
proof -
  let ?b = "optimize_bvm_ast b"
  obtain a where a: "bc = emit_bytecode a" "ba_strs a = ba_strs (generate_bvm_asm ?b)"
    "redirect\<^sup>*\<^sup>* (rcode (ba_insns (generate_bvm_asm ?b)) (ba_strs (generate_bvm_asm ?b)))
       (rcode (ba_insns a) (ba_strs a))"
    by (rule compile_cases [OF assms(1)]) (use assms(2) in auto)
  have "length (code_insns (ba_insns a)) = insn_count b"
    using redirects_length [OF a(3)] by (simp add: rcode_def insn_count_def)
  moreover have "length (concat (map (emit_insn a) xs)) = length xs * INSN_LEN" for xs
    by (induction xs) (simp_all add: emit_insn_def INSN_LEN_def)
  ultimately show ?thesis
    by (simp add: a(1,2) emit_bytecode_def lock_size_def del: length_concat)
qed

text \<open>
  What a lock on a target means for a player when the locks of the database are the parse
  trees \<open>locks\<close>: indirect locks are followed \<open>MAX_DEPTH\<close> deep.
\<close>

function lock_value ::
  "world \<Rightarrow> (dbref \<Rightarrow> string \<Rightarrow> boolexp_node option) \<Rightarrow> nat \<Rightarrow> dbref \<Rightarrow> boolexp_node option \<Rightarrow> dbref \<Rightarrow> 32 word option"
  where
  "lock_value w locks depth player b target =
     (if \<not> w_good_object w player then Some 0
      else if w_max_depth w < depth then Some 0
      else case b of
             None \<Rightarrow> Some 1
           | Some ast \<Rightarrow>
               bool_value w (\<lambda>d s. lock_value w locks (depth + 1) player (locks d s) d) player target ast 0)"
  by pat_completeness auto
termination
  by (relation "measure (\<lambda>(w, locks, depth, _). Suc (w_max_depth w) - depth)") auto

declare lock_value.simps [simp del]

definition lock_ok :: "nat \<Rightarrow> boolexp_node option \<Rightarrow> bool" where
  "lock_ok steps b =
     (case b of None \<Rightarrow> True | Some ast \<Rightarrow> node_ok ast \<and> insn_count ast \<le> steps \<and> lock_size ast < 2 ^ 31)"

definition compiled :: "boolexp_node option \<Rightarrow> boolexp" where
  "compiled b = (case b of None \<Rightarrow> None | Some ast \<Rightarrow> compile_boolexp ast)"

lemma lock_value_bit:
  assumes "\<forall>d s. lock_ok steps (locks d s)" "lock_ok steps b" "lock_value w locks depth p b t = Some v"
  shows "bit_value v"
  using assms
proof (induction w locks depth p b t arbitrary: v rule: lock_value.induct)
  case (1 w locks depth p b t)
  show ?case
  proof (cases "\<not> w_good_object w p \<or> w_max_depth w < depth \<or> b = None")
    case True
    with "1.prems"(3) show ?thesis by (subst (asm) lock_value.simps) (auto split: if_splits)
  next
    case False
    then obtain ast where b: "b = Some ast" by auto
    with False "1.prems" have v: "bool_value w (\<lambda>d s. lock_value w locks (depth + 1) p (locks d s) d) p t ast 0 = Some v"
      by (subst (asm) lock_value.simps) simp
    have "bit_value u" if "lock_value w locks (depth + 1) p (locks d s) d = Some u" for d s u
      using "1.IH" [OF _ _ b "1.prems"(1), of d s u] False that "1.prems"(1) by simp
    with v "1.prems"(2) b show ?thesis
      by (intro bool_value_bit [OF v]) (auto simp: lock_ok_def node_ok_consts)
  qed
qed

lemma eval_compiled_value:
  assumes "\<forall>d s. w_getlock w d s = compiled (locks d s)" "\<forall>d s. lock_ok steps (locks d s)" "lock_ok steps b"
  shows "eval_boolexp w steps depth p (compiled b) t = res_of (lock_value w locks depth p b t)"
  using assms
proof (induction w locks depth p b t rule: lock_value.induct)
  case (1 w locks depth p b t)
  show ?case
  proof (cases "\<not> w_good_object w p \<or> w_max_depth w < depth \<or> b = None")
    case True
    then show ?thesis
      by (subst lock_value.simps, subst eval_boolexp.simps) (auto simp: res_of_def compiled_def)
  next
    case False
    then obtain ast where b: "b = Some ast" by auto
    with "1.prems"(3) have ast: "node_ok ast" "insn_count ast \<le> steps" "lock_size ast < 2 ^ 31"
      by (auto simp: lock_ok_def)
    obtain bc where bc: "compile_boolexp ast = Some bc"
      using compile_total [OF ast(1)] by blast
    have "eval_boolexp w steps (depth + 1) p (w_getlock w d s) d
        = res_of (lock_value w locks (depth + 1) p (locks d s) d)" for d s
      using "1.IH" [OF _ _ b "1.prems"(1,2), of d s] False "1.prems"(1,2) by simp
    moreover have "bit_value v" if "lock_value w locks (depth + 1) p (locks d s) d = Some v" for d s v
      using lock_value_bit [OF "1.prems"(2) _ that] "1.prems"(2) by blast
    ultimately have "vm_loop w (\<lambda>d s. eval_boolexp w steps (depth + 1) p (w_getlock w d s) d) p t bc steps 0 0 None
        = res_of (bool_value w (\<lambda>d s. lock_value w locks (depth + 1) p (locks d s) d) p t ast 0)"
      using compile_length [OF ast(1) bc] ast(3) by (intro compiled_value [OF ast(1) _ _ bc _ ast(2)]) auto
    with False b bc show ?thesis
      by (subst lock_value.simps, subst eval_boolexp.simps) (simp add: compiled_def)
  qed
qed


section \<open>Properties\<close>

text \<open>A small database: object 2 is a player that carries object 3, and the \<open>Basic\<close> lock of object 1
  asks for the player or something carried.\<close>

definition sample_world :: world where
  "sample_world =
     \<lparr>w_max_depth = 10, w_good_object = \<lambda>d. d < 4, w_garbage = \<lambda>d. False,
      w_contents = \<lambda>d. if d = 2 then [3] else [], w_owner = \<lambda>d. 2, w_typeof = \<lambda>d. TYPE_PLAYER,
      w_name = \<lambda>d. ''One'', w_connected = \<lambda>d. True, w_can_read_lock = \<lambda>t d s. True,
      w_getlock = \<lambda>d s. if d = 1 then compile_boolexp (B_OR (B_IS 2) (B_CARRY 2)) else None,
      w_atr_get = \<lambda>d s. None, w_can_read_attr = \<lambda>t p a. True,
      w_local_wild_match = \<lambda>a b. a = b, w_quick_wild = \<lambda>a b. a = b, w_match_aliases = \<lambda>d s. False,
      w_sees_flag = \<lambda>f t p s. False, w_find_channel = \<lambda>s t. None, w_onchannel = \<lambda>p c. False,
      w_least_idle_ip = \<lambda>d. None, w_least_idle_hostname = \<lambda>d. None, w_fetch_ufun = \<lambda>s t. None,
      w_call_ufun = \<lambda>u p. '''', w_parse_objid = \<lambda>s. 0\<rparr>"

definition sample_locks :: "dbref \<Rightarrow> string \<Rightarrow> boolexp_node option" where
  "sample_locks d s = (if d = 1 then Some (B_OR (B_IS 2) (B_CARRY 2)) else None)"

text \<open>C4: evaluating the bytecode of a lock, indirect locks included, returns the meaning of its
  parse tree, for every player, target and database whose locks are compiled: parse tree
  optimiser, code generator, thread jumping and string section change nothing, the machine
  stays inside the bytecode, and as many steps as the longest lock has instructions are
  enough.\<close>

theorem eval_boolexp_compiled:
  assumes "\<forall>d s. w_getlock w d s = compiled (locks d s)" "\<forall>d s. lock_ok steps (locks d s)" "lock_ok steps b"
  shows "eval_boolexp w steps depth p (compiled b) t = res_of (lock_value w locks depth p b t)"
  using eval_compiled_value [OF assms] .



text \<open>A \<open>TYPE^\<close> lock with a letter that is no object type does not fail: the machine leaves the
  register as the test before it did, so that such a lock passes after a test that passes.\<close>

theorem type_lock_keeps_register:
  assumes "c_head str \<notin> {CHR ''R'', CHR ''r'', CHR ''E'', CHR ''e'', CHR ''T'', CHR ''t'', CHR ''P'', CHR ''p''}"
  shows "bool_value w ind p t (B_FLAG ''TYPE'' str) r = Some r
    \<and> bool_value w ind p t (B_AND (B_BOOL 1) (B_FLAG ''TYPE'' str)) r = Some 1
    \<and> bool_value w ind p t (B_OR (B_BOOL 0) (B_FLAG ''TYPE'' str)) r = Some 0"
  using assms by (simp add: is_allowed_bflag_gperf bflag_gperf_def test_string_def)

lemma type_lock_keeps_register_witness:
  "bool_value sample_world (\<lambda>d s. None) 2 1 (B_AND (B_BOOL 1) (B_FLAG ''TYPE'' ''X'')) 0 = Some 1"
  using type_lock_keeps_register [of "''X''" sample_world "\<lambda>d s. None" 2 1 0] by simp

lemma eval_boolexp_compiled_witness:
  "eval_boolexp sample_world 20 0 2 (compiled (Some (B_AND (B_IND 1 ''Basic'') (B_NOT (B_CARRY 1))))) 0 = Returns 1"
proof -
  let ?b = "Some (B_AND (B_IND 1 ''Basic'') (B_NOT (B_CARRY 1)))"
  have "\<forall>d s. w_getlock sample_world d s = compiled (sample_locks d s)"
    by (simp add: sample_world_def sample_locks_def compiled_def)
  moreover have "lock_ok 20 ?b"
    by (simp add: lock_ok_def insn_count_def lock_size_def generate_bvm_asm_def gen_label_id_def paren_if_def
        append_insn_def is_label_def INSN_LEN_def Let_def)
  moreover have "\<forall>d s. lock_ok 20 (sample_locks d s)"
    by (simp add: sample_locks_def lock_ok_def insn_count_def lock_size_def generate_bvm_asm_def
        append_insn_def is_label_def INSN_LEN_def Let_def)
  ultimately have "eval_boolexp sample_world 20 0 2 (compiled ?b) 0 = res_of (lock_value sample_world sample_locks 0 2 ?b 0)"
    by (intro eval_boolexp_compiled)
  also have "lock_value sample_world sample_locks 0 2 ?b 0 = Some 1"
    by (subst lock_value.simps, simp add: sample_world_def)
      (subst lock_value.simps, simp add: sample_locks_def test_ind_def test_thing_def)
  finally show ?thesis by (simp add: res_of_def)
qed

end
