(* ===== verification/Mush_Boolexp_Parse.thy ===== *)
theory Mush_Boolexp_Parse
  imports Mush_Boolexp_Correct
begin

text \<open>
  Lock keys, part four of \<open>src/src/boolexp.c\<close>: the recursive descent parser.  \<open>parsebuf\<close> is
  the text left to parse, passed along.  A parsing function returns its node with the rest of
  the text, or \<open>Null\<close> for the null pointer; \<open>Overrun\<close> is a write past \<open>tbuf1\<close>.  The
  functions call each other recursively through parentheses, and the recursion has fuel.
  What the messages to the player say is left out.
\<close>

section \<open>Definitions\<close>

datatype 'a parse_result = Parsed 'a | Null | Overrun | OutOfFuel

text \<open>The rest of the server, for a fixed player and lock type.\<close>

record parse_env =
  px_loading_db :: bool
  px_match_result :: "string \<Rightarrow> dbref"
  px_parse_objid :: "string \<Rightarrow> dbref"
  px_parse_integer :: "string \<Rightarrow> dbref"
  px_good_object :: "dbref \<Rightarrow> bool"
  px_good_atr_name :: "string \<Rightarrow> bool"
  px_match_lock :: "string \<Rightarrow> string option"
  px_ltype :: string

definition NOT_TOKEN :: char where "NOT_TOKEN = CHR ''!''"
definition AND_TOKEN :: char where "AND_TOKEN = CHR ''&''"
definition OR_TOKEN :: char where "OR_TOKEN = CHR ''|''"
definition AT_TOKEN :: char where "AT_TOKEN = CHR ''@''"
definition IN_TOKEN :: char where "IN_TOKEN = CHR ''+''"
definition IS_TOKEN :: char where "IS_TOKEN = CHR ''=''"
definition OWNER_TOKEN :: char where "OWNER_TOKEN = CHR ''$''"
definition ATR_TOKEN :: char where "ATR_TOKEN = CHR '':''"
definition EVAL_TOKEN :: char where "EVAL_TOKEN = CHR ''/''"
definition FLAG_TOKEN :: char where "FLAG_TOKEN = CHR 0x5E"
definition BACKSLASH :: char where "BACKSLASH = CHR 0x5C"

definition NOTHING :: dbref where "NOTHING = -1"
definition AMBIGUOUS :: dbref where "AMBIGUOUS = -2"

definition skip_whitespace :: "string \<Rightarrow> string" where
  "skip_whitespace s = dropWhile c_isspace s"

definition strip_trailing :: "string \<Rightarrow> string" where
  "strip_trailing b = rev (dropWhile c_isspace (rev b))"

definition alloc_atr :: "string \<Rightarrow> string \<Rightarrow> bool \<Rightarrow> string \<times> string" where
  "alloc_atr name s upcase_s =
     (strupper (Some name), if upcase_s then strupper (Some s) else take (BUFFER_LEN - 1) s)"

text \<open>The name of an object reference, with escapes removed, and the rest.\<close>

fun scan_object :: "bool \<Rightarrow> string \<Rightarrow> buf \<Rightarrow> buf \<times> string" where
  "scan_object escaped [] b = (b, [])"
| "scan_object escaped (c # s) b =
     (if escaped \<or> \<not> (c = AND_TOKEN \<or> c = OR_TOKEN \<or> c = EVAL_TOKEN \<or> c = CHR '')'') then
        (if escaped \<or> c \<noteq> BACKSLASH then scan_object False s (snd (safe_chr c b))
         else scan_object True s b)
      else (b, c # s))"

definition parse_boolexp_R :: "parse_env \<Rightarrow> string \<Rightarrow> (boolexp_node \<times> string) parse_result" where
  "parse_boolexp_R env s =
     (let (b, rest) = scan_object False s [];
          tbuf1 = strip_trailing b;
          special = (c_head tbuf1 = CHR ''#'' \<and> 1 < length tbuf1);
          second = (if 1 < length tbuf1 then tbuf1 ! 1 else NUL)
      in if px_loading_db env then
           if special then
             if second = CHR ''t'' \<or> second = CHR ''T'' then Parsed (B_BOOL 1, rest)
             else if second = CHR ''f'' \<or> second = CHR ''F'' then Parsed (B_BOOL 0, rest)
             else Parsed (B_CONST (px_parse_integer env (tl tbuf1)), rest)
           else Null
         else if special \<and> (second = CHR ''t'' \<or> second = CHR ''T'') then Parsed (B_BOOL 1, rest)
         else if special \<and> (second = CHR ''f'' \<or> second = CHR ''F'') then Parsed (B_BOOL 0, rest)
         else let thing = px_match_result env tbuf1 in
           if thing = NOTHING then Null
           else if thing = AMBIGUOUS then Null
           else Parsed (B_CONST thing, rest))"

datatype test_atr_result = TA_node boolexp_node | TAE_NONE | TAE_PARSE

text \<open>The name before the token, in upper case and with escapes removed, and the text after it.\<close>

fun scan_atr :: "char \<Rightarrow> bool \<Rightarrow> string \<Rightarrow> buf \<Rightarrow> (buf \<times> string) option" where
  "scan_atr tok escaped [] b = None"
| "scan_atr tok escaped (c # s) b =
     (if \<not> escaped \<and> c = tok then Some (b, s)
      else if \<not> escaped \<and> c = BACKSLASH then scan_atr tok True s b
      else scan_atr tok False s (snd (safe_chr (UPCASE c) b)))"

definition test_objid :: "parse_env \<Rightarrow> string \<Rightarrow> test_atr_result" where
  "test_objid env s =
     (if px_loading_db env then
        (case parse_boolexp_R env s of
           Parsed (B_CONST thing, _) \<Rightarrow> TA_node (B_IS thing)
         | _ \<Rightarrow> TAE_PARSE)
      else let d = px_parse_objid env s in
        if px_good_object env d then TA_node (B_IS d) else TAE_PARSE)"

definition test_atr :: "parse_env \<Rightarrow> string \<Rightarrow> char \<Rightarrow> test_atr_result" where
  "test_atr env s tok =
     (case scan_atr tok False s [] of
        None \<Rightarrow> TAE_NONE
      | Some (name, text) \<Rightarrow>
          if name = [] then TAE_NONE
          else if \<not> px_good_atr_name env name then TAE_NONE
          else if tok = FLAG_TOKEN \<and> is_allowed_bflag name = None then TAE_PARSE
          else if text = [] then TAE_NONE
          else if tok = ATR_TOKEN then TA_node (case alloc_atr name text False of (n, t) \<Rightarrow> B_ATR n t)
          else if tok = EVAL_TOKEN then TA_node (case alloc_atr name text False of (n, t) \<Rightarrow> B_EVAL n t)
          else if strcmp name ''OBJID'' = 0 then test_objid env text
          else TA_node (case alloc_atr name text True of (n, t) \<Rightarrow> B_FLAG n t))"

text \<open>The raw text of an attribute-like lock: escapes stay in it.\<close>

fun scan_raw :: "bool \<Rightarrow> string \<Rightarrow> string \<times> string" where
  "scan_raw escaped [] = ([], [])"
| "scan_raw escaped (c # s) =
     (if escaped \<or> \<not> (c = AND_TOKEN \<or> c = OR_TOKEN \<or> c = CHR '')'') then
        (case scan_raw (if escaped then False else c = BACKSLASH) s of (b, rest) \<Rightarrow> (c # b, rest))
      else ([], c # s))"

text \<open>\<open>E\<close> parses what is inside parentheses.\<close>

type_synonym parser = "string \<Rightarrow> (boolexp_node \<times> string) parse_result"

definition parse_boolexp_L :: "parse_env \<Rightarrow> parser \<Rightarrow> parser" where
  "parse_boolexp_L env E s =
     (let s = skip_whitespace s in
      if c_head s = CHR ''('' then
        (case E (tl s) of
           Parsed (b, rest) \<Rightarrow>
             let rest = skip_whitespace rest in
             if c_head rest \<noteq> CHR '')'' then Null else Parsed (b, tl rest)
         | x \<Rightarrow> x)
      else
        let (raw, rest) = scan_raw False s in
        if BUFFER_LEN \<le> length raw then Overrun
        else
          let tbuf1 = strip_trailing raw in
          (case test_atr env tbuf1 ATR_TOKEN of
             TA_node b \<Rightarrow> Parsed (b, rest) | TAE_PARSE \<Rightarrow> Null
           | TAE_NONE \<Rightarrow>
               (case test_atr env tbuf1 EVAL_TOKEN of
                  TA_node b \<Rightarrow> Parsed (b, rest) | TAE_PARSE \<Rightarrow> Null
                | TAE_NONE \<Rightarrow>
                    (case test_atr env tbuf1 FLAG_TOKEN of
                       TA_node b \<Rightarrow> Parsed (b, rest) | TAE_PARSE \<Rightarrow> Null
                     | TAE_NONE \<Rightarrow> parse_boolexp_R env s))))"

text \<open>After \<open>$\<close>, \<open>+\<close>, \<open>=\<close> and \<open>@\<close>: the object, which must not be \<open>#true\<close> or \<open>#false\<close>.\<close>

definition parse_thing :: "parse_env \<Rightarrow> string \<Rightarrow> (dbref \<times> string) parse_result" where
  "parse_thing env s =
     (case parse_boolexp_R env s of
        Parsed (B_CONST thing, rest) \<Rightarrow> Parsed (thing, rest)
      | Parsed _ \<Rightarrow> Null
      | Null \<Rightarrow> Null | Overrun \<Rightarrow> Overrun | OutOfFuel \<Rightarrow> OutOfFuel)"

fun map_parsed :: "('a \<Rightarrow> 'b) \<Rightarrow> ('a \<times> string) parse_result \<Rightarrow> ('b \<times> string) parse_result" where
  "map_parsed f (Parsed (x, rest)) = Parsed (f x, rest)"
| "map_parsed f Null = Null"
| "map_parsed f Overrun = Overrun"
| "map_parsed f OutOfFuel = OutOfFuel"

definition parse_boolexp_O :: "parse_env \<Rightarrow> parser \<Rightarrow> parser" where
  "parse_boolexp_O env E s =
     (let s = skip_whitespace s in
      if c_head s = OWNER_TOKEN then map_parsed B_OWNER (parse_thing env (tl s))
      else parse_boolexp_L env E s)"

definition parse_boolexp_C :: "parse_env \<Rightarrow> parser \<Rightarrow> parser" where
  "parse_boolexp_C env E s =
     (let s = skip_whitespace s in
      if c_head s = IN_TOKEN then map_parsed B_CARRY (parse_thing env (tl s))
      else parse_boolexp_O env E s)"

definition parse_boolexp_I :: "parse_env \<Rightarrow> parser \<Rightarrow> parser" where
  "parse_boolexp_I env E s =
     (let s = skip_whitespace s in
      if c_head s = IS_TOKEN then map_parsed B_IS (parse_thing env (tl s))
      else parse_boolexp_C env E s)"

text \<open>The lock name after \<open>@object/\<close>, in upper case.\<close>

fun scan_lock_name :: "bool \<Rightarrow> string \<Rightarrow> buf \<Rightarrow> buf \<times> string" where
  "scan_lock_name escaped [] b = (b, [])"
| "scan_lock_name escaped (c # s) b =
     (if escaped \<or> \<not> (c = AND_TOKEN \<or> c = OR_TOKEN \<or> c = CHR '')'') then
        (if escaped \<or> c \<noteq> BACKSLASH then scan_lock_name False s (snd (safe_chr (UPCASE c) b))
         else scan_lock_name True s b)
      else (b, c # s))"

definition parse_boolexp_A :: "parse_env \<Rightarrow> parser \<Rightarrow> parser" where
  "parse_boolexp_A env E s =
     (let s = skip_whitespace s in
      if c_head s = AT_TOKEN then
        (case parse_thing env (tl s) of
           Parsed (thing, rest) \<Rightarrow>
             if c_head rest = EVAL_TOKEN then
               let (b, rest) = scan_lock_name False (tl rest) [];
                   tbuf1 = strip_trailing b
               in if \<not> px_good_atr_name env tbuf1 then Null
                  else Parsed (B_IND thing (case px_match_lock env tbuf1 of None \<Rightarrow> tbuf1 | Some m \<Rightarrow> m), rest)
             else Parsed (B_IND thing (px_ltype env), rest)
         | Null \<Rightarrow> Null | Overrun \<Rightarrow> Overrun | OutOfFuel \<Rightarrow> OutOfFuel)
      else parse_boolexp_I env E s)"

fun parse_boolexp_F :: "parse_env \<Rightarrow> nat \<Rightarrow> parser"
  and parse_boolexp_T :: "parse_env \<Rightarrow> nat \<Rightarrow> parser"
  and parse_boolexp_E :: "parse_env \<Rightarrow> nat \<Rightarrow> parser" where
  "parse_boolexp_F env 0 s = OutOfFuel"
| "parse_boolexp_F env (Suc n) s =
     (let s = skip_whitespace s in
      if c_head s = NOT_TOKEN then map_parsed B_NOT (parse_boolexp_F env n (tl s))
      else parse_boolexp_A env (parse_boolexp_E env n) s)"
| "parse_boolexp_T env 0 s = OutOfFuel"
| "parse_boolexp_T env (Suc n) s =
     (case parse_boolexp_F env n s of
        Parsed (b, rest) \<Rightarrow>
          let rest = skip_whitespace rest in
          if c_head rest = AND_TOKEN then map_parsed (B_AND b) (parse_boolexp_T env n (tl rest))
          else Parsed (b, rest)
      | x \<Rightarrow> x)"
| "parse_boolexp_E env 0 s = OutOfFuel"
| "parse_boolexp_E env (Suc n) s =
     (case parse_boolexp_T env n s of
        Parsed (b, rest) \<Rightarrow>
          let rest = skip_whitespace rest in
          if c_head rest = OR_TOKEN then map_parsed (B_OR b) (parse_boolexp_E env n (tl rest))
          else Parsed (b, rest)
      | x \<Rightarrow> x)"

definition parse_fuel :: "string \<Rightarrow> nat" where
  "parse_fuel buf = 3 * length buf + 3"

text \<open>
  \<open>chunk_create\<close> of the paged store in \<open>chunk.c\<close>, as far as it concerns a lock: the reference
  stands for the bytes stored, and \<open>None\<close> is the panic that ends the server.
\<close>

definition MIN_CHUNK_LEN :: nat where "MIN_CHUNK_LEN = 1"
definition MAX_CHUNK_LEN :: nat where "MAX_CHUNK_LEN = 16384 - 1"

definition chunk_create :: "char list \<Rightarrow> boolexp option" where
  "chunk_create data =
     (if length data < MIN_CHUNK_LEN \<or> MAX_CHUNK_LEN < length data then None else Some (Some data))"

text \<open>The result is a lock; \<open>Some None\<close> is \<open>TRUE_BOOLEXP\<close>, and \<open>None\<close> no return.\<close>

definition parse_boolexp_d :: "parse_env \<Rightarrow> string \<Rightarrow> boolexp option" where
  "parse_boolexp_d env buf =
     (case parse_boolexp_E env (parse_fuel buf) buf of
        Parsed (ast, _) \<Rightarrow> Option.bind (compile_boolexp ast) chunk_create
      | Null \<Rightarrow> Some None
      | _ \<Rightarrow> None)"

section \<open>What the parser returns\<close>

lemma suffix_no_nul: "suffix r s \<Longrightarrow> no_nul s \<Longrightarrow> no_nul r"
  by (auto simp: suffix_def)

lemma skip_whitespace_suffix: "suffix (skip_whitespace s) s"
  by (simp add: skip_whitespace_def suffix_dropWhile)

lemma tl_suffix: "suffix (tl s) s"
  by (cases s) (auto simp: suffix_def)

lemma c_head_shorter: "c_head s = c \<Longrightarrow> c \<noteq> NUL \<Longrightarrow> length (tl s) < length s"
  by (cases s) auto

lemma safe_chr_no_nul: "no_nul b \<Longrightarrow> c \<noteq> NUL \<Longrightarrow> no_nul (snd (safe_chr c b))"
  by (simp add: safe_chr_def)

lemma safe_chr_bounded: "length b < BUFFER_LEN \<Longrightarrow> length (snd (safe_chr c b)) < BUFFER_LEN"
  by (auto simp: safe_chr_def)

lemma scan_object_ok:
  "no_nul s \<Longrightarrow> no_nul b \<Longrightarrow> no_nul (fst (scan_object e s b)) \<and> suffix (snd (scan_object e s b)) s"
proof (induction e s b rule: scan_object.induct)
  case (2 escaped c s b)
  then show ?case by (auto simp: safe_chr_no_nul intro: suffix_ConsI)
qed simp

lemma scan_lock_name_ok:
  "no_nul s \<Longrightarrow> no_nul b \<Longrightarrow> no_nul (fst (scan_lock_name e s b)) \<and> suffix (snd (scan_lock_name e s b)) s"
proof (induction e s b rule: scan_lock_name.induct)
  case (2 escaped c s b)
  then show ?case by (auto simp: safe_chr_no_nul intro: suffix_ConsI)
qed simp

lemma scan_raw_append: "fst (scan_raw e s) @ snd (scan_raw e s) = s"
  by (induction e s rule: scan_raw.induct) (auto split: prod.splits)

lemma scan_raw_suffix: "suffix (snd (scan_raw e s)) s"
  using scan_raw_append [of e s] by (metis suffix_def)

lemma strip_trailing_no_nul: "no_nul s \<Longrightarrow> no_nul (strip_trailing s)"
  unfolding strip_trailing_def no_nul_def by (auto dest: set_dropWhileD)

lemma scan_atr_ok:
  assumes "scan_atr tok e s b = Some (name, body)" "no_nul s" "no_nul b" "map UPCASE b = b" "length b < BUFFER_LEN"
  shows "no_nul name \<and> map UPCASE name = name \<and> length name < BUFFER_LEN \<and> no_nul body \<and> suffix body s"
  using assms
proof (induction tok e s b rule: scan_atr.induct)
  case (2 tok escaped c s b)
  have "map UPCASE (snd (safe_chr (UPCASE c) b)) = snd (safe_chr (UPCASE c) b)"
    using "2.prems"(4) by (simp add: safe_chr_def)
  with 2 show ?case
    by (auto simp: safe_chr_no_nul safe_chr_bounded intro: suffix_ConsI split: if_splits)
qed simp

lemma strupper_same: "map UPCASE name = name \<Longrightarrow> length name < BUFFER_LEN \<Longrightarrow> strupper (Some name) = name"
  by (auto simp: strupper_def)

lemma no_nul_map_UPCASE: "no_nul s \<Longrightarrow> no_nul (map UPCASE s)"
  by (induction s) auto

lemma strupper_no_nul: "no_nul s \<Longrightarrow> no_nul (strupper (Some s))"
  by (auto simp: strupper_def no_nul_map_UPCASE no_nul_takeD)

definition env_ok :: "parse_env \<Rightarrow> bool" where
  "env_ok env \<longleftrightarrow> no_nul (px_ltype env) \<and> (\<forall>n m. px_match_lock env n = Some m \<longrightarrow> no_nul m)"

fun res_ok :: "string \<Rightarrow> (boolexp_node \<times> string) parse_result \<Rightarrow> bool" where
  "res_ok s (Parsed (b, rest)) = (node_ok b \<and> suffix rest s)"
| "res_ok s Null = True"
| "res_ok s Overrun = False"
| "res_ok s OutOfFuel = False"

lemma res_ok_suffix: "res_ok r x \<Longrightarrow> suffix r s \<Longrightarrow> res_ok s x"
  by (cases x) (auto intro: suffix_order.trans)

lemma res_ok_map: "res_ok s x \<Longrightarrow> (\<And>b. node_ok b \<Longrightarrow> node_ok (f b)) \<Longrightarrow> res_ok s (map_parsed f x)"
  by (cases x) auto

lemma parse_R_ok: "no_nul s \<Longrightarrow> res_ok s (parse_boolexp_R env s)"
  using scan_object_ok [of s "[]" False]
  by (auto simp: parse_boolexp_R_def Let_def split: prod.splits)

lemma parse_thing_ok:
  assumes "no_nul s" "\<And>d. node_ok (f d)"
  shows "res_ok s (map_parsed f (parse_thing env s))"
  using parse_R_ok [OF assms(1), of env] assms(2)
  by (auto simp: parse_thing_def split: parse_result.splits prod.splits boolexp_node.splits)

lemma bflag_objid: "is_allowed_bflag name = Some OP_TIS \<Longrightarrow> name = ''OBJID''"
  by (auto simp: is_allowed_bflag_gperf bflag_gperf_def split: if_splits)

lemma test_atr_ok:
  assumes "test_atr env s tok = TA_node b" "no_nul s" "tok \<in> {ATR_TOKEN, EVAL_TOKEN, FLAG_TOKEN}"
  shows "node_ok b"
proof -
  obtain name body where scan: "scan_atr tok False s [] = Some (name, body)"
    using assms(1) by (cases "scan_atr tok False s []") (auto simp: test_atr_def)
  have ok: "no_nul name" "map UPCASE name = name" "length name < BUFFER_LEN" "no_nul body"
    using scan_atr_ok [OF scan assms(2)] by (auto simp: BUFFER_LEN_def)
  have atr: "alloc_atr name body up = (name, if up then strupper (Some body) else take (BUFFER_LEN - 1) body)" for up
    using ok by (simp add: alloc_atr_def strupper_same)
  have texts: "no_nul (take (BUFFER_LEN - 1) body)" "no_nul (strupper (Some body))"
    using ok(4) by (simp_all add: no_nul_takeD strupper_no_nul)
  have objid: "strcmp name ''OBJID'' = 0 \<longleftrightarrow> name = ''OBJID''"
    using ok(1) by (intro strcmp_zero) auto
  show ?thesis
    using assms(1,3) scan ok texts bflag_objid [of name]
    by (auto simp: test_atr_def test_objid_def Let_def atr objid
        split: if_splits parse_result.splits prod.splits boolexp_node.splits)
qed

lemma strip_trailing_length: "length (strip_trailing s) \<le> length s"
  using length_dropWhile_le [of c_isspace "rev s"] by (simp add: strip_trailing_def)

lemma parse_L_ok:
  assumes s: "no_nul s" "length s < BUFFER_LEN"
    and E: "\<And>r. suffix r s \<Longrightarrow> length r < length s \<Longrightarrow> res_ok r (E r)"
  shows "res_ok s (parse_boolexp_L env E s)"
proof -
  let ?s = "skip_whitespace s"
  have suf: "suffix ?s s" by (rule skip_whitespace_suffix)
  show ?thesis
  proof (cases "c_head ?s = CHR ''(''")
    case True
    have r: "suffix (tl ?s) s"
      using suf tl_suffix suffix_order.trans by blast
    have "length (tl ?s) < length s"
      using c_head_shorter [OF True] suf by (simp add: suffix_length_le less_le_trans)
    with E [OF r] have ok: "res_ok (tl ?s) (E (tl ?s))" by simp
    have rest: "suffix (tl (skip_whitespace q)) s" if "suffix q (tl ?s)" for q
      using that r skip_whitespace_suffix [of q] tl_suffix [of "skip_whitespace q"]
      by (meson suffix_order.trans)
    show ?thesis
    proof (cases "E (tl ?s)")
      case (Parsed x)
      with ok rest True show ?thesis
        by (cases x) (auto simp: parse_boolexp_L_def Let_def)
    qed (use ok True in \<open>auto simp: parse_boolexp_L_def Let_def\<close>)
  next
    case False
    obtain raw rest where raw: "scan_raw False ?s = (raw, rest)" by fastforce
    have app: "raw @ rest = ?s"
      using scan_raw_append [of False ?s] by (simp add: raw)
    then have "suffix rest ?s"
      by (metis suffix_def)
    then have "suffix rest s"
      using suf by (rule suffix_order.trans)
    moreover have "length raw \<le> length ?s"
      using arg_cong [OF app, of length] by simp
    then have "length raw < BUFFER_LEN"
      using suffix_length_le [OF suf] s(2) by linarith
    moreover have "no_nul raw"
      using suffix_no_nul [OF suf s(1)] unfolding app [symmetric] by simp
    moreover have "no_nul (strip_trailing raw)"
      using \<open>no_nul raw\<close> by (rule strip_trailing_no_nul)
    moreover have "res_ok s (parse_boolexp_R env ?s)"
      using parse_R_ok [OF suffix_no_nul [OF suf s(1)]] suf by (rule res_ok_suffix)
    ultimately show ?thesis
      using False test_atr_ok by (auto simp: parse_boolexp_L_def Let_def raw split: test_atr_result.splits)
  qed
qed

lemma res_ok_skip: "res_ok (skip_whitespace s) x \<Longrightarrow> res_ok s x"
  using res_ok_suffix skip_whitespace_suffix by blast

lemma res_ok_token: "res_ok (tl (skip_whitespace s)) x \<Longrightarrow> res_ok s x"
  using res_ok_suffix skip_whitespace_suffix tl_suffix suffix_order.trans by metis

lemma skipped:
  assumes "no_nul s" "length s < BUFFER_LEN" "\<And>r. suffix r s \<Longrightarrow> length r < length s \<Longrightarrow> res_ok r (E r)"
  shows "no_nul (skip_whitespace s)" "length (skip_whitespace s) < BUFFER_LEN" "no_nul (tl (skip_whitespace s))"
    "suffix r (skip_whitespace s) \<Longrightarrow> length r < length (skip_whitespace s) \<Longrightarrow> res_ok r (E r)"
proof -
  show n: "no_nul (skip_whitespace s)"
    using suffix_no_nul [OF skip_whitespace_suffix assms(1)] .
  show "length (skip_whitespace s) < BUFFER_LEN"
    using suffix_length_le [OF skip_whitespace_suffix [of s]] assms(2) by linarith
  show "no_nul (tl (skip_whitespace s))"
    using suffix_no_nul [OF tl_suffix n] .
  show "res_ok r (E r)" if "suffix r (skip_whitespace s)" "length r < length (skip_whitespace s)"
    using that suffix_length_le [OF skip_whitespace_suffix [of s]]
    by (intro assms(3) suffix_order.trans [OF that(1) skip_whitespace_suffix]) linarith
qed

lemma parse_O_ok:
  assumes "no_nul s" "length s < BUFFER_LEN" "\<And>r. suffix r s \<Longrightarrow> length r < length s \<Longrightarrow> res_ok r (E r)"
  shows "res_ok s (parse_boolexp_O env E s)"
  using skipped [OF assms] parse_thing_ok parse_L_ok
  by (auto simp: parse_boolexp_O_def Let_def intro: res_ok_skip res_ok_token)

lemma parse_C_ok:
  assumes "no_nul s" "length s < BUFFER_LEN" "\<And>r. suffix r s \<Longrightarrow> length r < length s \<Longrightarrow> res_ok r (E r)"
  shows "res_ok s (parse_boolexp_C env E s)"
  using skipped [OF assms] parse_thing_ok parse_O_ok
  by (auto simp: parse_boolexp_C_def Let_def intro: res_ok_skip res_ok_token)

lemma parse_I_ok:
  assumes "no_nul s" "length s < BUFFER_LEN" "\<And>r. suffix r s \<Longrightarrow> length r < length s \<Longrightarrow> res_ok r (E r)"
  shows "res_ok s (parse_boolexp_I env E s)"
  using skipped [OF assms] parse_thing_ok parse_C_ok
  by (auto simp: parse_boolexp_I_def Let_def intro: res_ok_skip res_ok_token)

lemma parse_A_ok:
  assumes "no_nul s" "length s < BUFFER_LEN" "\<And>r. suffix r s \<Longrightarrow> length r < length s \<Longrightarrow> res_ok r (E r)"
    "env_ok env"
  shows "res_ok s (parse_boolexp_A env E s)"
proof (cases "c_head (skip_whitespace s) = AT_TOKEN")
  case True
  let ?t = "tl (skip_whitespace s)"
  have "res_ok ?t (map_parsed B_CONST (parse_thing env ?t))"
    using skipped(3) [OF assms(1-3)] by (intro parse_thing_ok) auto
  then have R: "case parse_thing env ?t of Parsed (d, rest) \<Rightarrow> suffix rest ?t
      | Null \<Rightarrow> True | Overrun \<Rightarrow> False | OutOfFuel \<Rightarrow> False"
    by (cases "parse_thing env ?t") auto
  show ?thesis
  proof (cases "parse_thing env ?t")
    case (Parsed x)
    obtain d rest where x: "x = (d, rest)" by fastforce
    with R Parsed have rest: "suffix rest ?t" by simp
    then have "no_nul (tl rest)"
      using suffix_no_nul [OF suffix_order.trans [OF tl_suffix rest] skipped(3) [OF assms(1-3)]] by blast
    then have "no_nul (fst (scan_lock_name False (tl rest) []))" "suffix (snd (scan_lock_name False (tl rest) [])) (tl rest)"
      using scan_lock_name_ok [of "tl rest" "[]" False] by auto
    moreover have "suffix rest s" "suffix (tl rest) s"
      using rest tl_suffix [of rest] tl_suffix [of "skip_whitespace s"] skip_whitespace_suffix [of s]
      by (meson suffix_order.trans)+
    ultimately show ?thesis
      using True Parsed x assms(4)
      by (auto simp: parse_boolexp_A_def Let_def env_ok_def strip_trailing_no_nul
          intro: suffix_order.trans split: prod.splits option.splits)
  qed (use R True in \<open>auto simp: parse_boolexp_A_def Let_def\<close>)
next
  case False
  with skipped [OF assms(1-3)] parse_I_ok show ?thesis
    by (auto simp: parse_boolexp_A_def Let_def intro: res_ok_skip)
qed

lemma parse_rest_ok:
  assumes "res_ok s x" "no_nul s" "length s < BUFFER_LEN" "tok \<noteq> NUL"
    "\<And>b. node_ok b \<Longrightarrow> (\<And>c. node_ok c \<Longrightarrow> node_ok (f b c))"
    "\<And>r. suffix r s \<Longrightarrow> length r < length s \<Longrightarrow> res_ok r (g r)"
  shows "res_ok s (case x of
      Parsed (b, rest) \<Rightarrow>
        let rest = skip_whitespace rest in
        if c_head rest = tok then map_parsed (f b) (g (tl rest)) else Parsed (b, rest)
    | y \<Rightarrow> y)"
proof (cases x)
  case (Parsed y)
  obtain b rest where y: "y = (b, rest)" by fastforce
  with assms(1) Parsed have ok: "node_ok b" "suffix rest s" by auto
  let ?r = "skip_whitespace rest"
  have r: "suffix ?r s" "suffix (tl ?r) s"
    using ok(2) skip_whitespace_suffix [of rest] tl_suffix [of ?r] by (meson suffix_order.trans)+
  show ?thesis
  proof (cases "c_head ?r = tok")
    case True
    have "length (tl ?r) < length s"
      using c_head_shorter [OF True assms(4)] suffix_length_le [OF r(1)] by linarith
    with assms(6) [OF r(2)] have "res_ok s (map_parsed (f b) (g (tl ?r)))"
      using r(2) res_ok_suffix by (intro res_ok_map) (auto intro: assms(5) [OF ok(1)])
    with True Parsed y show ?thesis by (simp add: Let_def)
  qed (use Parsed y ok r in \<open>simp add: Let_def\<close>)
qed (use assms(1) in simp_all)

lemma parse_fuel_ok:
  assumes "env_ok env"
  shows "no_nul s \<Longrightarrow> length s < BUFFER_LEN \<Longrightarrow> 3 * length s + 1 \<le> n \<Longrightarrow> res_ok s (parse_boolexp_F env n s)"
    and "no_nul s \<Longrightarrow> length s < BUFFER_LEN \<Longrightarrow> 3 * length s + 2 \<le> n \<Longrightarrow> res_ok s (parse_boolexp_T env n s)"
    and "no_nul s \<Longrightarrow> length s < BUFFER_LEN \<Longrightarrow> 3 * length s + 3 \<le> n \<Longrightarrow> res_ok s (parse_boolexp_E env n s)"
proof (induction n arbitrary: s)
  case (Suc n)
  {
    case 1
    have E: "res_ok r (parse_boolexp_E env n r)" if "suffix r s" "length r < length s" for r
      using that 1 suffix_no_nul [OF that(1)] by (intro Suc(3)) auto
    note sk = skipped [OF 1(1,2) E]
    show ?case
    proof (cases "c_head (skip_whitespace s) = NOT_TOKEN")
      case True
      have "length (tl (skip_whitespace s)) < length s"
        using c_head_shorter [OF True] suffix_length_le [OF skip_whitespace_suffix [of s]]
        by (simp add: NOT_TOKEN_def)
      then have "res_ok (tl (skip_whitespace s)) (parse_boolexp_F env n (tl (skip_whitespace s)))"
        using 1 sk(3) by (intro Suc(1)) auto
      then have "res_ok s (map_parsed B_NOT (parse_boolexp_F env n (tl (skip_whitespace s))))"
        by (rule res_ok_token [OF res_ok_map]) simp
      with True show ?thesis by (simp add: Let_def)
    next
      case False
      have "res_ok (skip_whitespace s) (parse_boolexp_A env (parse_boolexp_E env n) (skip_whitespace s))"
        using sk assms by (intro parse_A_ok) auto
      with False show ?thesis by (simp add: Let_def res_ok_skip)
    qed
  next
    case 2
    have first: "res_ok s (parse_boolexp_F env n s)"
      using 2 by (intro Suc(1)) auto
    have rest: "res_ok r (parse_boolexp_T env n r)" if "suffix r s" "length r < length s" for r
      using that 2 suffix_no_nul [OF that(1)] by (intro Suc(2)) auto
    show ?case
      unfolding parse_boolexp_T.simps
      by (rule parse_rest_ok [OF first 2(1,2) _ _ rest]) (simp_all add: AND_TOKEN_def)
  next
    case 3
    have first: "res_ok s (parse_boolexp_T env n s)"
      using 3 by (intro Suc(2)) auto
    have rest: "res_ok r (parse_boolexp_E env n r)" if "suffix r s" "length r < length s" for r
      using that 3 suffix_no_nul [OF that(1)] by (intro Suc(3)) auto
    show ?case
      unfolding parse_boolexp_E.simps
      by (rule parse_rest_ok [OF first 3(1,2) _ _ rest]) (simp_all add: OR_TOKEN_def)
  }
qed simp_all

section \<open>Properties\<close>

lemma parse_boolexp_result:
  assumes "env_ok env" "no_nul buf" "length buf < BUFFER_LEN"
  shows "parse_boolexp_E env (parse_fuel buf) buf = Null
    \<or> (\<exists>ast rest. parse_boolexp_E env (parse_fuel buf) buf = Parsed (ast, rest) \<and> node_ok ast
        \<and> suffix rest buf \<and> (\<exists>bc. compile_boolexp ast = Some bc))"
proof -
  have "res_ok buf (parse_boolexp_E env (parse_fuel buf) buf)"
    using parse_fuel_ok(3) [OF assms(1-3)] by (simp add: parse_fuel_def)
  then show ?thesis
    using compile_total by (cases "parse_boolexp_E env (parse_fuel buf) buf") auto
qed

text \<open>C6: the parser ends on every text that fits a buffer, however deep its parentheses: with the
  fuel of \<open>parse_fuel\<close> it neither runs out of it nor writes past its buffer, and what it
  returns is the null pointer or a parse tree that the compiler accepts, with the rest of the
  text.\<close>

theorem parse_boolexp_total:
  assumes "env_ok env" "no_nul buf" "length buf < BUFFER_LEN"
  shows "parse_boolexp_E env (parse_fuel buf) buf = Null
    \<or> (\<exists>ast rest. parse_boolexp_E env (parse_fuel buf) buf = Parsed (ast, rest) \<and> node_ok ast
        \<and> suffix rest buf \<and> (\<exists>bc. compile_boolexp ast = Some bc))"
  using parse_boolexp_result [OF assms] .

definition sample_env :: parse_env where
  "sample_env = \<lparr>px_loading_db = True, px_match_result = \<lambda>s. NOTHING, px_parse_objid = \<lambda>s. NOTHING,
     px_parse_integer = \<lambda>s. if s = ''12'' then 12 else 3, px_good_object = \<lambda>d. True,
     px_good_atr_name = \<lambda>s. True, px_match_lock = \<lambda>s. None, px_ltype = ''Basic''\<rparr>"

lemma sample_env_ok: "env_ok sample_env"
  by (simp add: env_ok_def sample_env_def)

lemma parse_boolexp_total_witness:
  "parse_boolexp_E sample_env (parse_fuel ''=#12|!(#3)'') ''=#12|!(#3)'' \<noteq> OutOfFuel"
  using parse_boolexp_total [OF sample_env_ok, of "''=#12|!(#3)''"] by (auto simp: BUFFER_LEN_def)

lemma lock_size_pos: "0 < lock_size b"
  by (simp add: lock_size_def insn_count_def generate_bvm_asm_def is_label_def INSN_LEN_def)



end
