(* ===== verification/Mush_Boolexp_Unparse.thy ===== *)
theory Mush_Boolexp_Unparse
  imports Mush_Boolexp_Parse
begin

text \<open>
  Lock keys, part five of \<open>src/src/boolexp.c\<close>: the decompiler \<open>unparse_boolexp\<close> and the checks
  of \<open>check_lock\<close>, and what they say of a compiled lock.
\<close>

section \<open>Definitions\<close>

datatype u_b_f = UB_ALL | UB_DBREF | UB_MEREF

text \<open>\<open>un\<close> is \<open>unparse_object\<close> with \<open>AN_UNPARSE\<close>.\<close>

definition safe_boref :: "(dbref \<Rightarrow> dbref \<Rightarrow> string) \<Rightarrow> dbref \<Rightarrow> dbref \<Rightarrow> u_b_f \<Rightarrow> writer" where
  "safe_boref un player thing flag =
     (case flag of
        UB_MEREF \<Rightarrow> if player = thing then safe_strl (Some ''me'') 2 else safe_dbref thing
      | UB_DBREF \<Rightarrow> safe_dbref thing
      | UB_ALL \<Rightarrow> safe_str (Some (un player thing)))"

definition bstr_special :: "char \<Rightarrow> bool" where
  "bstr_special c \<longleftrightarrow> c = BACKSLASH \<or> c = NOT_TOKEN \<or> c = AND_TOKEN \<or> c = OR_TOKEN \<or> c = AT_TOKEN
     \<or> c = IN_TOKEN \<or> c = IS_TOKEN \<or> c = OWNER_TOKEN \<or> c = ATR_TOKEN \<or> c = EVAL_TOKEN \<or> c = FLAG_TOKEN
     \<or> c = CHR '')''"

fun bstr_loop :: "bool \<Rightarrow> string \<Rightarrow> writer" where
  "bstr_loop preserve [] b = (0, b)"
| "bstr_loop preserve (c # s) b =
     (let (n, b) = (if \<not> preserve \<and> bstr_special c then safe_chr BACKSLASH b else (0, b)) in
      if n \<noteq> 0 then (n, b)
      else let (n, b) = safe_chr c b in if n \<noteq> 0 then (n, b) else bstr_loop preserve s b)"

definition bstr_preserve :: "bvm_opcode \<Rightarrow> bool" where
  "bstr_preserve op \<longleftrightarrow> op = OP_TATR \<or> op = OP_TNAME \<or> op = OP_TIP \<or> op = OP_THOSTNAME \<or> op = OP_TDBREFLIST"

definition safe_bstr :: "string option \<Rightarrow> bvm_opcode \<Rightarrow> writer" where
  "safe_bstr s op = bstr_loop (bstr_preserve op) (case s of None \<Rightarrow> [] | Some x \<Rightarrow> x)"

text \<open>
  The text an instruction is shown as, parentheses apart: \<open>str\<close> is the string at its argument and
  \<open>s\<close> the register, as in \<open>vm_exec\<close>.  \<open>None\<close> is a string that does not end inside the bytecode.
\<close>

definition flag_name :: "bvm_opcode \<Rightarrow> string option" where
  "flag_name op =
     (if op = OP_TNAME then Some ''NAME'' else if op = OP_TFLAG then Some ''FLAG''
      else if op = OP_TTYPE then Some ''TYPE'' else if op = OP_TPOWER then Some ''POWER''
      else if op = OP_TCHANNEL then Some ''CHANNEL'' else if op = OP_TIP then Some ''IP''
      else if op = OP_THOSTNAME then Some ''HOSTNAME'' else if op = OP_TDBREFLIST then Some ''DBREFLIST''
      else None)"

definition unparse_insn ::
  "(dbref \<Rightarrow> dbref \<Rightarrow> string) \<Rightarrow> dbref \<Rightarrow> u_b_f \<Rightarrow> bvm_opcode \<Rightarrow> dbref \<Rightarrow> string option \<Rightarrow> string option option
    \<Rightarrow> writer option" where
  "unparse_insn un player flag op arg str s =
     (let boref = safe_boref un player arg flag;
          named = (\<lambda>c w. case (s, str) of
                     (Some None, _) \<Rightarrow> None
                   | (_, None) \<Rightarrow> None
                   | (_, Some text) \<Rightarrow>
                       Some (then_write (safe_bstr (case s of None \<Rightarrow> None | Some x \<Rightarrow> x) OP_LOADS)
                               (then_write (safe_chr c) (w text))))
      in case op of
           OP_JMPT \<Rightarrow> Some (safe_chr OR_TOKEN)
         | OP_JMPF \<Rightarrow> Some (safe_chr AND_TOKEN)
         | OP_LOADR \<Rightarrow> Some (safe_str (Some (if arg \<noteq> 0 then ''#TRUE'' else ''#FALSE'')))
         | OP_TCONST \<Rightarrow> Some boref
         | OP_TCARRY \<Rightarrow> Some (then_write (safe_chr IN_TOKEN) boref)
         | OP_TIS \<Rightarrow> Some (then_write (safe_chr IS_TOKEN) boref)
         | OP_TOWNER \<Rightarrow> Some (then_write (safe_chr OWNER_TOKEN) boref)
         | OP_TATR \<Rightarrow> named ATR_TOKEN (\<lambda>text. safe_bstr (Some text) OP_TATR)
         | OP_TEVAL \<Rightarrow> named EVAL_TOKEN (\<lambda>text. safe_bstr (Some text) OP_TEVAL)
         | OP_TIND \<Rightarrow>
             if s = Some None then None
             else Some (then_write (safe_chr AT_TOKEN) (then_write boref (then_write (safe_chr EVAL_TOKEN)
                    (safe_bstr (case s of None \<Rightarrow> None | Some x \<Rightarrow> x) OP_TIND))))
         | _ \<Rightarrow>
             (case flag_name op of
                None \<Rightarrow> Some (\<lambda>b. (0, b))
              | Some name \<Rightarrow>
                  (case str of
                     None \<Rightarrow> None
                   | Some text \<Rightarrow>
                       Some (then_write (safe_format (name @ [FLAG_TOKEN])) (safe_bstr (Some text) op)))))"

text \<open>From after an opening parenthesis to after the closing one.\<close>

function scan_paren :: "char list \<Rightarrow> nat \<Rightarrow> int \<Rightarrow> nat option" where
  "scan_paren bc tpc pstack =
     (if length bc < tpc + INSN_LEN then None
      else if opcode_of (c_ord (bc ! tpc)) = Some OP_PAREN then
        let parg = read_int (drop (tpc + 1) bc);
            pstack = (if parg \<noteq> 0 then pstack - 1 else pstack + 1)
        in if pstack = 0 then Some (tpc + INSN_LEN) else scan_paren bc (tpc + INSN_LEN) pstack
      else scan_paren bc (tpc + INSN_LEN) pstack)"
  by pat_completeness auto
termination
  by (relation "measure (\<lambda>(bc, tpc, p). length bc - tpc)") (auto simp: INSN_LEN_def)

declare scan_paren.simps [simp del]

text \<open>\<open>OP_PAREN\<close>, with the position after it.\<close>

definition unparse_paren :: "char list \<Rightarrow> nat \<Rightarrow> dbref \<Rightarrow> writer option" where
  "unparse_paren bc pc arg =
     (if arg = 0 then
        (case scan_paren bc pc 1 of
           None \<Rightarrow> None
         | Some tpc \<Rightarrow>
             if length bc \<le> tpc then None
             else if opcode_of (c_ord (bc ! tpc)) = Some OP_NEGR then Some (safe_strl (Some ''!('') 2)
             else Some (safe_chr (CHR ''('')))
      else if arg = 1 then Some (safe_chr (CHR '')''))
      else Some (\<lambda>b. (0, b)))"

definition unparse_step ::
  "(dbref \<Rightarrow> dbref \<Rightarrow> string) \<Rightarrow> dbref \<Rightarrow> u_b_f \<Rightarrow> char list \<Rightarrow> nat \<Rightarrow> bvm_opcode option \<Rightarrow> dbref
    \<Rightarrow> string option option \<Rightarrow> writer option" where
  "unparse_step un player flag bc pc op arg s =
     (case op of
        None \<Rightarrow> Some (\<lambda>b. (0, b))
      | Some op \<Rightarrow>
          if op = OP_PAREN then unparse_paren bc pc arg
          else unparse_insn un player flag op arg (cstr_at bc (sint arg)) s)"

function unparse_loop ::
  "(dbref \<Rightarrow> dbref \<Rightarrow> string) \<Rightarrow> dbref \<Rightarrow> u_b_f \<Rightarrow> char list \<Rightarrow> nat \<Rightarrow> int option \<Rightarrow> buf \<Rightarrow> string option" where
  "unparse_loop un player flag bc pc s b =
     (if length bc < pc + INSN_LEN then None
      else
        let op = opcode_of (c_ord (bc ! pc));
            arg = read_int (drop (pc + 1) bc);
            pc' = pc + INSN_LEN
        in if op = Some OP_RET then Some b
           else if length bc \<le> pc' then None
           else
             let negated = opcode_of (c_ord (bc ! pc')) = Some OP_NEGR \<and> op \<noteq> Some OP_PAREN;
                 b = (if negated then snd (safe_chr NOT_TOKEN b) else b)
             in if op = Some OP_LOADS then unparse_loop un player flag bc pc' (Some (sint arg)) b
                else
                  (case unparse_step un player flag bc pc' op arg (map_option (cstr_at bc) s) of
                     None \<Rightarrow> None
                   | Some w \<Rightarrow> unparse_loop un player flag bc pc' s (snd (w b))))"
  by pat_completeness auto
termination
  by (relation "measure (\<lambda>(un, p, f, bc, pc, s, b). length bc - pc)") (auto simp: INSN_LEN_def)

declare unparse_loop.simps [simp del]

definition unparse_boolexp :: "(dbref \<Rightarrow> dbref \<Rightarrow> string) \<Rightarrow> dbref \<Rightarrow> boolexp \<Rightarrow> u_b_f \<Rightarrow> string option" where
  "unparse_boolexp un player b flag =
     (case b of
        None \<Rightarrow> Some (snd (safe_str (Some ''*UNLOCKED*'') []))
      | Some bc \<Rightarrow> unparse_loop un player flag bc 0 None [])"

text \<open>The complaints of \<open>check_lock\<close> about a lock of \<open>i\<close>, in order.\<close>

datatype complaint = Garbage_ref | Eval_missing string | Unreadable dbref string

function check_loop :: "world \<Rightarrow> dbref \<Rightarrow> char list \<Rightarrow> nat \<Rightarrow> int option \<Rightarrow> complaint list option" where
  "check_loop w i bc pc s =
     (if length bc < pc + INSN_LEN then None
      else
        let op = opcode_of (c_ord (bc ! pc));
            arg = read_int (drop (pc + 1) bc);
            pc' = pc + INSN_LEN;
            bad = (\<not> w_good_object w arg \<or> w_garbage w arg)
        in if op = Some OP_RET then Some []
           else if op = Some OP_LOADS then check_loop w i bc pc' (Some (sint arg))
           else if op \<in> {Some OP_TCONST, Some OP_TCARRY, Some OP_TIS, Some OP_TOWNER} then
             map_option (\<lambda>cs. if bad then Garbage_ref # cs else cs) (check_loop w i bc pc' s)
           else if op = Some OP_TEVAL then
             (case map_option (cstr_at bc) s of
                Some (Some name) \<Rightarrow>
                  let ok = (case w_atr_get w i name of None \<Rightarrow> False | Some a \<Rightarrow> w_can_read_attr w i i a) in
                  map_option (\<lambda>cs. if ok then cs else Eval_missing name # cs) (check_loop w i bc pc' s)
              | _ \<Rightarrow> None)
           else if op = Some OP_TIND then
             if bad then map_option (\<lambda>cs. Garbage_ref # cs) (check_loop w i bc pc' s)
             else
               (case map_option (cstr_at bc) s of
                  Some (Some lock) \<Rightarrow>
                    let ok = w_can_read_lock w i arg lock \<and> w_getlock w arg lock \<noteq> None in
                    map_option (\<lambda>cs. if ok then cs else Unreadable arg lock # cs) (check_loop w i bc pc' s)
                | _ \<Rightarrow> None)
           else check_loop w i bc pc' s)"
  by pat_completeness auto
termination
  by (relation "measure (\<lambda>(w, i, bc, pc, s). length bc - pc)") (auto simp: INSN_LEN_def)

declare check_loop.simps [simp del]

definition check_lock :: "world \<Rightarrow> dbref \<Rightarrow> char list \<Rightarrow> complaint list option" where
  "check_lock w i be = check_loop w i be 0 None"

section \<open>Decompiling resolved code\<close>

text \<open>
  An instruction as the decompiler sees it: the strings in place, the targets of jumps left out.
  The jump optimiser changes nothing else.
\<close>

type_synonym vinsn = "bvm_opcode \<times> dbref \<times> string option"

definition vis_of :: "string list \<Rightarrow> bvm_asmnode \<Rightarrow> vinsn" where
  "vis_of S n =
     (an_op n, if is_jump n \<or> has_string (an_op n) then 0 else word_of_int (an_arg n),
      if has_string (an_op n) then Some (S ! nat (an_arg n)) else None)"

definition vis :: "rinsn list \<Rightarrow> vinsn list" where
  "vis C = map (\<lambda>(op, arg, str). (op, if is_jmp op \<or> has_string op then 0 else word_of_int arg, str)) C"

lemma vis_rcode: "vis (rcode P S) = map (vis_of S) (code_insns P)"
  by (auto simp: vis_def rcode_def vis_of_def rinsn_of_def is_jump_op)

lemma vis_redirect: "redirect C C' \<Longrightarrow> vis C' = vis C"
  by (auto simp: redirect_def redirect_at_def vis_def map_update intro!: nth_equalityI simp: nth_list_update)

lemma vis_redirects: "redirect\<^sup>*\<^sup>* C C' \<Longrightarrow> vis C' = vis C"
  by (induction rule: rtranclp_induct) (simp_all add: vis_redirect)

fun v_scan :: "vinsn list \<Rightarrow> int \<Rightarrow> vinsn list option" where
  "v_scan [] k = None"
| "v_scan ((op, arg, str) # C) k =
     (if op = OP_PAREN then
        let k' = (if arg \<noteq> 0 then k - 1 else k + 1) in if k' = 0 then Some C else v_scan C k'
      else v_scan C k)"

definition v_head_is :: "bvm_opcode \<Rightarrow> vinsn list \<Rightarrow> bool" where
  "v_head_is op C \<longleftrightarrow> C \<noteq> [] \<and> fst (hd C) = op"

definition v_paren :: "vinsn list \<Rightarrow> dbref \<Rightarrow> writer option" where
  "v_paren C arg =
     (if arg = 0 then
        (case v_scan C 1 of
           None \<Rightarrow> None
         | Some D \<Rightarrow> if D = [] then None
             else if v_head_is OP_NEGR D then Some (safe_strl (Some ''!('') 2) else Some (safe_chr (CHR ''('')))
      else if arg = 1 then Some (safe_chr (CHR '')''))
      else Some (\<lambda>b. (0, b)))"

fun v_unparse ::
  "(dbref \<Rightarrow> dbref \<Rightarrow> string) \<Rightarrow> dbref \<Rightarrow> u_b_f \<Rightarrow> vinsn list \<Rightarrow> string option \<Rightarrow> buf \<Rightarrow> string option" where
  "v_unparse un pl fl [] s b = None"
| "v_unparse un pl fl ((op, arg, str) # C) s b =
     (if op = OP_RET then Some b
      else if C = [] then None
      else
        let b = (if v_head_is OP_NEGR C \<and> op \<noteq> OP_PAREN then snd (safe_chr NOT_TOKEN b) else b) in
        if op = OP_LOADS then v_unparse un pl fl C str b
        else
          (case (if op = OP_PAREN then v_paren C arg else unparse_insn un pl fl op arg str (map_option Some s)) of
             None \<Rightarrow> None
           | Some w \<Rightarrow> v_unparse un pl fl C s (snd (w b))))"

lemma unparse_insn_cong:
  assumes "has_string op \<Longrightarrow> str = str'" "\<not> has_string op \<Longrightarrow> \<not> is_jmp op \<Longrightarrow> arg = arg'"
  shows "unparse_insn un pl fl op arg str s = unparse_insn un pl fl op arg' str' s"
  using assms by (cases op) (simp_all add: unparse_insn_def has_string_def is_jmp_def flag_name_def)

lemma vis_of_simps [simp]:
  "fst (vis_of S n) = an_op n"
  by (simp add: vis_of_def)

lemma v_fetch:
  fixes a :: bvm_asm
  defines "bc \<equiv> emit_bytecode a" and "code \<equiv> code_insns (ba_insns a)" and "S \<equiv> ba_strs a"
  assumes a: "opt_inv a" "strs_ok a" and len: "length (emit_bytecode a) < 2 ^ 31" and pc: "pc < length code"
  shows "\<not> length bc < pc * INSN_LEN + INSN_LEN"
    "opcode_of (c_ord (bc ! (pc * INSN_LEN))) = Some (an_op (code ! pc))"
    "map (vis_of S) (drop pc code) = vis_of S (code ! pc) # map (vis_of S) (drop (Suc pc) code)"
    "\<not> has_string (an_op (code ! pc)) \<Longrightarrow> \<not> is_jump (code ! pc) \<Longrightarrow>
       read_int (drop (pc * INSN_LEN + 1) bc) = word_of_int (an_arg (code ! pc))"
    "has_string (an_op (code ! pc)) \<Longrightarrow>
       cstr_at bc (sint (read_int (drop (pc * INSN_LEN + 1) bc))) = Some (S ! nat (an_arg (code ! pc)))"
  using emit_fetch [OF a pc [unfolded code_def] len] pc
  by (simp_all add: bc_def code_def S_def emit_arg_def Cons_nth_drop_Suc [symmetric])

lemma v_scan_bytes:
  fixes a :: bvm_asm
  defines "code \<equiv> code_insns (ba_insns a)"
  assumes a: "opt_inv a" "strs_ok a" "length (emit_bytecode a) < 2 ^ 31"
    and "pc \<le> length code" "v_scan (map (vis_of (ba_strs a)) (drop pc code)) k = Some D"
  shows "\<exists>q \<le> length code. D = map (vis_of (ba_strs a)) (drop q code)
    \<and> scan_paren (emit_bytecode a) (pc * INSN_LEN) k = Some (q * INSN_LEN)"
  using assms(5,6)
proof (induction "length code - pc" arbitrary: pc k)
  case 0
  then show ?case by simp
next
  case (Suc n)
  then have pc: "pc < length code" by linarith
  have IH: "v_scan (map (vis_of (ba_strs a)) (drop (Suc pc) code)) k' = Some D \<Longrightarrow>
     \<exists>q \<le> length code. D = map (vis_of (ba_strs a)) (drop q code)
       \<and> scan_paren (emit_bytecode a) (pc * INSN_LEN + INSN_LEN) k' = Some (q * INSN_LEN)" for k'
    using Suc.hyps(1) [of "Suc pc" k'] Suc.hyps(2) pc by (simp add: algebra_simps)
  note F = v_fetch [OF a pc [unfolded code_def], folded code_def]
  have op: "an_op (code ! pc) = OP_PAREN \<Longrightarrow> \<not> has_string (an_op (code ! pc)) \<and> \<not> is_jump (code ! pc)"
    by (simp add: has_string_def is_jump_def)
  let ?V = "map (vis_of (ba_strs a)) (drop (Suc pc) code)"
  define k' where "k' = (if read_int (drop (pc * INSN_LEN + 1) (emit_bytecode a)) \<noteq> 0 then k - 1 else k + 1)"
  have V: "v_scan (map (vis_of (ba_strs a)) (drop pc code)) k =
      (if an_op (code ! pc) = OP_PAREN then if k' = 0 then Some ?V else v_scan ?V k' else v_scan ?V k)"
    using F op by (simp add: vis_of_def k'_def)
  have B: "scan_paren (emit_bytecode a) (pc * INSN_LEN) k =
      (if an_op (code ! pc) = OP_PAREN
       then if k' = 0 then Some (Suc pc * INSN_LEN) else scan_paren (emit_bytecode a) (pc * INSN_LEN + INSN_LEN) k'
       else scan_paren (emit_bytecode a) (pc * INSN_LEN + INSN_LEN) k)"
    by (subst scan_paren.simps) (use F(1,2) in \<open>simp add: k'_def Let_def\<close>)
  show ?case
  proof (cases "an_op (code ! pc) = OP_PAREN \<and> k' = 0")
    case True
    with Suc.prems(2) V B pc show ?thesis
      by (intro exI [of _ "Suc pc"]) simp
  next
    case False
    with Suc.prems(2) V B IH show ?thesis
      by (auto split: if_splits)
  qed
qed

lemma v_unparse_bytes:
  fixes a :: bvm_asm
  defines "code \<equiv> code_insns (ba_insns a)"
  assumes a: "opt_inv a" "strs_ok a" "length (emit_bytecode a) < 2 ^ 31"
    and "pc \<le> length code" "map_option (cstr_at (emit_bytecode a)) s = map_option Some s'"
    and "v_unparse un pl fl (map (vis_of (ba_strs a)) (drop pc code)) s' b = Some out"
  shows "unparse_loop un pl fl (emit_bytecode a) (pc * INSN_LEN) s b = Some out"
  using assms(5-)
proof (induction "length code - pc" arbitrary: pc s s' b)
  case 0
  then show ?case by simp
next
  case (Suc n)
  let ?bc = "emit_bytecode a" and ?V = "\<lambda>pc. map (vis_of (ba_strs a)) (drop pc code)"
  have pc: "pc < length code" using Suc.hyps(2) by linarith
  define op where "op = an_op (code ! pc)"
  define arg where "arg = read_int (drop (pc * INSN_LEN + 1) ?bc)"
  have IH: "unparse_loop un pl fl ?bc (pc * INSN_LEN + INSN_LEN) s b = Some out"
    if "map_option (cstr_at ?bc) s = map_option Some s'" "v_unparse un pl fl (?V (Suc pc)) s' b = Some out" for s s' b
    using Suc.hyps(1) [of "Suc pc" s s' b] Suc.hyps(2) pc that by (simp add: algebra_simps)
  note F = v_fetch [OF a pc [unfolded code_def], folded code_def, folded op_def arg_def]
  obtain varg str where v: "vis_of (ba_strs a) (code ! pc) = (op, varg, str)"
    "varg = fst (snd (vis_of (ba_strs a) (code ! pc)))" "str = snd (snd (vis_of (ba_strs a) (code ! pc)))"
    by (simp add: vis_of_def op_def)
  have str: "has_string op \<Longrightarrow> str = Some (ba_strs a ! nat (an_arg (code ! pc))) \<and> cstr_at ?bc (sint arg) = str"
    and varg: "\<not> has_string op \<Longrightarrow> \<not> is_jmp op \<Longrightarrow> varg = arg"
    using F(4,5) by (simp_all add: v vis_of_def op_def [symmetric] is_jump_op)
  show ?case
  proof (cases "op = OP_RET")
    case True
    with Suc.prems(3) F(1-3) v(1) show ?thesis
      by (subst unparse_loop.simps) simp
  next
    case False
    then have ne: "?V (Suc pc) \<noteq> []"
      using Suc.prems(3) F(3) v(1) by (auto split: if_splits)
    then have pc1: "Suc pc < length code" by simp
    note G = v_fetch [OF a pc1 [unfolded code_def], folded code_def]
    have next_op: "v_head_is x (?V (Suc pc)) \<longleftrightarrow> opcode_of (c_ord (?bc ! (pc * INSN_LEN + INSN_LEN))) = Some x" for x
      using G(2,3) ne by (auto simp: v_head_is_def algebra_simps)
    have room: "\<not> length ?bc \<le> pc * INSN_LEN + INSN_LEN"
      using G(1) by (simp add: algebra_simps INSN_LEN_def)
    define b1 where "b1 = (if v_head_is OP_NEGR (?V (Suc pc)) \<and> op \<noteq> OP_PAREN then snd (safe_chr NOT_TOKEN b) else b)"
    have b1: "b1 = (if opcode_of (c_ord (?bc ! (pc * INSN_LEN + INSN_LEN))) = Some OP_NEGR \<and> op \<noteq> OP_PAREN
        then snd (safe_chr NOT_TOKEN b) else b)"
      by (simp only: b1_def next_op)
    have loop: "unparse_loop un pl fl ?bc (pc * INSN_LEN) s b =
        (if op = OP_LOADS then unparse_loop un pl fl ?bc (pc * INSN_LEN + INSN_LEN) (Some (sint arg)) b1
         else case unparse_step un pl fl ?bc (pc * INSN_LEN + INSN_LEN) (Some op) arg (map_option (cstr_at ?bc) s) of
                None \<Rightarrow> None
              | Some w \<Rightarrow> unparse_loop un pl fl ?bc (pc * INSN_LEN + INSN_LEN) s (snd (w b1)))"
      unfolding b1 arg_def
      by (subst unparse_loop.simps) (use F(1,2) room False in \<open>simp add: Let_def\<close>)
    have paren: "unparse_paren ?bc (pc * INSN_LEN + INSN_LEN) arg = Some w"
      if "v_paren (?V (Suc pc)) varg = Some w" "op = OP_PAREN" for w
    proof -
      note P = that
      have arg: "varg = arg" using varg that(2) by (simp add: has_string_def is_jmp_def)
      show ?thesis
      proof (cases "arg = 0")
        case True
        then obtain D where D: "v_scan (?V (Suc pc)) 1 = Some D" "D \<noteq> []"
          "w = (if v_head_is OP_NEGR D then safe_strl (Some ''!('') 2 else safe_chr (CHR ''(''))"
          using P(1) arg by (auto simp: v_paren_def split: option.splits if_splits)
        obtain q where q: "q \<le> length code" "D = ?V q"
          "scan_paren ?bc (Suc pc * INSN_LEN) 1 = Some (q * INSN_LEN)"
          using v_scan_bytes [OF a, of "Suc pc" 1 D, folded code_def] D(1) pc1 by auto
        then have "q < length code" using D(2) by auto
        note H = v_fetch [OF a this [unfolded code_def], folded code_def]
        have "v_head_is OP_NEGR D \<longleftrightarrow> opcode_of (c_ord (?bc ! (q * INSN_LEN))) = Some OP_NEGR"
          using H(2,3) D(2) by (auto simp: q(2) v_head_is_def)
        moreover have "\<not> length ?bc \<le> q * INSN_LEN"
          using H(1) by (simp add: INSN_LEN_def)
        ultimately show ?thesis
          using q(3) D(3) True by (auto simp: unparse_paren_def algebra_simps)
      qed (use that(1) arg in \<open>auto simp: v_paren_def unparse_paren_def\<close>)
    qed
    show ?thesis
    proof (cases "op = OP_LOADS")
      case True
      then have "v_unparse un pl fl (?V (Suc pc)) str b1 = Some out"
        using Suc.prems(3) F(3) v(1) ne by (simp add: b1_def)
      moreover have "map_option (cstr_at ?bc) (Some (sint arg)) = map_option Some str"
        using str True by (simp add: has_string_def)
      ultimately have "unparse_loop un pl fl ?bc (pc * INSN_LEN + INSN_LEN) (Some (sint arg)) b1 = Some out"
        by (intro IH)
      with True show ?thesis by (simp add: loop)
    next
      case L: False
      obtain w where w: "(if op = OP_PAREN then v_paren (?V (Suc pc)) varg
            else unparse_insn un pl fl op varg str (map_option Some s')) = Some w"
        "v_unparse un pl fl (?V (Suc pc)) s' (snd (w b1)) = Some out"
        using Suc.prems(3) v(1) ne False L unfolding F(3) by (auto simp: b1_def Let_def split: option.splits)
      have "unparse_step un pl fl ?bc (pc * INSN_LEN + INSN_LEN) (Some op) arg (map_option (cstr_at ?bc) s) = Some w"
        using w(1) paren unparse_insn_cong [of op str "cstr_at ?bc (sint arg)" varg arg] str varg
        by (auto simp: unparse_step_def Suc.prems(2) split: if_splits)
      moreover have "unparse_loop un pl fl ?bc (pc * INSN_LEN + INSN_LEN) s (snd (w b1)) = Some out"
        using Suc.prems(2) w(2) by (rule IH)
      ultimately show ?thesis
        using L by (simp add: loop)
    qed
  qed
qed

end
