(* ===== verification/Mush_Boolexp_Decompile.thy ===== *)
theory Mush_Boolexp_Decompile
  imports Mush_Boolexp_Unparse
begin

text \<open>
  Decompiling a compiled lock gives the text of its parse tree: negations and parentheses, which
  the bytecode keeps as instructions of their own, come back in the right places, and neither
  the jump optimiser nor the string section shows.
\<close>

section \<open>The text of a key\<close>

fun esc_text :: "bool \<Rightarrow> string \<Rightarrow> string" where
  "esc_text preserve [] = []"
| "esc_text preserve (c # s) =
     (if \<not> preserve \<and> bstr_special c then [BACKSLASH, c] else [c]) @ esc_text preserve s"

definition bstr_text :: "bvm_opcode \<Rightarrow> string \<Rightarrow> string" where
  "bstr_text op s = esc_text (bstr_preserve op) s"

definition boref_text :: "(dbref \<Rightarrow> dbref \<Rightarrow> string) \<Rightarrow> dbref \<Rightarrow> u_b_f \<Rightarrow> dbref \<Rightarrow> string" where
  "boref_text un pl fl d =
     (case fl of UB_MEREF \<Rightarrow> if pl = d then ''me'' else dbref_text d
      | UB_DBREF \<Rightarrow> dbref_text d | UB_ALL \<Rightarrow> un pl d)"

definition par_text :: "bool \<Rightarrow> string \<Rightarrow> string" where
  "par_text c s = (if c then ''('' @ s @ '')'' else s)"

text \<open>
  A key as text: an AND below a NOT and an OR below a NOT or an AND are in parentheses.
\<close>

fun key_text :: "(dbref \<Rightarrow> dbref \<Rightarrow> string) \<Rightarrow> dbref \<Rightarrow> u_b_f \<Rightarrow> boolexp_type \<Rightarrow> boolexp_node \<Rightarrow> string" where
  "key_text un pl fl outer (B_AND x y) = par_text (outer = BOOLEXP_NOT)
     (key_text un pl fl BOOLEXP_AND x @ [AND_TOKEN] @ key_text un pl fl BOOLEXP_AND y)"
| "key_text un pl fl outer (B_OR x y) = par_text (outer = BOOLEXP_NOT \<or> outer = BOOLEXP_AND)
     (key_text un pl fl BOOLEXP_OR x @ [OR_TOKEN] @ key_text un pl fl BOOLEXP_OR y)"
| "key_text un pl fl outer (B_NOT x) = NOT_TOKEN # key_text un pl fl BOOLEXP_NOT x"
| "key_text un pl fl outer (B_CONST d) = boref_text un pl fl d"
| "key_text un pl fl outer (B_ATR name text) = bstr_text OP_LOADS name @ [ATR_TOKEN] @ bstr_text OP_TATR text"
| "key_text un pl fl outer (B_IND d lock) =
     [AT_TOKEN] @ boref_text un pl fl d @ [EVAL_TOKEN] @ bstr_text OP_TIND lock"
| "key_text un pl fl outer (B_CARRY d) = IN_TOKEN # boref_text un pl fl d"
| "key_text un pl fl outer (B_IS d) = IS_TOKEN # boref_text un pl fl d"
| "key_text un pl fl outer (B_OWNER d) = OWNER_TOKEN # boref_text un pl fl d"
| "key_text un pl fl outer (B_EVAL name text) = bstr_text OP_LOADS name @ [EVAL_TOKEN] @ bstr_text OP_TEVAL text"
| "key_text un pl fl outer (B_FLAG name text) =
     name @ [FLAG_TOKEN] @ (case is_allowed_bflag name of None \<Rightarrow> [] | Some op \<Rightarrow> bstr_text op text)"
| "key_text un pl fl outer (B_BOOL v) = (if v \<noteq> 0 then ''#TRUE'' else ''#FALSE'')"

text \<open>A writer that appends its text when there is room for all of it.\<close>

definition emits :: "writer \<Rightarrow> string \<Rightarrow> bool" where
  "emits w out \<longleftrightarrow> (\<forall>b. length b + length out \<le> BUFFER_LEN - 1 \<longrightarrow> w b = (0, b @ out))"

lemma writes_emits: "writes w out \<Longrightarrow> emits w out"
  using bounded_writer.fits [of w out] by (auto simp: emits_def bounded_writer_def)

lemma whole_emits: "writes_whole w out \<Longrightarrow> emits w out"
  unfolding emits_def
proof (intro allI impI)
  fix b :: buf
  assume w: "writes_whole w out" and "length b + length out \<le> BUFFER_LEN - 1"
  then have "length out \<le> buf_room b" by (simp add: buf_room_def)
  with w show "w b = (0, b @ out)"
    unfolding writes_whole_def by blast
qed

lemma emits_then: "emits w s \<Longrightarrow> emits v t \<Longrightarrow> emits (then_write w v) (s @ t)"
  by (simp add: emits_def then_write_def)

lemma emits_skip: "emits (\<lambda>b. (0, b)) []"
  by (simp add: emits_def)

lemma emits_chr: "emits (safe_chr c) [c]"
  by (rule writes_emits) (rule writes_safe_chr)

lemma emits_str: "emits (safe_str (Some s)) s"
  by (rule writes_emits) (rule writes_safe_str)

lemma emits_format: "emits (safe_format s) s"
  unfolding emits_def
proof (intro allI impI)
  fix b :: buf
  assume "length b + length s \<le> BUFFER_LEN - 1"
  moreover from this have "take (BUFFER_LEN - 1) s = s" by simp
  ultimately show "safe_format s b = (0, b @ s)"
    using str.fits [of b s] by (cases s) (simp_all add: safe_format_def safe_str_def append_to_buf_def)
qed

lemma emits_dbref: "emits (safe_dbref d) (dbref_text d)"
  using safe_dbref_whole by (rule whole_emits)

lemma emits_strl2: "emits (safe_strl (Some [x, y]) 2) [x, y]"
  by (auto simp: emits_def safe_strl_def Let_def)

lemma emits_boref: "emits (safe_boref un pl d fl) (boref_text un pl fl d)"
  by (auto simp: safe_boref_def boref_text_def emits_dbref emits_str emits_strl2 split: u_b_f.splits)

lemma emits_bstr: "emits (safe_bstr (Some s) op) (bstr_text op s)"
proof -
  have "emits (bstr_loop p s) (esc_text p s)" for p
  proof (induction s)
    case (Cons c s)
    then show ?case by (auto simp: emits_def safe_chr_def BUFFER_LEN_def)
  qed (simp add: emits_def)
  then show ?thesis by (simp add: safe_bstr_def bstr_text_def)
qed

lemmas emits_rules = emits_then emits_skip emits_chr emits_str emits_format emits_boref emits_bstr emits_strl2

section \<open>The generated code is decompiled to the text of the key\<close>

text \<open>The visible code of a key: the instructions the generator makes, labels left out.\<close>

definition vpar :: "bool \<Rightarrow> vinsn list \<Rightarrow> vinsn list" where
  "vpar c C = (if c then (OP_PAREN, 0, None) # C @ [(OP_PAREN, 1, None)] else C)"

fun vcode :: "boolexp_type \<Rightarrow> boolexp_node \<Rightarrow> vinsn list" where
  "vcode outer (B_AND x y) = vpar (outer = BOOLEXP_NOT)
     (vcode BOOLEXP_AND x @ (OP_JMPF, 0, None) # vcode BOOLEXP_AND y)"
| "vcode outer (B_OR x y) = vpar (outer = BOOLEXP_NOT \<or> outer = BOOLEXP_AND)
     (vcode BOOLEXP_OR x @ (OP_JMPT, 0, None) # vcode BOOLEXP_OR y)"
| "vcode outer (B_NOT x) = vcode BOOLEXP_NOT x @ [(OP_NEGR, 0, None)]"
| "vcode outer (B_CONST d) = [(OP_TCONST, d, None)]"
| "vcode outer (B_ATR name text) = [(OP_LOADS, 0, Some name), (OP_TATR, 0, Some text)]"
| "vcode outer (B_IND d lock) = [(OP_LOADS, 0, Some lock), (OP_TIND, d, None)]"
| "vcode outer (B_CARRY d) = [(OP_TCARRY, d, None)]"
| "vcode outer (B_IS d) = [(OP_TIS, d, None)]"
| "vcode outer (B_OWNER d) = [(OP_TOWNER, d, None)]"
| "vcode outer (B_EVAL name text) = [(OP_LOADS, 0, Some name), (OP_TEVAL, 0, Some text)]"
| "vcode outer (B_FLAG name text) =
     (case is_allowed_bflag name of None \<Rightarrow> [] | Some op \<Rightarrow> [(op, 0, Some text)])"
| "vcode outer (B_BOOL v) = [(OP_LOADR, v, None)]"

definition vasm :: "string list \<Rightarrow> bvm_asm \<Rightarrow> vinsn list" where
  "vasm S a = map (vis_of S) (code_insns (ba_insns a))"

lemma vasm_plain: "op \<noteq> OP_LABEL \<Longrightarrow> \<not> has_string op \<Longrightarrow> vasm S (append_insn a op arg None) =
    vasm S a @ [(op, if is_jmp op then 0 else word_of_int arg, None)]"
  by (simp add: vasm_def is_label_def vis_of_def is_jump_op)

lemma vasm_label: "vasm S (append_insn a OP_LABEL arg None) = vasm S a"
  by (simp add: vasm_def is_label_def)

lemma vasm_string:
  assumes "strs_ok a" "no_nul str" "has_string op" "prefix (ba_strs (append_insn a op arg (Some str))) S"
  shows "vasm S (append_insn a op arg (Some str)) = vasm S a @ [(op, 0, Some str)]"
proof -
  obtain i extra where e: "append_insn a op arg (Some str) =
      a\<lparr>ba_insns := ba_insns a @ [\<lparr>an_op = op, an_arg = int i\<rparr>], ba_strs := ba_strs a @ extra\<rparr>"
    "i < length (ba_strs a @ extra)" "(ba_strs a @ extra) ! i = str"
    using append_insn_string [OF assms(1,2)] by metis
  have "S ! i = str"
    using assms(4) e by (auto simp: prefix_def nth_append)
  moreover have "op \<noteq> OP_LABEL" using assms(3) by (auto simp: has_string_def)
  ultimately show ?thesis
    using assms(3) by (simp add: e(1) vasm_def is_label_def vis_of_def)
qed

lemma extends_strs: "extends a b \<Longrightarrow> prefix (ba_strs b) S \<Longrightarrow> prefix (ba_strs a) S"
  by (auto simp: extends_def prefix_def)

lemma paren_if_strs [simp]: "ba_strs (paren_if q i a) = ba_strs a" "ba_label (paren_if q i a) = ba_label a"
  by (simp_all add: paren_if_def)

lemma vasm_paren: "vasm S (paren_if q i a) = vasm S a @ (if q then [(OP_PAREN, word_of_int i, None)] else [])"
  by (simp add: paren_if_def vasm_plain has_string_def is_jmp_def)

lemma vasm_compound:
  assumes X: "\<And>a. strs_ok a \<Longrightarrow> prefix (ba_strs (generate_bvm_asm1 a x ty)) S \<Longrightarrow>
      vasm S (generate_bvm_asm1 a x ty) = vasm S a @ vcode ty x"
    and Y: "\<And>a. strs_ok a \<Longrightarrow> prefix (ba_strs (generate_bvm_asm1 a y ty)) S \<Longrightarrow>
      vasm S (generate_bvm_asm1 a y ty) = vasm S a @ vcode ty y"
    and ok: "strs_ok a" "node_ok x" and op: "is_jmp op"
    and e: "e = append_insn (paren_if q 1 (generate_bvm_asm1 (append_insn
      (generate_bvm_asm1 (paren_if q 0 (snd (gen_label_id a))) x ty) op (ba_label a) None) y ty)) OP_LABEL (ba_label a) None"
    and P: "prefix (ba_strs e) S"
  shows "vasm S e = vasm S a @ vpar q (vcode ty x @ (op, 0, None) # vcode ty y)"
proof -
  let ?a1 = "paren_if q 0 (snd (gen_label_id a))"
  let ?a2 = "generate_bvm_asm1 ?a1 x ty"
  let ?a3 = "append_insn ?a2 op (ba_label a) None"
  let ?a4 = "generate_bvm_asm1 ?a3 y ty"
  have jmp: "op \<noteq> OP_LABEL" "\<not> has_string op" using op by (auto simp: is_jmp_def has_string_def)
  have ok1: "strs_ok ?a1" using ok(1) by (intro strs_ok_paren_if) (simp add: strs_ok_def gen_label_id_def)
  then have ok3: "strs_ok ?a3" using ok(2) by (intro strs_ok_append_insn strs_ok_generate) auto
  have P4: "prefix (ba_strs ?a4) S" using P by (simp add: e)
  then have P2: "prefix (ba_strs ?a2) S" using extends_strs [OF extends_generate P4] by simp
  have "vasm S ?a1 = vasm S a @ (if q then [(OP_PAREN, 0, None)] else [])"
    by (simp add: vasm_paren) (simp add: vasm_def gen_label_id_def)
  with X [OF ok1 P2] Y [OF ok3 P4] jmp op show ?thesis
    by (simp add: e vasm_label vasm_paren vasm_plain vpar_def)
qed

lemma vasm_generate:
  assumes "strs_ok a" "node_ok b" "prefix (ba_strs (generate_bvm_asm1 a b outer)) S"
  shows "vasm S (generate_bvm_asm1 a b outer) = vasm S a @ vcode outer b"
  using assms
proof (induction b arbitrary: a outer)
  case (B_AND x y)
  then show ?case
    by (subst vcode.simps, intro vasm_compound [where op = OP_JMPF])
      (auto simp: is_jmp_def gen_label_id_def Let_def)
next
  case (B_OR x y)
  then show ?case
    by (subst vcode.simps, intro vasm_compound [where op = OP_JMPT])
      (auto simp: is_jmp_def gen_label_id_def Let_def)
next
  case (B_FLAG name str)
  then obtain op where op: "is_allowed_bflag name = Some op" "op \<noteq> OP_TIS" by auto
  from bflag_string_op [OF op] B_FLAG op show ?case
    by (simp add: vasm_string)
next
  case (B_ATR name str)
  let ?a = "append_insn a OP_LOADS 0 (Some name)"
  have ok: "strs_ok ?a" using B_ATR by (intro strs_ok_append_insn) auto
  have "extends ?a (append_insn ?a OP_TATR 0 (Some str))"
    by (intro extends_append_insn) (simp_all add: plain_op_def)
  with B_ATR(3) have "prefix (ba_strs ?a) S" by (simp add: extends_strs)
  with B_ATR ok show ?case by (simp add: vasm_string has_string_def)
next
  case (B_EVAL name str)
  let ?a = "append_insn a OP_LOADS 0 (Some name)"
  have ok: "strs_ok ?a" using B_EVAL by (intro strs_ok_append_insn) auto
  have "extends ?a (append_insn ?a OP_TEVAL 0 (Some str))"
    by (intro extends_append_insn) (simp_all add: plain_op_def)
  with B_EVAL(3) have "prefix (ba_strs ?a) S" by (simp add: extends_strs)
  with B_EVAL ok show ?case by (simp add: vasm_string has_string_def)
qed (auto simp: vasm_plain vasm_string has_string_def is_jmp_def)

definition is_neg :: "boolexp_node \<Rightarrow> bool" where
  "is_neg b \<longleftrightarrow> (case b of B_NOT _ \<Rightarrow> True | _ \<Rightarrow> False)"

text \<open>No key is negated twice in a row, as the parse tree optimiser leaves it.\<close>

fun single_nots :: "boolexp_node \<Rightarrow> bool" where
  "single_nots (B_AND x y) = (single_nots x \<and> single_nots y)"
| "single_nots (B_OR x y) = (single_nots x \<and> single_nots y)"
| "single_nots (B_NOT x) = (\<not> is_neg x \<and> single_nots x)"
| "single_nots b = True"

lemma is_neg_optimize: "\<not> is_neg b \<Longrightarrow> \<not> is_neg (optimize_bvm_ast b)"
proof (cases b)
  case (B_OR x y)
  then show ?thesis by (cases rule: optimize_or_cases [of x y]) (auto simp: is_neg_def)
qed (auto simp: is_neg_def)

lemma optimize_single_nots: "single_nots (optimize_bvm_ast b)"
proof (induction b rule: measure_induct_rule [of size])
  case (less b)
  show ?case
  proof (cases b)
    case (B_OR x y)
    with less show ?thesis by (cases rule: optimize_or_cases [of x y]) auto
  next
    case (B_AND x y)
    with less show ?thesis by auto
  next
    case (B_NOT x)
    show ?thesis
    proof (cases "is_neg x")
      case True
      then obtain y where "x = B_NOT y" by (auto simp: is_neg_def split: boolexp_node.splits)
      with less B_NOT show ?thesis by simp
    next
      case False
      then have "optimize_bvm_ast b = B_NOT (optimize_bvm_ast x) \<or> (\<exists>v. optimize_bvm_ast b = B_BOOL v)"
        unfolding B_NOT by (cases x) (auto simp: is_neg_def simp del: optimize_bvm_ast.simps(1-2))
      moreover have "single_nots (optimize_bvm_ast x)" using less B_NOT by simp
      ultimately show ?thesis using is_neg_optimize [OF False] by auto
    qed
  qed simp_all
qed

lemma bflag_not_paren: "is_allowed_bflag name = Some op \<Longrightarrow> op \<noteq> OP_PAREN \<and> op \<noteq> OP_NEGR \<and> op \<noteq> OP_LOADS"
  unfolding is_allowed_bflag_gperf by (auto simp: bflag_gperf_def split: if_splits dest!: map_of_SomeD)

lemma v_scan_vcode: "0 < k \<Longrightarrow> v_scan (vcode outer b @ C) k = v_scan C k"
proof (induction b arbitrary: outer k C)
  case (B_FLAG name str)
  then show ?case using bflag_not_paren by (auto split: option.splits)
qed (simp_all add: vpar_def)

lemma vcode_head:
  assumes "node_ok b"
  shows "vcode outer b \<noteq> [] \<and> fst (hd (vcode outer b)) \<noteq> OP_NEGR"
  using assms
proof (induction b arbitrary: outer)
  case (B_FLAG name str)
  then show ?case using bflag_not_paren by (auto split: option.splits)
qed (simp_all add: vpar_def)

text \<open>
  A stretch of code decompiles to a text: with room for it, the text is appended and what
  follows is decompiled.  \<open>neg\<close> is whether \<open>OP_NEGR\<close> follows.
\<close>

definition decompiles ::
  "(dbref \<Rightarrow> dbref \<Rightarrow> string) \<Rightarrow> dbref \<Rightarrow> u_b_f \<Rightarrow> vinsn list \<Rightarrow> bool \<Rightarrow> string \<Rightarrow> bool" where
  "decompiles un pl fl C neg t \<longleftrightarrow>
     (\<forall>rest s b. rest \<noteq> [] \<longrightarrow> v_head_is OP_NEGR rest = neg \<longrightarrow> length b + length t \<le> BUFFER_LEN - 1 \<longrightarrow>
        (\<exists>s'. v_unparse un pl fl (C @ rest) s b = v_unparse un pl fl rest s' (b @ t)))"

lemma decompiles_seq:
  assumes "decompiles un pl fl C False t" "decompiles un pl fl D neg u" "D \<noteq> []" "\<not> v_head_is OP_NEGR D"
  shows "decompiles un pl fl (C @ D) neg (t @ u)"
  unfolding decompiles_def
proof (intro allI impI)
  fix rest :: "vinsn list" and s :: "string option" and b :: buf
  assume r: "rest \<noteq> []" "v_head_is OP_NEGR rest = neg" "length b + length (t @ u) \<le> BUFFER_LEN - 1"
  have "D @ rest \<noteq> []" "v_head_is OP_NEGR (D @ rest) = False" "length b + length t \<le> BUFFER_LEN - 1"
    using assms(3,4) r(3) by (simp_all add: v_head_is_def)
  then obtain s1 where s1: "v_unparse un pl fl (C @ D @ rest) s b = v_unparse un pl fl (D @ rest) s1 (b @ t)"
    using assms(1) unfolding decompiles_def by blast
  have "length (b @ t) + length u \<le> BUFFER_LEN - 1" using r(3) by simp
  then obtain s2 where "v_unparse un pl fl (D @ rest) s1 (b @ t) = v_unparse un pl fl rest s2 ((b @ t) @ u)"
    using assms(2) r(1,2) unfolding decompiles_def by blast
  with s1 show "\<exists>s'. v_unparse un pl fl ((C @ D) @ rest) s b = v_unparse un pl fl rest s' (b @ t @ u)"
    by auto
qed

definition neg_text :: "bool \<Rightarrow> string" where
  "neg_text neg = (if neg then [NOT_TOKEN] else [])"

lemma safe_not: "length b + 1 \<le> BUFFER_LEN - 1 \<Longrightarrow> snd (safe_chr NOT_TOKEN b) = b @ [NOT_TOKEN]"
  using emits_chr [of NOT_TOKEN] by (simp add: emits_def)

lemma decompiles_insn:
  assumes "op \<notin> {OP_RET, OP_LOADS, OP_PAREN}" "\<And>s. unparse_insn un pl fl op arg str s = Some w" "emits w t"
  shows "decompiles un pl fl [(op, arg, str)] neg (neg_text neg @ t)"
  using assms safe_not unfolding decompiles_def
  by (auto simp: emits_def neg_text_def)

lemma decompiles_loads:
  assumes "op \<notin> {OP_RET, OP_LOADS, OP_PAREN, OP_NEGR}"
    "unparse_insn un pl fl op arg str (Some (Some name)) = Some w" "emits w t"
  shows "decompiles un pl fl [(OP_LOADS, x, Some name), (op, arg, str)] neg (neg_text neg @ t)"
proof -
  have "v_unparse un pl fl ((OP_LOADS, x, Some name) # (op, arg, str) # rest) s b = v_unparse un pl fl ((op, arg, str) # rest) (Some name) b"
    for rest s b using assms(1) by (simp add: v_head_is_def)
  with assms safe_not show ?thesis
    unfolding decompiles_def by (auto simp: emits_def neg_text_def v_head_is_def)
qed

lemma decompiles_jump:
  "decompiles un pl fl [(OP_JMPF, x, str)] False [AND_TOKEN]"
  "decompiles un pl fl [(OP_JMPT, x, str)] False [OR_TOKEN]"
  using decompiles_insn [of OP_JMPF un pl fl x str "safe_chr AND_TOKEN" "[AND_TOKEN]" False]
    decompiles_insn [of OP_JMPT un pl fl x str "safe_chr OR_TOKEN" "[OR_TOKEN]" False]
  by (simp_all add: unparse_insn_def emits_chr neg_text_def)

lemma decompiles_paren:
  assumes C: "decompiles un pl fl C False t" and bal: "\<And>D. v_scan (C @ D) 1 = v_scan D 1"
    and ne: "C \<noteq> []"
  shows "decompiles un pl fl (vpar True C) neg (neg_text neg @ par_text True t)"
  unfolding decompiles_def
proof (intro allI impI)
  fix rest :: "vinsn list" and s :: "string option" and b :: buf
  let ?D = "(OP_PAREN, 1, None) # rest"
  assume r: "rest \<noteq> []" "v_head_is OP_NEGR rest = neg"
    "length b + length (neg_text neg @ par_text True t) \<le> BUFFER_LEN - 1"
  define w where "w = (if neg then safe_strl (Some ''!('') 2 else safe_chr (CHR ''(''))"
  have "v_paren (C @ ?D) 0 = Some w"
    using r(1,2) by (simp add: v_paren_def bal w_def)
  moreover have "snd (w b) = b @ neg_text neg @ ''(''"
    using r(3) emits_strl2 [of "CHR ''!''" "CHR ''(''"] emits_chr [of "CHR ''(''"]
    by (auto simp: w_def emits_def neg_text_def par_text_def NOT_TOKEN_def)
  ultimately have 1: "v_unparse un pl fl (vpar True C @ rest) s b
      = v_unparse un pl fl (C @ ?D) s (b @ neg_text neg @ ''('')"
    by (simp add: vpar_def)
  obtain s1 where 2: "v_unparse un pl fl (C @ ?D) s (b @ neg_text neg @ ''('')
      = v_unparse un pl fl ?D s1 ((b @ neg_text neg @ ''('') @ t)"
    using C [unfolded decompiles_def, rule_format, of ?D "b @ neg_text neg @ ''(''" s] r(3)
    by (auto simp: v_head_is_def par_text_def)
  have "snd (safe_chr (CHR '')'') (b @ neg_text neg @ ''('' @ t)) = b @ neg_text neg @ ''('' @ t @ '')''"
    using r(3) emits_chr [of "CHR '')''"] by (simp add: emits_def par_text_def)
  then have "v_unparse un pl fl ?D s1 ((b @ neg_text neg @ ''('') @ t)
      = v_unparse un pl fl rest s1 (b @ neg_text neg @ ''('' @ t @ '')'')"
    using r(1) by (simp add: v_paren_def)
  with 1 2 show "\<exists>s'. v_unparse un pl fl (vpar True C @ rest) s b
      = v_unparse un pl fl rest s' (b @ neg_text neg @ par_text True t)"
    by (auto simp: par_text_def)
qed

lemma decompiles_pair:
  assumes X: "decompiles un pl fl (vcode ty x) False t" and Y: "decompiles un pl fl (vcode ty y) False u"
    and ok: "node_ok y" and J: "decompiles un pl fl [(op, 0, None)] False [c]" "is_jmp op" and q: "neg \<longrightarrow> q"
  shows "decompiles un pl fl (vpar q (vcode ty x @ (op, 0, None) # vcode ty y)) neg
    (neg_text neg @ par_text q (t @ [c] @ u))"
proof -
  have hd: "vcode ty y \<noteq> []" "\<not> v_head_is OP_NEGR (vcode ty y)"
    using vcode_head [OF ok, of ty] by (simp_all add: v_head_is_def)
  have "decompiles un pl fl ([(op, 0, None)] @ vcode ty y) False ([c] @ u)"
    using J(1) Y hd by (rule decompiles_seq)
  then have C: "decompiles un pl fl (vcode ty x @ (op, 0, None) # vcode ty y) False (t @ [c] @ u)"
    using decompiles_seq [OF X, of "(op, 0, None) # vcode ty y" False "[c] @ u"] J(2)
    by (auto simp: v_head_is_def is_jmp_def)
  have bal: "v_scan ((vcode ty x @ (op, 0, None) # vcode ty y) @ D) 1 = v_scan D 1" for D
    using J(2) by (auto simp: v_scan_vcode is_jmp_def)
  show ?thesis
  proof (cases q)
    case True
    with decompiles_paren [OF C bal, of neg] show ?thesis by simp
  next
    case False
    with q C show ?thesis by (simp add: vpar_def par_text_def neg_text_def)
  qed
qed

lemma flag_name_gperf: "is_allowed_bflag name = Some op \<Longrightarrow> op \<noteq> OP_TIS \<Longrightarrow> flag_name op = Some name"
  unfolding is_allowed_bflag_gperf
  by (auto simp: bflag_gperf_def flag_name_def split: if_splits dest!: map_of_SomeD)

lemma emits_Cons: "emits v t \<Longrightarrow> emits (then_write (safe_chr c) v) (c # t)"
  using emits_then [OF emits_chr] by fastforce

lemma decompiles_vcode:
  assumes "node_ok b" "single_nots b" "is_neg b \<longrightarrow> outer \<noteq> BOOLEXP_NOT"
  shows "decompiles un pl fl (vcode outer b) (outer = BOOLEXP_NOT)
    (neg_text (outer = BOOLEXP_NOT) @ key_text un pl fl outer b)"
  using assms
proof (induction b arbitrary: outer)
  case (B_AND x y)
  then have "decompiles un pl fl (vcode BOOLEXP_AND x) False (key_text un pl fl BOOLEXP_AND x)"
    "decompiles un pl fl (vcode BOOLEXP_AND y) False (key_text un pl fl BOOLEXP_AND y)"
    using B_AND.IH(1) [of BOOLEXP_AND] B_AND.IH(2) [of BOOLEXP_AND] by (simp_all add: neg_text_def)
  with decompiles_pair [OF this _ decompiles_jump(1)] B_AND.prems(1) show ?case
    by (simp add: is_jmp_def)
next
  case (B_OR x y)
  then have "decompiles un pl fl (vcode BOOLEXP_OR x) False (key_text un pl fl BOOLEXP_OR x)"
    "decompiles un pl fl (vcode BOOLEXP_OR y) False (key_text un pl fl BOOLEXP_OR y)"
    using B_OR.IH(1) [of BOOLEXP_OR] B_OR.IH(2) [of BOOLEXP_OR] by (simp_all add: neg_text_def)
  with decompiles_pair [OF this _ decompiles_jump(2)] B_OR.prems(1) show ?case
    by (simp add: is_jmp_def)
next
  case (B_NOT x)
  have x: "decompiles un pl fl (vcode BOOLEXP_NOT x) True (NOT_TOKEN # key_text un pl fl BOOLEXP_NOT x)"
    using B_NOT.IH [of BOOLEXP_NOT] B_NOT.prems by (simp add: neg_text_def)
  have outer: "outer \<noteq> BOOLEXP_NOT"
    using B_NOT.prems(3) by (simp add: is_neg_def)
  show ?case
    unfolding decompiles_def
  proof (intro allI impI)
    fix rest :: "vinsn list" and s :: "string option" and b :: buf
    assume r: "rest \<noteq> []" "v_head_is OP_NEGR rest = (outer = BOOLEXP_NOT)"
      "length b + length (neg_text (outer = BOOLEXP_NOT) @ key_text un pl fl outer (B_NOT x)) \<le> BUFFER_LEN - 1"
    from x [unfolded decompiles_def, rule_format, of "(OP_NEGR, 0, None) # rest" b s] r outer
    obtain s' where "v_unparse un pl fl (vcode BOOLEXP_NOT x @ (OP_NEGR, 0, None) # rest) s b
        = v_unparse un pl fl ((OP_NEGR, 0, None) # rest) s' (b @ NOT_TOKEN # key_text un pl fl BOOLEXP_NOT x)"
      by (auto simp: v_head_is_def neg_text_def)
    moreover have "v_unparse un pl fl ((OP_NEGR, 0, None) # rest) s' b' = v_unparse un pl fl rest s' b'" for s' b'
      using r(1,2) outer by (simp add: unparse_insn_def flag_name_def)
    ultimately show "\<exists>s'. v_unparse un pl fl (vcode outer (B_NOT x) @ rest) s b = v_unparse un pl fl rest s'
        (b @ neg_text (outer = BOOLEXP_NOT) @ key_text un pl fl outer (B_NOT x))"
      using outer by (auto simp: neg_text_def)
  qed
next
  case (B_FLAG name str)
  then obtain op where op: "is_allowed_bflag name = Some op" "op \<noteq> OP_TIS" by auto
  have "unparse_insn un pl fl op 0 (Some str) s =
      Some (then_write (safe_format (name @ [FLAG_TOKEN])) (safe_bstr (Some str) op))" for s
    using bflag_string_op [OF op] flag_name_gperf [OF op] by (auto simp: unparse_insn_def)
  moreover have "emits (then_write (safe_format (name @ [FLAG_TOKEN])) (safe_bstr (Some str) op))
      ((name @ [FLAG_TOKEN]) @ bstr_text op str)"
    by (intro emits_rules)
  moreover have "op \<notin> {OP_RET, OP_LOADS, OP_PAREN}"
    using bflag_string_op [OF op] by auto
  ultimately show ?case
    using decompiles_insn op(1) by fastforce
qed (auto simp: unparse_insn_def intro!: decompiles_insn decompiles_loads emits_Cons emits_rules)


lemma unparse_compiled_text:
  assumes "node_ok b" "lock_size b < 2 ^ 31"
    and "length (key_text un pl fl BOOLEXP_CONST (optimize_bvm_ast b)) < BUFFER_LEN"
  shows "unparse_boolexp un pl (compiled (Some b)) fl = Some (key_text un pl fl BOOLEXP_CONST (optimize_bvm_ast b))"
proof -
  let ?b = "optimize_bvm_ast b" and ?e = "\<lparr>ba_insns = [], ba_strs = [], ba_label = 0\<rparr> :: bvm_asm"
  let ?g = "generate_bvm_asm1 ?e ?b BOOLEXP_CONST" and ?h = "generate_bvm_asm ?b"
  obtain a where a: "compile_boolexp b = Some (emit_bytecode a)" "opt_inv a" "strs_ok a" "ba_strs a = ba_strs ?h"
    "redirect\<^sup>*\<^sup>* (rcode (ba_insns ?h) (ba_strs ?h)) (rcode (ba_insns a) (ba_strs a))" "node_ok ?b"
    by (rule compile_cases [OF assms(1)])
  have len: "length (emit_bytecode a) < 2 ^ 31"
    using compile_length [OF assms(1) a(1)] assms(2) by simp
  have h: "ba_insns ?h = ba_insns ?g @ [\<lparr>an_op = OP_RET, an_arg = 0\<rparr>]" "ba_strs ?h = ba_strs ?g"
    by (simp_all add: generate_bvm_asm_def)
  have "vasm (ba_strs ?g) ?g = vcode BOOLEXP_CONST ?b"
    using vasm_generate [of ?e ?b BOOLEXP_CONST "ba_strs ?g"] a(6) by (simp add: strs_ok_def vasm_def)
  then have "map (vis_of (ba_strs a)) (code_insns (ba_insns a)) = vcode BOOLEXP_CONST ?b @ [(OP_RET, 0, None)]"
    using vis_redirects [OF a(5)] unfolding vis_rcode
    by (simp add: a(4) h vasm_def is_label_def vis_of_def is_jump_def has_string_def)
  moreover have "\<exists>s'. v_unparse un pl fl (vcode BOOLEXP_CONST ?b @ [(OP_RET, 0, None)]) None []
      = v_unparse un pl fl [(OP_RET, 0, None)] s' ([] @ key_text un pl fl BOOLEXP_CONST ?b)"
  proof -
    have "decompiles un pl fl (vcode BOOLEXP_CONST ?b) False (key_text un pl fl BOOLEXP_CONST ?b)"
      using decompiles_vcode [OF a(6) optimize_single_nots, of BOOLEXP_CONST un pl fl] by (simp add: neg_text_def)
    from this [unfolded decompiles_def, rule_format, of "[(OP_RET, 0, None)]" "[]" None] assms(3) show ?thesis
      by (simp add: v_head_is_def)
  qed
  ultimately have "v_unparse un pl fl (map (vis_of (ba_strs a)) (drop 0 (code_insns (ba_insns a)))) None []
      = Some (key_text un pl fl BOOLEXP_CONST ?b)"
    by auto
  then have "unparse_loop un pl fl (emit_bytecode a) (0 * INSN_LEN) None [] = Some (key_text un pl fl BOOLEXP_CONST ?b)"
    by (intro v_unparse_bytes [OF a(2,3) len]) simp_all
  then show ?thesis
    by (simp add: unparse_boolexp_def compiled_def a(1))
qed

section \<open>Properties\<close>

text \<open>C7: decompiling a compiled lock gives the text of its optimised parse tree, with every
  parenthesis and negation in place, whenever that text fits the buffer.\<close>

theorem unparse_boolexp_compiled:
  assumes "node_ok b" "lock_size b < 2 ^ 31"
    and "length (key_text un pl fl BOOLEXP_CONST (optimize_bvm_ast b)) < BUFFER_LEN"
  shows "unparse_boolexp un pl (compiled (Some b)) fl = Some (key_text un pl fl BOOLEXP_CONST (optimize_bvm_ast b))"
  using unparse_compiled_text [OF assms] .

lemma unparse_boolexp_compiled_witness:
  "unparse_boolexp (\<lambda>p d. ''Thing'') 1
     (compiled (Some (B_AND (B_NOT (B_NOT (B_OR (B_IS 2) (B_CARRY 2)))) (B_NOT (B_OR (B_OWNER 3) (B_BOOL 1)))))) UB_ALL
   = Some ''Thing&!($Thing|#TRUE)''"
proof -
  let ?b = "B_AND (B_NOT (B_NOT (B_OR (B_IS 2) (B_CARRY 2)))) (B_NOT (B_OR (B_OWNER 3) (B_BOOL 1)))"
  have "lock_size ?b < 2 ^ 31"
    by (simp add: insn_count_def lock_size_def generate_bvm_asm_def gen_label_id_def paren_if_def
        append_insn_def is_label_def INSN_LEN_def Let_def)
  from unparse_boolexp_compiled [OF _ this, of "\<lambda>p d. ''Thing''" 1 UB_ALL] show ?thesis
    by (simp add: bit_value_def BUFFER_LEN_def boref_text_def par_text_def AND_TOKEN_def NOT_TOKEN_def
        OR_TOKEN_def OWNER_TOKEN_def)
qed

end
