(* ===== verification/Mush_Boolexp_Roundtrip.thy ===== *)
theory Mush_Boolexp_Roundtrip
  imports Mush_Boolexp_Decompile
begin

text \<open>
  A lock is saved in the database as the text \<open>unparse_boolexp\<close> gives with \<open>UB_DBREF\<close>, and
  loaded by parsing that text.  This theory parses the text of a key level by level of the
  grammar and shows that the lock that comes back has the same value.
\<close>

section \<open>Scanning escaped text\<close>

definition plain_text :: "string \<Rightarrow> bool" where
  "plain_text s \<longleftrightarrow> (\<forall>c \<in> set s. \<not> bstr_special c)"

text \<open>Where the raw scan of a lock is after a text: \<open>None\<close> if it stops inside.\<close>

fun raw_state :: "bool \<Rightarrow> string \<Rightarrow> bool option" where
  "raw_state e [] = Some e"
| "raw_state e (c # s) =
     (if e \<or> \<not> (c = AND_TOKEN \<or> c = OR_TOKEN \<or> c = CHR '')'')
      then raw_state (if e then False else c = BACKSLASH) s else None)"

lemma raw_state_append: "raw_state e (s @ t) = Option.bind (raw_state e s) (\<lambda>e'. raw_state e' t)"
  by (induction s arbitrary: e) auto

lemma scan_raw_cut:
  "raw_state e t = Some e' \<Longrightarrow> scan_raw e (t @ r) = (t @ fst (scan_raw e' r), snd (scan_raw e' r))"
  by (induction t arbitrary: e) (auto split: if_splits simp: case_prod_beta)

definition delim :: "string \<Rightarrow> bool" where
  "delim r \<longleftrightarrow> c_head r \<in> {NUL, AND_TOKEN, OR_TOKEN, CHR '')''} \<and> (c_head r = NUL \<longrightarrow> r = [])"

lemma scan_raw_delim: "delim r \<Longrightarrow> scan_raw False r = ([], r)"
  by (cases r) (auto simp: delim_def c_head_def)

lemma scan_raw_whole: "raw_state False t = Some False \<Longrightarrow> delim r \<Longrightarrow> scan_raw False (t @ r) = (t, r)"
  by (subst scan_raw_cut [of False t False r]) (simp_all add: scan_raw_delim)

lemmas token_defs = NOT_TOKEN_def AND_TOKEN_def OR_TOKEN_def AT_TOKEN_def IN_TOKEN_def IS_TOKEN_def
  OWNER_TOKEN_def ATR_TOKEN_def EVAL_TOKEN_def FLAG_TOKEN_def BACKSLASH_def

lemma special_tokens:
  "bstr_special BACKSLASH" "bstr_special NOT_TOKEN" "bstr_special AND_TOKEN" "bstr_special OR_TOKEN"
  "bstr_special AT_TOKEN" "bstr_special IN_TOKEN" "bstr_special IS_TOKEN" "bstr_special OWNER_TOKEN"
  "bstr_special ATR_TOKEN" "bstr_special EVAL_TOKEN" "bstr_special FLAG_TOKEN" "bstr_special (CHR '')'')"
  by (simp_all add: bstr_special_def)

lemma raw_state_plain: "plain_text t \<Longrightarrow> raw_state False t = Some False"
  by (induction t) (auto simp: plain_text_def bstr_special_def)

lemma esc_text_simps [simp]: "esc_text True s = s" "plain_text s \<Longrightarrow> esc_text p s = s"
  by (induction s) (auto simp: plain_text_def)

lemma raw_state_esc: "raw_state False (esc_text False s) = Some False"
  by (induction s) (auto simp: bstr_special_def token_defs)

lemma safe_chr_room: "length b < BUFFER_LEN - 1 \<Longrightarrow> safe_chr c b = (0, b @ [c])"
  by (simp add: safe_chr_def)

lemma scan_atr_esc:
  assumes "bstr_special tok" "tok \<noteq> BACKSLASH" "length b + length s \<le> BUFFER_LEN - 1"
  shows "scan_atr tok False (esc_text False s @ r) b = scan_atr tok False r (b @ map UPCASE s)"
  using assms(3)
proof (induction s arbitrary: b)
  case (Cons c s)
  show ?case
  proof (cases "bstr_special c")
    case True
    with Cons assms(2) show ?thesis by (simp add: safe_chr_room)
  next
    case False
    with assms(1) have "c \<noteq> tok" "c \<noteq> BACKSLASH" by (auto simp: bstr_special_def)
    with False Cons show ?thesis by (simp add: safe_chr_room)
  qed
qed simp

lemma scan_atr_plain:
  assumes "plain_text s" "bstr_special tok" "length b + length s \<le> BUFFER_LEN - 1"
  shows "scan_atr tok False (s @ r) b = scan_atr tok False r (b @ map UPCASE s)"
  using assms(1,3)
proof (induction s arbitrary: b)
  case (Cons c s)
  then have "c \<noteq> tok" "c \<noteq> BACKSLASH" using assms(2) by (auto simp: plain_text_def bstr_special_def)
  with Cons show ?case by (simp add: plain_text_def safe_chr_room)
qed simp

text \<open>The name of an attribute-like lock is found at its token, and no other token before it.\<close>

lemma scan_atr_found:
  assumes "bstr_special tok" "tok \<noteq> BACKSLASH" "length name \<le> BUFFER_LEN - 1"
  shows "scan_atr tok False (esc_text False name @ tok # str) [] = Some (map UPCASE name, str)"
  using scan_atr_esc [of tok "[]" name "tok # str"] assms by simp

lemma scan_atr_other:
  assumes "bstr_special tok" "tok \<noteq> BACKSLASH" "tok' \<noteq> tok" "tok' \<noteq> BACKSLASH" "plain_text str"
    "length name + 1 + length str \<le> BUFFER_LEN - 1"
  shows "scan_atr tok False (esc_text False name @ tok' # str) [] = None"
  using scan_atr_esc [of tok "[]" name "tok' # str"] assms
    scan_atr_plain [of str tok "map UPCASE name @ [UPCASE tok']" "[]"]
  by (simp add: safe_chr_room)

lemma scan_atr_none:
  "plain_text s \<Longrightarrow> bstr_special tok \<Longrightarrow> length s \<le> BUFFER_LEN - 1 \<Longrightarrow> scan_atr tok False s [] = None"
  using scan_atr_plain [of s tok "[]" "[]"] by simp

lemma scan_object_plain:
  assumes "plain_text t" "length b + length t \<le> BUFFER_LEN - 1" "delim r \<or> c_head r = EVAL_TOKEN"
  shows "scan_object False (t @ r) b = (b @ t, r)"
  using assms(1,2)
proof (induction t arbitrary: b)
  case Nil
  with assms(3) show ?case
    by (cases r) (auto simp: delim_def token_defs)
next
  case (Cons c t)
  then have "c \<noteq> AND_TOKEN" "c \<noteq> OR_TOKEN" "c \<noteq> EVAL_TOKEN" "c \<noteq> CHR '')''" "c \<noteq> BACKSLASH"
    by (auto simp: plain_text_def bstr_special_def)
  with Cons show ?case by (simp add: plain_text_def safe_chr_room)
qed

lemma scan_lock_name_esc:
  assumes "length b + length s \<le> BUFFER_LEN - 1" "delim r"
  shows "scan_lock_name False (esc_text False s @ r) b = (b @ map UPCASE s, r)"
  using assms(1)
proof (induction s arbitrary: b)
  case Nil
  with assms(2) show ?case by (cases r) (auto simp: delim_def)
next
  case (Cons c s)
  then show ?case
    by (cases "bstr_special c") (auto simp: safe_chr_room bstr_special_def token_defs)
qed

section \<open>References\<close>

definition ref_char :: "char \<Rightarrow> bool" where
  "ref_char c \<longleftrightarrow> c_isdigit c \<or> c = CHR ''-''"

lemma digit_chars: "c \<in> set (push_digits 10 n []) \<Longrightarrow> c_isdigit c"
proof (induction n rule: less_induct)
  case (less n)
  have d: "m < 10 \<Longrightarrow> c_isdigit (digit_char m)" for m
  proof -
    have "\<forall>m \<in> set [0..<10]. c_isdigit (digit_char m)" by code_simp
    then show "m < 10 \<Longrightarrow> ?thesis" by auto
  qed
  have "\<not> n < 10 \<Longrightarrow> c \<in> set (push_digits 10 (n div 10) []) \<Longrightarrow> c_isdigit c"
    by (rule less.IH [of "n div 10"]) auto
  with d less.prems show ?case
    by (cases "n < 10") (auto simp: push_digits_rec [of 10 n])
qed

lemma long_text_chars: "c \<in> set (long_text v 10) \<Longrightarrow> ref_char c"
  using digit_chars by (auto simp: long_text_def clamp_base_def ref_char_def split: if_splits)

lemma long_text_nonempty: "long_text v b \<noteq> []"
  by (simp add: long_text_def push_digits_nonempty)

lemma dbref_text_cases:
  obtains c s where "dbref_text d = CHR ''#'' # c # s" "\<forall>x \<in> set (c # s). ref_char x"
  using long_text_chars [of _ "word_of_int (sint d)"] long_text_nonempty [of "word_of_int (sint d)" 10]
  by (cases "long_text (word_of_int (sint d)) 10") (auto simp: dbref_text_def)

lemma ref_char_plain:
  "ref_char c \<Longrightarrow> \<not> bstr_special c \<and> \<not> c_isspace c \<and> c \<noteq> CHR ''t'' \<and> c \<noteq> CHR ''T'' \<and> c \<noteq> CHR ''f'' \<and> c \<noteq> CHR ''F''"
  by (auto simp: ref_char_def bstr_special_def token_defs c_isdigit_def c_isspace_def c_ord_def)

lemma hash_plain: "\<not> bstr_special (CHR ''#'')" "\<not> c_isspace (CHR ''#'')"
  by (simp_all add: bstr_special_def token_defs c_isspace_def c_ord_def)

lemma plain_dbref: "plain_text (dbref_text d)"
  using ref_char_plain hash_plain by (cases rule: dbref_text_cases [of d]) (auto simp: plain_text_def)

lemma dbref_no_space: "c \<in> set (dbref_text d) \<Longrightarrow> \<not> c_isspace c"
  using ref_char_plain hash_plain by (cases rule: dbref_text_cases [of d]) auto

lemma strip_trailing_id: "t = [] \<or> \<not> c_isspace (last t) \<Longrightarrow> strip_trailing t = t"
  by (cases t rule: rev_cases) (simp_all add: strip_trailing_def)

definition ref_ok :: "parse_env \<Rightarrow> dbref \<Rightarrow> bool" where
  "ref_ok env d \<longleftrightarrow> px_parse_integer env (tl (dbref_text d)) = d"

lemma parse_R_dbref:
  assumes "px_loading_db env" "ref_ok env d" "length (dbref_text d) \<le> BUFFER_LEN - 1" "delim r \<or> c_head r = EVAL_TOKEN"
  shows "parse_boolexp_R env (dbref_text d @ r) = Parsed (B_CONST d, r)"
proof -
  obtain c s where t: "dbref_text d = CHR ''#'' # c # s" "\<forall>x \<in> set (c # s). ref_char x"
    by (rule dbref_text_cases)
  have "c \<noteq> CHR ''t'' \<and> c \<noteq> CHR ''T'' \<and> c \<noteq> CHR ''f'' \<and> c \<noteq> CHR ''F''"
    using t(2) ref_char_plain by simp
  moreover have "strip_trailing (dbref_text d) = dbref_text d"
    using dbref_no_space [of "last (dbref_text d)" d] t(1) by (intro strip_trailing_id) auto
  ultimately show ?thesis
    using scan_object_plain [OF plain_dbref _ assms(4), of "[]" d] assms(1-3) t(1)
    unfolding parse_boolexp_R_def ref_ok_def by (simp add: Let_def)
qed

lemma parse_R_bool:
  assumes "px_loading_db env" "delim r" "t = (if v \<noteq> 0 then ''#TRUE'' else ''#FALSE'')" "bit_value v"
  shows "parse_boolexp_R env (t @ r) = Parsed (B_BOOL v, r)"
proof -
  have "plain_text t" unfolding assms(3) plain_text_def by (simp add: bstr_special_def token_defs)
  moreover have "length t \<le> BUFFER_LEN - 1" by (simp add: assms(3) BUFFER_LEN_def)
  ultimately have "scan_object False (t @ r) [] = (t, r)"
    using scan_object_plain [of t "[]" r] assms(2) by simp
  moreover have "strip_trailing t = t"
    by (intro strip_trailing_id) (simp add: assms(3) c_isspace_def c_ord_def)
  ultimately show ?thesis
    using assms by (auto simp: parse_boolexp_R_def Let_def bit_value_def)
qed

section \<open>Keys that can be read back\<close>

text \<open>
  What the parser makes is of this form but for two things: the text of an eval or flag lock may
  not contain a character the decompiler escapes, because the parser keeps the escapes, and
  the names must be ones the server still accepts.
\<close>

definition name_ok :: "parse_env \<Rightarrow> string \<Rightarrow> bool" where
  "name_ok env name \<longleftrightarrow> name \<noteq> [] \<and> map UPCASE name = name \<and> px_good_atr_name env name
     \<and> \<not> c_isspace (hd name) \<and> hd name \<noteq> CHR ''(''"

definition lock_name_ok :: "parse_env \<Rightarrow> string \<Rightarrow> bool" where
  "lock_name_ok env lock \<longleftrightarrow>
     (let up = map UPCASE lock in strip_trailing up = up \<and> px_good_atr_name env up
        \<and> (case px_match_lock env up of None \<Rightarrow> up | Some m \<Rightarrow> m) = lock)"

definition body_ok :: "string \<Rightarrow> bool" where
  "body_ok str \<longleftrightarrow> str \<noteq> [] \<and> \<not> c_isspace (last str)"

fun printable :: "parse_env \<Rightarrow> boolexp_node \<Rightarrow> bool" where
  "printable env (B_AND x y) = (printable env x \<and> printable env y)"
| "printable env (B_OR x y) = (printable env x \<and> printable env y)"
| "printable env (B_NOT x) = printable env x"
| "printable env (B_CONST d) = ref_ok env d"
| "printable env (B_CARRY d) = ref_ok env d"
| "printable env (B_IS d) = ref_ok env d"
| "printable env (B_OWNER d) = ref_ok env d"
| "printable env (B_IND d lock) = (ref_ok env d \<and> lock_name_ok env lock)"
| "printable env (B_ATR name str) = (name_ok env name \<and> body_ok str \<and> raw_state False str = Some False)"
| "printable env (B_EVAL name str) = (name_ok env name \<and> body_ok str \<and> plain_text str)"
| "printable env (B_FLAG name str) =
     (px_good_atr_name env name \<and> body_ok str \<and> plain_text str \<and> map UPCASE str = str
      \<and> is_allowed_bflag name \<noteq> None \<and> is_allowed_bflag name \<noteq> Some OP_TIS)"
| "printable env (B_BOOL v) = bit_value v"

definition starts_L :: "string \<Rightarrow> bool" where
  "starts_L t \<longleftrightarrow> t \<noteq> [] \<and> \<not> c_isspace (hd t) \<and> hd t \<notin> {AT_TOKEN, IS_TOKEN, IN_TOKEN, OWNER_TOKEN, CHR ''(''}"

lemma c_head_append: "t \<noteq> [] \<Longrightarrow> c_head (t @ r) = hd t"
  by (cases t) simp_all

lemma skip_whitespace_id: "t \<noteq> [] \<Longrightarrow> \<not> c_isspace (hd t) \<Longrightarrow> skip_whitespace (t @ r) = t @ r"
  by (cases t) (simp_all add: skip_whitespace_def)

lemma parse_A_raw:
  assumes "starts_L t" "raw_state False t = Some False" "delim r" "\<not> c_isspace (last t)" "length t < BUFFER_LEN"
  shows "parse_boolexp_A env E (t @ r) =
    (case test_atr env t ATR_TOKEN of
       TA_node b \<Rightarrow> Parsed (b, r) | TAE_PARSE \<Rightarrow> Null
     | TAE_NONE \<Rightarrow>
         (case test_atr env t EVAL_TOKEN of
            TA_node b \<Rightarrow> Parsed (b, r) | TAE_PARSE \<Rightarrow> Null
          | TAE_NONE \<Rightarrow>
              (case test_atr env t FLAG_TOKEN of
                 TA_node b \<Rightarrow> Parsed (b, r) | TAE_PARSE \<Rightarrow> Null
               | TAE_NONE \<Rightarrow> parse_boolexp_R env (t @ r))))"
proof -
  have "strip_trailing t = t" using assms(4) by (intro strip_trailing_id) simp
  then show ?thesis
    using assms scan_raw_whole [OF assms(2,3)]
    by (simp add: parse_boolexp_A_def parse_boolexp_I_def parse_boolexp_C_def parse_boolexp_O_def
        parse_boolexp_L_def starts_L_def skip_whitespace_id c_head_append Let_def
        split: test_atr_result.splits)
qed

lemma tokens_special: "tok \<in> {ATR_TOKEN, EVAL_TOKEN, FLAG_TOKEN} \<Longrightarrow> bstr_special tok \<and> tok \<noteq> BACKSLASH"
  by (auto simp: bstr_special_def token_defs)

lemma test_atr_other:
  assumes "tok \<in> {ATR_TOKEN, EVAL_TOKEN, FLAG_TOKEN}" "tok' \<in> {ATR_TOKEN, EVAL_TOKEN, FLAG_TOKEN}" "tok' \<noteq> tok"
    "plain_text str" "length (esc_text False name @ tok' # str) < BUFFER_LEN"
  shows "test_atr env (esc_text False name @ tok' # str) tok = TAE_NONE"
proof -
  have "length name \<le> length (esc_text False name)" by (induction name) auto
  then have "scan_atr tok False (esc_text False name @ tok' # str) [] = None"
    using assms tokens_special [OF assms(1)] tokens_special [OF assms(2)] by (intro scan_atr_other) auto
  then show ?thesis by (simp add: test_atr_def)
qed

lemma test_atr_plain:
  "plain_text t \<Longrightarrow> tok \<in> {ATR_TOKEN, EVAL_TOKEN, FLAG_TOKEN} \<Longrightarrow> length t < BUFFER_LEN \<Longrightarrow> test_atr env t tok = TAE_NONE"
  using scan_atr_none [of t tok] tokens_special [of tok] by (simp add: test_atr_def)

lemma test_atr_found:
  assumes tok: "tok \<in> {ATR_TOKEN, EVAL_TOKEN, FLAG_TOKEN}" and name: "name \<noteq> []" "map UPCASE name = name" "px_good_atr_name env name"
    and str: "str \<noteq> []" and len: "length (esc_text False name @ tok # str) < BUFFER_LEN"
    and flag: "tok = FLAG_TOKEN \<longrightarrow> is_allowed_bflag name \<noteq> None \<and> is_allowed_bflag name \<noteq> Some OP_TIS \<and> map UPCASE str = str"
  shows "test_atr env (esc_text False name @ tok # str) tok =
    TA_node ((if tok = ATR_TOKEN then B_ATR else if tok = EVAL_TOKEN then B_EVAL else B_FLAG) name str)"
proof -
  have l: "length name \<le> length (esc_text False name)" by (induction name) auto
  then have "scan_atr tok False (esc_text False name @ tok # str) [] = Some (name, str)"
    using scan_atr_found [of tok name str] tokens_special [OF tok] len name(2) by simp
  moreover have "strupper (Some name) = name" "take (BUFFER_LEN - 1) str = str"
    "map UPCASE str = str \<Longrightarrow> strupper (Some str) = str"
    using len l name(2) strupper_same [of name] strupper_same [of str] by auto
  moreover have "name \<noteq> ''OBJID''" if "tok = FLAG_TOKEN"
    using flag that by (auto simp: is_allowed_bflag_gperf bflag_gperf_def)
  moreover have "strcmp name ''OBJID'' = 0 \<Longrightarrow> name = ''OBJID''" if "tok = FLAG_TOKEN"
    using that flag unfolding is_allowed_bflag_gperf bflag_gperf_def by (auto split: if_splits)
  ultimately show ?thesis
    using tok name str flag by (auto simp: test_atr_def alloc_atr_def token_defs)
qed

text \<open>The text a key is saved as: all references are numbers, so that the viewer does not matter.\<close>

definition save_text :: "boolexp_type \<Rightarrow> boolexp_node \<Rightarrow> string" where
  "save_text outer b = key_text (\<lambda>p d. []) 0 UB_DBREF outer b"

fun is_leaf :: "boolexp_node \<Rightarrow> bool" where
  "is_leaf (B_AND x y) = False" | "is_leaf (B_OR x y) = False" | "is_leaf (B_NOT x) = False"
| "is_leaf b = True"

lemma esc_head:
  assumes "name \<noteq> []" "\<not> c_isspace (hd name)" "hd name \<noteq> CHR ''(''"
  shows "starts_L (esc_text False name @ r)"
  using assms by (cases name) (auto simp: starts_L_def bstr_special_def token_defs c_isspace_def c_ord_def)

lemma flag_name_plain:
  assumes "is_allowed_bflag name \<noteq> None"
  shows "esc_text False name = name \<and> name \<noteq> [] \<and> map UPCASE name = name \<and> \<not> c_isspace (hd name) \<and> hd name \<noteq> CHR ''(''"
  using assms unfolding is_allowed_bflag_gperf bflag_gperf_def
  by (auto split: if_splits simp: bstr_special_def token_defs c_isspace_def c_ord_def UPCASE_def c_islower_def)

lemma parse_A_named:
  assumes tok: "tok \<in> {ATR_TOKEN, EVAL_TOKEN, FLAG_TOKEN}" and name: "name \<noteq> []" "map UPCASE name = name"
      "px_good_atr_name env name" "\<not> c_isspace (hd name)" "hd name \<noteq> CHR ''(''"
    and body: "body_ok str" "raw_state False str = Some False" "tok \<noteq> ATR_TOKEN \<Longrightarrow> plain_text str"
    and flag: "tok = FLAG_TOKEN \<longrightarrow> is_allowed_bflag name \<noteq> None \<and> is_allowed_bflag name \<noteq> Some OP_TIS \<and> map UPCASE str = str"
    and r: "delim r" "length (esc_text False name @ tok # str) < BUFFER_LEN"
  shows "parse_boolexp_A env E ((esc_text False name @ tok # str) @ r) =
    Parsed ((if tok = ATR_TOKEN then B_ATR else if tok = EVAL_TOKEN then B_EVAL else B_FLAG) name str, r)"
proof -
  let ?t = "esc_text False name @ tok # str"
  have "raw_state False [tok] = Some False"
    using tok by (auto simp: token_defs)
  then have raw: "raw_state False ?t = Some False"
    using body(2) raw_state_append [of False "[tok]" str] by (simp add: raw_state_append raw_state_esc)
  have found: "test_atr env ?t tok = TA_node ((if tok = ATR_TOKEN then B_ATR else if tok = EVAL_TOKEN then B_EVAL else B_FLAG) name str)"
    using tok name(1-3) body(1) flag r(2) by (intro test_atr_found) (auto simp: body_ok_def)
  have other: "test_atr env ?t tok' = TAE_NONE"
    if "tok' \<in> {ATR_TOKEN, EVAL_TOKEN, FLAG_TOKEN}" "tok' \<noteq> tok" "tok \<noteq> ATR_TOKEN" for tok'
    using that tok body(3) r(2) by (intro test_atr_other) auto
  have neq: "ATR_TOKEN \<noteq> EVAL_TOKEN" "ATR_TOKEN \<noteq> FLAG_TOKEN" "EVAL_TOKEN \<noteq> FLAG_TOKEN"
    by (simp_all add: token_defs)
  have "\<not> c_isspace (last ?t)" using body(1) by (simp add: body_ok_def)
  note raw_parse = parse_A_raw [OF esc_head [OF name(1,4,5)] raw r(1) this r(2), of env E]
  consider "tok = ATR_TOKEN" | "tok = EVAL_TOKEN" | "tok = FLAG_TOKEN" using tok by blast
  then show ?thesis
  proof cases
    case 1
    then show ?thesis using found by (subst raw_parse) simp
  next
    case 2
    then show ?thesis using found other [of ATR_TOKEN] neq by (subst raw_parse) simp
  next
    case 3
    then show ?thesis using found other [of ATR_TOKEN] other [of EVAL_TOKEN] neq by (subst raw_parse) simp
  qed
qed

lemma parse_thing_dbref:
  "px_loading_db env \<Longrightarrow> ref_ok env d \<Longrightarrow> length (dbref_text d) \<le> BUFFER_LEN - 1 \<Longrightarrow> delim r \<or> c_head r = EVAL_TOKEN \<Longrightarrow>
   parse_thing env (dbref_text d @ r) = Parsed (d, r)"
  by (simp add: parse_thing_def parse_R_dbref)

lemma skip_token [simp]:
  "tok \<in> {AT_TOKEN, IS_TOKEN, IN_TOKEN, OWNER_TOKEN} \<Longrightarrow> skip_whitespace (tok # s) = tok # s"
  by (auto simp: skip_whitespace_def token_defs c_isspace_def c_ord_def)

lemma parse_A_leaf:
  assumes "px_loading_db env" "printable env b" "is_leaf b" "delim r" "length (save_text outer b) < BUFFER_LEN"
  shows "parse_boolexp_A env E (save_text outer b @ r) = Parsed (b, r)"
proof (cases b)
  case (B_ATR name str)
  with assms show ?thesis
    using parse_A_named [of ATR_TOKEN name env str r E]
    by (simp add: save_text_def bstr_text_def bstr_preserve_def name_ok_def token_defs)
next
  case (B_EVAL name str)
  with assms show ?thesis
    using parse_A_named [of EVAL_TOKEN name env str r E] raw_state_plain [of str]
    by (simp add: save_text_def bstr_text_def bstr_preserve_def name_ok_def token_defs)
next
  case (B_FLAG name str)
  then obtain op where op: "is_allowed_bflag name = Some op" "op \<noteq> OP_TIS" using assms(2) by auto
  with B_FLAG assms flag_name_plain [of name] show ?thesis
    using parse_A_named [of FLAG_TOKEN name env str r E] raw_state_plain [of str]
    by (simp add: save_text_def bstr_text_def token_defs)
next
  case (B_CONST d)
  have "starts_L (dbref_text d)" "\<not> c_isspace (last (dbref_text d))"
    using dbref_no_space [of "last (dbref_text d)" d]
    by (cases rule: dbref_text_cases [of d]; auto simp: starts_L_def token_defs c_isspace_def c_ord_def)+
  with B_CONST assms show ?thesis
    using plain_dbref [of d] raw_state_plain [of "dbref_text d"]
    by (simp add: save_text_def boref_text_def parse_A_raw test_atr_plain parse_R_dbref)
next
  case (B_BOOL v)
  let ?t = "if v \<noteq> 0 then ''#TRUE'' else ''#FALSE''"
  have t: "plain_text ?t" "starts_L ?t" "\<not> c_isspace (last ?t)" "length ?t < BUFFER_LEN"
    by (auto simp: plain_text_def starts_L_def bstr_special_def token_defs c_isspace_def c_ord_def BUFFER_LEN_def)
  have "parse_boolexp_A env E (?t @ r) = parse_boolexp_R env (?t @ r)"
    using parse_A_raw [OF t(2) raw_state_plain [OF t(1)] assms(4) t(3,4)] test_atr_plain [OF t(1) _ t(4)]
    by simp
  also have "\<dots> = Parsed (B_BOOL v, r)"
    using assms B_BOOL by (intro parse_R_bool) auto
  finally show ?thesis by (simp add: B_BOOL save_text_def)
next
  case (B_IND d lock)
  let ?up = "map UPCASE lock"
  have len: "length (dbref_text d) \<le> BUFFER_LEN - 1" "length lock \<le> BUFFER_LEN - 1"
  proof -
    have "length lock \<le> length (esc_text False lock)" by (induction lock) auto
    then show "length (dbref_text d) \<le> BUFFER_LEN - 1" "length lock \<le> BUFFER_LEN - 1"
      using assms(5) by (simp_all add: B_IND save_text_def boref_text_def bstr_text_def bstr_preserve_def)
  qed
  have "parse_thing env (dbref_text d @ EVAL_TOKEN # esc_text False lock @ r)
      = Parsed (d, EVAL_TOKEN # esc_text False lock @ r)"
    using assms B_IND len by (intro parse_thing_dbref) auto
  moreover have "scan_lock_name False (esc_text False lock @ r) [] = (?up, r)"
    using scan_lock_name_esc [of "[]" lock r] len assms(4) by simp
  ultimately show ?thesis
    using assms(2) B_IND
    by (auto simp: save_text_def boref_text_def bstr_text_def bstr_preserve_def parse_boolexp_A_def
        lock_name_ok_def Let_def split: option.splits)
qed (use assms in \<open>auto simp: save_text_def boref_text_def parse_boolexp_A_def parse_boolexp_I_def
      parse_boolexp_C_def parse_boolexp_O_def parse_thing_dbref token_defs\<close>)

section \<open>Right-nested keys\<close>

text \<open>The parser nests runs of the same connective to the right.\<close>

fun app_and :: "boolexp_node \<Rightarrow> boolexp_node \<Rightarrow> boolexp_node" where
  "app_and (B_AND a b) y = B_AND a (app_and b y)"
| "app_and x y = B_AND x y"

fun app_or :: "boolexp_node \<Rightarrow> boolexp_node \<Rightarrow> boolexp_node" where
  "app_or (B_OR a b) y = B_OR a (app_or b y)"
| "app_or x y = B_OR x y"

fun right_nested :: "boolexp_node \<Rightarrow> boolexp_node" where
  "right_nested (B_AND x y) = app_and (right_nested x) (right_nested y)"
| "right_nested (B_OR x y) = app_or (right_nested x) (right_nested y)"
| "right_nested (B_NOT x) = B_NOT (right_nested x)"
| "right_nested b = b"

lemma app_and_value: "bool_value w ind p t (app_and x y) r = bool_value w ind p t (B_AND x y) r"
  by (induction x arbitrary: r) (auto split: option.splits)

lemma app_or_value: "bool_value w ind p t (app_or x y) r = bool_value w ind p t (B_OR x y) r"
  by (induction x arbitrary: r) (auto split: option.splits)

lemma right_nested_value: "bool_value w ind p t (right_nested b) r = bool_value w ind p t b r"
proof (induction b arbitrary: r)
  case (B_AND x y)
  then show ?case unfolding right_nested.simps app_and_value by (simp split: option.splits)
next
  case (B_OR x y)
  then show ?case unfolding right_nested.simps app_or_value by (simp split: option.splits)
qed simp_all

lemma app_and_assoc: "app_and (app_and x y) z = app_and x (app_and y z)"
  by (induction x) auto

lemma app_or_assoc: "app_or (app_or x y) z = app_or x (app_or y z)"
  by (induction x) auto

definition is_and :: "boolexp_node \<Rightarrow> bool" where
  "is_and b \<longleftrightarrow> (case b of B_AND _ _ \<Rightarrow> True | _ \<Rightarrow> False)"

definition is_or :: "boolexp_node \<Rightarrow> bool" where
  "is_or b \<longleftrightarrow> (case b of B_OR _ _ \<Rightarrow> True | _ \<Rightarrow> False)"

lemma app_and_other: "\<not> is_and x \<Longrightarrow> app_and x y = B_AND x y"
  by (cases x) (auto simp: is_and_def)

lemma app_or_other: "\<not> is_or x \<Longrightarrow> app_or x y = B_OR x y"
  by (cases x) (auto simp: is_or_def)

lemma right_nested_kind: "is_and (right_nested b) = is_and b" "is_or (right_nested b) = is_or b"
proof -
  have a: "is_and (app_and x y)" "\<not> is_or (app_and x y)" for x y by (cases x; simp add: is_and_def is_or_def)+
  have o: "is_or (app_or x y)" "\<not> is_and (app_or x y)" for x y by (cases x; simp add: is_and_def is_or_def)+
  show "is_and (right_nested b) = is_and b" "is_or (right_nested b) = is_or b"
    using a o by (cases b; simp add: is_and_def is_or_def)+
qed

section \<open>Parsing the text of a key\<close>

text \<open>With enough fuel, the text is parsed to the key and the rest is left.\<close>

definition parses :: "(nat \<Rightarrow> parser) \<Rightarrow> string \<Rightarrow> boolexp_node \<Rightarrow> string \<Rightarrow> bool" where
  "parses P s b r \<longleftrightarrow> (\<exists>n0. \<forall>n \<ge> n0. P n s = Parsed (b, r))"

lemma parses_Suc: "(\<And>n. n0 \<le> n \<Longrightarrow> P (Suc n) s = Parsed (b, r)) \<Longrightarrow> parses P s b r"
  unfolding parses_def
proof (intro exI [of _ "Suc n0"] allI impI)
  fix n assume P: "\<And>n. n0 \<le> n \<Longrightarrow> P (Suc n) s = Parsed (b, r)" and "Suc n0 \<le> n"
  then show "P n s = Parsed (b, r)" by (cases n) simp_all
qed

lemma skip_delim: "delim r \<Longrightarrow> skip_whitespace r = r"
  by (cases r) (auto simp: delim_def skip_whitespace_def token_defs c_isspace_def c_ord_def)

lemma delim_token: "c \<in> {AND_TOKEN, OR_TOKEN, CHR '')''} \<Longrightarrow> delim (c # s)"
  by (auto simp: delim_def token_defs)

lemma F_leaf:
  assumes "\<And>E. parse_boolexp_A env E s = Parsed (b, r)" "s \<noteq> []" "\<not> c_isspace (hd s)" "hd s \<noteq> NOT_TOKEN"
  shows "parses (parse_boolexp_F env) s b r"
  using assms skip_whitespace_id [of s "[]"] by (intro parses_Suc) (cases s; simp)

lemma F_not:
  assumes "parses (parse_boolexp_F env) s b r"
  shows "parses (parse_boolexp_F env) (NOT_TOKEN # s) (B_NOT b) r"
proof -
  have "skip_whitespace (NOT_TOKEN # s) = NOT_TOKEN # s"
    by (simp add: skip_whitespace_def token_defs c_isspace_def c_ord_def)
  moreover obtain n0 where "\<forall>n \<ge> n0. parse_boolexp_F env n s = Parsed (b, r)"
    using assms unfolding parses_def by blast
  ultimately show ?thesis by (intro parses_Suc [of n0]) simp
qed

lemma F_paren:
  assumes "parses (parse_boolexp_E env) (t @ CHR '')'' # r) b (CHR '')'' # r)"
  shows "parses (parse_boolexp_F env) ((''('' @ t @ '')'') @ r) b r"
proof -
  have skip: "skip_whitespace (CHR ''('' # s) = CHR ''('' # s" "skip_whitespace (CHR '')'' # s) = CHR '')'' # s" for s
    by (simp_all add: skip_whitespace_def c_isspace_def c_ord_def)
  obtain n0 where "\<forall>n \<ge> n0. parse_boolexp_E env n (t @ CHR '')'' # r) = Parsed (b, CHR '')'' # r)"
    using assms unfolding parses_def by blast
  then show ?thesis
    by (intro parses_Suc [of n0])
      (simp add: skip parse_boolexp_A_def parse_boolexp_I_def parse_boolexp_C_def parse_boolexp_O_def
        parse_boolexp_L_def token_defs)
qed

lemma T_single:
  assumes "parses (parse_boolexp_F env) s b r" "delim r" "c_head r \<noteq> AND_TOKEN"
  shows "parses (parse_boolexp_T env) s b r"
proof -
  obtain n0 where "\<forall>n \<ge> n0. parse_boolexp_F env n s = Parsed (b, r)"
    using assms(1) unfolding parses_def by blast
  then show ?thesis using assms(2,3) by (intro parses_Suc [of n0]) (simp add: skip_delim)
qed

lemma T_and:
  assumes "parses (parse_boolexp_F env) s b (AND_TOKEN # u)" "parses (parse_boolexp_T env) u c r"
  shows "parses (parse_boolexp_T env) s (B_AND b c) r"
proof -
  obtain n0 n1 where "\<forall>n \<ge> n0. parse_boolexp_F env n s = Parsed (b, AND_TOKEN # u)"
    "\<forall>n \<ge> n1. parse_boolexp_T env n u = Parsed (c, r)"
    using assms unfolding parses_def by blast
  then show ?thesis by (intro parses_Suc [of "max n0 n1"]) (simp add: skip_delim delim_token Let_def)
qed

lemma E_single:
  assumes "parses (parse_boolexp_T env) s b r" "delim r" "c_head r \<noteq> OR_TOKEN"
  shows "parses (parse_boolexp_E env) s b r"
proof -
  obtain n0 where "\<forall>n \<ge> n0. parse_boolexp_T env n s = Parsed (b, r)"
    using assms(1) unfolding parses_def by blast
  then show ?thesis using assms(2,3) by (intro parses_Suc [of n0]) (simp add: skip_delim)
qed

lemma E_or:
  assumes "parses (parse_boolexp_T env) s b (OR_TOKEN # u)" "parses (parse_boolexp_E env) u c r"
  shows "parses (parse_boolexp_E env) s (B_OR b c) r"
proof -
  obtain n0 n1 where "\<forall>n \<ge> n0. parse_boolexp_T env n s = Parsed (b, OR_TOKEN # u)"
    "\<forall>n \<ge> n1. parse_boolexp_E env n u = Parsed (c, r)"
    using assms unfolding parses_def by blast
  then show ?thesis by (intro parses_Suc [of "max n0 n1"]) (simp add: skip_delim delim_token Let_def)
qed

fun fits_buf :: "boolexp_node \<Rightarrow> bool" where
  "fits_buf (B_AND x y) = (fits_buf x \<and> fits_buf y)"
| "fits_buf (B_OR x y) = (fits_buf x \<and> fits_buf y)"
| "fits_buf (B_NOT x) = fits_buf x"
| "fits_buf b = (length (save_text BOOLEXP_CONST b) < BUFFER_LEN)"

lemma save_text_simps:
  "save_text outer (B_AND x y) =
     par_text (outer = BOOLEXP_NOT) (save_text BOOLEXP_AND x @ AND_TOKEN # save_text BOOLEXP_AND y)"
  "save_text outer (B_OR x y) =
     par_text (outer = BOOLEXP_NOT \<or> outer = BOOLEXP_AND) (save_text BOOLEXP_OR x @ OR_TOKEN # save_text BOOLEXP_OR y)"
  "save_text outer (B_NOT x) = NOT_TOKEN # save_text BOOLEXP_NOT x"
  by (simp_all add: save_text_def)

lemma save_text_leaf: "is_leaf b \<Longrightarrow> save_text outer b = save_text outer' b"
  by (cases b) (simp_all add: save_text_def)

lemma par_text_length: "length t \<le> length (par_text q t)"
  by (simp add: par_text_def)

lemma save_text_fits: "length (save_text outer b) < BUFFER_LEN \<Longrightarrow> fits_buf b"
proof (induction b arbitrary: outer)
  case (B_AND x y)
  have "length (save_text BOOLEXP_AND x) < BUFFER_LEN" "length (save_text BOOLEXP_AND y) < BUFFER_LEN"
    using le_less_trans [OF par_text_length B_AND.prems [unfolded save_text_simps]] by simp_all
  with B_AND.IH show ?case by simp
next
  case (B_OR x y)
  have "length (save_text BOOLEXP_OR x) < BUFFER_LEN" "length (save_text BOOLEXP_OR y) < BUFFER_LEN"
    using le_less_trans [OF par_text_length B_OR.prems [unfolded save_text_simps]] by simp_all
  with B_OR.IH show ?case by simp
next
  case (B_NOT x)
  have "length (save_text BOOLEXP_NOT x) < BUFFER_LEN"
    using B_NOT.prems by (simp add: save_text_simps)
  with B_NOT.IH show ?case by simp
qed (simp_all add: save_text_def)

lemma leaf_head:
  assumes "printable env b" "is_leaf b"
  shows "save_text outer b \<noteq> [] \<and> \<not> c_isspace (hd (save_text outer b)) \<and> hd (save_text outer b) \<noteq> NOT_TOKEN"
proof (cases b)
  case (B_FLAG name str)
  then have n: "is_allowed_bflag name \<noteq> None" using assms(1) by simp
  then have "hd name \<noteq> NOT_TOKEN"
    unfolding is_allowed_bflag_gperf bflag_gperf_def by (auto split: if_splits simp: token_defs)
  with B_FLAG flag_name_plain [OF n] show ?thesis by (simp add: save_text_def)
next
  case (B_CONST d)
  then show ?thesis
    by (cases rule: dbref_text_cases [of d]) (simp add: save_text_def boref_text_def token_defs c_isspace_def c_ord_def)
next
  case (B_ATR name str)
  then show ?thesis using assms(1)
    by (cases name) (auto simp: save_text_def bstr_text_def bstr_preserve_def name_ok_def bstr_special_def
      token_defs c_isspace_def c_ord_def)
next
  case (B_EVAL name str)
  then show ?thesis using assms(1)
    by (cases name) (auto simp: save_text_def bstr_text_def bstr_preserve_def name_ok_def bstr_special_def
      token_defs c_isspace_def c_ord_def)
qed (use assms in \<open>simp_all add: save_text_def token_defs c_isspace_def c_ord_def\<close>)

text \<open>How the text of a key parses at each level of the grammar, alone and before an operator.\<close>

definition reads_back :: "parse_env \<Rightarrow> boolexp_node \<Rightarrow> bool" where
  "reads_back env b \<longleftrightarrow>
     (\<forall>r. delim r \<longrightarrow> parses (parse_boolexp_F env) (save_text BOOLEXP_NOT b @ r) (right_nested b) r)
   \<and> (\<forall>r. delim r \<longrightarrow> c_head r \<noteq> AND_TOKEN \<longrightarrow>
        parses (parse_boolexp_T env) (save_text BOOLEXP_AND b @ r) (right_nested b) r)
   \<and> (\<forall>s c r. parses (parse_boolexp_T env) s c r \<longrightarrow>
        parses (parse_boolexp_T env) (save_text BOOLEXP_AND b @ AND_TOKEN # s) (app_and (right_nested b) c) r)
   \<and> (\<forall>r. delim r \<longrightarrow> c_head r \<noteq> AND_TOKEN \<longrightarrow> c_head r \<noteq> OR_TOKEN \<longrightarrow>
        parses (parse_boolexp_E env) (save_text BOOLEXP_OR b @ r) (right_nested b) r)
   \<and> (\<forall>s c r. parses (parse_boolexp_E env) s c r \<longrightarrow>
        parses (parse_boolexp_E env) (save_text BOOLEXP_OR b @ OR_TOKEN # s) (app_or (right_nested b) c) r)"

text \<open>A key that is no AND is a factor of one; a key that is no OR is a term of one.\<close>

lemma T_from_F:
  assumes F: "\<And>r. delim r \<Longrightarrow> parses (parse_boolexp_F env) (t @ r) b r" and b: "\<not> is_and b"
  shows "delim r \<Longrightarrow> c_head r \<noteq> AND_TOKEN \<Longrightarrow> parses (parse_boolexp_T env) (t @ r) b r"
    "parses (parse_boolexp_T env) s c r \<Longrightarrow> parses (parse_boolexp_T env) (t @ AND_TOKEN # s) (app_and b c) r"
  using T_single [OF F] T_and [OF F] b by (simp_all add: delim_token app_and_other)

lemma E_from_T:
  assumes T: "\<And>r. delim r \<Longrightarrow> c_head r \<noteq> AND_TOKEN \<Longrightarrow> parses (parse_boolexp_T env) (t @ r) b r" and b: "\<not> is_or b"
  shows "delim r \<Longrightarrow> c_head r \<noteq> AND_TOKEN \<Longrightarrow> c_head r \<noteq> OR_TOKEN \<Longrightarrow> parses (parse_boolexp_E env) (t @ r) b r"
    "parses (parse_boolexp_E env) s c r \<Longrightarrow> parses (parse_boolexp_E env) (t @ OR_TOKEN # s) (app_or b c) r"
proof -
  show "delim r \<Longrightarrow> c_head r \<noteq> AND_TOKEN \<Longrightarrow> c_head r \<noteq> OR_TOKEN \<Longrightarrow> parses (parse_boolexp_E env) (t @ r) b r"
    using E_single [OF T] by simp
  have "parses (parse_boolexp_T env) (t @ OR_TOKEN # s) b (OR_TOKEN # s)"
    using T [of "OR_TOKEN # s"] by (simp add: delim_token token_defs)
  from E_or [OF this] b show "parses (parse_boolexp_E env) s c r \<Longrightarrow> parses (parse_boolexp_E env) (t @ OR_TOKEN # s) (app_or b c) r"
    by (simp add: app_or_other)
qed

text \<open>A factor with the same text everywhere.\<close>

lemma reads_back_factor:
  assumes F: "\<And>r. delim r \<Longrightarrow> parses (parse_boolexp_F env) (t @ r) (right_nested b) r"
    and b: "\<not> is_and b" "\<not> is_or b"
    and t: "save_text BOOLEXP_NOT b = t" "save_text BOOLEXP_AND b = t" "save_text BOOLEXP_OR b = t"
  shows "reads_back env b"
proof -
  have k: "\<not> is_and (right_nested b)" "\<not> is_or (right_nested b)"
    using b by (simp_all add: right_nested_kind)
  note T = T_from_F [OF F k(1)]
  note E = E_from_T [OF T(1) k(2)]
  show ?thesis
    unfolding reads_back_def t using F T E by blast
qed

lemma parenthesised:
  assumes "\<And>r. delim r \<Longrightarrow> c_head r \<noteq> AND_TOKEN \<Longrightarrow> c_head r \<noteq> OR_TOKEN \<Longrightarrow> parses (parse_boolexp_E env) (t @ r) b r"
  shows "parses (parse_boolexp_F env) (par_text True t @ r) b r"
  using F_paren [OF assms [of "CHR '')'' # r"]] by (simp add: delim_token par_text_def token_defs)

lemma reads_back_leaf:
  assumes "px_loading_db env" "printable env b" "fits_buf b" "is_leaf b"
  shows "reads_back env b"
proof -
  let ?t = "save_text BOOLEXP_CONST b"
  have len: "length ?t < BUFFER_LEN"
    using assms(3,4) by (cases b) auto
  have t: "save_text outer b = ?t" for outer
    using save_text_leaf [OF assms(4)] .
  have "right_nested b = b"
    using assms(4) by (cases b) auto
  moreover have "parses (parse_boolexp_F env) (?t @ r) b r" if "delim r" for r
    using parse_A_leaf [OF assms(1,2,4) that len] leaf_head [OF assms(2,4), of BOOLEXP_CONST]
    by (intro F_leaf) auto
  moreover have "\<not> is_and b" "\<not> is_or b"
    using assms(4) by (cases b; simp add: is_and_def is_or_def)+
  ultimately show ?thesis
    using t by (intro reads_back_factor [where t = ?t]) simp_all
qed

lemma reads_back_key:
  assumes "px_loading_db env" "printable env b" "fits_buf b"
  shows "reads_back env b"
  using assms(2,3)
proof (induction b)
  case (B_AND x y)
  then have x: "reads_back env x" and y: "reads_back env y" by auto
  let ?b = "B_AND x y" and ?t = "save_text BOOLEXP_AND x @ AND_TOKEN # save_text BOOLEXP_AND y"
  have t: "save_text BOOLEXP_NOT ?b = par_text True ?t" "save_text BOOLEXP_AND ?b = ?t" "save_text BOOLEXP_OR ?b = ?t"
    by (simp_all add: save_text_simps par_text_def)
  have T: "parses (parse_boolexp_T env) (?t @ r) (right_nested ?b) r" if "delim r" "c_head r \<noteq> AND_TOKEN" for r
    using x y that unfolding reads_back_def by simp
  have TC: "parses (parse_boolexp_T env) (?t @ AND_TOKEN # s) (app_and (right_nested ?b) c) r"
    if "parses (parse_boolexp_T env) s c r" for s c r
    using x y that unfolding reads_back_def by (simp add: app_and_assoc)
  have k: "\<not> is_or (right_nested ?b)"
    unfolding right_nested_kind by (simp add: is_or_def)
  note E = E_from_T [OF T k]
  have F: "parses (parse_boolexp_F env) (par_text True ?t @ r) (right_nested ?b) r" for r
    using E(1) by (intro parenthesised) auto
  show ?case
    unfolding reads_back_def t using F T TC E by blast
next
  case (B_OR x y)
  then have x: "reads_back env x" and y: "reads_back env y" by auto
  let ?b = "B_OR x y" and ?t = "save_text BOOLEXP_OR x @ OR_TOKEN # save_text BOOLEXP_OR y"
  have t: "save_text BOOLEXP_NOT ?b = par_text True ?t" "save_text BOOLEXP_AND ?b = par_text True ?t"
    "save_text BOOLEXP_OR ?b = ?t"
    by (simp_all add: save_text_simps par_text_def)
  have E: "parses (parse_boolexp_E env) (?t @ r) (right_nested ?b) r"
    if "delim r" "c_head r \<noteq> AND_TOKEN" "c_head r \<noteq> OR_TOKEN" for r
    using x y that unfolding reads_back_def by simp
  have EC: "parses (parse_boolexp_E env) (?t @ OR_TOKEN # s) (app_or (right_nested ?b) c) r"
    if "parses (parse_boolexp_E env) s c r" for s c r
    using x y that unfolding reads_back_def by (simp add: app_or_assoc)
  have F: "parses (parse_boolexp_F env) (par_text True ?t @ r) (right_nested ?b) r" for r
    using E by (intro parenthesised) auto
  have k: "\<not> is_and (right_nested ?b)"
    unfolding right_nested_kind by (simp add: is_and_def)
  note T = T_from_F [OF F k]
  show ?case
    unfolding reads_back_def t using F T E EC by blast
next
  case (B_NOT x)
  then have "reads_back env x" by simp
  then have "parses (parse_boolexp_F env) (NOT_TOKEN # save_text BOOLEXP_NOT x @ r) (B_NOT (right_nested x)) r" if "delim r" for r
    using that unfolding reads_back_def by (intro F_not) simp
  then show ?case
    by (intro reads_back_factor [where t = "NOT_TOKEN # save_text BOOLEXP_NOT x"])
      (auto simp: save_text_simps is_and_def is_or_def)
qed (use assms(1) in \<open>auto intro!: reads_back_leaf\<close>)

section \<open>More fuel gives the same result\<close>

lemma parse_L_mono:
  "E s' = OutOfFuel \<or> E' s' = E s' \<Longrightarrow> s' = tl (skip_whitespace s) \<Longrightarrow>
   parse_boolexp_L env E s = OutOfFuel \<or> parse_boolexp_L env E' s = parse_boolexp_L env E s"
  by (auto simp: parse_boolexp_L_def Let_def split: parse_result.splits)

lemma parse_A_mono:
  assumes "\<And>s. E s = OutOfFuel \<or> E' s = E s"
  shows "parse_boolexp_A env E s = OutOfFuel \<or> parse_boolexp_A env E' s = parse_boolexp_A env E s"
proof -
  have L: "parse_boolexp_L env E s = OutOfFuel \<or> parse_boolexp_L env E' s = parse_boolexp_L env E s" for s
    by (rule parse_L_mono [OF assms refl])
  have O': "parse_boolexp_O env E s = OutOfFuel \<or> parse_boolexp_O env E' s = parse_boolexp_O env E s" for s
    using L by (simp add: parse_boolexp_O_def Let_def)
  have C: "parse_boolexp_C env E s = OutOfFuel \<or> parse_boolexp_C env E' s = parse_boolexp_C env E s" for s
    using O' by (simp add: parse_boolexp_C_def Let_def)
  have I: "parse_boolexp_I env E s = OutOfFuel \<or> parse_boolexp_I env E' s = parse_boolexp_I env E s" for s
    using C by (simp add: parse_boolexp_I_def Let_def)
  then show ?thesis
    by (simp add: parse_boolexp_A_def Let_def)
qed

lemma map_parsed_fuel: "map_parsed f x = OutOfFuel \<longleftrightarrow> x = OutOfFuel"
  by (cases x rule: map_parsed.cases [where x = "(f, x)" for x]) auto

lemma parse_mono:
  "(parse_boolexp_F env n s = OutOfFuel \<or> parse_boolexp_F env (Suc n) s = parse_boolexp_F env n s)
 \<and> (parse_boolexp_T env n s = OutOfFuel \<or> parse_boolexp_T env (Suc n) s = parse_boolexp_T env n s)
 \<and> (parse_boolexp_E env n s = OutOfFuel \<or> parse_boolexp_E env (Suc n) s = parse_boolexp_E env n s)"
proof (induction n arbitrary: s)
  case (Suc n)
  let ?s = "skip_whitespace s"
  have F: "parse_boolexp_F env (Suc n) s = OutOfFuel \<or> parse_boolexp_F env (Suc (Suc n)) s = parse_boolexp_F env (Suc n) s"
    unfolding parse_boolexp_F.simps(2) [of env "Suc n" s] parse_boolexp_F.simps(2) [of env n s] Let_def
    using Suc [of "tl ?s"] parse_A_mono [of "parse_boolexp_E env n" "parse_boolexp_E env (Suc n)" env ?s] Suc
    by (cases "c_head ?s = NOT_TOKEN"; cases "parse_boolexp_F env n (tl ?s)")
      (simp_all del: parse_boolexp_F.simps parse_boolexp_T.simps parse_boolexp_E.simps)
  have T: "parse_boolexp_T env (Suc n) s = OutOfFuel \<or> parse_boolexp_T env (Suc (Suc n)) s = parse_boolexp_T env (Suc n) s"
  proof (cases "parse_boolexp_F env n s")
    case (Parsed x)
    moreover obtain b rest where "x = (b, rest)" by (cases x)
    ultimately show ?thesis
      unfolding parse_boolexp_T.simps(2) [of env "Suc n" s] parse_boolexp_T.simps(2) [of env n s] Let_def
      using Suc [of s] Suc [of "tl (skip_whitespace rest)"]
      by (cases "c_head (skip_whitespace rest) = AND_TOKEN"; cases "parse_boolexp_T env n (tl (skip_whitespace rest))")
        (simp_all del: parse_boolexp_F.simps parse_boolexp_T.simps parse_boolexp_E.simps)
  qed (use Suc [of s] in \<open>auto simp: parse_boolexp_T.simps(2) [of env "Suc n" s] parse_boolexp_T.simps(2) [of env n s]
        simp del: parse_boolexp_F.simps parse_boolexp_T.simps parse_boolexp_E.simps\<close>) 
  have E: "parse_boolexp_E env (Suc n) s = OutOfFuel \<or> parse_boolexp_E env (Suc (Suc n)) s = parse_boolexp_E env (Suc n) s"
  proof (cases "parse_boolexp_T env n s")
    case (Parsed x)
    moreover obtain b rest where "x = (b, rest)" by (cases x)
    ultimately show ?thesis
      unfolding parse_boolexp_E.simps(2) [of env "Suc n" s] parse_boolexp_E.simps(2) [of env n s] Let_def
      using Suc [of s] Suc [of "tl (skip_whitespace rest)"]
      by (cases "c_head (skip_whitespace rest) = OR_TOKEN"; cases "parse_boolexp_E env n (tl (skip_whitespace rest))")
        (simp_all del: parse_boolexp_F.simps parse_boolexp_T.simps parse_boolexp_E.simps)
  qed (use Suc [of s] in \<open>auto simp: parse_boolexp_E.simps(2) [of env "Suc n" s] parse_boolexp_E.simps(2) [of env n s]
        simp del: parse_boolexp_F.simps parse_boolexp_T.simps parse_boolexp_E.simps\<close>) 
  from F T E show ?case by blast
qed simp

lemma parse_E_more_fuel:
  assumes "parse_boolexp_E env n s \<noteq> OutOfFuel" "n \<le> m"
  shows "parse_boolexp_E env m s = parse_boolexp_E env n s"
  using assms(2)
proof (induction m rule: dec_induct)
  case (step k)
  then show ?case using parse_mono [of env k s] assms(1) by auto
qed simp

section \<open>Saving and loading\<close>

lemma no_nul_esc: "no_nul s \<Longrightarrow> no_nul (esc_text p s)"
  by (induction s) (auto simp: no_nul_def token_defs)

lemma no_nul_append: "no_nul (s @ t) \<longleftrightarrow> no_nul s \<and> no_nul t"
  by (auto simp: no_nul_def)

lemma no_nul_Cons: "no_nul (c # s) \<longleftrightarrow> c \<noteq> NUL \<and> no_nul s"
  by (auto simp: no_nul_def)

lemma no_nul_dbref: "no_nul (dbref_text d)"
proof -
  have "ref_char NUL = False" by (simp add: ref_char_def c_isdigit_def c_ord_def)
  then show ?thesis
    by (cases rule: dbref_text_cases [of d]) (auto simp: no_nul_def)
qed

lemma no_nul_save_text: "node_ok b \<Longrightarrow> no_nul (save_text outer b)"
proof (induction b arbitrary: outer)
  case (B_FLAG name str)
  then have "no_nul name"
    by (auto simp: is_allowed_bflag_gperf bflag_gperf_def no_nul_def split: if_splits)
  with B_FLAG show ?case
    by (auto simp: save_text_def bstr_text_def no_nul_append no_nul_Cons no_nul_esc token_defs split: option.splits)
qed (auto simp: save_text_def par_text_def no_nul_append no_nul_Cons no_nul_dbref boref_text_def bstr_text_def
      no_nul_esc token_defs)

lemma save_text_CONST: "save_text BOOLEXP_CONST b = save_text BOOLEXP_OR b"
  by (cases b) (simp_all add: save_text_def)

lemma parse_save_text:
  assumes "env_ok env" "px_loading_db env" "printable env b" "node_ok b"
    and "length (save_text BOOLEXP_CONST b) < BUFFER_LEN"
  defines "t \<equiv> save_text BOOLEXP_CONST b"
  shows "parse_boolexp_E env (parse_fuel t) t = Parsed (right_nested b, [])"
proof -
  have "reads_back env b"
    using assms(2,3) save_text_fits [OF assms(5)] by (rule reads_back_key)
  moreover have "delim []" "c_head [] \<noteq> AND_TOKEN" "c_head [] \<noteq> OR_TOKEN"
    by (simp_all add: delim_def token_defs)
  ultimately have "parses (parse_boolexp_E env) (save_text BOOLEXP_OR b @ []) (right_nested b) []"
    unfolding reads_back_def by blast
  then obtain n0 where n0: "\<And>n. n0 \<le> n \<Longrightarrow> parse_boolexp_E env n t = Parsed (right_nested b, [])"
    by (auto simp: parses_def t_def save_text_CONST)
  have "parse_boolexp_E env (parse_fuel t) t \<noteq> OutOfFuel"
    using parse_boolexp_result [OF assms(1) no_nul_save_text [OF assms(4)] assms(5)] by (auto simp: t_def)
  from parse_E_more_fuel [OF this, of "max n0 (parse_fuel t)"] n0 [of "max n0 (parse_fuel t)"] show ?thesis
    by simp
qed

lemma printable_optimize: "printable env b \<Longrightarrow> printable env (optimize_bvm_ast b)"
proof (induction b rule: measure_induct_rule [of size])
  case (less b)
  show ?case
  proof (cases b)
    case (B_OR x y)
    with less show ?thesis by (cases rule: optimize_or_cases [of x y]) auto
  next
    case (B_AND x y)
    with less show ?thesis by auto
  next
    case (B_NOT x)
    with less show ?thesis
      by (cases x) (auto simp: bit_value_def simp del: optimize_bvm_ast.simps(1,2,4-))
  qed (use less in simp_all)
qed

lemma key_text_dbref: "key_text un pl UB_DBREF outer b = save_text outer b"
  unfolding save_text_def by (induction b arbitrary: outer) (simp_all add: boref_text_def)

section \<open>A lock too long to store\<close>

text \<open>A key of \<open>n + 1\<close> alternatives, and its text of four characters each.\<close>

fun or_chain :: "nat \<Rightarrow> boolexp_node" where
  "or_chain 0 = B_IS 1"
| "or_chain (Suc n) = B_OR (B_IS 1) (or_chain n)"

fun chain_text :: "nat \<Rightarrow> string" where
  "chain_text 0 = ''=#1''"
| "chain_text (Suc n) = ''=#1|'' @ chain_text n"

lemma chain_text_length: "length (chain_text n) = 4 * n + 3"
  by (induction n) auto

lemma chain_text_no_nul: "no_nul (chain_text n)"
  by (induction n) (auto simp: no_nul_def)

lemma parse_A_is:
  assumes "\<not> px_loading_db env" "px_match_result env ''#1'' = 1" "delim r"
  shows "parse_boolexp_A env E (''=#1'' @ r) = Parsed (B_IS 1, r)"
proof -
  have "plain_text ''#1''" by (simp add: plain_text_def bstr_special_def token_defs)
  from scan_object_plain [OF this, of "[]" r] assms(3) have "scan_object False (''#1'' @ r) [] = (''#1'', r)"
    by (simp add: BUFFER_LEN_def)
  moreover have "strip_trailing ''#1'' = ''#1''"
    by (intro strip_trailing_id) (simp add: c_isspace_def c_ord_def)
  ultimately have "parse_thing env (''#1'' @ r) = Parsed (1, r)"
    using assms(1,2) by (simp add: parse_thing_def parse_boolexp_R_def NOTHING_def AMBIGUOUS_def Let_def)
  moreover have "skip_whitespace (CHR ''='' # s) = CHR ''='' # s" for s
    by (simp add: skip_whitespace_def c_isspace_def c_ord_def)
  ultimately show ?thesis
    by (simp add: parse_boolexp_A_def parse_boolexp_I_def token_defs)
qed

lemma parses_chain:
  assumes "\<not> px_loading_db env" "px_match_result env ''#1'' = 1"
  shows "parses (parse_boolexp_E env) (chain_text n) (or_chain n) []"
proof (induction n)
  have F: "parses (parse_boolexp_F env) (''=#1'' @ r) (B_IS 1) r" if "delim r" for r
    using parse_A_is [OF assms that]
    by (intro F_leaf) (simp_all add: token_defs c_isspace_def c_ord_def)
  {
    case 0
    have "delim []" by (simp add: delim_def)
    with F [OF this] show ?case
      by (auto intro!: E_single T_single simp: token_defs)
  next
    case (Suc n)
    have "delim (OR_TOKEN # chain_text n)" by (simp add: delim_token)
    with F [OF this] have "parses (parse_boolexp_T env) (''=#1'' @ OR_TOKEN # chain_text n) (B_IS 1) (OR_TOKEN # chain_text n)"
      by (intro T_single) (auto simp: token_defs)
    from E_or [OF this Suc] show ?case by (simp add: token_defs)
  }
qed

lemma or_chain_ok: "node_ok (or_chain n)" "optimize_bvm_ast (or_chain n) = or_chain n"
proof -
  show "node_ok (or_chain n)" by (induction n) auto
  have c: "or_chain n \<noteq> B_CARRY d" for n d by (cases n) auto
  show "optimize_bvm_ast (or_chain n) = or_chain n"
  proof (induction n)
    case (Suc n)
    with c [of n] show ?case by (cases rule: optimize_or_cases [of "B_IS 1" "or_chain n"]) auto
  qed simp
qed

lemma or_chain_size: "10 * n + 10 \<le> lock_size (or_chain n)"
proof -
  let ?e = "\<lparr>ba_insns = [], ba_strs = [], ba_label = 0\<rparr> :: bvm_asm"
  let ?g = "generate_bvm_asm1 ?e (or_chain n) BOOLEXP_CONST"
  have "vasm (ba_strs ?g) ?g = vcode BOOLEXP_CONST (or_chain n)"
    using vasm_generate [of ?e "or_chain n" BOOLEXP_CONST "ba_strs ?g"] or_chain_ok(1) by (simp add: strs_ok_def vasm_def)
  then have "length (code_insns (ba_insns ?g)) = length (vcode BOOLEXP_CONST (or_chain n))"
    unfolding vasm_def by (metis length_map)
  moreover have "length (vcode outer (or_chain n)) = 2 * n + 1" if "outer = BOOLEXP_CONST \<or> outer = BOOLEXP_OR" for outer
    using that by (induction n arbitrary: outer) (auto simp: vpar_def)
  ultimately show ?thesis
    by (simp add: lock_size_def insn_count_def or_chain_ok generate_bvm_asm_def is_label_def INSN_LEN_def)
qed

lemma chain_panics:
  assumes "env_ok env" "\<not> px_loading_db env" "px_match_result env ''#1'' = 1" "n \<le> 2046" "1638 \<le> n"
  shows "parse_boolexp_E env (parse_fuel (chain_text n)) (chain_text n) = Parsed (or_chain n, [])"
    "parse_boolexp_d env (chain_text n) = None"
proof -
  let ?t = "chain_text n"
  have len: "length ?t < BUFFER_LEN"
    using assms(4) by (simp add: chain_text_length BUFFER_LEN_def)
  obtain n0 where n0: "\<And>m. n0 \<le> m \<Longrightarrow> parse_boolexp_E env m ?t = Parsed (or_chain n, [])"
    using parses_chain [OF assms(2,3)] unfolding parses_def by blast
  have "parse_boolexp_E env (parse_fuel ?t) ?t \<noteq> OutOfFuel"
    using parse_boolexp_result [OF assms(1) chain_text_no_nul len] by auto
  from parse_E_more_fuel [OF this, of "max n0 (parse_fuel ?t)"] n0 [of "max n0 (parse_fuel ?t)"]
  show p: "parse_boolexp_E env (parse_fuel ?t) ?t = Parsed (or_chain n, [])" by simp
  obtain bc where "compile_boolexp (or_chain n) = Some bc"
    using compile_total [OF or_chain_ok(1)] by blast
  moreover from this have "MAX_CHUNK_LEN < length bc"
    using compile_length [OF or_chain_ok(1)] or_chain_size [of n] assms(5) by (simp add: MAX_CHUNK_LEN_def)
  ultimately show "parse_boolexp_d env ?t = None"
    by (simp add: parse_boolexp_d_def p chunk_create_def)
qed

section \<open>Properties\<close>

text \<open>C1: a lock survives saving and loading the database: the text that \<open>unparse_boolexp\<close> writes
  for a compiled lock is parsed, with nothing left over, to a key with the same value for every
  player, target and database, whenever the text fits the buffer and its names are still
  accepted; only runs of the same connective are nested differently.\<close>

theorem lock_survives_save_and_load:
  assumes "env_ok env" "px_loading_db env" "printable env b" "node_ok b" "lock_size b < 2 ^ 31"
    and "length (save_text BOOLEXP_CONST (optimize_bvm_ast b)) < BUFFER_LEN"
  shows "\<exists>t c. unparse_boolexp un pl (compiled (Some b)) UB_DBREF = Some t
    \<and> parse_boolexp_E env (parse_fuel t) t = Parsed (c, [])
    \<and> (\<forall>w ind p target. (\<forall>d s v. ind d s = Some v \<longrightarrow> bit_value v) \<longrightarrow>
         bool_value w ind p target c 0 = bool_value w ind p target b 0)"
proof -
  let ?b = "optimize_bvm_ast b" and ?t = "save_text BOOLEXP_CONST (optimize_bvm_ast b)"
  have "unparse_boolexp un pl (compiled (Some b)) UB_DBREF = Some ?t"
    using unparse_compiled_text [OF assms(4,5), of un pl UB_DBREF] assms(6) by (simp add: key_text_dbref)
  moreover have "parse_boolexp_E env (parse_fuel ?t) ?t = Parsed (right_nested ?b, [])"
    using assms by (intro parse_save_text printable_optimize optimize_bvm_ast_ok)
  moreover have "bool_value w ind p target (right_nested ?b) 0 = bool_value w ind p target b 0"
    if "\<forall>d s v. ind d s = Some v \<longrightarrow> bit_value v" for w ind p target
    using that node_ok_consts [OF assms(4)]
    unfolding right_nested_value by (intro optimize_bvm_ast_value) (auto simp: bit_value_def)
  ultimately show ?thesis by blast
qed

lemma lock_survives_save_and_load_witness:
  "\<exists>t c. unparse_boolexp (\<lambda>p d. []) 0
       (compiled (Some (B_AND (B_OR (B_IS 12) (B_ATR ''SEX'' ''M*'')) (B_NOT (B_IND 3 ''USE''))))) UB_DBREF = Some t
    \<and> parse_boolexp_E sample_env (parse_fuel t) t = Parsed (c, [])"
proof -
  let ?b = "B_AND (B_OR (B_IS 12) (B_ATR ''SEX'' ''M*'')) (B_NOT (B_IND 3 ''USE''))"
  have text12: "dbref_text 12 = ''#12''" "dbref_text 3 = ''#3''"
    by (simp_all add: dbref_text_def long_text_def clamp_base_def push_digits.simps digit_char_def)
  have "printable sample_env ?b"
    by (simp add: ref_ok_def text12 sample_env_def name_ok_def lock_name_ok_def body_ok_def token_defs
        c_isspace_def c_ord_def UPCASE_def c_islower_def strip_trailing_def)
  moreover have "lock_size ?b < 2 ^ 31"
    by (simp add: insn_count_def lock_size_def generate_bvm_asm_def gen_label_id_def paren_if_def
        append_insn_def is_label_def INSN_LEN_def Let_def)
  moreover have "length (save_text BOOLEXP_CONST (optimize_bvm_ast ?b)) < BUFFER_LEN"
    by (simp add: save_text_def par_text_def boref_text_def text12 bstr_text_def bstr_preserve_def bstr_special_def
        token_defs BUFFER_LEN_def)
  moreover have "px_loading_db sample_env" "node_ok ?b"
    by (simp_all add: sample_env_def no_nul_def)
  ultimately show ?thesis
    using lock_survives_save_and_load [OF sample_env_ok, of ?b "\<lambda>p d. []" 0] by blast
qed

text \<open>C8: there is a lock text that fits the input buffer and parses, but whose bytecode is longer than
  the largest chunk, so that setting the lock ends in the panic of \<open>chunk_create\<close>: 1639
  alternatives \<open>=#1\<close> are enough.\<close>

theorem long_lock_panics:
  assumes "env_ok env" "\<not> px_loading_db env" "px_match_result env ''#1'' = 1"
  shows "\<exists>buf ast. length buf < BUFFER_LEN \<and> parse_boolexp_E env (parse_fuel buf) buf = Parsed (ast, [])
    \<and> MAX_CHUNK_LEN < lock_size ast \<and> parse_boolexp_d env buf = None"
proof (intro exI conjI)
  let ?n = 1638
  show "length (chain_text ?n) < BUFFER_LEN"
    by (simp add: chain_text_length BUFFER_LEN_def)
  show "parse_boolexp_E env (parse_fuel (chain_text ?n)) (chain_text ?n) = Parsed (or_chain ?n, [])"
    "parse_boolexp_d env (chain_text ?n) = None"
    using chain_panics [OF assms, of ?n] by simp_all
  show "MAX_CHUNK_LEN < lock_size (or_chain ?n)"
    using or_chain_size [of ?n] by (simp add: MAX_CHUNK_LEN_def)
qed

lemma long_lock_panics_witness:
  "\<exists>buf ast. length buf < BUFFER_LEN
    \<and> parse_boolexp_E (sample_env\<lparr>px_loading_db := False, px_match_result := \<lambda>s. 1\<rparr>) (parse_fuel buf) buf = Parsed (ast, [])
    \<and> parse_boolexp_d (sample_env\<lparr>px_loading_db := False, px_match_result := \<lambda>s. 1\<rparr>) buf = None"
proof -
  let ?env = "sample_env\<lparr>px_loading_db := False, px_match_result := \<lambda>s. 1\<rparr>"
  have "env_ok ?env" by (simp add: env_ok_def sample_env_def)
  from long_lock_panics [OF this] show ?thesis by auto
qed

end
