(* ===== verification/Mush_Wild.thy ===== *)
theory Mush_Wild imports Mush_Tokens begin

text \<open>
  Pattern matching of \<open>wild.c\<close>: \<open>wild_match_test\<close> with its loop and the positions it records,
  \<open>quick_wild\<close> over it, and \<open>remove_markup\<close> and \<open>has_markup\<close> of \<open>markup.c\<close>, which
  it works on.  The loop is proved equal to the relation \<open>glob_match\<close>; \<open>Mush_Wild_Captures\<close> adds what
  the wildcards captured.
\<close>

section \<open>Definitions\<close>

text \<open>\<open>remove_markup\<close> of \<open>markup.c\<close>: ANSI codes end with an \<open>m\<close>, tags with \<open>TAG_END\<close>.\<close>

function strip_markup :: "string \<Rightarrow> buf \<Rightarrow> buf" where
  "strip_markup [] b = b"
| "strip_markup (c # q) b =
     (if c = ESC_CHAR then strip_markup (drop 1 (dropWhile (\<lambda>x. x \<noteq> CHR ''m'') (c # q))) b
      else if c = TAG_START then strip_markup (drop 1 (dropWhile (\<lambda>x. x \<noteq> TAG_END) (c # q))) b
      else strip_markup q (snd (safe_chr c b)))"
  by pat_completeness auto
termination
proof (relation "measure (\<lambda>(q, b). length q)", goal_cases)
  case (2 c q b)
  then show ?case using length_dropWhile_le [of "\<lambda>x. x \<noteq> CHR ''m''" "c # q"] by (auto simp: ESC_CHAR_def)
next
  case (3 c q b)
  then show ?case using length_dropWhile_le [of "\<lambda>x. x \<noteq> TAG_END" "c # q"] by (auto simp: TAG_START_def TAG_END_def)
qed simp_all

declare strip_markup.simps(2) [simp del]

definition remove_markup :: "string option \<Rightarrow> string option" where
  "remove_markup orig = map_option (\<lambda>s. strip_markup s []) orig"

definition has_markup :: "string \<Rightarrow> bool" where
  "has_markup s \<longleftrightarrow> ESC_CHAR \<in> set s \<or> TAG_START \<in> set s \<or> TAG_END \<in> set s"

text \<open>
  The variables of \<open>wild_match_test\<close>; \<open>ws_matches\<close> is the array \<open>matches\<close> as pairs of a start and
  a length.  A write beyond \<open>nmatches\<close> is skipped, as \<open>list_update\<close> does.
\<close>

record wild_state =
  ws_i :: nat
  ws_pi :: nat
  ws_pbase :: nat
  ws_sbase :: nat
  ws_globbing :: bool
  ws_matchi :: nat
  ws_mbase :: nat
  ws_matches :: "(int \<times> int) list"

definition pchar :: "string \<Rightarrow> nat \<Rightarrow> char" where
  "pchar pat k = c_head (drop k pat)"

text \<open>The loop over a run of \<open>*\<close> in the rest of the pattern.\<close>

fun skip_globs :: "string \<Rightarrow> wild_state \<Rightarrow> wild_state" where
  "skip_globs [] w = w"
| "skip_globs (c # p) w =
     (if c = CHR ''*''
      then skip_globs p
        (w\<lparr>ws_pbase := ws_pbase w + 1, ws_mbase := ws_matchi w, ws_matchi := ws_matchi w + 1,
           ws_matches := (ws_matches w)[ws_matchi w := (int (ws_sbase w), 0)]\<rparr>)
      else w)"

definition take_any :: "wild_state \<Rightarrow> wild_state" where
  "take_any w =
     w\<lparr>ws_matches := (ws_matches w)[ws_matchi w := (int (ws_sbase w + ws_i w), 1)],
       ws_matchi := ws_matchi w + 1, ws_pi := ws_pi w + 1, ws_i := ws_i w + 1\<rparr>"

definition start_glob :: "string \<Rightarrow> wild_state \<Rightarrow> wild_state" where
  "start_glob pat w =
     (let w = w\<lparr>ws_pbase := ws_pbase w + ws_pi w, ws_sbase := ws_sbase w + ws_i w, ws_globbing := True,
                ws_i := 0, ws_pi := 0\<rparr>
      in skip_globs (drop (ws_pbase w) pat) w)"

definition take_literal :: "nat \<Rightarrow> wild_state \<Rightarrow> wild_state" where
  "take_literal n w = w\<lparr>ws_pi := ws_pi w + n, ws_i := ws_i w + 1\<rparr>"

definition longer_glob :: "wild_state \<Rightarrow> wild_state" where
  "longer_glob w =
     (let m = ws_mbase w in
      w\<lparr>ws_matches := (ws_matches w)[m := (fst (ws_matches w ! m), snd (ws_matches w ! m) + 1)],
        ws_sbase := ws_sbase w + 1, ws_i := 0, ws_pi := 0, ws_matchi := m + 1\<rparr>)"

definition rest_of_string :: "string \<Rightarrow> wild_state \<Rightarrow> (int \<times> int) list" where
  "rest_of_string str w =
     (let m = ws_mbase w in
      (ws_matches w)[m := (fst (ws_matches w ! m), int (length str) - int (ws_sbase w))])"

lemma skip_globs_simps [simp]:
  "ws_i (skip_globs p w) = ws_i w" "ws_pi (skip_globs p w) = ws_pi w"
  "ws_sbase (skip_globs p w) = ws_sbase w" "ws_globbing (skip_globs p w) = ws_globbing w"
  "ws_pbase (skip_globs p w) = ws_pbase w + length (takeWhile (\<lambda>c. c = CHR ''*'') p)"
  by (induction p w rule: skip_globs.induct) auto

function wild_loop :: "string \<Rightarrow> string \<Rightarrow> wild_state \<Rightarrow> bool \<times> (int \<times> int) list" where
  "wild_loop pat str w =
     (if length str \<le> ws_sbase w + ws_i w
      then (dropWhile (\<lambda>c. c = CHR ''*'') (drop (ws_pbase w + ws_pi w) pat) = [], ws_matches w)
      else
        let k = ws_pbase w + ws_pi w; c = pchar pat k in
        if c = CHR ''?'' then wild_loop pat str (take_any w)
        else if c = CHR ''*'' then
          (if drop (ws_pbase (start_glob pat w)) pat = [] then (True, rest_of_string str (start_glob pat w))
           else wild_loop pat str (start_glob pat w))
        else
          let n = (if c = CHR 0x5C then 1 else 0) in
          if c \<noteq> NUL \<and> str ! (ws_sbase w + ws_i w) = pchar pat (k + n) then wild_loop pat str (take_literal (n + 1) w)
          else if ws_globbing w then wild_loop pat str (longer_glob w)
          else (False, ws_matches w))"
  by pat_completeness auto
termination
proof (relation "measures [\<lambda>(pat, str, w). length str - ws_sbase w, \<lambda>(pat, str, w). length pat - ws_pbase w,
    \<lambda>(pat, str, w). length str - ws_i w]", goal_cases)
  case (3 pat str w k c)
  then have "drop k pat \<noteq> []" "hd (drop k pat) = CHR ''*''"
    by (auto simp: pchar_def c_head_def split: list.splits)
  then show ?case
    using 3 by (cases "drop k pat") (auto simp: start_glob_def Let_def)
qed (auto simp: take_any_def take_literal_def longer_glob_def Let_def)

declare wild_loop.simps [simp del]

text \<open>The copy of a string the loop works on, in upper case unless the match is case-sensitive.\<close>

definition wild_text :: "bool \<Rightarrow> string \<Rightarrow> string" where
  "wild_text cs s = (if cs then (\<lambda>t. t) else map UPCASE) (fit (strip_markup s []))"

definition wild_start :: "nat \<Rightarrow> wild_state" where
  "wild_start nmatches =
     \<lparr>ws_i = 0, ws_pi = 0, ws_pbase = 0, ws_sbase = 0, ws_globbing = False, ws_matchi = 0, ws_mbase = 0,
      ws_matches = replicate nmatches (-1, 0)\<rparr>"

definition wild_match_test :: "string \<Rightarrow> string \<Rightarrow> bool \<Rightarrow> nat \<Rightarrow> bool \<times> (int \<times> int) list" where
  "wild_match_test pat str cs nmatches = wild_loop (wild_text cs pat) (wild_text cs str) (wild_start nmatches)"

definition quick_wild_new :: "string \<Rightarrow> string \<Rightarrow> bool \<Rightarrow> bool" where
  "quick_wild_new tstr dstr cs = fst (wild_match_test tstr dstr cs 0)"

definition quick_wild :: "string \<Rightarrow> string \<Rightarrow> bool" where
  "quick_wild tstr dstr = quick_wild_new tstr dstr False"

section \<open>What a pattern matches\<close>

text \<open>
  The reference: \<open>*\<close> stands for any string, \<open>?\<close> for any character, and a backslash makes the next
  character stand for itself; a backslash at the end matches nothing.
\<close>

function glob_match :: "string \<Rightarrow> string \<Rightarrow> bool" where
  "glob_match [] s = (s = [])"
| "glob_match (c # p) s =
     (if c = CHR ''*'' then glob_match p s \<or> (case s of [] \<Rightarrow> False | _ # s' \<Rightarrow> glob_match (c # p) s')
      else if c = CHR ''?'' then (case s of [] \<Rightarrow> False | _ # s' \<Rightarrow> glob_match p s')
      else if c = CHR 0x5C then
        (case (p, s) of (d # q, e # s') \<Rightarrow> e = d \<and> glob_match q s' | _ \<Rightarrow> False)
      else (case s of [] \<Rightarrow> False | e # s' \<Rightarrow> e = c \<and> glob_match p s'))"
  by pat_completeness auto
termination
  by (relation "measure (\<lambda>(p, s). length p + length s)") auto

declare glob_match.simps(2) [simp del]

lemma glob_star: "glob_match (CHR ''*'' # p) s \<longleftrightarrow> (\<exists>t. suffix t s \<and> glob_match p t)"
proof (induction s)
  case Nil
  show ?case by (subst glob_match.simps) simp
next
  case (Cons c s)
  then show ?case by (subst glob_match.simps) (auto simp: suffix_Cons)
qed

lemma glob_step:
  "glob_match (CHR ''?'' # p) (d # s) = glob_match p s" "\<not> glob_match (CHR ''?'' # p) []"
  "glob_match (CHR 0x5C # c # p) (d # s) = (d = c \<and> glob_match p s)" "\<not> glob_match (CHR 0x5C # c # p) []"
  "\<not> glob_match [CHR 0x5C] s"
  "c \<notin> {CHR ''*'', CHR ''?'', CHR 0x5C} \<Longrightarrow> glob_match (c # p) (d # s) = (d = c \<and> glob_match p s)"
  "c \<notin> {CHR ''*'', CHR ''?'', CHR 0x5C} \<Longrightarrow> \<not> glob_match (c # p) []"
  by (simp_all add: glob_match.simps)

text \<open>A part of the pattern without \<open>*\<close>, token by token, and the text it matched.\<close>

inductive rigid :: "string \<Rightarrow> string \<Rightarrow> bool" where
  Nil: "rigid [] []"
| Any: "rigid p t \<Longrightarrow> rigid (p @ [CHR ''?'']) (t @ [d])"
| Escaped: "rigid p t \<Longrightarrow> rigid (p @ [CHR 0x5C, d]) (t @ [d])"
| Literal: "rigid p t \<Longrightarrow> d \<notin> {CHR ''*'', CHR ''?'', CHR 0x5C} \<Longrightarrow> rigid (p @ [d]) (t @ [d])"

lemma rigid_glob: "rigid p t \<Longrightarrow> glob_match (p @ q) (t @ s) = glob_match q s"
  by (induction arbitrary: q s rule: rigid.induct) (simp_all add: glob_step)

lemma split_snoc:
  "length t' = length t \<Longrightarrow> glob_match q v \<Longrightarrow>
   \<exists>t'' v'. t' @ e # v = t'' @ v' \<and> length t'' = Suc (length t) \<and> glob_match q v'"
  by (intro exI [of _ "t' @ [e]"] exI [of _ v]) simp

lemma rigid_split:
  "rigid p t \<Longrightarrow> glob_match (p @ q) u \<Longrightarrow> \<exists>t' v. u = t' @ v \<and> length t' = length t \<and> glob_match q v"
proof (induction arbitrary: q u rule: rigid.induct)
  case (Any p t d)
  from Any.IH [of "CHR ''?'' # q" u] Any.prems obtain t' v where
    "u = t' @ v" "length t' = length t" "glob_match (CHR ''?'' # q) v" by auto
  then show ?case by (cases v) (use split_snoc in \<open>auto simp: glob_step\<close>)
next
  case (Escaped p t d)
  from Escaped.IH [of "CHR 0x5C # d # q" u] Escaped.prems obtain t' v where
    "u = t' @ v" "length t' = length t" "glob_match (CHR 0x5C # d # q) v" by auto
  then show ?case by (cases v) (use split_snoc in \<open>auto simp: glob_step\<close>)
next
  case (Literal p t d)
  from Literal.IH [of "d # q" u] Literal.prems obtain t' v where
    "u = t' @ v" "length t' = length t" "glob_match (d # q) v" by auto
  with Literal.hyps show ?case by (cases v) (use split_snoc in \<open>auto simp: glob_step\<close>)
qed simp

text \<open>Taking the leftmost place for a part loses nothing: the next \<open>*\<close> takes up what is left.\<close>

lemma glob_greedy:
  assumes "rigid p t"
  shows "glob_match (CHR ''*'' # p @ CHR ''*'' # q) (t @ s) = glob_match (CHR ''*'' # q) s"
proof
  assume "glob_match (CHR ''*'' # p @ CHR ''*'' # q) (t @ s)"
  then obtain u where u: "suffix u (t @ s)" "glob_match (p @ CHR ''*'' # q) u"
    by (auto simp: glob_star)
  then obtain t' v where v: "u = t' @ v" "length t' = length t" "glob_match (CHR ''*'' # q) v"
    using rigid_split [OF assms] by blast
  then obtain w where w: "suffix w v" "glob_match q w" by (auto simp: glob_star)
  from u(1) v(1) obtain zs where "t @ s = (zs @ t') @ v" by (auto simp: suffix_def)
  then have "suffix v (t @ s)" "length v \<le> length s"
    using v(2) by (auto simp: suffix_def dest: arg_cong [of _ _ length])
  then have "suffix v s"
    by (intro suffix_length_suffix [of v "t @ s" s]) (simp_all add: suffix_def)
  with w show "glob_match (CHR ''*'' # q) s"
    unfolding glob_star using suffix_order.trans by blast
next
  assume "glob_match (CHR ''*'' # q) s"
  then show "glob_match (CHR ''*'' # p @ CHR ''*'' # q) (t @ s)"
    using rigid_glob [OF assms, of "CHR ''*'' # q" s] by (auto simp: glob_star)
qed

lemma glob_stars: "glob_match q [] \<longleftrightarrow> dropWhile (\<lambda>c. c = CHR ''*'') q = []"
proof (induction q)
  case (Cons c q)
  then show ?case by (subst glob_match.simps) (simp split: list.splits)
qed simp

section \<open>The loop is right\<close>

definition wild_inv :: "string \<Rightarrow> string \<Rightarrow> wild_state \<Rightarrow> bool" where
  "wild_inv P S w \<longleftrightarrow> ws_sbase w + ws_i w \<le> length S \<and> ws_pbase w + ws_pi w \<le> length P
     \<and> rigid (take (ws_pi w) (drop (ws_pbase w) P)) (take (ws_i w) (drop (ws_sbase w) S))
     \<and> glob_match P S =
         glob_match ((if ws_globbing w then ''*'' else []) @ drop (ws_pbase w) P) (drop (ws_sbase w) S)"

lemma skip_star_run:
  "glob_match (CHR ''*'' # p) s = glob_match (CHR ''*'' # dropWhile (\<lambda>c. c = CHR ''*'') p) s"
proof (induction p)
  case (Cons c p)
  have "glob_match (CHR ''*'' # CHR ''*'' # p) s = glob_match (CHR ''*'' # p) s"
    using glob_greedy [OF rigid.Nil, of p s] by simp
  with Cons show ?case by simp
qed simp

lemma pchar_drop: "no_nul P \<Longrightarrow> pchar P k = c \<Longrightarrow> c \<noteq> NUL \<Longrightarrow> k < length P \<and> P ! k = c"
  by (cases "k < length P") (auto simp: pchar_def c_head_def dest: nth_via_drop split: list.splits)

lemma take_snoc: "k < length s \<Longrightarrow> take (k + 1) s = take k s @ [s ! k]"
  by (simp add: take_Suc_conv_app_nth)

lemma wild_inv_take:
  assumes "wild_inv P S w" "ws_sbase w + ws_i w < length S" "ws_pbase w + ws_pi w + n \<le> length P"
    and "rigid (take (ws_pi w + n) (drop (ws_pbase w) P)) (take (ws_i w) (drop (ws_sbase w) S) @ [S ! (ws_sbase w + ws_i w)])"
    and "ws_i w' = ws_i w + 1" "ws_pi w' = ws_pi w + n" "ws_pbase w' = ws_pbase w" "ws_sbase w' = ws_sbase w"
      "ws_globbing w' = ws_globbing w"
  shows "wild_inv P S w'"
  using assms take_snoc [of "ws_i w" "drop (ws_sbase w) S"] by (simp add: wild_inv_def)

lemma seg_take1:
  "b + k < length P \<Longrightarrow> take (k + 1) (drop b P) = take k (drop b P) @ [P ! (b + k)]"
  by (simp add: take_Suc_conv_app_nth)

lemma seg_take2:
  "b + k + 1 < length P \<Longrightarrow> take (k + 2) (drop b P) = take k (drop b P) @ [P ! (b + k), P ! (b + k + 1)]"
  using seg_take1 [of b k P] seg_take1 [of b "k + 1" P] by simp

lemma wild_inv_start:
  assumes "wild_inv P S w" "ws_pbase w + ws_pi w < length P" "P ! (ws_pbase w + ws_pi w) = CHR ''*''"
  shows "wild_inv P S (start_glob P w)"
    "glob_match P S = glob_match (CHR ''*'' # drop (ws_pbase (start_glob P w)) P) (drop (ws_sbase w + ws_i w) S)"
proof -
  let ?k = "ws_pbase w + ws_pi w" and ?p = "take (ws_pi w) (drop (ws_pbase w) P)"
  let ?t = "take (ws_i w) (drop (ws_sbase w) S)" and ?s = "drop (ws_sbase w + ws_i w) S"
  have r: "rigid ?p ?t" and gm: "glob_match P S =
      glob_match ((if ws_globbing w then ''*'' else []) @ drop (ws_pbase w) P) (drop (ws_sbase w) S)"
    using assms(1) by (simp_all add: wild_inv_def)
  have P: "drop (ws_pbase w) P = ?p @ CHR ''*'' # drop (?k + 1) P"
  proof -
    have "drop ?k P = CHR ''*'' # drop (?k + 1) P"
      using assms(2,3) by (simp add: Cons_nth_drop_Suc [symmetric])
    then show ?thesis using append_take_drop_id [of "ws_pi w" "drop (ws_pbase w) P"] by (simp add: add.commute)
  qed
  have S: "drop (ws_sbase w) S = ?t @ ?s"
    using append_take_drop_id [of "ws_i w" "drop (ws_sbase w) S"] by (simp add: add.commute)
  have "glob_match P S = glob_match ((if ws_globbing w then ''*'' else []) @ ?p @ CHR ''*'' # drop (?k + 1) P) (?t @ ?s)"
    by (simp only: gm P [symmetric] S [symmetric])
  then have star: "glob_match P S = glob_match (CHR ''*'' # drop (?k + 1) P) ?s"
    using glob_greedy [OF r, of "drop (?k + 1) P" ?s] rigid_glob [OF r, of "CHR ''*'' # drop (?k + 1) P" ?s]
    by simp
  have pb: "drop (ws_pbase (start_glob P w)) P = dropWhile (\<lambda>c. c = CHR ''*'') (drop ?k P)"
    by (simp add: start_glob_def dropWhile_eq_drop add.commute)
  have "drop ?k P = CHR ''*'' # drop (?k + 1) P"
    using assms(2,3) by (simp add: Cons_nth_drop_Suc [symmetric])
  with star skip_star_run [of "drop (?k + 1) P" ?s]
  show g: "glob_match P S = glob_match (CHR ''*'' # drop (ws_pbase (start_glob P w)) P) ?s"
    unfolding pb by simp
  have "length (takeWhile (\<lambda>c. c = CHR ''*'') (drop ?k P)) \<le> length (drop ?k P)"
    by (rule length_takeWhile_le)
  with g assms show "wild_inv P S (start_glob P w)"
    by (auto simp: wild_inv_def start_glob_def rigid.Nil)
qed

lemma wild_inv_fail:
  assumes inv: "wild_inv P S w" and room: "ws_sbase w + ws_i w < length S"
    and fail: "\<not> glob_match (drop (ws_pbase w + ws_pi w) P) (drop (ws_sbase w + ws_i w) S)"
  shows "\<not> ws_globbing w \<Longrightarrow> \<not> glob_match P S" "ws_globbing w \<Longrightarrow> wild_inv P S (longer_glob w)"
proof -
  let ?p = "take (ws_pi w) (drop (ws_pbase w) P)" and ?t = "take (ws_i w) (drop (ws_sbase w) S)"
  have r: "rigid ?p ?t" and gm: "glob_match P S =
      glob_match ((if ws_globbing w then ''*'' else []) @ drop (ws_pbase w) P) (drop (ws_sbase w) S)"
    using inv by (simp_all add: wild_inv_def)
  have "glob_match (?p @ drop (ws_pbase w + ws_pi w) P) (?t @ drop (ws_sbase w + ws_i w) S)
      = glob_match (drop (ws_pbase w + ws_pi w) P) (drop (ws_sbase w + ws_i w) S)"
    using r by (rule rigid_glob)
  moreover have "?p @ drop (ws_pbase w + ws_pi w) P = drop (ws_pbase w) P"
    "?t @ drop (ws_sbase w + ws_i w) S = drop (ws_sbase w) S"
    by (metis append_take_drop_id drop_drop add.commute)+
  ultimately have no: "\<not> glob_match (drop (ws_pbase w) P) (drop (ws_sbase w) S)"
    using fail by simp
  then show "\<not> ws_globbing w \<Longrightarrow> \<not> glob_match P S"
    by (simp add: gm)
  assume g: "ws_globbing w"
  have "drop (ws_sbase w) S = S ! ws_sbase w # drop (ws_sbase w + 1) S"
    using room by (simp add: Cons_nth_drop_Suc)
  then have "glob_match P S = glob_match (CHR ''*'' # drop (ws_pbase w) P) (drop (ws_sbase w + 1) S)"
    using no g by (simp add: gm glob_match.simps(2) [of "CHR ''*''"])
  with inv room g show "wild_inv P S (longer_glob w)"
    by (simp add: wild_inv_def longer_glob_def Let_def rigid.Nil)
qed

lemma wild_inv_end:
  assumes "wild_inv P S w" "length S \<le> ws_sbase w + ws_i w"
  shows "glob_match P S = (dropWhile (\<lambda>c. c = CHR ''*'') (drop (ws_pbase w + ws_pi w) P) = [])"
proof -
  let ?p = "take (ws_pi w) (drop (ws_pbase w) P)" and ?t = "take (ws_i w) (drop (ws_sbase w) S)"
  let ?q = "drop (ws_pbase w + ws_pi w) P"
  have r: "rigid ?p ?t" and gm: "glob_match P S =
      glob_match ((if ws_globbing w then ''*'' else []) @ drop (ws_pbase w) P) (drop (ws_sbase w) S)"
    using assms(1) by (simp_all add: wild_inv_def)
  have "length (drop (ws_sbase w) S) \<le> ws_i w"
    using assms(2) by simp
  then have t: "?t = drop (ws_sbase w) S" by simp
  have p: "drop (ws_pbase w) P = ?p @ ?q"
    by (metis append_take_drop_id drop_drop add.commute)
  have here: "glob_match (?p @ ?q) ?t = glob_match ?q []"
    using rigid_glob [OF r, of ?q "[]"] by simp
  have "glob_match (CHR ''*'' # ?p @ ?q) ?t = glob_match ?q []"
  proof
    assume "glob_match (CHR ''*'' # ?p @ ?q) ?t"
    then obtain u where u: "suffix u ?t" "glob_match (?p @ ?q) u" by (auto simp: glob_star)
    then obtain t' v where "u = t' @ v" "length t' = length ?t" "glob_match ?q v"
      using rigid_split [OF r] by blast
    with u(1) show "glob_match ?q []"
      by (auto simp: suffix_def dest: arg_cong [of _ _ length])
  next
    assume "glob_match ?q []"
    with here show "glob_match (CHR ''*'' # ?p @ ?q) ?t" by (auto simp: glob_star)
  qed
  then have "glob_match (CHR ''*'' # drop (ws_pbase w) P) (drop (ws_sbase w) S) = glob_match ?q []"
    "glob_match (drop (ws_pbase w) P) (drop (ws_sbase w) S) = glob_match ?q []"
    using here by (simp_all only: t p [symmetric])
  then show ?thesis
    unfolding gm glob_stars [symmetric] by simp
qed

lemma wild_loop_correct:
  assumes "no_nul P" "no_nul S" "wild_inv P S w"
  shows "fst (wild_loop P S w) = glob_match P S"
  using assms
proof (induction P S w rule: wild_loop.induct)
  case (1 P S w)
  let ?k = "ws_pbase w + ws_pi w" and ?j = "ws_sbase w + ws_i w"
  define c where "c = pchar P ?k"
  note inv = "1.prems"(3)
  have r: "rigid (take (ws_pi w) (drop (ws_pbase w) P)) (take (ws_i w) (drop (ws_sbase w) S))"
    using inv by (simp add: wild_inv_def)
  show ?case
  proof (cases "length S \<le> ?j")
    case True
    then show ?thesis
      using wild_inv_end [OF inv] by (subst wild_loop.simps) simp
  next
    case False
    then have j: "?j < length S" by simp
    have Sj: "drop ?j S = S ! ?j # drop (?j + 1) S" "S ! ?j \<noteq> NUL"
      using j "1.prems"(2) nth_mem [OF j] by (simp add: Cons_nth_drop_Suc, metis no_nul_def)
    have Pk: "?k < length P \<and> P ! ?k = c \<and> drop ?k P = c # drop (?k + 1) P" if "c \<noteq> NUL"
      using pchar_drop [OF "1.prems"(1) c_def [symmetric] that] by (simp add: Cons_nth_drop_Suc [symmetric])
    consider "c = CHR ''?''" | "c = CHR ''*''" | (other) "c \<noteq> CHR ''?''" "c \<noteq> CHR ''*''" by blast
    then show ?thesis
    proof cases
      case 1
      then have "wild_inv P S (take_any w)"
        using Pk r rigid.Any seg_take1 [of "ws_pbase w" "ws_pi w" P]
        by (intro wild_inv_take [OF inv j, of 1]) (auto simp: take_any_def)
      with "1.IH"(1) [OF False refl c_def 1] 1 "1.prems" False show ?thesis
        by (subst wild_loop.simps) (simp add: c_def Let_def)
    next
      case 2
      then have k: "?k < length P" "P ! ?k = CHR ''*''" using Pk by auto
      note st = wild_inv_start [OF inv k]
      show ?thesis
      proof (cases "drop (ws_pbase (start_glob P w)) P = []")
        case True
        have "glob_match (CHR ''*'' # []) s" for s
          by (auto simp: glob_star intro: exI [of _ "[]"])
        with st(2) True have "glob_match P S" by simp
        with True 2 False show ?thesis
          by (subst wild_loop.simps) (simp add: c_def Let_def)
      next
        case ne: False
        with "1.IH"(2) [OF False refl c_def _ 2 ne] st(1) 2 "1.prems" False show ?thesis
          by (subst wild_loop.simps) (simp add: c_def Let_def)
      qed
    next
      case other
      define n :: nat where "n = (if c = CHR 0x5C then 1 else 0)"
      have loop: "wild_loop P S w =
          (if c \<noteq> NUL \<and> S ! ?j = pchar P (?k + n) then wild_loop P S (take_literal (n + 1) w)
           else if ws_globbing w then wild_loop P S (longer_glob w) else (False, ws_matches w))"
        using False other unfolding n_def c_def by (subst wild_loop.simps) (simp add: Let_def)
      show ?thesis
      proof (cases "c \<noteq> NUL \<and> S ! ?j = pchar P (?k + n)")
        case True
        then have ch: "pchar P (?k + n) \<noteq> NUL" using Sj by auto
        have kn: "?k + n < length P" "P ! (?k + n) = S ! ?j"
          using pchar_drop [OF "1.prems"(1) refl ch] True by auto
        have "rigid (take (ws_pi w + (n + 1)) (drop (ws_pbase w) P))
            (take (ws_i w) (drop (ws_sbase w) S) @ [S ! ?j])"
        proof (cases "c = CHR 0x5C")
          case True
          then show ?thesis
            using kn Pk rigid.Escaped [OF r, of "S ! ?j"] seg_take2 [of "ws_pbase w" "ws_pi w" P]
            by (simp add: n_def)
        next
          case F: False
          then show ?thesis
            using kn True other rigid.Literal [OF r, of "S ! ?j"] Pk seg_take1 [of "ws_pbase w" "ws_pi w" P]
            by (simp add: n_def)
        qed
        then have "wild_inv P S (take_literal (n + 1) w)"
          using kn by (intro wild_inv_take [OF inv j, of "n + 1"]) (auto simp: take_literal_def)
        with "1.IH"(3) [OF False refl c_def other n_def True] True "1.prems" show ?thesis
          unfolding loop by simp
      next
        case F: False
        have fail: "\<not> glob_match (drop ?k P) (drop ?j S)"
        proof (cases "c = NUL")
          case True
          then have "drop ?k P = []"
            using "1.prems"(1) by (auto simp: c_def pchar_def c_head_NUL no_nul_dropD)
          then show ?thesis using Sj(1) by simp
        next
          case nn: False
          show ?thesis
          proof (cases "c = CHR 0x5C")
            case True
            then have "S ! ?j \<noteq> pchar P (?k + 1)" using F nn by (simp add: n_def)
            then show ?thesis
              using Pk [OF nn] True Sj(1)
              by (cases "drop (?k + 1) P") (auto simp: pchar_def glob_step)
          next
            case False
            then have "S ! ?j \<noteq> c" using F nn by (simp add: n_def c_def)
            then show ?thesis
              using Pk [OF nn] False other Sj(1) by (auto simp: glob_step)
          qed
        qed
        note wf = wild_inv_fail [OF inv j fail]
        show ?thesis
        proof (cases "ws_globbing w")
          case True
          with wf(2) "1.IH"(4) [OF \<open>\<not> length S \<le> ?j\<close> refl c_def other n_def F True] F "1.prems" show ?thesis
            unfolding loop by (simp only: if_False if_True)
        next
          case False
          with wf(1) F show ?thesis
            unfolding loop by auto
        qed
      qed
    qed
  qed
qed

lemma no_nul_strip: "no_nul s \<Longrightarrow> no_nul b \<Longrightarrow> no_nul (strip_markup s b)"
proof (induction s b rule: strip_markup.induct)
  case (2 c q b)
  have d: "no_nul (drop 1 (dropWhile f (c # q)))" for f
    using 2(4) by (metis no_nul_def no_nul_dropD set_dropWhileD)
  have "no_nul (snd (safe_chr c b))" "no_nul q"
    using 2(4,5) by (auto simp: safe_chr_def)
  with 2(1) [OF _ d 2(5)] 2(2) [OF _ _ d 2(5)] 2(3) show ?case
    unfolding strip_markup.simps(2) by presburger
qed simp

lemma strip_plain: "\<not> has_markup s \<Longrightarrow> length (b @ s) < BUFFER_LEN \<Longrightarrow> strip_markup s b = b @ s"
proof (induction s arbitrary: b)
  case (Cons c s)
  then have "c \<noteq> ESC_CHAR" "c \<noteq> TAG_START" "\<not> has_markup s" by (auto simp: has_markup_def)
  with Cons show ?case by (simp add: strip_markup.simps(2) safe_chr_def)
qed simp

lemma no_nul_fold: "no_nul s \<Longrightarrow> no_nul (map UPCASE s)"
  by (induction s) auto

lemma no_nul_wild_text: "no_nul s \<Longrightarrow> no_nul (wild_text cs s)"
  by (simp add: wild_text_def fit_def no_nul_takeD no_nul_strip no_nul_fold)

lemma wild_inv_start_state: "wild_inv P S (wild_start n)"
  by (simp add: wild_inv_def wild_start_def rigid.Nil)

lemma wild_test_glob:
  "no_nul p \<Longrightarrow> no_nul s \<Longrightarrow> fst (wild_match_test p s cs n) = glob_match (wild_text cs p) (wild_text cs s)"
  by (simp add: wild_match_test_def wild_loop_correct no_nul_wild_text wild_inv_start_state)

lemma wild_text_plain:
  assumes "\<not> has_markup s" "length s < BUFFER_LEN"
  shows "wild_text cs s = (if cs then s else map UPCASE s)"
  using strip_plain [of s "[]"] assms by (simp add: wild_text_def fit_id BUFFER_LEN_def)

lemma length_wild_text: "length (wild_text cs s) < BUFFER_LEN"
  by (simp add: wild_text_def fit_def BUFFER_LEN_def)

section \<open>What the matcher promises\<close>

text \<open>C17: a pattern matches a string, in \<open>wild_match_test\<close> with any number of places for captures, exactly when
  the relation \<open>glob_match\<close> holds of the two texts it copies: stripped of markup, cut at the buffer and in upper
  case unless the match is case-sensitive.  The loop never has to look back further than the last star.\<close>

theorem wild_match_test_correct:
  assumes "no_nul pat" "no_nul str"
  shows "fst (wild_match_test pat str cs nmatches) = glob_match (wild_text cs pat) (wild_text cs str)"
  using assms by (rule wild_test_glob)

theorem wild_match_test_correct_witness:
  "glob_match (wild_text False ''a*[c?'') (wild_text False ''ABB[c!'')"
proof -
  have "fst (wild_match_test ''a*[c?'' ''ABB[c!'' False 3)" by code_simp
  then show ?thesis using wild_match_test_correct [of "''a*[c?''" "''ABB[c!''" False 3] by simp
qed

end
