(* ===== verification/Mush_Wild_Captures.thy ===== *)
theory Mush_Wild_Captures imports Mush_Wild begin

text \<open>
  What the wildcards of a pattern captured: \<open>wild_match_case_r\<close> of \<open>wild.c\<close> on a string without markup, and
  \<open>wildcard_count\<close>.  The positions the loop of \<open>wild_match_test\<close> keeps are shown to fill the pattern:
  \<open>cap_inv\<close> for those in use, \<open>slot_inv\<close> for which slots are in use at all.
\<close>

section \<open>Definitions\<close>

text \<open>The loop that copies the pieces into \<open>data\<close>, each with a terminator; \<open>used\<close> is \<open>curlen\<close>.\<close>

fun copy_matches :: "string \<Rightarrow> (int \<times> int) list \<Rightarrow> nat \<Rightarrow> nat \<Rightarrow> string list \<times> nat" where
  "copy_matches d [] len used = ([], used)"
| "copy_matches d (m # results) len used =
     (if fst m < 0 \<or> len \<le> used then ([], used)
      else
        let n = min (nat (snd m)) (len - used);
            (pieces, used') = copy_matches d results len (used + n + 1)
        in (take n (drop (nat (fst m)) d) # pieces, used'))"

text \<open>
  Without \<open>pe_regs\<close>, and with \<open>data\<close> a buffer of \<open>len\<close> bytes that is not \<open>NULL\<close>.  The slots are the list
  \<open>matches\<close>, at most \<open>BUFFER_LEN\<close> of them; the number returned is \<open>curlen\<close> at the end, the part of \<open>data\<close> in
  use.  A string with markup is cut by \<open>safe_ansi_string\<close>, which is not modelled: the value is \<open>None\<close> then.
\<close>

definition wild_match_case_r ::
    "string \<Rightarrow> string \<Rightarrow> bool \<Rightarrow> string option list \<Rightarrow> nat \<Rightarrow> (bool \<times> string option list \<times> nat) option" where
  "wild_match_case_r s d cs matches len =
     (let (ok, results) = wild_match_test s d cs BUFFER_LEN; nmatches = length matches in
      if \<not> ok then Some (False, replicate nmatches None, 0)
      else if nmatches = 0 \<or> len = 0 then Some (True, matches, 0)
      else if has_markup d then None
      else
        let (pieces, used) = copy_matches d (take nmatches results) len 0
        in Some (True, map Some pieces @ replicate (nmatches - length pieces) None, used))"

text \<open>
  The two loops of \<open>wildcard_count\<close>.  The second moves the rest of the string down over the escapes, in place;
  it reads ahead of where it writes, so that the result is a function of the old text.
\<close>

fun count_escapes :: "string \<Rightarrow> nat \<Rightarrow> int" where
  "count_escapes [] escapes = int escapes"
| "count_escapes (c # s) escapes =
     (if c = CHR ''?'' \<or> c = CHR ''*'' then -1
      else if c = CHR 0x5C then (if s = [] then int escapes else count_escapes (tl s) (escapes + 1))
      else count_escapes s escapes)"

fun drop_escapes :: "string \<Rightarrow> nat \<Rightarrow> string" where
  "drop_escapes [] escapes = []"
| "drop_escapes (c # rep) escapes =
     (if escapes \<noteq> 0 \<and> c = CHR 0x5C
      then (case rep of [] \<Rightarrow> [] | e # rep' \<Rightarrow> e # drop_escapes rep' (escapes - 1))
      else c # drop_escapes rep escapes)"

definition wildcard_count :: "string \<Rightarrow> bool \<Rightarrow> int \<times> string" where
  "wildcard_count s unescape =
     (let escapes = count_escapes s 0 in
      if escapes = -1 \<or> escapes = 0 \<or> \<not> unescape then (escapes, s)
      else (0, takeWhile (\<lambda>c. c \<noteq> CHR 0x5C) s @ drop_escapes (dropWhile (\<lambda>c. c \<noteq> CHR 0x5C) s) (nat escapes)))"

section \<open>The captured pieces\<close>

text \<open>\<open>fills p ms s\<close>: putting the pieces \<open>ms\<close> in the places of the wildcards of \<open>p\<close> gives \<open>s\<close>.\<close>

inductive fills :: "string \<Rightarrow> string list \<Rightarrow> string \<Rightarrow> bool" where
  Nil: "fills [] [] []"
| Any: "fills p ms t \<Longrightarrow> fills (p @ [CHR ''?'']) (ms @ [[d]]) (t @ [d])"
| Star: "fills p ms t \<Longrightarrow> fills (p @ [CHR ''*'']) (ms @ [m]) (t @ m)"
| Escaped: "fills p ms t \<Longrightarrow> fills (p @ [CHR 0x5C, d]) ms (t @ [d])"
| Literal: "fills p ms t \<Longrightarrow> d \<notin> {CHR ''*'', CHR ''?'', CHR 0x5C} \<Longrightarrow> fills (p @ [d]) ms (t @ [d])"

definition cap :: "string \<Rightarrow> int \<times> int \<Rightarrow> string" where
  "cap S m = take (nat (snd m)) (drop (nat (fst m)) S)"

definition caps :: "string \<Rightarrow> (int \<times> int) list \<Rightarrow> string list" where
  "caps S ms = map (cap S) ms"

definition open_glob :: "string \<Rightarrow> string \<Rightarrow> wild_state \<Rightarrow> bool" where
  "open_glob P S w \<longleftrightarrow> ws_mbase w < ws_matchi w \<and> ws_mbase w < ws_pbase w \<and>
     (\<exists>A st len. take (ws_pbase w) P = A @ [CHR ''*''] \<and> ws_matches w ! ws_mbase w = (int st, int len)
        \<and> st + len = ws_sbase w \<and> fills A (caps S (take (ws_mbase w) (ws_matches w))) (take st S))"

definition cap_base :: "string \<Rightarrow> string \<Rightarrow> wild_state \<Rightarrow> bool" where
  "cap_base P S w \<longleftrightarrow> length P \<le> length (ws_matches w) \<and> ws_matchi w \<le> ws_pbase w + ws_pi w
     \<and> ws_pbase w + ws_pi w \<le> length P \<and> ws_sbase w + ws_i w \<le> length S
     \<and> fills (take (ws_pbase w + ws_pi w) P) (caps S (take (ws_matchi w) (ws_matches w))) (take (ws_sbase w + ws_i w) S)"

definition cap_inv :: "string \<Rightarrow> string \<Rightarrow> wild_state \<Rightarrow> bool" where
  "cap_inv P S w \<longleftrightarrow> cap_base P S w \<and> (ws_globbing w \<longrightarrow> open_glob P S w)"

lemma caps_update:
  "k < length ms \<Longrightarrow> caps S (take (k + 1) (ms[k := m])) = caps S (take k ms) @ [cap S m]"
  by (simp add: caps_def take_Suc_conv_app_nth)

lemma caps_keep: "n \<le> k \<Longrightarrow> take n (ms[k := m]) = take n ms"
  by simp

lemma cap_inv_any:
  assumes "cap_inv P S w" "ws_pbase w + ws_pi w < length P" "P ! (ws_pbase w + ws_pi w) = CHR ''?''" "ws_sbase w + ws_i w < length S"
  shows "cap_inv P S (take_any w)"
proof -
  let ?k = "ws_pbase w + ws_pi w" and ?j = "ws_sbase w + ws_i w" and ?m = "ws_matchi w"
  have m: "?m < length (ws_matches w)" using assms(1,2) by (simp add: cap_inv_def cap_base_def)
  have "cap S (int ?j, 1) = [S ! ?j]"
    using assms(4) by (simp add: cap_def nat_int_add hd_drop_conv_nth [symmetric] take_Suc)
  then have "fills (take (?k + 1) P) (caps S (take (?m + 1) ((ws_matches w)[?m := (int ?j, 1)]))) (take (?j + 1) S)"
    unfolding caps_update [OF m] using assms fills.Any [of "take ?k P" _ "take ?j S" "S ! ?j"]
    by (simp add: cap_inv_def cap_base_def take_Suc_conv_app_nth)
  with assms m show ?thesis
    by (auto simp: cap_inv_def cap_base_def take_any_def open_glob_def add.assoc)
qed

lemma cap_inv_literal:
  assumes "cap_inv P S w" "ws_sbase w + ws_i w < length S" "ws_pbase w + ws_pi w + n \<le> length P"
    and "\<And>ms t. fills (take (ws_pbase w + ws_pi w) P) ms t \<Longrightarrow>
      fills (take (ws_pbase w + ws_pi w + n) P) ms (t @ [S ! (ws_sbase w + ws_i w)])"
  shows "cap_inv P S (take_literal n w)"
  using assms by (auto simp: cap_inv_def cap_base_def take_literal_def open_glob_def take_Suc_conv_app_nth add.assoc)

lemma cap_inv_longer:
  assumes "cap_inv P S w" "ws_globbing w" "ws_sbase w + ws_i w < length S"
  shows "cap_inv P S (longer_glob w)"
proof -
  let ?m = "ws_mbase w"
  obtain A st len where G: "take (ws_pbase w) P = A @ [CHR ''*'']" "ws_matches w ! ?m = (int st, int len)"
    "st + len = ws_sbase w" "fills A (caps S (take ?m (ws_matches w))) (take st S)" "?m < ws_matchi w" "?m < ws_pbase w"
    using assms(1,2) by (auto simp: cap_inv_def cap_base_def open_glob_def)
  have m: "?m < length (ws_matches w)" using assms(1) G(5) by (simp add: cap_inv_def cap_base_def)
  have "take (ws_sbase w + 1) S = take st S @ take (len + 1) (drop st S)"
    using G(3) by (metis add.assoc take_add)
  moreover have "cap S (int st, int len + 1) = take (len + 1) (drop st S)"
    by (simp add: cap_def nat_add_distrib)
  ultimately have "fills (take (ws_pbase w) P) (caps S (take (?m + 1) ((ws_matches w)[?m := (int st, int len + 1)])))
      (take (ws_sbase w + 1) S)"
    unfolding caps_update [OF m] G(1) using fills.Star [OF G(4)] by simp
  moreover have "open_glob P S (longer_glob w)"
    unfolding open_glob_def longer_glob_def Let_def
    using G m by (auto intro!: exI [of _ A] exI [of _ st] exI [of _ "len + 1"])
  moreover have "length (take (ws_pbase w) P) \<le> ws_pbase w" by simp
  ultimately show ?thesis
    using assms G(2,5,6) m by (auto simp: cap_inv_def cap_base_def longer_glob_def Let_def)
qed

lemma fills_snoc_star: "fills p ms t \<Longrightarrow> fills (p @ [CHR ''*'']) (ms @ [[]]) t"
  using fills.Star [of p ms t "[]"] by simp

text \<open>After the run of stars the last one is open, with nothing in it yet.\<close>

lemma cap_inv_skip:
  assumes "cap_base P S w" "ws_i w = 0" "ws_pi w = 0" "drop (ws_pbase w) P = p" "p \<noteq> []" "hd p = CHR ''*''"
  shows "cap_base P S (skip_globs p w) \<and> open_glob P S (skip_globs p w)
     \<and> ws_matches (skip_globs p w) ! ws_mbase (skip_globs p w) = (int (ws_sbase w), 0)"
  using assms
proof (induction p arbitrary: w)
  case (Cons c p)
  define w' where "w' = w\<lparr>ws_pbase := ws_pbase w + 1, ws_mbase := ws_matchi w, ws_matchi := ws_matchi w + 1,
           ws_matches := (ws_matches w)[ws_matchi w := (int (ws_sbase w), 0)]\<rparr>"
  have P: "ws_pbase w < length P" "P ! ws_pbase w = CHR ''*''"
    using Cons.prems by (auto simp: nth_via_drop intro: ccontr)
  have m: "ws_matchi w < length (ws_matches w)"
    using Cons.prems(1,3) P(1) by (simp add: cap_base_def)
  have f: "fills (take (ws_pbase w) P) (caps S (take (ws_matchi w) (ws_matches w))) (take (ws_sbase w) S)"
    using Cons.prems(1-3) by (simp add: cap_base_def)
  have og: "open_glob P S w'"
    unfolding open_glob_def w'_def using f m P Cons.prems(1,3)
    by (auto intro!: exI [of _ "take (ws_pbase w) P"] exI [of _ "ws_sbase w"] exI [of _ 0]
        simp: take_Suc_conv_app_nth cap_base_def)
  have "cap S (int (ws_sbase w), 0) = []" by (simp add: cap_def)
  then have "fills (take (ws_pbase w + 1) P) (caps S (take (ws_matchi w + 1) (ws_matches w'))) (take (ws_sbase w) S)"
    using fills_snoc_star [OF f] caps_update [OF m] P by (simp add: w'_def take_Suc_conv_app_nth)
  then have inv: "cap_base P S w'"
    using og Cons.prems(1-3) m P by (auto simp: cap_base_def w'_def)
  have sk: "skip_globs (c # p) w = skip_globs p w'"
    using Cons.prems(6) by (simp add: w'_def)
  have d: "drop (ws_pbase w + 1) P = p"
    using Cons.prems(4) P(1) by (metis Cons_nth_drop_Suc list.inject Suc_eq_plus1)
  show ?case
  proof (cases "p \<noteq> [] \<and> hd p = CHR ''*''")
    case True
    with Cons.IH [OF inv] Cons.prems d show ?thesis
      unfolding sk by (simp add: w'_def)
  next
    case False
    then have "skip_globs p w' = w'" by (cases p) auto
    then show ?thesis
      unfolding sk using inv og m by (simp add: w'_def)
  qed
qed simp

lemma cap_inv_start:
  assumes "cap_inv P S w" "ws_pbase w + ws_pi w < length P" "P ! (ws_pbase w + ws_pi w) = CHR ''*''"
  shows "cap_base P S (start_glob P w) \<and> open_glob P S (start_glob P w)
     \<and> ws_matches (start_glob P w) ! ws_mbase (start_glob P w) = (int (ws_sbase w + ws_i w), 0)"
proof -
  let ?w = "w\<lparr>ws_pbase := ws_pbase w + ws_pi w, ws_sbase := ws_sbase w + ws_i w, ws_globbing := True,
                ws_i := 0, ws_pi := 0\<rparr>"
  have "cap_base P S ?w" using assms(1) by (simp add: cap_inv_def cap_base_def)
  moreover have "drop (ws_pbase ?w) P \<noteq> []" "hd (drop (ws_pbase ?w) P) = CHR ''*''"
    using assms(2,3) by (simp_all add: hd_drop_conv_nth)
  ultimately show ?thesis
    unfolding start_glob_def Let_def using cap_inv_skip [of P S ?w] by simp
qed

lemma rest_fills:
  assumes "cap_base P S w" "open_glob P S w" "ws_matches w ! ws_mbase w = (int (ws_sbase w), 0)" "length P \<le> ws_pbase w"
  shows "fills P (caps S (take (ws_mbase w + 1) (rest_of_string S w))) S"
proof -
  let ?m = "ws_mbase w"
  obtain A where A: "P = A @ [CHR ''*'']" "fills A (caps S (take ?m (ws_matches w))) (take (ws_sbase w) S)"
    using assms(2-4) by (auto simp: open_glob_def)
  have m: "?m < length (ws_matches w)"
    using assms(1,2) by (simp add: cap_base_def open_glob_def)
  have s: "ws_sbase w \<le> length S" using assms(1) by (simp add: cap_base_def)
  then have "cap S (int (ws_sbase w), int (length S) - int (ws_sbase w)) = drop (ws_sbase w) S"
    by (simp add: cap_def)
  with fills.Star [OF A(2), of "drop (ws_sbase w) S"] show ?thesis
    unfolding rest_of_string_def Let_def assms(3) caps_update [OF m] fst_conv by (simp add: A(1))
qed

lemma fills_stars: "fills p ms t \<Longrightarrow> fills (p @ replicate n (CHR ''*'')) (ms @ replicate n []) t"
proof (induction n)
  case (Suc n)
  then show ?case
    using fills_snoc_star [of "p @ replicate n (CHR ''*'')" "ms @ replicate n []" t]
    by (simp add: replicate_append_same [symmetric])
qed simp

lemma all_stars: "dropWhile (\<lambda>c. c = CHR ''*'') q = [] \<Longrightarrow> q = replicate (length q) (CHR ''*'')"
  by (induction q) (auto split: if_splits)

text \<open>What every step keeps true is, in the end, true of the captures.\<close>

lemma wild_loop_rule:
  assumes P: "no_nul P" and S: "no_nul S"
    and any: "\<And>w. I w \<Longrightarrow> ws_sbase w + ws_i w < length S \<Longrightarrow> ws_pbase w + ws_pi w < length P \<Longrightarrow>
      P ! (ws_pbase w + ws_pi w) = CHR ''?'' \<Longrightarrow> I (take_any w)"
    and star: "\<And>w. I w \<Longrightarrow> ws_pbase w + ws_pi w < length P \<Longrightarrow> P ! (ws_pbase w + ws_pi w) = CHR ''*'' \<Longrightarrow>
      drop (ws_pbase (start_glob P w)) P \<noteq> [] \<Longrightarrow> I (start_glob P w)"
    and lit: "\<And>w n. I w \<Longrightarrow> ws_sbase w + ws_i w < length S \<Longrightarrow> ws_pbase w + ws_pi w + n \<le> length P \<Longrightarrow>
      (\<And>ms t. fills (take (ws_pbase w + ws_pi w) P) ms t \<Longrightarrow>
         fills (take (ws_pbase w + ws_pi w + n) P) ms (t @ [S ! (ws_sbase w + ws_i w)])) \<Longrightarrow> I (take_literal n w)"
    and longer: "\<And>w. I w \<Longrightarrow> ws_globbing w \<Longrightarrow> ws_sbase w + ws_i w < length S \<Longrightarrow> I (longer_glob w)"
    and stop: "\<And>w. I w \<Longrightarrow> length S \<le> ws_sbase w + ws_i w \<Longrightarrow>
      drop (ws_pbase w + ws_pi w) P = replicate (length P - (ws_pbase w + ws_pi w)) (CHR ''*'') \<Longrightarrow> Q (ws_matches w)"
    and rest: "\<And>w. I w \<Longrightarrow> ws_pbase w + ws_pi w < length P \<Longrightarrow> P ! (ws_pbase w + ws_pi w) = CHR ''*'' \<Longrightarrow>
      length P \<le> ws_pbase (start_glob P w) \<Longrightarrow> Q (rest_of_string S (start_glob P w))"
    and "I w" "fst (wild_loop P S w)"
  shows "Q (snd (wild_loop P S w))"
proof -
  have "no_nul p \<Longrightarrow> p = P \<Longrightarrow> s = S \<Longrightarrow> I w \<Longrightarrow> fst (wild_loop p s w) \<Longrightarrow> Q (snd (wild_loop p s w))" for p s w
  proof (induction p s w rule: wild_loop.induct)
    case (1 p s w)
    let ?k = "ws_pbase w + ws_pi w" and ?j = "ws_sbase w + ws_i w"
    define c where "c = pchar p ?k"
    note eq = "1.prems"(2,3) and Iw = "1.prems"(4)
    show ?case
    proof (cases "length s \<le> ?j")
      case True
      then have step: "wild_loop p s w = (dropWhile (\<lambda>c. c = CHR ''*'') (drop ?k p) = [], ws_matches w)"
        by (subst wild_loop.simps) simp
      have "drop ?k p = replicate (length (drop ?k p)) (CHR ''*'')"
        using "1.prems"(5) by (intro all_stars) (simp add: step)
      then have "drop ?k P = replicate (length P - ?k) (CHR ''*'')" "length S \<le> ?j"
        using eq True by simp_all
      from stop [OF Iw this(2,1)] show ?thesis by (simp add: step)
    next
      case False
      then have j: "?j < length s" by simp
      have Sj: "s ! ?j \<noteq> NUL"
        using S eq nth_mem [OF j] by (metis no_nul_def)
      have Pk: "?k < length p \<and> p ! ?k = c" if "c \<noteq> NUL"
        using pchar_drop [OF "1.prems"(1) c_def [symmetric] that] .
      consider "c = CHR ''?''" | "c = CHR ''*''" | (other) "c \<noteq> CHR ''?''" "c \<noteq> CHR ''*''" by blast
      then show ?thesis
      proof cases
        case 1
        then have step: "wild_loop p s w = wild_loop p s (take_any w)"
          using False by (subst wild_loop.simps) (simp add: c_def Let_def)
        show ?thesis
          unfolding step
          using "1.IH"(1) [OF False refl c_def 1 "1.prems"(1) eq] any [OF Iw] Pk 1 j "1.prems"(5) eq step by auto
      next
        case 2
        then have k: "?k < length P" "P ! ?k = CHR ''*''" using Pk eq by auto
        show ?thesis
        proof (cases "drop (ws_pbase (start_glob p w)) p = []")
          case True
          then have step: "wild_loop p s w = (True, rest_of_string s (start_glob p w))"
            using 2 False by (subst wild_loop.simps) (simp add: c_def Let_def)
          show ?thesis
            unfolding step using rest [OF Iw k] True eq by simp
        next
          case ne: False
          then have step: "wild_loop p s w = wild_loop p s (start_glob p w)"
            using 2 False by (subst wild_loop.simps) (simp add: c_def Let_def)
          show ?thesis
            unfolding step
            using "1.IH"(2) [OF False refl c_def _ 2 ne "1.prems"(1) eq] star [OF Iw k] ne 2 "1.prems"(5) eq step by simp
        qed
      next
        case other
        define n :: nat where "n = (if c = CHR 0x5C then 1 else 0)"
        have loop: "wild_loop p s w =
            (if c \<noteq> NUL \<and> s ! ?j = pchar p (?k + n) then wild_loop p s (take_literal (n + 1) w)
             else if ws_globbing w then wild_loop p s (longer_glob w) else (False, ws_matches w))"
          using False other unfolding n_def c_def by (subst wild_loop.simps) (simp add: Let_def)
        show ?thesis
        proof (cases "c \<noteq> NUL \<and> s ! ?j = pchar p (?k + n)")
          case True
          then have step: "wild_loop p s w = wild_loop p s (take_literal (n + 1) w)" unfolding loop by simp
          have kn: "?k + n < length p" "p ! (?k + n) = s ! ?j"
            using pchar_drop [OF "1.prems"(1), of "?k + n" "s ! ?j"] Sj True by auto
          have "fills (take (?k + (n + 1)) p) ms (t @ [s ! ?j])" if f: "fills (take ?k p) ms t" for ms t
          proof (cases "c = CHR 0x5C")
            case True
            then have "take (?k + 2) p = take ?k p @ [CHR 0x5C, s ! ?j]"
              using kn Pk seg_take2 [of 0 ?k p] by (simp add: n_def)
            with fills.Escaped [OF f] True show ?thesis by (simp add: n_def)
          next
            case F: False
            then have "take (?k + 1) p = take ?k p @ [s ! ?j]"
              using kn seg_take1 [of 0 ?k p] by (simp add: n_def)
            with fills.Literal [OF f, of "s ! ?j"] F True other kn Pk show ?thesis by (simp add: n_def)
          qed
          then have "I (take_literal (n + 1) w)"
            using lit [OF Iw, of "n + 1"] kn(1) j eq by simp
          then show ?thesis
            unfolding step using "1.IH"(3) [OF False refl c_def other n_def True "1.prems"(1) eq] "1.prems"(5) step by simp
        next
          case F: False
          show ?thesis
          proof (cases "ws_globbing w")
            case True
            then have step: "wild_loop p s w = wild_loop p s (longer_glob w)"
              using F unfolding loop by (simp only: if_False if_True)
            show ?thesis
              unfolding step using "1.IH"(4) [OF \<open>\<not> length s \<le> ?j\<close> refl c_def other n_def F True "1.prems"(1) eq]
                longer [OF Iw True] j eq "1.prems"(5) step by simp
          next
            case False
            with F "1.prems"(5) show ?thesis
              unfolding loop by auto
          qed
        qed
      qed
    qed
  qed
  with assms show ?thesis by blast
qed

section \<open>Which slots are in use\<close>

fun wilds :: "string \<Rightarrow> nat" where
  "wilds [] = 0"
| "wilds (c # p) = (if c \<in> {CHR ''*'', CHR ''?''} then Suc (wilds p) else if c = CHR 0x5C then wilds (drop 1 p) else wilds p)"

lemma fills_wilds: "fills p ms t \<Longrightarrow> wilds (p @ q) = length ms + wilds q"
  by (induction arbitrary: q rule: fills.induct) simp_all

definition ahead :: "string \<Rightarrow> nat \<Rightarrow> bool" where
  "ahead P i \<longleftrightarrow> (\<exists>a b ms t. P = a @ b \<and> fills a ms t \<and> length ms = Suc i \<and> (set b \<subseteq> {CHR ''*''} \<longrightarrow> last a \<noteq> CHR ''*''))"

definition in_text :: "string \<Rightarrow> int \<times> int \<Rightarrow> bool" where
  "in_text S m \<longleftrightarrow> 0 \<le> fst m \<and> 0 \<le> snd m \<and> fst m + snd m \<le> int (length S)"

definition slot_inv :: "string \<Rightarrow> string \<Rightarrow> wild_state \<Rightarrow> bool" where
  "slot_inv P S w \<longleftrightarrow> (\<forall>i < ws_matchi w. in_text S (ws_matches w ! i)) \<and>
     (\<forall>i < length (ws_matches w). ws_matches w ! i = (-1, 0) \<or> ahead P i)"

lemma ahead_past:
  assumes "fills (take k P) ms t" "drop k P = replicate n (CHR ''*'')" "length ms \<le> i" "k \<le> length P"
  shows "\<not> ahead P i"
proof
  assume "ahead P i"
  then obtain a b ms' t' where a: "P = a @ b" "fills a ms' t'" "length ms' = Suc i"
    "set b \<subseteq> {CHR ''*''} \<longrightarrow> last a \<noteq> CHR ''*''" unfolding ahead_def by blast
  have w: "wilds (take k P) = length ms" using fills_wilds [OF assms(1), of "[]"] by simp
  show False
  proof (cases "length a \<le> k")
    case True
    then have "take k P = a @ take (k - length a) b" using a(1) by simp
    with fills_wilds [OF a(2)] w a(3) assms(3) show False by simp
  next
    case False
    then have "drop k P = drop k a @ b" "drop k a \<noteq> []" using a(1) by simp_all
    with assms(2) have "set (drop k a @ b) \<subseteq> {CHR ''*''}" "drop k a \<noteq> []"
      by (metis set_replicate_conv_if empty_subsetI order_refl)+
    moreover from this have "last (drop k a) = CHR ''*''" by (metis last_in_set Un_iff set_append singletonD subsetD)
    ultimately show False using a(4) False by (auto simp: last_drop)
  qed
qed

lemma caps_length: "length (caps S ms) = length ms"
  by (simp add: caps_def)

lemma good_fills:
  "cap_inv P S w \<Longrightarrow> fills (take (ws_pbase w + ws_pi w) P) (caps S (take (ws_matchi w) (ws_matches w))) (take (ws_sbase w + ws_i w) S)"
  "cap_inv P S w \<Longrightarrow> ws_pbase w + ws_pi w < length P \<Longrightarrow> ws_matchi w < length (ws_matches w)"
  by (simp_all add: cap_inv_def cap_base_def)

lemma aheadI:
  assumes "cap_inv P S w" "ws_pbase w + ws_pi w < length P"
    and "fills (take k P) ms t" "length ms = Suc i" "drop k P \<noteq> [] \<and> hd (drop k P) \<noteq> CHR ''*'' \<or> last (take k P) \<noteq> CHR ''*''"
  shows "ahead P i"
proof -
  have "\<not> set (drop k P) \<subseteq> {CHR ''*''}" if "drop k P \<noteq> []" "hd (drop k P) \<noteq> CHR ''*''"
    using that hd_in_set by blast
  with assms show ?thesis
    unfolding ahead_def by (intro exI [of _ "take k P"] exI [of _ "drop k P"]) auto
qed

lemma slot_any:
  assumes "cap_inv P S w" "slot_inv P S w" "ws_pbase w + ws_pi w < length P" "P ! (ws_pbase w + ws_pi w) = CHR ''?''"
    and "ws_sbase w + ws_i w < length S"
  shows "slot_inv P S (take_any w)"
proof -
  let ?k = "ws_pbase w + ws_pi w"
  have m: "ws_matchi w < length (ws_matches w)" using good_fills(2) assms by blast
  have tk: "take (?k + 1) P = take ?k P @ [CHR ''?'']"
    using assms(3,4) by (simp add: take_Suc_conv_app_nth)
  have "ahead P (ws_matchi w)"
  proof (rule aheadI [OF assms(1,3)])
    show "fills (take (?k + 1) P) (caps S (take (ws_matchi w) (ws_matches w)) @ [[d]]) (take (ws_sbase w + ws_i w) S @ [d])" for d
      unfolding tk by (rule fills.Any [OF good_fills(1) [OF assms(1)]])
    show "drop (?k + 1) P \<noteq> [] \<and> hd (drop (?k + 1) P) \<noteq> CHR ''*'' \<or> last (take (?k + 1) P) \<noteq> CHR ''*''"
      unfolding tk by simp
  qed (use m in \<open>simp add: caps_length\<close>)
  with assms(2,5) m show ?thesis
    by (auto simp: slot_inv_def in_text_def take_any_def nth_list_update less_Suc_eq)
qed

lemma slot_literal: "slot_inv P S w \<Longrightarrow> slot_inv P S (take_literal n w)"
  by (simp add: slot_inv_def take_literal_def)

lemma slot_longer:
  assumes "cap_inv P S w" "slot_inv P S w" "ws_globbing w" "ws_sbase w + ws_i w < length S"
  shows "slot_inv P S (longer_glob w)"
proof -
  let ?m = "ws_mbase w"
  obtain st len where G: "?m < ws_matchi w" "ws_matches w ! ?m = (int st, int len)" "st + len = ws_sbase w"
      "?m < length (ws_matches w)"
    using assms by (auto simp: cap_inv_def cap_base_def open_glob_def)
  with assms(2,4) show ?thesis
    by (auto simp: in_text_def slot_inv_def longer_glob_def Let_def nth_list_update)
qed

abbreviation star_run :: "string \<Rightarrow> nat" where
  "star_run p \<equiv> length (takeWhile (\<lambda>c. c = CHR ''*'') p)"

lemma skip_globs_slots [simp]:
  "ws_matchi (skip_globs p w) = ws_matchi w + star_run p"
  "length (ws_matches (skip_globs p w)) = length (ws_matches w)"
  by (induction p w rule: skip_globs.induct) auto

lemma skip_globs_mbase: "p \<noteq> [] \<Longrightarrow> hd p = CHR ''*'' \<Longrightarrow> ws_mbase (skip_globs p w) + 1 = ws_matchi (skip_globs p w)"
proof (induction p w rule: skip_globs.induct)
  case (2 c p w)
  then show ?case by (cases p) auto
qed simp

lemma skip_globs_outside:
  "i < ws_matchi w \<or> ws_matchi w + star_run p \<le> i \<Longrightarrow> ws_matches (skip_globs p w) ! i = ws_matches w ! i"
  by (induction p w rule: skip_globs.induct) (auto simp: nth_list_update split: if_splits)

lemma skip_globs_inside:
  "ws_matchi w \<le> i \<Longrightarrow> i < ws_matchi w + star_run p \<Longrightarrow> i < length (ws_matches w) \<Longrightarrow>
   ws_matches (skip_globs p w) ! i = (int (ws_sbase w), 0)"
proof (induction p w rule: skip_globs.induct)
  case (2 c p w)
  then show ?case
    by (cases "i = ws_matchi w") (auto simp: skip_globs_outside split: if_splits)
qed simp

lemma star_run_split: "p = replicate (star_run p) (CHR ''*'') @ drop (star_run p) p"
proof -
  have "takeWhile (\<lambda>c. c = CHR ''*'') p = replicate (star_run p) (CHR ''*'')"
    by (induction p) auto
  then show ?thesis using takeWhile_dropWhile_id [of "\<lambda>c. c = CHR ''*''" p] by (metis dropWhile_eq_drop)
qed

lemma star_run_stop: "drop (star_run p) p \<noteq> [] \<Longrightarrow> hd (drop (star_run p) p) \<noteq> CHR ''*''"
  using hd_dropWhile [of "\<lambda>c. c = CHR ''*''" p] by (simp add: dropWhile_eq_drop)

lemma start_glob_slots:
  "ws_matchi (start_glob P w) = ws_matchi w + star_run (drop (ws_pbase w + ws_pi w) P)"
  "length (ws_matches (start_glob P w)) = length (ws_matches w)"
  "ws_pbase (start_glob P w) = ws_pbase w + ws_pi w + star_run (drop (ws_pbase w + ws_pi w) P)"
  by (simp_all add: start_glob_def Let_def)

lemma start_glob_matches:
  assumes "cap_inv P S w" "ws_pbase w + ws_pi w < length P" "i < length (ws_matches w)"
  shows "ws_matches (start_glob P w) ! i =
    (if ws_matchi w \<le> i \<and> i < ws_matchi w + star_run (drop (ws_pbase w + ws_pi w) P)
     then (int (ws_sbase w + ws_i w), 0) else ws_matches w ! i)"
  using skip_globs_inside [of "w\<lparr>ws_pbase := ws_pbase w + ws_pi w, ws_sbase := ws_sbase w + ws_i w, ws_globbing := True,
      ws_i := 0, ws_pi := 0\<rparr>" i "drop (ws_pbase w + ws_pi w) P"]
    skip_globs_outside [of i "w\<lparr>ws_pbase := ws_pbase w + ws_pi w, ws_sbase := ws_sbase w + ws_i w, ws_globbing := True,
      ws_i := 0, ws_pi := 0\<rparr>" "drop (ws_pbase w + ws_pi w) P"] assms(3)
  by (simp add: start_glob_def Let_def not_le)

lemma slot_start:
  assumes "cap_inv P S w" "slot_inv P S w" "ws_pbase w + ws_pi w < length P" "P ! (ws_pbase w + ws_pi w) = CHR ''*''"
    and "drop (ws_pbase (start_glob P w)) P \<noteq> []"
  shows "slot_inv P S (start_glob P w)"
proof -
  let ?k = "ws_pbase w + ws_pi w" and ?m = "ws_matchi w"
  let ?r = "star_run (drop ?k P)"
  have len: "?m + ?r \<le> length (ws_matches w)"
    using assms(1) length_takeWhile_le [of "\<lambda>c. c = CHR ''*''" "drop ?k P"] assms(3)
    by (auto simp: cap_inv_def cap_base_def)
  note nth = start_glob_matches [OF assms(1,3)]
  have "ahead P i" if i: "?m \<le> i" "i < ?m + ?r" for i
  proof -
    let ?n = "Suc (i - ?m)"
    have "drop (star_run (drop ?k P)) (drop ?k P) = drop (ws_pbase (start_glob P w)) P"
      by (simp add: start_glob_slots add.commute)
    then have ne: "drop (star_run (drop ?k P)) (drop ?k P) \<noteq> []"
      "hd (drop (star_run (drop ?k P)) (drop ?k P)) \<noteq> CHR ''*''"
      using assms(5) star_run_stop [of "drop ?k P"] by auto
    then have ns: "\<not> set (drop ?r (drop ?k P)) \<subseteq> {CHR ''*''}" using hd_in_set by blast
    have "drop ?k P = replicate ?r (CHR ''*'') @ drop ?r (drop ?k P)" by (rule star_run_split)
    moreover have "replicate ?r (CHR ''*'') = replicate ?n (CHR ''*'') @ replicate (?r - ?n) (CHR ''*'')"
      using i by (simp add: replicate_add [symmetric] del: replicate_Suc)
    ultimately have P: "P = (take ?k P @ replicate ?n (CHR ''*'')) @ replicate (?r - ?n) (CHR ''*'') @ drop ?r (drop ?k P)"
      by (metis append_take_drop_id append_assoc)
    have "fills (take ?k P @ replicate ?n (CHR ''*'')) (caps S (take ?m (ws_matches w)) @ replicate ?n [])
        (take (ws_sbase w + ws_i w) S)"
      by (rule fills_stars [OF good_fills(1) [OF assms(1)]])
    moreover have "length (caps S (take ?m (ws_matches w)) @ replicate ?n []) = Suc i"
      using i len by (simp add: caps_length)
    moreover have "\<not> set (replicate (?r - ?n) (CHR ''*'') @ drop ?r (drop ?k P)) \<subseteq> {CHR ''*''}"
      using ns by simp
    ultimately show ?thesis
      unfolding ahead_def using P by blast
  qed
  moreover have "ws_sbase w + ws_i w \<le> length S"
    using assms(1) by (simp add: cap_inv_def cap_base_def)
  ultimately show ?thesis
    using assms(2) len by (auto simp: slot_inv_def start_glob_slots nth in_text_def)
qed

definition captured :: "string \<Rightarrow> string \<Rightarrow> (int \<times> int) list \<Rightarrow> bool" where
  "captured P S ms \<longleftrightarrow> (\<exists>k n. k \<le> length ms \<and> fills P (caps S (take k ms) @ replicate n []) S
     \<and> (\<forall>i<k. in_text S (ms ! i)) \<and> (\<forall>i. k \<le> i \<longrightarrow> i < length ms \<longrightarrow> ms ! i = (-1, 0)))"

lemma captured_stop:
  assumes "cap_inv P S w" "slot_inv P S w" "length S \<le> ws_sbase w + ws_i w"
    "drop (ws_pbase w + ws_pi w) P = replicate n (CHR ''*'')"
  shows "captured P S (ws_matches w)"
proof -
  let ?k = "ws_pbase w + ws_pi w" and ?m = "ws_matchi w"
  have f: "fills (take ?k P) (caps S (take ?m (ws_matches w))) S"
    using good_fills(1) [OF assms(1)] assms(3) by simp
  have m: "?m \<le> length (ws_matches w)" "?k \<le> length P" using assms(1) by (simp_all add: cap_inv_def cap_base_def)
  have "ws_matches w ! i = (-1, 0)" if "?m \<le> i" "i < length (ws_matches w)" for i
    using ahead_past [OF f assms(4), of i] that m assms(2) by (auto simp: slot_inv_def caps_length)
  moreover have "fills P (caps S (take ?m (ws_matches w)) @ replicate n []) S"
    using fills_stars [OF f, of n] unfolding assms(4) [symmetric] append_take_drop_id .
  ultimately show ?thesis
    unfolding captured_def using m assms(2) by (intro exI [of _ ?m] exI [of _ n]) (auto simp: slot_inv_def)
qed

lemma captured_rest:
  assumes "cap_inv P S w" "slot_inv P S w" "ws_pbase w + ws_pi w < length P" "P ! (ws_pbase w + ws_pi w) = CHR ''*''"
    and "length P \<le> ws_pbase (start_glob P w)"
  shows "captured P S (rest_of_string S (start_glob P w))"
proof -
  let ?w = "start_glob P w" and ?k = "ws_pbase w + ws_pi w"
  let ?R = "rest_of_string S ?w" and ?m = "ws_mbase ?w"
  note st = cap_inv_start [OF assms(1,3,4)]
  have mb: "?m + 1 = ws_matchi ?w"
    unfolding start_glob_def Let_def using assms(3,4) by (intro skip_globs_mbase) (simp_all add: hd_drop_conv_nth)
  have f: "fills P (caps S (take (?m + 1) ?R)) S"
    using st assms(5) by (intro rest_fills) (auto simp: start_glob_def Let_def)
  have len: "?m + 1 \<le> length ?R" "length ?R = length (ws_matches w)"
    using st by (auto simp: rest_of_string_def Let_def cap_base_def open_glob_def start_glob_slots)
  have "?R ! i = (-1, 0)" if i: "?m + 1 \<le> i" "i < length ?R" for i
  proof -
    have "\<not> ahead P i"
      using ahead_past [of "length P" P "caps S (take (?m + 1) ?R)" S 0 i] f i len by (simp add: caps_length)
    moreover have "?R ! i = ws_matches w ! i"
      using i mb len start_glob_matches [OF assms(1,3), of i]
      by (simp add: rest_of_string_def Let_def start_glob_slots)
    ultimately show ?thesis using assms(2) i len by (auto simp: slot_inv_def)
  qed
  moreover have "in_text S (?R ! i)" if i: "i < ?m + 1" for i
  proof (cases "i = ?m")
    case True
    moreover have "ws_sbase ?w \<le> length S" using st by (simp add: cap_base_def)
    ultimately show ?thesis using st len by (simp add: rest_of_string_def Let_def in_text_def start_glob_def)
  next
    case False
    then have "?R ! i = ws_matches ?w ! i" by (simp add: rest_of_string_def Let_def)
    moreover have "ws_sbase w + ws_i w \<le> length S" using assms(1) by (simp add: cap_inv_def cap_base_def)
    ultimately show ?thesis
      using i mb len start_glob_matches [OF assms(1,3), of i] assms(2)
      by (auto simp: start_glob_slots slot_inv_def in_text_def)
  qed
  ultimately show ?thesis
    unfolding captured_def using f len by (intro exI [of _ "?m + 1"] exI [of _ 0]) simp
qed

lemma cap_inv_restart:
  "cap_inv P S w \<Longrightarrow> ws_pbase w + ws_pi w < length P \<Longrightarrow> P ! (ws_pbase w + ws_pi w) = CHR ''*'' \<Longrightarrow>
   cap_inv P S (start_glob P w)"
  using cap_inv_start [of P S w] by (simp add: cap_inv_def)

lemma wild_loop_captured:
  assumes "no_nul P" "no_nul S" "cap_inv P S w" "slot_inv P S w" "fst (wild_loop P S w)"
  shows "captured P S (snd (wild_loop P S w))"
proof (rule wild_loop_rule [OF assms(1,2), where I = "\<lambda>w. cap_inv P S w \<and> slot_inv P S w" and Q = "captured P S" and w = w])
  show "cap_inv P S w \<and> slot_inv P S w" "fst (wild_loop P S w)" using assms by auto
qed (auto simp: cap_inv_any slot_any cap_inv_longer slot_longer slot_literal cap_inv_literal slot_start cap_inv_restart
    captured_stop captured_rest)

section \<open>Names without wildcards\<close>

lemma count_escapes_add:
  "-1 \<le> count_escapes s 0 \<and> count_escapes s n = (if count_escapes s 0 = -1 then -1 else int n + count_escapes s 0)"
proof (induction s arbitrary: n rule: length_induct)
  case (1 s)
  show ?case
  proof (cases s)
    case (Cons c s')
    show ?thesis
    proof (cases "c = CHR 0x5C")
      case True
      show ?thesis
      proof (cases s')
        case Cons2: (Cons e s'')
        then have "length s'' < length s" using Cons by simp
        note IH = 1 [rule_format, OF this]
        show ?thesis using IH [of 1] IH [of "n + 1"] Cons Cons2 True by (auto split: if_splits)
      qed (use True Cons in simp)
    next
      case False
      then show ?thesis using 1 [rule_format, of s' n] Cons by auto
    qed
  qed simp
qed

lemma drop_escapes_none: "drop_escapes s 0 = s"
  by (induction s) simp_all

lemma drop_escapes_prefix: "CHR 0x5C \<notin> set a \<Longrightarrow> drop_escapes (a @ b) k = a @ drop_escapes b k"
  by (induction a) auto

lemma wildcard_count_text:
  "count_escapes s 0 \<noteq> -1 \<Longrightarrow> snd (wildcard_count s True) = drop_escapes s (nat (count_escapes s 0))"
proof -
  have "CHR 0x5C \<notin> set (takeWhile (\<lambda>c. c \<noteq> CHR 0x5C) s)" by (auto dest: set_takeWhileD)
  from drop_escapes_prefix [OF this, of "dropWhile (\<lambda>c. c \<noteq> CHR 0x5C) s"] show ?thesis if "count_escapes s 0 \<noteq> -1"
    using that by (simp add: wildcard_count_def Let_def drop_escapes_none)
qed

lemma plain_matches_itself:
  "count_escapes s 0 = int k \<Longrightarrow> s = [] \<or> last s \<noteq> CHR 0x5C \<Longrightarrow> glob_match s u \<longleftrightarrow> u = drop_escapes s k"
proof (induction s arbitrary: u k rule: length_induct)
  case (1 s)
  show ?case
  proof (cases s)
    case (Cons c s')
    show ?thesis
    proof (cases "c = CHR 0x5C")
      case True
      with 1 Cons obtain e s'' where s': "s' = e # s''" by (cases s') auto
      have k: "count_escapes s'' 0 = int (k - 1)" "k \<noteq> 0"
        using "1.prems"(1) Cons True s' count_escapes_add [of s'' 1] by (auto split: if_splits)
      have IH: "glob_match s'' v = (v = drop_escapes s'' (k - 1))" for v
        using "1.IH" [rule_format, OF _ k(1)] Cons s' True "1.prems"(2) by (auto split: if_splits)
      show ?thesis
        unfolding Cons True s' by (cases u) (auto simp: glob_step IH k(2))
    next
      case False
      then have k: "count_escapes s' 0 = int k" and c: "c \<notin> {CHR ''*'', CHR ''?'', CHR 0x5C}"
        using "1.prems"(1) Cons by (auto split: if_splits)
      have IH: "glob_match s' v = (v = drop_escapes s' k)" for v
        using "1.IH" [rule_format, OF _ k] Cons "1.prems"(2) by (auto split: if_splits)
      show ?thesis
        unfolding Cons using c by (cases u) (auto simp: glob_step IH)
    qed
  qed (use 1 in simp)
qed

lemma cap_inv_start_state: "length P \<le> n \<Longrightarrow> cap_inv P S (wild_start n) \<and> slot_inv P S (wild_start n)"
  by (simp add: cap_inv_def cap_base_def slot_inv_def wild_start_def caps_def fills.Nil)

lemma fills_total: "fills p ms t \<Longrightarrow> sum_list (map length ms) \<le> length t"
  by (induction rule: fills.induct) auto

lemma cap_length: "in_text S m \<Longrightarrow> length (cap S m) = nat (snd m)"
  by (simp add: in_text_def cap_def nat_le_eq_zle) linarith

lemma copy_matches_all:
  assumes "\<forall>m \<in> set A. in_text d m" "B = [] \<or> fst (hd B) < 0" "used + (\<Sum>m\<leftarrow>A. nat (snd m) + 1) \<le> len"
  shows "copy_matches d (A @ B) len used = (map (cap d) A, used + (\<Sum>m\<leftarrow>A. nat (snd m) + 1))"
  using assms
proof (induction A arbitrary: used)
  case Nil
  then show ?case by (cases B) auto
next
  case (Cons m A)
  then have "min (nat (snd m)) (len - used) = nat (snd m)" "\<not> (fst m < 0 \<or> len \<le> used)"
    by (auto simp: in_text_def)
  with Cons.IH [of "used + nat (snd m) + 1"] Cons.prems show ?case
    by (simp add: Let_def cap_def add.assoc)
qed

lemma sum_list_succ: "(\<Sum>x\<leftarrow>xs. f x + (1 :: nat)) = (\<Sum>x\<leftarrow>xs. f x) + length xs"
  by (induction xs) simp_all

lemma copy_captured:
  assumes "captured P S results" "wilds P \<le> nm" "length S = length d" "length d + nm \<le> len"
  shows "\<exists>k n. copy_matches d (take nm results) len 0 = (caps d (take k results), (\<Sum>m\<leftarrow>take k results. nat (snd m) + 1))
    \<and> k \<le> nm \<and> k \<le> length results \<and> fills P (caps S (take k results) @ replicate n []) S
    \<and> (\<Sum>m\<leftarrow>take k results. nat (snd m) + 1) \<le> len"
proof -
  from assms(1) obtain k n where k: "k \<le> length results" "fills P (caps S (take k results) @ replicate n []) S"
    "\<forall>i<k. in_text S (results ! i)" "\<forall>i. k \<le> i \<longrightarrow> i < length results \<longrightarrow> results ! i = (-1, 0)"
    unfolding captured_def by blast
  have km: "k \<le> nm" using fills_wilds [OF k(2), of "[]"] assms(2) k(1) by (simp add: caps_length)
  have A: "\<forall>m \<in> set (take k results). in_text S m"
    using k(1,3) by (metis in_set_conv_nth length_take min.absorb2 nth_take)
  have "map (\<lambda>m. nat (snd m)) (take k results) = map length (caps S (take k results))"
    using A by (simp add: caps_def cap_length)
  then have "(\<Sum>m\<leftarrow>take k results. nat (snd m)) \<le> length d"
    using fills_total [OF k(2)] assms(3) by simp
  moreover have "(\<Sum>m\<leftarrow>take k results. nat (snd m) + 1) = (\<Sum>m\<leftarrow>take k results. nat (snd m)) + k"
    using k(1) unfolding sum_list_succ by simp
  ultimately have total: "(\<Sum>m\<leftarrow>take k results. nat (snd m) + 1) \<le> len"
    using km assms(4) by linarith
  define B where "B = take (nm - k) (drop k results)"
  have split: "take nm results = take k results @ B"
    using km by (simp add: B_def take_add [symmetric])
  have B: "B = [] \<or> fst (hd B) < 0"
    using k(4) by (cases "nm - k = 0 \<or> length results \<le> k") (auto simp: B_def hd_drop_conv_nth)
  have "\<forall>m \<in> set (take k results). in_text d m" using A assms(3) by (simp add: in_text_def)
  from copy_matches_all [OF this B, of 0 len] total k km
  have "copy_matches d (take nm results) len 0 = (caps d (take k results), (\<Sum>m\<leftarrow>take k results. nat (snd m) + 1))
    \<and> k \<le> nm \<and> k \<le> length results \<and> fills P (caps S (take k results) @ replicate n []) S
    \<and> (\<Sum>m\<leftarrow>take k results. nat (snd m) + 1) \<le> len"
    unfolding split by (simp add: caps_def)
  then show ?thesis by blast
qed

section \<open>What a caller gets\<close>

text \<open>C18: when a pattern matches a string without markup and the caller has a slot for each wildcard and room
  for the string and a terminator per slot, \<open>wild_match_case_r\<close> sets the slots to pieces of the string that,
  put in the places of the wildcards, give the string back (a run of stars at the end may be left unset and
  stands for nothing), sets every other slot to \<open>NULL\<close>, and stays inside the buffer.\<close>

theorem wild_match_case_r_pieces:
  assumes "no_nul s" "no_nul d" "\<not> has_markup d" "length d < BUFFER_LEN"
    and "wild_match_case_r s d cs old len = Some (True, ms, used)"
    and "wilds (wild_text cs s) \<le> length old" "old \<noteq> []" "length d + length old \<le> len"
  shows "\<exists>pieces n. ms = map Some pieces @ replicate (length old - length pieces) None \<and> length ms = length old
    \<and> fills (wild_text cs s) (map (wild_text cs) pieces @ replicate n []) (wild_text cs d) \<and> used \<le> len"
proof -
  let ?P = "wild_text cs s" and ?S = "wild_text cs d" and ?res = "snd (wild_match_test s d cs BUFFER_LEN)"
  let ?f = "if cs then (\<lambda>t. t) else map UPCASE"
  have S: "?S = ?f d" using wild_text_plain [OF assms(3,4), of cs] by simp
  have len: "0 < len" using assms(7,8) by (cases old) auto
  have ok: "fst (wild_match_test s d cs BUFFER_LEN)" and
    res: "(ms, used) = (let (pieces, used) = copy_matches d (take (length old) ?res) len 0
       in (map Some pieces @ replicate (length old - length pieces) None, used))"
    using assms(3,5,7) len by (auto simp: wild_match_case_r_def Let_def split: prod.splits if_splits)
  have "captured ?P ?S ?res"
    using ok cap_inv_start_state [of ?P BUFFER_LEN ?S] length_wild_text [of cs s] assms(1,2)
    unfolding wild_match_test_def by (intro wild_loop_captured no_nul_wild_text) simp_all
  moreover have "length ?S = length d" unfolding S by simp
  ultimately obtain k n where
    c: "copy_matches d (take (length old) ?res) len 0 = (caps d (take k ?res), (\<Sum>m\<leftarrow>take k ?res. nat (snd m) + 1))"
    and k: "k \<le> length old" "k \<le> length ?res" and f: "fills ?P (caps ?S (take k ?res) @ replicate n []) ?S"
    and u: "(\<Sum>m\<leftarrow>take k ?res. nat (snd m) + 1) \<le> len"
    using copy_captured [OF _ assms(6) _ assms(8)] by blast
  have "wild_text cs (cap d m) = cap ?S m" for m
  proof -
    have "set (cap d m) \<subseteq> set d" "length (cap d m) \<le> length d"
      by (auto simp: cap_def dest: in_set_takeD in_set_dropD)
    then have "\<not> has_markup (cap d m)" "length (cap d m) < BUFFER_LEN"
      using assms(3,4) by (auto simp: has_markup_def)
    from wild_text_plain [OF this, of cs] show ?thesis
      unfolding S by (simp add: cap_def take_map drop_map)
  qed
  then have "map (wild_text cs) (caps d (take k ?res)) = caps ?S (take k ?res)" by (simp add: caps_def)
  with res c k f u show ?thesis
    by (intro exI [of _ "caps d (take k ?res)"] exI [of _ n]) (simp add: caps_length)
qed

lemma first_slots: "take 1 ((replicate BUFFER_LEN x)[0 := y]) = [y]" "(replicate BUFFER_LEN x)[0 := y] ! 0 = y"
  by (simp_all add: BUFFER_LEN_def take_update_swap)

theorem wild_match_case_r_pieces_witness:
  "\<exists>pieces n. [Some ''llo''] = map Some pieces @ replicate (1 - length pieces) None \<and> length [Some ''llo''] = (1 :: nat)
    \<and> fills (wild_text False ''He*'') (map (wild_text False) pieces @ replicate n []) (wild_text False ''hello'') \<and> 4 \<le> (40 :: nat)"
proof -
  have tx: "wild_text False ''He*'' = ''HE*''" "wild_text False ''hello'' = ''HELLO''" by code_simp+
  have "wild_match_case_r ''He*'' ''hello'' False [None] 40 = Some (True, [Some ''llo''], 4)"
    unfolding wild_match_case_r_def wild_match_test_def tx
    by (simp add: wild_start_def wild_loop.simps pchar_def take_literal_def start_glob_def rest_of_string_def Let_def
        has_markup_def ESC_CHAR_def TAG_START_def TAG_END_def first_slots [simplified])
  from wild_match_case_r_pieces [OF _ _ _ _ this] show ?thesis
    by (simp add: tx has_markup_def ESC_CHAR_def TAG_START_def TAG_END_def BUFFER_LEN_def)
qed

text \<open>A name in which \<open>wildcard_count\<close> finds no wildcard, and that does not end in a lone backslash,
  matches one string only, case-sensitively: the one \<open>wildcard_count\<close> leaves when asked to remove the escapes.\<close>

theorem wildcard_count_plain:
  assumes "no_nul s" "no_nul d" "\<not> has_markup s" "\<not> has_markup d" "length s < BUFFER_LEN" "length d < BUFFER_LEN"
    and "fst (wildcard_count s True) \<noteq> -1" "s = [] \<or> last s \<noteq> CHR 0x5C"
  shows "quick_wild_new s d True \<longleftrightarrow> d = snd (wildcard_count s True)"
proof -
  have n: "count_escapes s 0 \<noteq> -1" using assms(7) by (auto simp: wildcard_count_def Let_def split: if_splits)
  then have "0 \<le> count_escapes s 0" using count_escapes_add [of s 0] by auto
  then have "count_escapes s 0 = int (nat (count_escapes s 0))" by simp
  from plain_matches_itself [OF this assms(8), of d] show ?thesis
    unfolding quick_wild_new_def wildcard_count_text [OF n]
    using wild_test_glob [OF assms(1,2), of True 0] wild_text_plain [OF assms(3,5), of True] wild_text_plain [OF assms(4,6), of True]
    by simp
qed

theorem wildcard_count_plain_witness:
  "fst (wildcard_count [CHR ''a'', CHR 0x5C, CHR ''*'', CHR ''b''] True) = 0
    \<and> quick_wild_new [CHR ''a'', CHR 0x5C, CHR ''*'', CHR ''b''] ''a*b'' True"
proof -
  have c: "wildcard_count [CHR ''a'', CHR 0x5C, CHR ''*'', CHR ''b''] True = (0, ''a*b'')" by code_simp
  show ?thesis
    using wildcard_count_plain [of "[CHR ''a'', CHR 0x5C, CHR ''*'', CHR ''b'']" "''a*b''"]
    by (simp add: c has_markup_def ESC_CHAR_def TAG_START_def TAG_END_def BUFFER_LEN_def)
qed

end
