(* ===== verification/Mush_Atr_Wild.thy ===== *)
theory Mush_Atr_Wild imports Mush_Wild begin

text \<open>
  Matching attribute names, \<open>atr_wild\<close> of \<open>wild.c\<close>.  \<open>atr_walk\<close> is the loop up to the first star,
  \<open>atr_skip\<close> the loop over the wildcards after it, and the two scans the loops that look for the next
  place to go on; \<open>invokes\<close>, the number of calls left, is passed on and returned as the code does through
  its pointer.  The separator is always a backquote.
\<close>

section \<open>Definitions\<close>

abbreviation sep_char :: char where "sep_char \<equiv> CHR 0x60"

definition EQUAL :: "bool \<Rightarrow> char \<Rightarrow> char \<Rightarrow> bool" where
  "EQUAL cs a b \<longleftrightarrow> (if cs then a = b else DOWNCASE a = DOWNCASE b)"

fun atr_walk :: "string \<Rightarrow> string \<Rightarrow> bool + string \<times> string" where
  "atr_walk [] d = Inl (d = [])"
| "atr_walk (c # t) d =
     (if c = CHR ''*'' then Inr (t, d)
      else if c = CHR ''?'' then (if d = [] \<or> hd d = sep_char then Inl False else atr_walk t (tl d))
      else if c = sep_char then
        (if d = [] \<or> hd d \<noteq> sep_char then Inl False
         else if t = [] then Inl (sep_char \<notin> set (tl d))
         else atr_walk t (tl d))
      else if c = CHR 0x5C then
        (if \<not> EQUAL False (c_head d) (c_head t) then Inl False
         else if d = [] then Inl True
         else atr_walk (tl t) (tl d))
      else if \<not> EQUAL False (c_head d) c then Inl False
      else if d = [] then Inl True
      else atr_walk t (tl d))"

fun atr_skip :: "nat \<Rightarrow> string \<Rightarrow> string \<Rightarrow> (nat \<times> string \<times> string) option" where
  "atr_skip starcount [] d = Some (starcount, [], d)"
| "atr_skip starcount (c # t) d =
     (if 2 \<le> starcount then Some (starcount, c # t, d)
      else if c = CHR ''?'' then (if d = [] \<or> hd d = sep_char then None else atr_skip 0 t (tl d))
      else if c = CHR ''*'' then atr_skip (starcount + 1) t d
      else Some (starcount, c # t, d))"

lemma atr_walk_shorter: "atr_walk t d = Inr (t1, d1) \<Longrightarrow> length t1 < length t"
proof (induction t d rule: atr_walk.induct)
  case (2 c t d)
  then show ?case by (simp split: if_splits)
qed simp

lemma atr_skip_shorter: "atr_skip n t d = Some (sc, t2, d2) \<Longrightarrow> length t2 \<le> length t"
  by (induction n t d rule: atr_skip.induct) (auto split: if_splits)

function real_atr_wild :: "string \<Rightarrow> string \<Rightarrow> nat \<Rightarrow> bool \<times> nat"
  and atr_scan_any :: "string \<Rightarrow> string \<Rightarrow> nat \<Rightarrow> bool \<times> nat"
  and atr_scan_lit :: "char \<Rightarrow> string \<Rightarrow> bool \<Rightarrow> string \<Rightarrow> nat \<Rightarrow> bool \<times> nat" where
  "real_atr_wild t d invokes =
     (if invokes = 0 then (False, 0)
      else if t = [] then (sep_char \<notin> set d, invokes - 1)
      else case atr_walk t d of
        Inl r \<Rightarrow> (r, invokes - 1)
      | Inr td \<Rightarrow>
          (case atr_skip 1 (fst td) (snd td) of
             None \<Rightarrow> (False, invokes - 1)
           | Some sk \<Rightarrow>
               let starcount = fst sk; t3 = dropWhile (\<lambda>c. c = CHR ''*'') (fst (snd sk)); d3 = snd (snd sk) in
               if t3 = [] then (starcount = 2 \<or> sep_char \<notin> set d3, invokes - 1)
               else if hd t3 = CHR ''?'' then atr_scan_any (tl t3) d3 (invokes - 1)
               else
                 let t4 = (if hd t3 = CHR 0x5C then tl t3 else t3)
                 in atr_scan_lit (c_head t4) (tl t4) (starcount < 2) d3 (invokes - 1)))"
| "atr_scan_any t d invokes =
     (if d = [] then (False, invokes)
      else
        let (r, n) = (if hd d \<noteq> sep_char then real_atr_wild t (tl d) invokes else (False, invokes)) in
        if r then (True, n) else if n = 0 then (False, n) else atr_scan_any t (tl d) n)"
| "atr_scan_lit x t one d invokes =
     (if d = [] then (False, invokes)
      else if EQUAL False (hd d) x \<and> t = [] \<and> tl d \<noteq> [] then (False, invokes)
      else
        let (r, n) = (if EQUAL False (hd d) x then real_atr_wild t (tl d) invokes else (False, invokes)) in
        if r then (True, n)
        else if n = 0 then (False, n)
        else if one \<and> hd d = sep_char then (False, n)
        else atr_scan_lit x t one (tl d) n)"
  by pat_completeness auto
termination
proof (relation "measures [case_sum (\<lambda>(t, d, n). length t) (case_sum (\<lambda>(t, d, n). length t) (\<lambda>(x, t, b, d, n). length t)),
    case_sum (\<lambda>(t, d, n). length d) (case_sum (\<lambda>(t, d, n). length d) (\<lambda>(x, t, b, d, n). length d))]", goal_cases)
  case (2 t d n td sk sc t3 d3)
  then have "length (fst td) < length t" "length (fst (snd sk)) \<le> length (fst td)"
    using atr_walk_shorter [of t d "fst td" "snd td"] atr_skip_shorter [of 1 "fst td" "snd td" "fst sk" "fst (snd sk)" "snd (snd sk)"]
    by simp_all
  then have "length t3 < length t"
    using 2 length_dropWhile_le [of "\<lambda>c. c = CHR ''*''" "fst (snd sk)"] by simp
  then show ?case using 2(8-) by (auto simp: less_imp_diff_less)
next
  case (3 t d n td sk sc t3 d3 t4)
  then have "length (fst td) < length t" "length (fst (snd sk)) \<le> length (fst td)"
    using atr_walk_shorter [of t d "fst td" "snd td"] atr_skip_shorter [of 1 "fst td" "snd td" "fst sk" "fst (snd sk)" "snd (snd sk)"]
    by simp_all
  then have "length t3 < length t"
    using 3 length_dropWhile_le [of "\<lambda>c. c = CHR ''*''" "fst (snd sk)"] by simp
  then show ?case using 3(8-) by (auto simp: less_imp_diff_less)
qed auto

declare real_atr_wild.simps [simp del] atr_scan_any.simps [simp del] atr_scan_lit.simps [simp del]

definition atr_wild :: "string \<Rightarrow> string \<Rightarrow> bool" where
  "atr_wild tstr dstr = fst (real_atr_wild tstr dstr 10000)"

text \<open>
  What an attribute pattern stands for: \<open>*\<close> any string within one level of the attribute tree, \<open>**\<close> any
  string, \<open>?\<close> a character within a level; a final backquote takes the next level, and a final backslash
  nothing.  Letters match in either case.
\<close>

inductive atr_matches :: "string \<Rightarrow> string \<Rightarrow> bool" where
  Done: "atr_matches [] []"
| Star: "sep_char \<notin> set u \<Longrightarrow> atr_matches t v \<Longrightarrow> atr_matches (CHR ''*'' # t) (u @ v)"
| Stars: "atr_matches t v \<Longrightarrow> atr_matches (CHR ''*'' # CHR ''*'' # t) (u @ v)"
| Any: "e \<noteq> sep_char \<Longrightarrow> atr_matches t d \<Longrightarrow> atr_matches (CHR ''?'' # t) (e # d)"
| Level: "sep_char \<notin> set d \<Longrightarrow> atr_matches [sep_char] (sep_char # d)"
| Escaped: "DOWNCASE e = DOWNCASE c \<Longrightarrow> atr_matches t d \<Longrightarrow> atr_matches (CHR 0x5C # c # t) (e # d)"
| Backslash: "atr_matches [CHR 0x5C] []"
| Literal: "DOWNCASE e = DOWNCASE c \<Longrightarrow> c \<notin> {CHR ''*'', CHR ''?'', CHR 0x5C} \<Longrightarrow> atr_matches t d \<Longrightarrow>
    atr_matches (c # t) (e # d)"

definition atr_ok :: "string \<Rightarrow> string \<Rightarrow> bool" where
  "atr_ok t d \<longleftrightarrow> (if t = [] then sep_char \<notin> set d else atr_matches t d)"

text \<open>What is left to match once \<open>starcount\<close> stars are pending; none is after a \<open>?\<close> that follows a star.\<close>

definition pending :: "nat \<Rightarrow> string \<Rightarrow> string \<Rightarrow> bool" where
  "pending n t d \<longleftrightarrow> (if n = 0 then \<exists>u v. d = u @ v \<and> sep_char \<notin> set u \<and> atr_matches t v
     else if n = 1 then atr_matches (CHR ''*'' # t) d else \<exists>u v. d = u @ v \<and> atr_matches t v)"

lemma pending_any: "n < 2 \<Longrightarrow> e \<noteq> sep_char \<Longrightarrow> pending 0 t d \<Longrightarrow> pending n (CHR ''?'' # t) (e # d)"
proof -
  assume n: "n < 2" "e \<noteq> sep_char" "pending 0 t d"
  then obtain u v where d: "d = u @ v" "sep_char \<notin> set u" "atr_matches t v" by (auto simp: pending_def)
  define x where "x = last (e # u)"
  define b where "b = butlast (e # u)"
  have eu: "e # u = b @ [x]"
    unfolding b_def x_def by (rule append_butlast_last_id [symmetric]) simp
  have "sep_char \<notin> set (b @ [x])" unfolding eu [symmetric] using n(2) d(2) by auto
  then have ns: "sep_char \<notin> set b" "x \<noteq> sep_char" by auto
  have "e # d = (e # u) @ v" using d(1) by simp
  then have ed: "e # d = b @ x # v" unfolding eu by simp
  have any: "atr_matches (CHR ''?'' # t) (x # v)" using ns(2) d(3) by (rule atr_matches.Any)
  from n(1) consider "n = 0" | "n = 1" by linarith
  then show ?thesis
  proof cases
    case 1
    show ?thesis unfolding pending_def ed using ns(1) any 1 by auto
  next
    case 2
    with atr_matches.Star [OF ns(1) any] show ?thesis unfolding pending_def ed by simp
  qed
qed

lemma pending_star: "n < 2 \<Longrightarrow> pending (n + 1) t d \<Longrightarrow> pending n (CHR ''*'' # t) d"
  by (auto simp: pending_def less_Suc_eq numeral_2_eq_2 intro: exI [of _ "[]"] atr_matches.Stars)

lemma pending_stars: "pending 2 t d \<Longrightarrow> pending 2 (CHR ''*'' # t) d"
proof -
  assume "pending 2 t d"
  then obtain u v where "d = u @ v" "atr_matches t v" by (auto simp: pending_def)
  with atr_matches.Star [of "[]" t v] show ?thesis by (auto simp: pending_def)
qed

lemma pending_more: "pending 2 t d \<Longrightarrow> pending 2 t (e # d)"
  by (auto simp: pending_def) (metis append_Cons)

lemma pending_skip: "atr_skip n t d = Some (sc, t2, d2) \<Longrightarrow> pending sc t2 d2 \<Longrightarrow> pending n t d"
proof (induction n t d rule: atr_skip.induct)
  case (2 n c t d)
  then show ?case
    by (cases d) (auto simp: pending_any pending_star split: if_splits)
qed simp

lemma atr_skip_count: "atr_skip n t d = Some (sc, t2, d2) \<Longrightarrow> n \<le> 2 \<Longrightarrow>
  sc \<le> 2 \<and> (sc < 2 \<longrightarrow> t2 = [] \<or> hd t2 \<notin> {CHR ''*'', CHR ''?''})"
  by (induction n t d rule: atr_skip.induct) (auto split: if_splits)

lemma pending_dropWhile: "pending 2 (dropWhile (\<lambda>c. c = CHR ''*'') t) d \<Longrightarrow> pending 2 t d"
  by (induction t) (auto simp: pending_stars split: if_splits)

lemma pendingI: "n \<le> 2 \<Longrightarrow> (n < 2 \<longrightarrow> sep_char \<notin> set u) \<Longrightarrow> atr_matches t v \<Longrightarrow> pending n t (u @ v)"
  using atr_matches.Star [of u t v] by (auto simp: pending_def le_Suc_eq numeral_2_eq_2)

lemma atr_ok_pending: "atr_ok t d \<Longrightarrow> pending 0 t d"
  using atr_matches.Done by (auto simp: atr_ok_def pending_def intro: exI [of _ "[]"] split: if_splits)

lemma pending_0_2: "pending 0 t d \<Longrightarrow> pending 2 t d"
  by (auto simp: pending_def)

lemma EQUAL_NUL [simp]: "EQUAL False NUL c \<longleftrightarrow> c = NUL" "EQUAL False c NUL \<longleftrightarrow> c = NUL"
  using DOWNCASE_NUL(1) [of c] by (simp_all add: EQUAL_def, metis)

lemma EQUAL_lit: "EQUAL False e c \<longleftrightarrow> DOWNCASE e = DOWNCASE c"
  by (simp add: EQUAL_def)

lemma atr_walk_Inl: "no_nul d \<Longrightarrow> no_nul t \<Longrightarrow> atr_walk t d = Inl True \<Longrightarrow> atr_matches t d"
proof (induction t d rule: atr_walk.induct)
  case (1 d)
  then show ?case by (simp add: atr_matches.Done)
next
  case (2 c t d)
  show ?case
  proof (cases d)
    case Nil
    with 2(6,7) have "c = CHR 0x5C" "c_head t = NUL"
      by (auto split: if_splits)
    with 2(6) have "c = CHR 0x5C" "t = []" by (auto simp: c_head_NUL)
    with Nil show ?thesis by (simp add: atr_matches.Backslash)
  next
    case (Cons e d')
    consider "c = CHR ''?''" | "c = sep_char" | "c = CHR 0x5C" | "c \<notin> {CHR ''*'', CHR ''?'', CHR 0x5C, sep_char}"
      using 2(7) by (auto split: if_splits)
    then show ?thesis
    proof cases
      case 1
      with 2 Cons show ?thesis by (auto intro: atr_matches.Any split: if_splits)
    next
      case 2: 2
      with "2.prems" "2.IH"(2) Cons show ?thesis
        by (auto intro: atr_matches.Level atr_matches.Literal split: if_splits)
    next
      case 3
      then show ?thesis
        using 2 Cons by (cases t) (auto intro: atr_matches.Escaped simp: EQUAL_lit split: if_splits)
    next
      case 4
      with 2 Cons show ?thesis by (auto intro: atr_matches.Literal simp: EQUAL_lit split: if_splits)
    qed
  qed
qed

lemma atr_walk_Inr:
  "no_nul d \<Longrightarrow> no_nul t \<Longrightarrow> atr_walk t d = Inr (t1, d1) \<Longrightarrow> atr_matches (CHR ''*'' # t1) d1 \<Longrightarrow> atr_matches t d"
proof (induction t d rule: atr_walk.induct)
  case (2 c t d)
  show ?case
  proof (cases d)
    case Nil
    with 2 show ?thesis
      by (auto split: if_splits)
  next
    case (Cons e d')
    consider "c = CHR ''*''" | "c = CHR ''?''" | "c = sep_char" | "c = CHR 0x5C" | "c \<notin> {CHR ''*'', CHR ''?'', CHR 0x5C, sep_char}"
      by auto
    then show ?thesis
    proof cases
      case 4
      then show ?thesis
        using 2 Cons by (cases t) (auto intro: atr_matches.Escaped simp: EQUAL_lit split: if_splits)
    qed (use 2 Cons in \<open>auto intro: atr_matches.Literal atr_matches.Any simp: EQUAL_lit split: if_splits\<close>)
  qed
qed simp

lemma atr_walk_parts:
  "atr_walk t d = Inr (t1, d1) \<Longrightarrow> no_nul t \<and> no_nul d \<Longrightarrow> no_nul t1 \<and> no_nul d1"
proof (induction t d rule: atr_walk.induct)
  case (2 c t d)
  have "no_nul (tl t)" "no_nul (tl d)" "no_nul t" "no_nul d"
    using 2(6) by (cases t; cases d; simp)+
  with 2(1-5) show ?case by (simp split: if_splits)
qed simp

lemma atr_skip_parts:
  "atr_skip n t d = Some (sc, t2, d2) \<Longrightarrow> no_nul t \<and> no_nul d \<Longrightarrow> no_nul t2 \<and> no_nul d2"
proof (induction n t d rule: atr_skip.induct)
  case (2 n c t d)
  then show ?case by (cases d) (auto split: if_splits)
qed simp


lemma atr_wild_sound_all:
  "no_nul t \<Longrightarrow> no_nul d \<Longrightarrow> fst (real_atr_wild t d n) \<Longrightarrow> atr_ok t d"
  "no_nul t \<Longrightarrow> no_nul d \<Longrightarrow> fst (atr_scan_any t d n) \<Longrightarrow> pending 2 (CHR ''?'' # t) d"
  "no_nul t \<Longrightarrow> no_nul d \<Longrightarrow> fst (atr_scan_lit x t one d n) \<Longrightarrow>
     \<exists>u e v. d = u @ e # v \<and> (one \<longrightarrow> sep_char \<notin> set u) \<and> EQUAL False e x \<and> atr_matches t v"
proof (induction t d n and t d n and x t one d n rule: real_atr_wild_atr_scan_any_atr_scan_lit.induct)
  case (1 t d n)
  show ?case
  proof (cases "t = []")
    case True
    with 1(5) show ?thesis
      by (subst (asm) real_atr_wild.simps) (simp add: atr_ok_def split: if_splits)
  next
    case ne: False
    have n: "n \<noteq> 0" using 1(5) by (subst (asm) real_atr_wild.simps) (auto split: if_splits)
    show ?thesis
    proof (cases "atr_walk t d")
      case (Inl r)
      with 1(5) ne n have "r" by (subst (asm) real_atr_wild.simps) simp
      with Inl 1(3,4) ne atr_walk_Inl show ?thesis by (auto simp: atr_ok_def)
    next
      case (Inr td)
      obtain sk where sk: "atr_skip 1 (fst td) (snd td) = Some sk"
        using 1(5) ne n Inr by (subst (asm) real_atr_wild.simps) (auto split: option.splits)
      define sc where "sc = fst sk"
      define t3 where "t3 = dropWhile (\<lambda>c. c = CHR ''*'') (fst (snd sk))"
      define d3 where "d3 = snd (snd sk)"
      define t4 where "t4 = (if hd t3 = CHR 0x5C then tl t3 else t3)"
      have run: "real_atr_wild t d n = (if t3 = [] then (sc = 2 \<or> sep_char \<notin> set d3, n - 1)
               else if hd t3 = CHR ''?'' then atr_scan_any (tl t3) d3 (n - 1)
               else atr_scan_lit (c_head t4) (tl t4) (sc < 2) d3 (n - 1))"
        using ne n Inr sk by (subst real_atr_wild.simps) (simp add: sc_def t3_def d3_def t4_def Let_def)
      have td: "no_nul (fst td)" "no_nul (snd td)"
        using atr_walk_parts [of t d "fst td" "snd td"] Inr 1(3,4) by auto
      have sk2: "no_nul (fst (snd sk))" "no_nul d3"
        using atr_skip_parts [of 1 "fst td" "snd td" sc "fst (snd sk)" d3] sk td by (auto simp: sc_def d3_def)
      have cnt: "sc \<le> 2 \<and> (sc < 2 \<longrightarrow> fst (snd sk) = [] \<or> hd (fst (snd sk)) \<notin> {CHR ''*'', CHR ''?''})"
        using atr_skip_count [of 1 "fst td" "snd td" sc "fst (snd sk)" d3] sk by (simp add: sc_def d3_def)
      have nn3: "no_nul t3" using sk2(1) by (auto simp: t3_def no_nul_def dest: set_dropWhileD)
      have goal: "atr_ok t d" if p: "pending sc t3 d3"
      proof -
        have "pending sc (fst (snd sk)) d3"
        proof (cases "sc = 2")
          case True
          with p pending_dropWhile show ?thesis by (simp add: t3_def)
        next
          case False
          with cnt have "t3 = fst (snd sk)" by (cases "fst (snd sk)") (auto simp: t3_def)
          with p show ?thesis by simp
        qed
        then have "pending 1 (fst td) (snd td)"
          using pending_skip [of 1 "fst td" "snd td" sc "fst (snd sk)" d3] sk by (simp add: sc_def d3_def)
        then have "atr_matches t d"
          using atr_walk_Inr [of d t "fst td" "snd td"] Inr 1(3,4) by (simp add: pending_def)
        with ne show ?thesis by (simp add: atr_ok_def)
      qed
      consider "t3 = []" | "t3 \<noteq> []" "hd t3 = CHR ''?''" | "t3 \<noteq> []" "hd t3 \<noteq> CHR ''?''" by blast
      then show ?thesis
      proof cases
        case 1
        with "1.prems"(3) have "sc = 2 \<or> sep_char \<notin> set d3" unfolding run by simp
        with pendingI [of sc d3 "[]" "[]"] cnt atr_matches.Done goal 1 show ?thesis by auto
      next
        case 2
        then have "c_head t3 = CHR ''?''" "t3 = hd t3 # tl t3" "no_nul (tl t3)"
          using nn3 by (cases t3; simp)+
        have "sc = 2"
        proof (rule ccontr)
          assume "sc \<noteq> 2"
          with cnt have "fst (snd sk) = [] \<or> hd (fst (snd sk)) \<notin> {CHR ''*'', CHR ''?''}" by auto
          then have "t3 = fst (snd sk)" by (cases "fst (snd sk)") (auto simp: t3_def)
          with 2 \<open>fst (snd sk) = [] \<or> _\<close> show False by auto
        qed
        have "fst (atr_scan_any (tl t3) d3 (n - 1))" using "1.prems"(3) 2 unfolding run by simp
        from "1.IH"(1) [OF n ne Inr sk sc_def t3_def d3_def 2 \<open>no_nul (tl t3)\<close> sk2(2) this]
        have "pending 2 (CHR ''?'' # tl t3) d3" .
        with \<open>sc = 2\<close> 2(2) \<open>t3 = hd t3 # tl t3\<close> have "pending sc t3 d3" by (metis (no_types))
        with goal show ?thesis .
      next
        case 3
        have t4: "no_nul (tl t4)" using nn3 by (cases t3; cases "tl t3") (auto simp: t4_def)
        have "fst (atr_scan_lit (c_head t4) (tl t4) (sc < 2) d3 (n - 1))" using "1.prems"(3) 3 unfolding run by simp
        from "1.IH"(2) [OF n ne Inr sk sc_def t3_def d3_def 3 t4_def t4 sk2(2) this]
        obtain u e v where d3: "d3 = u @ e # v" "sc < 2 \<longrightarrow> sep_char \<notin> set u" "EQUAL False e (c_head t4)" "atr_matches (tl t4) v"
          by blast
        have "e \<noteq> NUL" using sk2(2) d3(1) by simp
        with d3(3) have "t4 \<noteq> []" by (auto simp: EQUAL_lit)
        have "atr_matches t3 (e # v)"
        proof (cases "hd t3 = CHR 0x5C")
          case True
          with 3 \<open>t4 \<noteq> []\<close> obtain c t where "t3 = CHR 0x5C # c # t" "t4 = c # t"
            unfolding t4_def by (cases t3; cases "tl t3") auto
          with d3 show ?thesis by (auto simp: EQUAL_lit intro: atr_matches.Escaped)
        next
          case False
          with 3 obtain c t where t3: "t3 = c # t" "t4 = c # t" "c \<noteq> CHR 0x5C" "c \<noteq> CHR ''?''"
            unfolding t4_def by (cases t3) auto
          moreover have "c \<noteq> CHR ''*''"
            using t3(1) hd_dropWhile [of "\<lambda>c. c = CHR ''*''" "fst (snd sk)"] unfolding t3_def by force
          ultimately show ?thesis using d3 by (auto simp: EQUAL_lit intro: atr_matches.Literal)
        qed
        with pendingI [of sc u t3 "e # v"] d3(1,2) cnt goal show ?thesis by simp
      qed
    qed
  qed
next
  case (2 t d n)
  obtain e d' where d: "d = e # d'" using 2(5) by (cases d) (auto simp: atr_scan_any.simps)
  define rn where "rn = (if hd d \<noteq> sep_char then real_atr_wild t (tl d) n else (False, n))"
  show ?case
  proof (cases "fst rn")
    case True
    then have "e \<noteq> sep_char" "fst (real_atr_wild t d' n)"
      using d by (auto simp: rn_def split: if_splits)
    with "2.IH"(1) 2(3,4) d have "atr_ok t d'" by simp
    with \<open>e \<noteq> sep_char\<close> d show ?thesis
      using pending_0_2 [OF pending_any [of 0, OF _ _ atr_ok_pending]] by simp
  next
    case False
    then have "snd rn \<noteq> 0" "fst (atr_scan_any t d' (snd rn))"
      using 2(5) d unfolding rn_def by (subst (asm) atr_scan_any.simps, auto split: if_splits prod.splits)+
    with "2.IH"(2) [of rn "fst rn" "snd rn"] False 2(3,4) d have "pending 2 (CHR ''?'' # t) d'"
      by (simp add: rn_def)
    with d show ?thesis by (simp add: pending_more)
  qed
next
  case (3 x t one d n)
  obtain e d' where d: "d = e # d'" using 3(5) by (cases d) (auto simp: atr_scan_lit.simps)
  define rn where "rn = (if EQUAL False (hd d) x then real_atr_wild t (tl d) n else (False, n))"
  have guard: "\<not> (EQUAL False (hd d) x \<and> t = [] \<and> tl d \<noteq> [])"
    using 3(5) by (subst (asm) atr_scan_lit.simps) (auto split: if_splits)
  show ?case
  proof (cases "fst rn")
    case True
    then have e: "EQUAL False e x" "fst (real_atr_wild t d' n)"
      using d by (auto simp: rn_def split: if_splits)
    with "3.IH"(1) guard 3(3,4) d have "atr_ok t d'" by simp
    with e(1) guard d have "atr_matches t d'"
      by (auto simp: atr_ok_def atr_matches.Done split: if_splits)
    with e(1) d show ?thesis by (intro exI [of _ "[]"] exI [of _ e] exI [of _ d']) simp
  next
    case False
    then have r: "snd rn \<noteq> 0" "\<not> (one \<and> hd d = sep_char)" "fst (atr_scan_lit x t one d' (snd rn))"
      using 3(5) d guard unfolding rn_def by (subst (asm) atr_scan_lit.simps, auto split: if_splits prod.splits)+
    with "3.IH"(2) [of rn "fst rn" "snd rn"] False guard 3(3,4) d obtain u f v where
      "d' = u @ f # v" "one \<longrightarrow> sep_char \<notin> set u" "EQUAL False f x" "atr_matches t v"
      by (auto simp: rn_def)
    with d r(2) show ?thesis by (intro exI [of _ "e # u"] exI [of _ f] exI [of _ v]) auto
  qed
qed

text \<open>C19: an attribute name that \<open>atr_wild\<close> accepts is one the pattern stands for: stars stay within one
  level of the attribute tree unless doubled, whatever the limit on the number of calls.\<close>

theorem atr_wild_sound:
  assumes "no_nul tstr" "no_nul dstr" "atr_wild tstr dstr"
  shows "if tstr = [] then sep_char \<notin> set dstr else atr_matches tstr dstr"
  using atr_wild_sound_all(1) [of tstr dstr 10000] assms by (simp add: atr_wild_def atr_ok_def)

theorem atr_wild_sound_witness: "atr_matches ''v?`**x'' ''VA`lm`OX''"
proof -
  have "atr_wild ''v?`**x'' ''VA`lm`OX''"
    by code_simp
  then show ?thesis using atr_wild_sound [of "''v?`**x''" "''VA`lm`OX''"] by simp
qed

lemma atr_scan_last:
  assumes "no_nul d" "0 < n"
  shows "fst (atr_scan_lit x [] True d n) \<longleftrightarrow>
    (\<exists>u e. d = u @ [e] \<and> EQUAL False e x \<and> sep_char \<notin> set u \<and> (\<forall>y \<in> set u. \<not> EQUAL False y x))"
  using assms
proof (induction d arbitrary: n)
  case Nil
  then show ?case by (simp add: atr_scan_lit.simps)
next
  case (Cons e d)
  have ex: "(\<exists>u f. e # d = u @ [f] \<and> Q u f) \<longleftrightarrow> (d = [] \<and> Q [] e) \<or> (\<exists>u f. d = u @ [f] \<and> Q (e # u) f)" for Q
    by (auto simp: Cons_eq_append_conv)
  show ?case
  proof (cases "EQUAL False e x")
    case True
    have "fst (atr_scan_lit x [] True (e # d) n) \<longleftrightarrow> d = []"
      using True Cons.prems(2) by (cases "d = []") (subst atr_scan_lit.simps, simp add: real_atr_wild.simps)+
    then show ?thesis
      unfolding ex using True by simp
  next
    case False
    then have "fst (atr_scan_lit x [] True (e # d) n) \<longleftrightarrow> e \<noteq> sep_char \<and> fst (atr_scan_lit x [] True d n)"
      using Cons.prems(2) by (simp add: atr_scan_lit.simps [of x "[]" True "e # d" n])
    moreover have "fst (atr_scan_lit x [] True d n) \<longleftrightarrow>
        (\<exists>u e. d = u @ [e] \<and> EQUAL False e x \<and> sep_char \<notin> set u \<and> (\<forall>y \<in> set u. \<not> EQUAL False y x))"
      using Cons by simp
    ultimately show ?thesis
      unfolding ex using False by auto
  qed
qed

text \<open>A star followed by one last character matches a name only when that character appears nowhere
  before its end: the search stops at the first place the character is found, and gives up when the name goes
  on.  \<open>*s\<close> does not match \<open>ADDRESS\<close>, which it stands for.\<close>

theorem atr_wild_star_letter:
  assumes "no_nul dstr" "c \<notin> {NUL, CHR ''*'', CHR ''?'', CHR 0x5C}"
  shows "atr_wild [CHR ''*'', c] dstr \<longleftrightarrow>
    (\<exists>u e. dstr = u @ [e] \<and> DOWNCASE e = DOWNCASE c \<and> sep_char \<notin> set u \<and> (\<forall>y \<in> set u. DOWNCASE y \<noteq> DOWNCASE c))"
  using atr_scan_last [of dstr 9999 c] assms
  by (simp add: atr_wild_def real_atr_wild.simps [of "[CHR ''*'', c]"] Let_def EQUAL_lit)

theorem atr_wild_star_letter_witness:
  "\<not> atr_wild ''*s'' ''ADDRESS'' \<and> atr_matches ''*s'' ''ADDRESS''"
proof -
  have "DOWNCASE (CHR ''S'') = DOWNCASE (CHR ''s'')" by code_simp
  then have "\<not> atr_wild ''*s'' ''ADDRESS''"
    using atr_wild_star_letter [of "''ADDRESS''" "CHR ''s''"] by simp
  moreover have "atr_matches ''*s'' (''ADDRES'' @ ''S'')"
    using \<open>DOWNCASE _ = _\<close> by (intro atr_matches.Star atr_matches.Literal atr_matches.Done) simp_all
  ultimately show ?thesis by simp
qed

end
