(* ===== verification/Mush_Websock.thy ===== *)
theory Mush_Websock imports Mush_Tokens "HOL-Library.Word" begin

text \<open>
  WebSockets, \<open>websock.c\<close>: the handshake, the automaton that reads the frames of a client a byte at a time and
  keeps its state in the connection between reads, and the frames the server writes, with the tags in its output
  turned into messages on channels.  Bytes are words of 8 bits.  A connection is the part of \<open>DESC\<close> the code
  touches; \<open>queue_newwrite\<close> appends to \<open>wd_output\<close>.  Sending JSON objects goes through cJSON and is not
  modelled.
\<close>

unbundle bit_operations_syntax

type_synonym byte = "8 word"

definition bytes :: "string \<Rightarrow> byte list" where
  "bytes s = map of_char s"

section \<open>The state kept between reads\<close>

text \<open>
  The first seven bytes of \<open>checksum\<close>, which are the array \<open>mask\<close>: the state, the four bytes of the mask, the
  type and what to do with the payload; and the length left.
\<close>

record ws_frame =
  wf_state :: nat
  wf_mask :: "byte list"
  wf_type :: byte
  wf_first :: nat
  wf_len :: "64 word"

definition WEBSOCKET_CHANNEL_AUTO :: byte where "WEBSOCKET_CHANNEL_AUTO = 0"
definition WEBSOCKET_CHANNEL_TEXT :: byte where "WEBSOCKET_CHANNEL_TEXT = 0x74"
definition WEBSOCKET_CHANNEL_PUEBLO :: byte where "WEBSOCKET_CHANNEL_PUEBLO = 0x70"

definition WS_OP_CONTINUATION :: byte where "WS_OP_CONTINUATION = 0"
definition WS_OP_TEXT :: byte where "WS_OP_TEXT = 1"

definition ws_type_byte :: "ws_frame \<Rightarrow> byte \<Rightarrow> ws_frame" where
  "ws_type_byte w ch =
     (let op = ch AND 0x0F in
      if op = WS_OP_CONTINUATION
      then w\<lparr>wf_first := 0, wf_type := (ch AND 0xF0) OR (wf_type w AND 0x0F)\<rparr>
      else w\<lparr>wf_first := (if op = WS_OP_TEXT then 1 else 2), wf_type := (ch AND 0xF0) OR op\<rparr>)"

definition ws_len_byte :: "ws_frame \<Rightarrow> byte \<Rightarrow> ws_frame" where
  "ws_len_byte w ch =
     (let n = ch AND 0x7F in
      if n = 126 then w
      else if n = 127 then w\<lparr>wf_state := 8\<rparr>
      else w\<lparr>wf_len := ucast n, wf_state := 16\<rparr>)"

text \<open>
  A byte of the payload; \<open>wf_state\<close> is the state after its increment, the index of the byte of the mask to use.
  \<open>None\<close> is a read outside the mask.
\<close>

definition ws_payload_byte :: "ws_frame \<Rightarrow> byte \<Rightarrow> (ws_frame \<times> byte list) option" where
  "ws_payload_byte w ch =
     (if wf_first w \<le> 1 \<and> length (wf_mask w) < wf_state w then None
      else
        let c = ch XOR wf_mask w ! (wf_state w - 1);
            out = (if wf_first w = 0 then [c] else []);
            first = (if wf_first w = 1 then if c \<noteq> WEBSOCKET_CHANNEL_TEXT then 2 else 0 else wf_first w);
            len = wf_len w - 1
        in Some (w\<lparr>wf_first := first, wf_len := len, wf_state := (if len \<noteq> 0 then wf_state w mod 4 else 4)\<rparr>, out))"

definition ws_byte :: "ws_frame \<Rightarrow> byte \<Rightarrow> (ws_frame \<times> byte list) option" where
  "ws_byte w ch =
     (let state = wf_state w; w = w\<lparr>wf_state := state + 1\<rparr> in
      if state = 4 then Some (ws_type_byte w ch, [])
      else if state = 5 then Some (ws_len_byte w ch, [])
      else if state = 6 then Some (w\<lparr>wf_len := ucast ch\<rparr>, [])
      else if state = 7 then Some (w\<lparr>wf_len := push_bit 8 (wf_len w) OR ucast ch, wf_state := 16\<rparr>, [])
      else if state = 8 then Some (w\<lparr>wf_len := ucast (ch AND 0x7F)\<rparr>, [])
      else if 9 \<le> state \<and> state \<le> 15 then Some (w\<lparr>wf_len := push_bit 8 (wf_len w) OR ucast ch\<rparr>, [])
      else if 16 \<le> state \<and> state \<le> 18 then Some (w\<lparr>wf_mask := (wf_mask w)[wf_state w - 17 := ch]\<rparr>, [])
      else if state = 19 then
        Some (w\<lparr>wf_mask := (wf_mask w)[3 := ch], wf_state := (if wf_len w \<noteq> 0 then 0 else 4)\<rparr>, [])
      else ws_payload_byte w ch)"

fun ws_bytes :: "ws_frame \<Rightarrow> byte list \<Rightarrow> (ws_frame \<times> byte list) option" where
  "ws_bytes w [] = Some (w, [])"
| "ws_bytes w (ch # cs) =
     Option.bind (ws_byte w ch) (\<lambda>(w', out). map_option (\<lambda>(w'', more). (w'', out @ more)) (ws_bytes w' cs))"

definition WEBSOCKET_KEY_LEN :: nat where "WEBSOCKET_KEY_LEN = 24"
definition PUEBLO_CHECKSUM_LEN :: nat where "PUEBLO_CHECKSUM_LEN = 40"
definition CONN_PROMPT_NEWLINES :: "32 word" where "CONN_PROMPT_NEWLINES = 0x20"
definition CONN_UTF8 :: "32 word" where "CONN_UTF8 = 0x4000"
definition CONN_WEBSOCKETS_REQUEST :: "32 word" where "CONN_WEBSOCKETS_REQUEST = 0x10000000"
definition CONN_WEBSOCKETS :: "32 word" where "CONN_WEBSOCKETS = 0x20000000"

text \<open>The fields of \<open>DESC\<close> in use here.\<close>

record ws_desc =
  wd_conn_flags :: "32 word"
  wd_checksum :: "byte list"
  wd_frame_len :: "64 word"
  wd_output :: "byte list list"

definition ws_restore :: "ws_desc \<Rightarrow> ws_frame" where
  "ws_restore d =
     \<lparr>wf_state = unat (wd_checksum d ! 0), wf_mask = take 4 (drop 1 (wd_checksum d)), wf_type = wd_checksum d ! 5,
      wf_first = unat (wd_checksum d ! 6), wf_len = wd_frame_len d\<rparr>"

definition ws_preserve :: "ws_frame \<Rightarrow> ws_desc \<Rightarrow> ws_desc" where
  "ws_preserve w d =
     d\<lparr>wd_checksum := of_nat (wf_state w) # wf_mask w @ [wf_type w, of_nat (wf_first w)] @ drop 7 (wd_checksum d),
       wd_frame_len := wf_len w\<rparr>"

definition process_websocket_frame :: "ws_desc \<Rightarrow> byte list \<Rightarrow> (ws_desc \<times> byte list) option" where
  "process_websocket_frame d tbuf1 =
     map_option (\<lambda>(w, out). (ws_preserve w d, out)) (ws_bytes (ws_restore d) tbuf1)"

section \<open>The handshake\<close>

definition base64_alphabet :: string where
  "base64_alphabet = ''ABCDEFGHIJKLMNOPQRSTUVWXYZabcdefghijklmnopqrstuvwxyz0123456789+/''"

definition enc :: "byte \<Rightarrow> byte" where
  "enc n = of_char (base64_alphabet ! unat n)"

text \<open>A right shift of a signed \<open>char\<close>.\<close>

definition sar :: "nat \<Rightarrow> byte \<Rightarrow> byte" where
  "sar n b = signed_drop_bit n b"

fun encode64 :: "byte list \<Rightarrow> byte list" where
  "encode64 (a # b # c # src) =
     enc (sar 2 a AND 0x3F) # enc ((push_bit 4 a AND 0x30) OR (sar 4 b AND 0xF)) #
     enc ((push_bit 2 b AND 0x3C) OR (sar 6 c AND 0x3)) # enc (c AND 0x3F) # encode64 src"
| "encode64 [a] = [enc (sar 2 a AND 0x3F), enc (push_bit 4 a AND 0x30), of_char (CHR ''=''), of_char (CHR ''='')]"
| "encode64 [a, b] =
     [enc (sar 2 a AND 0x3F), enc ((push_bit 4 a AND 0x30) OR (sar 4 b AND 0xF)), enc (push_bit 2 b AND 0x3C),
      of_char (CHR ''='')]"
| "encode64 [] = []"

definition ws_magic :: string where "ws_magic = ''258EAFA5-E914-47DA-95CA-C5AB0DC85B11''"

text \<open>\<open>sha1\<close> is OpenSSL's \<open>SHA1\<close>, 20 bytes for any input.\<close>

definition compute_websocket_accept :: "(byte list \<Rightarrow> byte list) \<Rightarrow> byte list \<Rightarrow> byte list" where
  "compute_websocket_accept sha1 key = encode64 (sha1 (take WEBSOCKET_KEY_LEN key @ bytes ws_magic))"

definition crlf :: string where "crlf = [CHR 0x0D, CHR 0x0A]"

definition abort_handshake :: "ws_desc \<Rightarrow> ws_desc" where
  "abort_handshake d =
     d\<lparr>wd_output := wd_output d @
       [bytes (''HTTP/1.1 426 Upgrade Required'' @ crlf @ ''Sec-WebSocket-Version: 13'' @ crlf @ crlf)]\<rparr>"

definition complete_handshake :: "(byte list \<Rightarrow> byte list) \<Rightarrow> ws_desc \<Rightarrow> ws_desc" where
  "complete_handshake sha1 d =
     d\<lparr>wd_output := wd_output d @
         [bytes (''HTTP/1.1 101 Switching Protocols'' @ crlf @ ''Upgrade: websocket'' @ crlf @
            ''Connection: Upgrade'' @ crlf @ ''Sec-WebSocket-Accept: '')
          @ compute_websocket_accept sha1 (wd_checksum d) @ bytes (crlf @ crlf)],
       wd_conn_flags := (wd_conn_flags d AND NOT CONN_WEBSOCKETS_REQUEST AND NOT CONN_PROMPT_NEWLINES)
         OR (CONN_WEBSOCKETS OR CONN_UTF8),
       wd_checksum := (wd_checksum d)[0 := 4]\<rparr>"

definition is_websocket :: "string \<Rightarrow> string \<Rightarrow> bool" where
  "is_websocket ws_url command =
     (let line = take (BUFFER_LEN - 1) (''GET '' @ ws_url @ '' HTTP/1.1'')
      in take (length line) command = line)"

definition process_websocket_request ::
    "(byte list \<Rightarrow> byte list) \<Rightarrow> ws_desc \<Rightarrow> string \<Rightarrow> ws_desc \<times> bool" where
  "process_websocket_request sha1 d command =
     (if command = [] then
        if wd_checksum d ! 0 = 0 then (abort_handshake d, False) else (complete_handshake sha1 d, True)
      else if strncasecmp command ''Sec-WebSocket-Key:'' 18 = 0 then
        (case skip_space (Some (drop 18 command)) of
           Some value \<Rightarrow>
             if length value = WEBSOCKET_KEY_LEN
             then (d\<lparr>wd_checksum := bytes value @ 0 # drop (WEBSOCKET_KEY_LEN + 1) (wd_checksum d)\<rparr>, True)
             else (d, True)
         | None \<Rightarrow> (d, True))
      else (d, True))"

section \<open>Sending\<close>

definition ws_header :: "nat \<Rightarrow> byte list" where
  "ws_header dstlen =
     (0x80 OR WS_OP_TEXT) #
     (if dstlen < 126 then [of_nat dstlen]
      else if dstlen < 65536 then [126, of_nat (dstlen div 256), of_nat dstlen]
      else 127 # map (\<lambda>i. of_nat (dstlen div 2 ^ (8 * i))) (rev [0..<8]))"

text \<open>The buffer has \<open>room\<close> bytes, of which \<open>dst\<close> are written.\<close>

definition write_message :: "nat \<Rightarrow> byte list \<Rightarrow> byte list \<Rightarrow> byte \<Rightarrow> byte list" where
  "write_message room dst src channel =
     (let dstlen = room - length dst in
      if dstlen < 11 then dst
      else let data = take (dstlen - 11) src in dst @ ws_header (1 + length data) @ channel # data)"

definition WS_BUF :: nat where "WS_BUF = 4 * BUFFER_LEN"

definition MARKUP_HTML :: byte where "MARKUP_HTML = 0x70"
definition MARKUP_WS :: byte where "MARKUP_WS = 0x77"
definition MARKUP_WS_ALT :: byte where "MARKUP_WS_ALT = 0x57"
definition MARKUP_WS_ALT_END :: byte where "MARKUP_WS_ALT_END = 0x4D"
definition TAG_START_byte :: byte where "TAG_START_byte = of_char TAG_START"
definition TAG_END_byte :: byte where "TAG_END_byte = of_char TAG_END"

text \<open>A tag at its end; \<open>channel\<close> is still \<open>TAG_END\<close> where no message is written.\<close>

definition ws_tag :: "nat \<Rightarrow> byte list \<Rightarrow> bool \<Rightarrow> byte list \<Rightarrow> bool \<times> byte list" where
  "ws_tag room tag suppress dst =
     (if tag = [] then (suppress, dst)
      else if hd tag = MARKUP_HTML then (suppress, write_message room dst (tl tag) WEBSOCKET_CHANNEL_PUEBLO)
      else if hd tag = MARKUP_WS then
        (suppress, if tl tag = [] then dst else write_message room dst (tl (tl tag)) (hd (tl tag)))
      else if hd tag = MARKUP_WS_ALT then (True, dst)
      else if hd tag = MARKUP_WS_ALT_END then (False, dst)
      else (suppress, dst))"

text \<open>
  The scan for markup.  \<open>start\<close> is the text from the pointer of that name to \<open>end\<close>, \<open>tag\<close> the text of
  the tag that is open.
\<close>

fun ws_scan :: "nat \<Rightarrow> byte list \<Rightarrow> byte list \<Rightarrow> byte list option \<Rightarrow> bool \<Rightarrow> byte list \<Rightarrow> byte list" where
  "ws_scan room [] start tag suppress dst =
     (if \<not> suppress \<and> start \<noteq> [] \<and> tag = None then write_message room dst start WEBSOCKET_CHANNEL_TEXT else dst)"
| "ws_scan room (c # s) start tag suppress dst =
     (if c = TAG_START_byte then
        (case tag of
           Some t \<Rightarrow> ws_scan room s (start @ [c]) (Some (t @ [c])) suppress dst
         | None \<Rightarrow> ws_scan room s (start @ [c]) (Some []) suppress
             (if \<not> suppress \<and> start \<noteq> [] then write_message room dst start WEBSOCKET_CHANNEL_TEXT else dst))
      else if c = TAG_END_byte then
        (case tag of
           Some t \<Rightarrow> ws_scan room s [] None (fst (ws_tag room t suppress dst)) (snd (ws_tag room t suppress dst))
         | None \<Rightarrow> ws_scan room s [] None suppress dst)
      else ws_scan room s (start @ [c]) (map_option (\<lambda>t. t @ [c]) tag) suppress dst)"

definition to_websocket_frame :: "byte list \<Rightarrow> byte \<Rightarrow> byte list" where
  "to_websocket_frame b channel =
     (if channel = WEBSOCKET_CHANNEL_AUTO then ws_scan WS_BUF (takeWhile (\<lambda>c. c \<noteq> 0) b) [] None False []
      else write_message WS_BUF [] b channel)"

text \<open>\<open>datalen\<close> and \<open>altlen\<close> are the lengths of the strings in every call; \<open>True\<close> is the failure return.\<close>

definition markup_websocket :: "buf \<Rightarrow> string \<Rightarrow> string option \<Rightarrow> char \<Rightarrow> bool \<times> buf" where
  "markup_websocket saved data alt channel =
     (let put = (\<lambda>c b. snd (safe_chr c b));
          b = (if data \<noteq> [] then snd (safe_strl (Some data) (length data) (put channel (put (CHR ''w'') (put TAG_START saved))))
               else saved);
          full = (data \<noteq> [] \<and> fst (safe_chr TAG_END b) \<noteq> 0);
          b = (if data \<noteq> [] then put TAG_END b else b)
      in if full then (True, saved)
         else
           (case alt of
              None \<Rightarrow> (False, b)
            | Some fallback \<Rightarrow>
                if fallback = [] then (False, b)
                else
                  let b = snd (safe_strl (Some fallback) (length fallback) (put TAG_END (put (CHR ''W'') (put TAG_START b))));
                      b = put (CHR ''M'') (put TAG_START b)
                  in if fst (safe_chr TAG_END b) \<noteq> 0 then (True, saved) else (False, put TAG_END b)))"

section \<open>Base64\<close>

text \<open>Decoding, as RFC 4648 has it: four characters give three bytes, less one for each padding character.\<close>

definition sextet :: "byte \<Rightarrow> byte" where
  "sextet b = of_nat (length (takeWhile (\<lambda>c. c \<noteq> char_of (unat b)) base64_alphabet))"

definition pad :: byte where "pad = of_char (CHR ''='')"

fun base64_decode :: "byte list \<Rightarrow> byte list" where
  "base64_decode (w # x # y # z # s) =
     (push_bit 2 (sextet w) OR drop_bit 4 (sextet x)) #
     (if y = pad then []
      else (push_bit 4 (sextet x) OR drop_bit 2 (sextet y)) #
        (if z = pad then [] else [push_bit 6 (sextet y) OR sextet z])) @ base64_decode s"
| "base64_decode s = []"

lemma byte_eqI:
  assumes "bit (a :: byte) 0 = bit b 0" "bit a 1 = bit b 1" "bit a 2 = bit b 2" "bit a 3 = bit b 3"
    "bit a 4 = bit b 4" "bit a 5 = bit b 5" "bit a 6 = bit b 6" "bit a 7 = bit b 7"
  shows "a = b"
proof (rule bit_word_eqI)
  fix n :: nat
  assume "n < LENGTH(8)"
  then consider "n = 0" | "n = 1" | "n = 2" | "n = 3" | "n = 4" | "n = 5" | "n = 6" | "n = 7"
    by (simp add: less_Suc_eq numeral_eq_Suc) metis
  then show "bit a n = bit b n" using assms by cases simp_all
qed

lemma mask_numerals:
  "(0x3F :: byte) = mask 6" "(0xF :: byte) = mask 4" "(0x3 :: byte) = mask 2" "(0x30 :: byte) = push_bit 4 (mask 2)"
  "(0x3C :: byte) = push_bit 2 (mask 4)"
  by (simp_all add: mask_eq_exp_minus_1)

lemma unat_byte: "unat (of_nat n :: byte) = n mod 256"
  by (simp add: unat_of_nat)

lemma group:
  fixes a b c :: byte
  shows "push_bit 2 (sar 2 a AND 0x3F) OR drop_bit 4 ((push_bit 4 a AND 0x30) OR (sar 4 b AND 0xF)) = a"
    "push_bit 2 (sar 2 a AND 0x3F) OR drop_bit 4 (push_bit 4 a AND 0x30) = a"
    "push_bit 4 ((push_bit 4 a AND 0x30) OR (sar 4 b AND 0xF)) OR drop_bit 2 ((push_bit 2 b AND 0x3C) OR (sar 6 c AND 0x3)) = b"
    "push_bit 4 ((push_bit 4 a AND 0x30) OR (sar 4 b AND 0xF)) OR drop_bit 2 (push_bit 2 b AND 0x3C) = b"
    "push_bit 6 ((push_bit 2 b AND 0x3C) OR (sar 6 c AND 0x3)) OR (c AND 0x3F) = c"
  unfolding mask_numerals sar_def by ((rule byte_eqI; auto simp: bit_simps; simp add: numeral_eq_Suc))+

lemma six_bits:
  fixes a b :: byte
  shows "unat (sar 2 a AND 0x3F) < 64" "unat (push_bit 4 a AND 0x30) < 64" "unat ((push_bit 4 a AND 0x30) OR (sar 4 b AND 0xF)) < 64"
    "unat (push_bit 2 a AND 0x3C) < 64" "unat ((push_bit 2 a AND 0x3C) OR (sar 6 b AND 0x3)) < 64" "unat (a AND 0x3F) < 64"
proof -
  have six: "unat w < 64" if "w AND mask 6 = w" for w :: byte
  proof -
    have "w = take_bit 6 w" using that by (simp add: take_bit_eq_mask)
    then have "unat w = take_bit 6 (unat w)" by (metis unsigned_take_bit_eq)
    moreover have "take_bit 6 (unat w) < 2 ^ 6" by (rule take_bit_nat_less_exp)
    ultimately show ?thesis by simp
  qed
  show "unat (sar 2 a AND 0x3F) < 64" "unat (push_bit 4 a AND 0x30) < 64" "unat ((push_bit 4 a AND 0x30) OR (sar 4 b AND 0xF)) < 64"
    "unat (push_bit 2 a AND 0x3C) < 64" "unat ((push_bit 2 a AND 0x3C) OR (sar 6 b AND 0x3)) < 64" "unat (a AND 0x3F) < 64"
    unfolding mask_numerals sar_def by ((rule six, (rule byte_eqI; auto simp: bit_simps; simp add: numeral_eq_Suc)))+
qed

lemma sextet_enc:
  assumes "unat n < 64"
  shows "sextet (enc n) = n" "enc n \<noteq> pad"
proof -
  have "\<forall>k \<in> set [0..<64]. length (takeWhile (\<lambda>c. c \<noteq> base64_alphabet ! k) base64_alphabet) = k \<and> base64_alphabet ! k \<noteq> CHR ''=''"
    by code_simp
  with assms have k: "length (takeWhile (\<lambda>c. c \<noteq> base64_alphabet ! unat n) base64_alphabet) = unat n"
    "base64_alphabet ! unat n \<noteq> CHR ''=''" by auto
  have inv: "char_of (unat (of_char c :: byte)) = c" for c
  proof -
    have "unat (of_char c :: byte) = of_char c"
      by (metis nat_of_char_less_256 of_nat_of_char unat_byte mod_less)
    then show ?thesis by simp
  qed
  with k show "sextet (enc n) = n" by (simp add: sextet_def enc_def)
  show "enc n \<noteq> pad"
    unfolding enc_def pad_def using k(2) inv by metis
qed

lemma encode64_decodes: "base64_decode (encode64 src) = src"
proof (induction src rule: encode64.induct)
  case (1 a b c src)
  then show ?case
    by (simp only: encode64.simps base64_decode.simps sextet_enc six_bits group if_False append.simps)
next
  case (2 a)
  show ?case
    by (simp only: encode64.simps base64_decode.simps sextet_enc six_bits group pad_def [symmetric] if_True append.simps simp_thms)
next
  case (3 a b)
  show ?case
    by (simp only: encode64.simps base64_decode.simps sextet_enc six_bits group pad_def [symmetric] simp_thms if_False if_True append.simps simp_thms)
qed simp

lemma encode64_length: "length (encode64 src) = 4 * ((length src + 2) div 3)"
proof (induction src rule: encode64.induct)
  case (1 a b c src)
  have "(length (a # b # c # src) + 2) div 3 = (length src + 2) div 3 + 1" by simp
  with 1 show ?case by simp
qed simp_all

text \<open>C39: the characters \<open>encode64\<close> writes decode to the bytes it was given, four for every three bytes
  begun, so that the 20 bytes of a SHA-1 hash take the 28 characters the handshake leaves room for; the signed
  shifts of the code lose nothing.\<close>

theorem encode64_roundtrip:
  "base64_decode (encode64 src) = src \<and> length (encode64 src) = 4 * ((length src + 2) div 3)"
  using encode64_decodes encode64_length by blast

end
