(* ===== verification/Mush_Websock_Read.thy ===== *)
theory Mush_Websock_Read imports Mush_Websock begin

text \<open>
  Reading frames: the automaton of \<open>process_websocket_frame\<close> against the frames of RFC 6455.  \<open>ws_session\<close> are
  the states a connection can be in, \<open>ws_inv\<close> the invariant of the automaton.
\<close>

section \<open>Reading\<close>

lemma ws_bytes_append:
  "ws_bytes w (a @ b) = Option.bind (ws_bytes w a) (\<lambda>(w', out). map_option (\<lambda>(w'', more). (w'', out @ more)) (ws_bytes w' b))"
  by (induction a arbitrary: w)
    (auto simp: bind_eq_Some_conv map_option_case split: option.splits Option.bind_splits prod.splits)

text \<open>Frames as a client makes them, after RFC 6455: opcode, masked length, mask, masked payload.\<close>

definition client_length :: "nat \<Rightarrow> byte list" where
  "client_length n =
     (if n < 126 then [0x80 OR of_nat n]
      else if n < 65536 then [0x80 OR 126, of_nat (n div 256), of_nat n]
      else (0x80 OR 127) # map (\<lambda>i. of_nat (n div 2 ^ (8 * i))) (rev [0..<8]))"

fun masked :: "byte list \<Rightarrow> nat \<Rightarrow> byte list \<Rightarrow> byte list" where
  "masked m k [] = []"
| "masked m k (x # xs) = (x XOR m ! k) # masked m ((k + 1) mod 4) xs"

definition client_frame :: "byte \<Rightarrow> byte list \<Rightarrow> byte list \<Rightarrow> byte list" where
  "client_frame op m payload = op # client_length (length payload) @ m @ masked m 0 payload"

lemma word64_0: "n < 2 ^ 64 \<Longrightarrow> (of_nat n :: 64 word) = 0 \<longleftrightarrow> n = 0"
  using unat_eq_zero [of "of_nat n :: 64 word"] by (simp add: unat_of_nat)

lemma ws_bytes_payload:
  assumes "wf_state w < 4" "wf_mask w = m" "length m = 4" "wf_len w = of_nat (length data)" "length data < 2 ^ 64"
    "data \<noteq> []" "wf_first w = 0 \<or> wf_first w = 2"
  shows "ws_bytes w (masked m (wf_state w) data) =
    Some (w\<lparr>wf_state := 4, wf_len := 0\<rparr>, if wf_first w = 0 then data else [])"
  using assms
proof (induction data arbitrary: w)
  case (Cons x data)
  have st: "\<not> (wf_first w \<le> 1 \<and> length (wf_mask w) < wf_state w + 1)" "wf_state w \<noteq> 4" using Cons.prems by auto
  have len: "wf_len w - 1 = of_nat (length data)" using Cons.prems by simp
  have len0: "(wf_len w - 1 = 0) = (data = [])"
  proof -
    have "length data < 2 ^ 64" using Cons.prems(5) by simp
    from word64_0 [OF this] show ?thesis unfolding len by simp
  qed
  define w' where "w' = w\<lparr>wf_len := wf_len w - 1, wf_state := (if data \<noteq> [] then (wf_state w + 1) mod 4 else 4)\<rparr>"
  have step: "ws_byte w (x XOR m ! wf_state w) = Some (w', if wf_first w = 0 then [x] else [])"
    using Cons.prems(1-3,7) st len0
    by (auto simp: ws_byte_def ws_payload_byte_def Let_def w'_def xor.assoc)
  show ?case
  proof (cases "data = []")
    case True
    with step len show ?thesis by (simp add: w'_def)
  next
    case False
    have "ws_bytes w' (masked m (wf_state w') data) = Some (w'\<lparr>wf_state := 4, wf_len := 0\<rparr>, if wf_first w' = 0 then data else [])"
      using Cons.prems len False by (intro Cons.IH) (auto simp: w'_def)
    with step False show ?thesis by (simp add: w'_def)
  qed
qed simp

lemma ucast_byte: "ucast (of_nat n :: byte) = (of_nat (n mod 256) :: 64 word)"
proof -
  have "unat (of_nat n :: byte) = n mod 256" by (simp add: unat_of_nat)
  then show ?thesis by (metis of_nat_unat)
qed

lemma len_byte: "push_bit 8 (of_nat (n div 256) :: 64 word) OR ucast (of_nat n :: byte) = of_nat n"
proof -
  have "push_bit 8 (of_nat (n div 256) :: 64 word) AND ucast (of_nat n :: byte) = 0"
    by (rule bit_word_eqI) (auto simp: bit_simps)
  then have "push_bit 8 (of_nat (n div 256) :: 64 word) OR ucast (of_nat n :: byte) =
      push_bit 8 (of_nat (n div 256)) + ucast (of_nat n :: byte)"
    by (simp add: disjunctive_add_eq_or)
  also have "\<dots> = of_nat (n div 256 * 256 + n mod 256)"
    unfolding ucast_byte of_nat_add of_nat_mult push_bit_eq_mult by simp
  finally show ?thesis by (simp only: div_mult_mod_eq)
qed

lemma and_7F: "n < 128 \<Longrightarrow> (of_nat n :: byte) AND 0x7F = of_nat n"
proof -
  assume "n < 128"
  have m: "(0x7F :: byte) = mask 7" by (simp add: mask_eq_exp_minus_1)
  have "(of_nat n :: byte) AND 0x7F = of_nat (take_bit 7 n)"
    unfolding m take_bit_eq_mask [symmetric] take_bit_of_nat ..
  also have "take_bit 7 n = n" using \<open>n < 128\<close> by (simp add: take_bit_nat_eq_self)
  finally show ?thesis .
qed

lemma ws_byte_len: "wf_state w \<in> {9..15} \<Longrightarrow>
  ws_byte w ch = Some (w\<lparr>wf_state := wf_state w + 1, wf_len := push_bit 8 (wf_len w) OR ucast ch\<rparr>, [])"
  by (simp add: ws_byte_def Let_def)

lemma len_byte_shift:
  "push_bit 8 (of_nat (n div 2 ^ (8 * Suc i)) :: 64 word) OR ucast (of_nat (n div 2 ^ (8 * i)) :: byte) = of_nat (n div 2 ^ (8 * i))"
proof -
  have "n div 2 ^ (8 * Suc i) = n div 2 ^ (8 * i) div 256"
    unfolding div_mult2_eq [symmetric] by (simp add: power_add mult.commute)
  then show ?thesis by (simp only: len_byte)
qed

lemma ws_bytes_len64_from:
  "wf_state w + i = 16 \<Longrightarrow> i < 8 \<Longrightarrow> wf_len w = of_nat (n div 2 ^ (8 * i)) \<Longrightarrow>
   ws_bytes w (map (\<lambda>i. of_nat (n div 2 ^ (8 * i))) (rev [0..<i])) = Some (w\<lparr>wf_state := 16, wf_len := of_nat n\<rparr>, [])"
proof (induction i arbitrary: w)
  case (Suc i)
  then have "wf_state w \<in> {9..15}" by auto
  then have "ws_byte w (of_nat (n div 2 ^ (8 * i))) =
      Some (w\<lparr>wf_state := wf_state w + 1, wf_len := of_nat (n div 2 ^ (8 * i))\<rparr>, [])"
    using Suc.prems(3) len_byte_shift [of n i] by (simp add: ws_byte_len)
  moreover have "ws_bytes (w\<lparr>wf_state := wf_state w + 1, wf_len := of_nat (n div 2 ^ (8 * i))\<rparr>)
      (map (\<lambda>i. of_nat (n div 2 ^ (8 * i))) (rev [0..<i])) = Some (w\<lparr>wf_state := 16, wf_len := of_nat n\<rparr>, [])"
    using Suc.prems by (subst Suc.IH) auto
  ultimately show ?case by simp
next
  case 0
  then show ?case by (cases w) simp
qed

lemma ws_bytes_len64:
  assumes "wf_state w = 8" "n < 2 ^ 63"
  shows "ws_bytes w (map (\<lambda>i. of_nat (n div 2 ^ (8 * i))) (rev [0..<8])) = Some (w\<lparr>wf_state := 16, wf_len := of_nat n\<rparr>, [])"
proof -
  have n: "n div 2 ^ 56 < 128" using assms(2) by (simp add: less_mult_imp_div_less)
  have "(ucast (of_nat (n div 2 ^ 56) :: byte) :: 64 word) = of_nat (n div 2 ^ 56)"
    using n by (simp add: ucast_byte)
  then have "ws_byte w (of_nat (n div 2 ^ (8 * 7))) = Some (w\<lparr>wf_state := 9, wf_len := of_nat (n div 2 ^ (8 * 7))\<rparr>, [])"
    using assms(1) and_7F [OF n] by (simp add: ws_byte_def Let_def)
  moreover have "ws_bytes (w\<lparr>wf_state := 9, wf_len := of_nat (n div 2 ^ (8 * 7))\<rparr>)
      (map (\<lambda>i. of_nat (n div 2 ^ (8 * i))) (rev [0..<7])) = Some (w\<lparr>wf_state := 16, wf_len := of_nat n\<rparr>, [])"
    by (subst ws_bytes_len64_from) auto
  moreover have "rev [0..<8] = 7 # rev [0..<7]" by (simp add: upt_rec)
  ultimately show ?thesis by (simp del: upt_Suc)
qed

lemma or_80: "n < 128 \<Longrightarrow> (0x80 OR of_nat n :: byte) AND 0x7F = of_nat n"
proof -
  assume "n < 128"
  have "(0x80 OR of_nat n :: byte) AND 0x7F = of_nat n AND 0x7F"
    by (simp add: bit.conj_disj_distrib2)
  with and_7F [OF \<open>n < 128\<close>] show ?thesis by simp
qed

lemma ws_bytes_length:
  assumes "wf_state w = 5" "n < 2 ^ 63"
  shows "ws_bytes w (client_length n) = Some (w\<lparr>wf_state := 16, wf_len := of_nat n\<rparr>, [])"
proof -
  consider "n < 126" | "126 \<le> n" "n < 65536" | "65536 \<le> n" by linarith
  then show ?thesis
  proof cases
    case 1
    then have n: "(0x80 OR of_nat n :: byte) AND 0x7F = of_nat n" "unat (of_nat n :: byte) = n" by (simp_all add: or_80 unat_of_nat)
    then have "(of_nat n :: byte) \<noteq> 126" "(of_nat n :: byte) \<noteq> 127" using 1 by auto
    with 1 n assms(1) show ?thesis
      by (simp add: client_length_def ws_byte_def ws_len_byte_def Let_def ucast_byte)
  next
    case 2
    have "(0x80 OR 126 :: byte) AND 0x7F = 126" by simp
    moreover have "(ucast (of_nat (n div 256) :: byte) :: 64 word) = of_nat (n div 256)"
      using 2 by (simp add: ucast_byte less_mult_imp_div_less)
    ultimately show ?thesis
      using 2 assms(1) len_byte [of n] by (simp add: client_length_def ws_byte_def ws_len_byte_def Let_def)
  next
    case 3
    have "(0x80 OR 127 :: byte) AND 0x7F = 127" by simp
    then have "ws_byte w (0x80 OR 127) = Some (w\<lparr>wf_state := 8\<rparr>, [])"
      using assms(1) by (simp add: ws_byte_def ws_len_byte_def Let_def)
    with 3 assms(2) ws_bytes_len64 [of "w\<lparr>wf_state := 8\<rparr>" n] show ?thesis
      by (simp add: client_length_def)
  qed
qed

lemma ws_bytes_mask:
  assumes "wf_state w = 16" "wf_mask w = [a, b, c, d]"
  shows "ws_bytes w [a', b', c', d'] = Some (w\<lparr>wf_mask := [a', b', c', d'], wf_state := (if wf_len w \<noteq> 0 then 0 else 4)\<rparr>, [])"
  using assms by (cases "wf_len w = 0") (simp_all add: ws_byte_def Let_def)

definition ws_idle :: "ws_frame \<Rightarrow> bool" where
  "ws_idle w \<longleftrightarrow> wf_state w = 4 \<and> length (wf_mask w) = 4"

lemma four: "length m = 4 \<Longrightarrow> \<exists>a b c d. m = [a, b, c, d]"
  by (auto simp: numeral_eq_Suc length_Suc_conv)

lemma ws_bytes_head:
  assumes "ws_idle w" "length m = 4" "n < 2 ^ 63"
  shows "ws_bytes w (op # client_length n @ m) =
    Some ((ws_type_byte w op)\<lparr>wf_mask := m, wf_len := of_nat n, wf_state := (if n \<noteq> 0 then 0 else 4)\<rparr>, [])"
proof -
  define w1 where "w1 = (ws_type_byte w op)\<lparr>wf_state := 5\<rparr>"
  have s1: "ws_byte w op = Some (w1, [])"
    using assms(1) by (cases w) (simp add: ws_byte_def ws_idle_def w1_def ws_type_byte_def Let_def)
  have s2: "ws_bytes w1 (client_length n) = Some (w1\<lparr>wf_state := 16, wf_len := of_nat n\<rparr>, [])"
    using assms(3) by (intro ws_bytes_length) (simp_all add: w1_def)
  have mm: "wf_mask w1 = wf_mask w" by (simp add: w1_def ws_type_byte_def Let_def)
  obtain a b c d where m: "wf_mask w = [a, b, c, d]" using four assms(1) unfolding ws_idle_def by blast
  obtain a' b' c' d' where m': "m = [a', b', c', d']" using four assms(2) by blast
  have n: "(of_nat n :: 64 word) = 0 \<longleftrightarrow> n = 0" using assms(3) by (intro word64_0) simp
  have s3: "ws_bytes (w1\<lparr>wf_state := 16, wf_len := of_nat n\<rparr>) m =
      Some (w1\<lparr>wf_mask := m, wf_len := of_nat n, wf_state := (if n \<noteq> 0 then 0 else 4)\<rparr>, [])"
    using ws_bytes_mask [of "w1\<lparr>wf_state := 16, wf_len := of_nat n\<rparr>" a b c d a' b' c' d'] mm m n
    by (cases "n = 0") (simp_all add: m')
  show ?thesis
    using s1 s2 s3 by (simp add: ws_bytes_append w1_def)
qed

lemma ws_bytes_frame:
  assumes "ws_idle w" "length m = 4" "length payload < 2 ^ 63" "op AND 0x0F = WS_OP_CONTINUATION"
  shows "\<exists>w'. ws_bytes w (client_frame op m payload) = Some (w', payload) \<and> ws_idle w' \<and> wf_first w' = 0"
proof -
  define w1 where "w1 = (ws_type_byte w op)\<lparr>wf_mask := m, wf_len := of_nat (length payload),
    wf_state := (if length payload \<noteq> 0 then 0 else 4)\<rparr>"
  have h: "ws_bytes w (op # client_length (length payload) @ m) = Some (w1, [])"
    unfolding w1_def by (rule ws_bytes_head) (use assms in auto)
  have f: "wf_first w1 = 0" using assms(4) by (simp add: w1_def ws_type_byte_def)
  have "\<exists>w'. ws_bytes w1 (masked m 0 payload) = Some (w', payload) \<and> ws_idle w' \<and> wf_first w' = 0"
  proof (cases "payload = []")
    case True
    with f assms(2) show ?thesis by (simp add: w1_def ws_idle_def)
  next
    case False
    then have "ws_bytes w1 (masked m (wf_state w1) payload) = Some (w1\<lparr>wf_state := 4, wf_len := 0\<rparr>, payload)"
      using ws_bytes_payload [of w1 m payload] f assms(2,3) by (simp add: w1_def)
    with False f assms(2) show ?thesis by (simp add: w1_def ws_idle_def)
  qed
  with h show ?thesis
    using ws_bytes_append [of w "op # client_length (length payload) @ m" "masked m 0 payload"]
    by (auto simp: client_frame_def)
qed

lemma ws_bytes_text:
  assumes "ws_idle w" "length m = 4" "length data + 1 < 2 ^ 63" "op AND 0x0F = WS_OP_TEXT"
  shows "\<exists>w'. ws_bytes w (client_frame op m (WEBSOCKET_CHANNEL_TEXT # data)) = Some (w', data) \<and> ws_idle w' \<and> wf_first w' = 0"
proof -
  let ?n = "length data + 1"
  define w1 where "w1 = (ws_type_byte w op)\<lparr>wf_mask := m, wf_len := of_nat ?n, wf_state := 0\<rparr>"
  have h: "ws_bytes w (op # client_length ?n @ m) = Some (w1, [])"
    unfolding w1_def using ws_bytes_head [OF assms(1,2), of ?n op] assms(3) by simp
  obtain a b c d where m: "m = [a, b, c, d]" using four assms(2) by blast
  have f: "wf_first w1 = 1" using assms(4) by (simp add: w1_def ws_type_byte_def WS_OP_TEXT_def WS_OP_CONTINUATION_def)
  have len: "wf_len w1 - 1 = of_nat (length data)" by (simp add: w1_def)
  have l0: "(of_nat (length data) :: 64 word) = 0 \<longleftrightarrow> length data = 0"
    using assms(3) by (intro word64_0) simp
  define w2 where "w2 = w1\<lparr>wf_first := 0, wf_len := of_nat (length data), wf_state := (if data \<noteq> [] then 1 else 4)\<rparr>"
  have s: "ws_byte w1 (WEBSOCKET_CHANNEL_TEXT XOR m ! 0) = Some (w2, [])"
    using f len l0 by (auto simp: ws_byte_def ws_payload_byte_def Let_def w2_def w1_def m xor.assoc)
  have "\<exists>w'. ws_bytes w2 (masked m 1 data) = Some (w', data) \<and> ws_idle w' \<and> wf_first w' = 0"
  proof (cases "data = []")
    case True
    with assms(2) show ?thesis by (simp add: w2_def w1_def ws_idle_def)
  next
    case False
    then have "ws_bytes w2 (masked m (wf_state w2) data) = Some (w2\<lparr>wf_state := 4, wf_len := 0\<rparr>, data)"
      using ws_bytes_payload [of w2 m data] assms(2,3) by (simp add: w2_def w1_def)
    with False assms(2) show ?thesis by (simp add: w2_def w1_def ws_idle_def)
  qed
  with h s show ?thesis
    using ws_bytes_append [of w "op # client_length ?n @ m" "masked m 0 (WEBSOCKET_CHANNEL_TEXT # data)"]
    by (auto simp: client_frame_def)
qed

section \<open>A connection\<close>

text \<open>The states a connection goes through: the handshake, then a read at a time.\<close>

inductive ws_session :: "ws_desc \<Rightarrow> bool" where
  Start: "length (wd_checksum d) = PUEBLO_CHECKSUM_LEN + 1 \<Longrightarrow> ws_session (complete_handshake sha1 d)"
| Read: "ws_session d \<Longrightarrow> process_websocket_frame d tbuf1 = Some (d', out) \<Longrightarrow> ws_session d'"

definition ws_inv :: "ws_frame \<Rightarrow> bool" where
  "ws_inv w \<longleftrightarrow> length (wf_mask w) = 4 \<and> wf_first w < 256 \<and>
     (wf_state w < 4 \<and> wf_len w \<noteq> 0 \<or> 4 \<le> wf_state w \<and> wf_state w \<le> 19)"

lemma ws_byte_inv:
  assumes "ws_inv w"
  shows "\<exists>w' out. ws_byte w ch = Some (w', out) \<and> ws_inv w' \<and> length out \<le> 1"
proof -
  consider "wf_state w < 4" | "wf_state w = 4" | "wf_state w = 5" | "wf_state w = 6" | "wf_state w = 7" | "wf_state w = 8"
    | "wf_state w \<in> {9..15}" | "wf_state w \<in> {16..18}" | "wf_state w = 19"
    using assms by (auto simp: ws_inv_def) linarith
  then show ?thesis
    using assms
    by cases (auto simp: ws_byte_def ws_inv_def ws_type_byte_def ws_len_byte_def ws_payload_byte_def Let_def)
qed

lemma ws_bytes_inv:
  "ws_inv w \<Longrightarrow> \<exists>w' out. ws_bytes w cs = Some (w', out) \<and> ws_inv w' \<and> length out \<le> length cs"
proof (induction cs arbitrary: w)
  case (Cons ch cs)
  obtain w' out where w': "ws_byte w ch = Some (w', out)" "ws_inv w'" "length out \<le> 1"
    using ws_byte_inv [OF Cons.prems] by blast
  from Cons.IH [OF w'(2)] obtain w'' more where "ws_bytes w' cs = Some (w'', more)" "ws_inv w''" "length more \<le> length cs"
    by blast
  with w' show ?case by simp
qed simp

definition ws_desc_ok :: "ws_desc \<Rightarrow> bool" where
  "ws_desc_ok d \<longleftrightarrow> length (wd_checksum d) = PUEBLO_CHECKSUM_LEN + 1 \<and> ws_inv (ws_restore d)"

lemma ws_restore_preserve:
  assumes "ws_inv w"
  shows "ws_restore (ws_preserve w d) = w"
proof -
  obtain a b c e where "wf_mask w = [a, b, c, e]" using four assms unfolding ws_inv_def by blast
  with assms show ?thesis
    by (cases w) (auto simp: ws_restore_def ws_preserve_def ws_inv_def unat_of_nat)
qed

lemma process_websocket_frame_ok:
  assumes "ws_desc_ok d"
  obtains w out where "ws_bytes (ws_restore d) tbuf1 = Some (w, out)"
    "process_websocket_frame d tbuf1 = Some (ws_preserve w d, out)" "ws_desc_ok (ws_preserve w d)"
    "ws_restore (ws_preserve w d) = w" "length out \<le> length tbuf1"
proof -
  obtain w out where w: "ws_bytes (ws_restore d) tbuf1 = Some (w, out)" "ws_inv w" "length out \<le> length tbuf1"
    using ws_bytes_inv assms unfolding ws_desc_ok_def by blast
  then have "ws_desc_ok (ws_preserve w d)"
    using assms ws_restore_preserve [OF w(2), of d]
    by (auto simp: ws_desc_ok_def ws_preserve_def PUEBLO_CHECKSUM_LEN_def ws_inv_def)
  with w ws_restore_preserve [OF w(2), of d] show thesis
    by (intro that [of w out]) (auto simp: process_websocket_frame_def)
qed

lemma complete_handshake_ok:
  assumes "length (wd_checksum d) = PUEBLO_CHECKSUM_LEN + 1"
  shows "ws_desc_ok (complete_handshake sha1 d)" "ws_idle (ws_restore (complete_handshake sha1 d))"
proof -
  have "unat (wd_checksum d ! 6) < 256" using unsigned_less [of "wd_checksum d ! 6"] by simp
  with assms show "ws_desc_ok (complete_handshake sha1 d)" "ws_idle (ws_restore (complete_handshake sha1 d))"
    by (auto simp: ws_desc_ok_def ws_inv_def ws_idle_def ws_restore_def complete_handshake_def PUEBLO_CHECKSUM_LEN_def)
qed

lemma ws_session_ok: "ws_session d \<Longrightarrow> ws_desc_ok d"
proof (induction rule: ws_session.induct)
  case (Read d tbuf1 d' out)
  then show ?case by (elim process_websocket_frame_ok [of d tbuf1]) auto
qed (simp add: complete_handshake_ok)

fun ws_feed :: "ws_desc \<Rightarrow> byte list list \<Rightarrow> (ws_desc \<times> byte list) option" where
  "ws_feed d [] = Some (d, [])"
| "ws_feed d (buf # bufs) =
     Option.bind (process_websocket_frame d buf) (\<lambda>(d', out). map_option (\<lambda>(d'', more). (d'', out @ more)) (ws_feed d' bufs))"

lemma ws_feed_bytes:
  "ws_desc_ok d \<Longrightarrow> \<exists>d' w out. ws_feed d bufs = Some (d', out) \<and> ws_desc_ok d' \<and> ws_restore d' = w
     \<and> ws_bytes (ws_restore d) (concat bufs) = Some (w, out)"
proof (induction bufs arbitrary: d)
  case (Cons buf bufs)
  obtain w out where w: "ws_bytes (ws_restore d) buf = Some (w, out)"
    "process_websocket_frame d buf = Some (ws_preserve w d, out)" "ws_desc_ok (ws_preserve w d)"
    "ws_restore (ws_preserve w d) = w"
    using process_websocket_frame_ok [OF Cons.prems] by blast
  from Cons.IH [OF w(3)] w show ?case
    by (auto simp: ws_bytes_append)
qed simp

definition message_frames :: "byte \<Rightarrow> byte list \<Rightarrow> byte list \<Rightarrow> (byte \<times> byte list \<times> byte list) list \<Rightarrow> byte list" where
  "message_frames op m data rest =
     client_frame op m (WEBSOCKET_CHANNEL_TEXT # data) @ concat (map (\<lambda>(o', m', x). client_frame o' m' x) rest)"

lemma ws_bytes_rest:
  assumes "ws_idle w" "\<forall>(o', m', x) \<in> set rest. o' AND 0x0F = WS_OP_CONTINUATION \<and> length m' = 4 \<and> length x < 2 ^ 63"
  shows "\<exists>w'. ws_bytes w (concat (map (\<lambda>(o', m', x). client_frame o' m' x) rest)) = Some (w', concat (map (\<lambda>(o', m', x). x) rest))
    \<and> ws_idle w'"
  using assms
proof (induction rest arbitrary: w)
  case (Cons f rest)
  obtain o' m' x where f: "f = (o', m', x)" by (cases f)
  obtain w1 where "ws_bytes w (client_frame o' m' x) = Some (w1, x)" "ws_idle w1"
    using ws_bytes_frame [of w m' x o'] Cons.prems f by auto
  with Cons.IH [of w1] Cons.prems(2) f show ?case by (auto simp: ws_bytes_append)
qed simp

section \<open>What a connection receives\<close>

text \<open>C21: whatever a client sends after the handshake, in reads of any size, the automaton stays inside its mask and
  writes no more bytes than it has read, so that decoding in place never overtakes the input.\<close>

theorem ws_session_safe:
  assumes "ws_session d"
  shows "\<exists>d' out. process_websocket_frame d tbuf1 = Some (d', out) \<and> length out \<le> length tbuf1"
  using process_websocket_frame_ok [OF ws_session_ok [OF assms], of tbuf1] by blast


definition sample_desc :: ws_desc where
  "sample_desc = \<lparr>wd_conn_flags = CONN_WEBSOCKETS_REQUEST, wd_checksum = replicate 41 0x41, wd_frame_len = 0, wd_output = []\<rparr>"

lemma sample_session: "ws_session (complete_handshake sha1 sample_desc)"
  by (rule ws_session.Start) (simp add: sample_desc_def PUEBLO_CHECKSUM_LEN_def)

theorem ws_session_safe_witness:
  "\<exists>d' out. process_websocket_frame (complete_handshake (\<lambda>_. replicate 20 0) sample_desc) [0x81, 0xFF, 7] = Some (d', out)
    \<and> length out \<le> length [0x81 :: byte, 0xFF, 7]"
  by (rule ws_session_safe [OF sample_session])


end
