(* ===== verification/Mush_Websock_Send.thy ===== *)
theory Mush_Websock_Send imports Mush_Websock begin

text \<open>
  Writing frames: \<open>to_websocket_frame\<close> on text with tags, read back by a client as RFC 6455 has it, and the
  tags of \<open>markup_websocket\<close> on their way through it.
\<close>

section \<open>Sending\<close>

text \<open>How a client reads the frames: fin bit and text opcode, length, and a channel byte before the data.\<close>

definition big_endian :: "byte list \<Rightarrow> nat" where
  "big_endian bs = foldl (\<lambda>n b. 256 * n + unat b) 0 bs"

definition ws_length :: "byte list \<Rightarrow> nat \<times> byte list" where
  "ws_length s =
     (let n = unat (hd s) in
      if n < 126 then (n, tl s)
      else if n = 126 then (big_endian (take 2 (tl s)), drop 2 (tl s))
      else (big_endian (take 8 (tl s)), drop 8 (tl s)))"

definition ws_next :: "byte list \<Rightarrow> ((byte \<times> byte list) \<times> byte list) option" where
  "ws_next s =
     (if s = [] \<or> hd s \<noteq> 0x81 \<or> tl s = [] then None
      else
        let (n, r) = ws_length (tl s) in
        if n = 0 \<or> length r < n then None else Some ((hd r, take (n - 1) (tl r)), drop n r))"

lemma ws_next_shorter: "ws_next s = Some (m, r) \<Longrightarrow> length r < length s"
  by (auto simp: ws_next_def ws_length_def Let_def split: if_splits)

function client_reads :: "byte list \<Rightarrow> (byte \<times> byte list) list option" where
  "client_reads s =
     (if s = [] then Some []
      else case ws_next s of None \<Rightarrow> None | Some mr \<Rightarrow> map_option ((#) (fst mr)) (client_reads (snd mr)))"
  by pat_completeness auto
termination
  by (relation "measure length") (auto dest: ws_next_shorter)

declare client_reads.simps [simp del]

lemma client_reads_Nil [simp]: "client_reads [] = Some []"
  by (simp add: client_reads.simps)

lemma big_endian_append: "big_endian (a @ b) = foldl (\<lambda>n b. 256 * n + unat b) (big_endian a) b"
  by (simp add: big_endian_def)

lemma big_endian_bytes: "big_endian (map (\<lambda>i. of_nat (n div 2 ^ (8 * i))) (rev [0..<k])) = n mod 2 ^ (8 * k)"
proof -
  have "foldl (\<lambda>n b. 256 * n + unat (b :: byte)) a (map (\<lambda>i. of_nat (n div 2 ^ (8 * i))) (rev [0..<k])) =
      a * 2 ^ (8 * k) + n mod 2 ^ (8 * k)" for a
  proof (induction k arbitrary: a)
    case (Suc k)
    have "n mod 2 ^ (8 * Suc k) = 2 ^ (8 * k) * (n div 2 ^ (8 * k) mod 256) + n mod 2 ^ (8 * k)"
      by (simp add: power_add mult.commute [of 256] mod_mult2_eq)
    with Suc show ?case by (simp add: unat_byte algebra_simps power_add)
  qed simp
  from this [of 0] show ?thesis by (simp add: big_endian_def)
qed

lemma ws_length_header:
  assumes "0 < n" "n < 2 ^ 64"
  shows "ws_length (tl (ws_header n) @ r) = (n, r)" "tl (ws_header n) \<noteq> []" "hd (ws_header n) = 0x81" "ws_header n \<noteq> []"
proof -
  show "tl (ws_header n) \<noteq> []" "hd (ws_header n) = 0x81" "ws_header n \<noteq> []"
    by (simp_all add: ws_header_def WS_OP_TEXT_def)
  consider "n < 126" | "126 \<le> n" "n < 65536" | "65536 \<le> n" by linarith
  then show "ws_length (tl (ws_header n) @ r) = (n, r)"
  proof cases
    case 1
    then show ?thesis by (simp add: ws_header_def ws_length_def Let_def unat_byte)
  next
    case 2
    then have "n div 256 < 256" by (simp add: less_mult_imp_div_less)
    with 2 show ?thesis
      by (simp add: ws_header_def ws_length_def Let_def big_endian_def unat_byte)
  next
    case 3
    define bs where "bs = map (\<lambda>i. of_nat (n div 2 ^ (8 * i)) :: byte) (rev [0..<8])"
    have "length bs = 8" "big_endian bs = n"
      using big_endian_bytes [of n 8] assms(2) by (simp_all add: bs_def)
    moreover have "ws_header n = 0x81 # 127 # bs"
      using 3 by (simp add: ws_header_def WS_OP_TEXT_def bs_def)
    ultimately show ?thesis by (simp add: ws_length_def Let_def)
  qed
qed

lemma client_reads_message:
  assumes "length data + 1 < 2 ^ 64"
  shows "client_reads (ws_header (1 + length data) @ ch # data @ s) = map_option ((#) (ch, data)) (client_reads s)"
proof -
  let ?n = "1 + length data"
  have n: "0 < ?n" "?n < 2 ^ 64" using assms by simp_all
  note h = ws_length_header [OF n]
  have "ws_next (ws_header ?n @ ch # data @ s) = Some ((ch, data), s)"
    using h(2-4) h(1) [of "ch # data @ s"] by (simp add: ws_next_def Let_def)
  then show ?thesis
    using h(4) by (subst client_reads.simps) simp
qed

type_synonym ws_message = "byte \<times> byte list"

definition frames :: "ws_message list \<Rightarrow> byte list" where
  "frames ms = concat (map (\<lambda>(ch, data). ws_header (1 + length data) @ ch # data) ms)"

definition frames_size :: "ws_message list \<Rightarrow> nat" where
  "frames_size ms = (\<Sum>(ch, data) \<leftarrow> ms. length data + 11)"

lemma frames_simps [simp]:
  "frames [] = []" "frames ((ch, data) # ms) = ws_header (1 + length data) @ ch # data @ frames ms"
  "frames (ms @ ms') = frames ms @ frames ms'"
  by (simp_all add: frames_def)

lemma frames_size_simps [simp]:
  "frames_size [] = 0" "frames_size ((ch, data) # ms) = length data + 11 + frames_size ms"
  "frames_size (ms @ ms') = frames_size ms + frames_size ms'"
  by (simp_all add: frames_size_def)

lemma length_frames: "length (frames ms) \<le> frames_size ms"
  by (induction ms) (auto simp: ws_header_def)

lemma client_reads_frames: "frames_size ms < 2 ^ 64 \<Longrightarrow> client_reads (frames ms) = Some ms"
proof (induction ms)
  case (Cons m ms)
  then show ?case by (cases m) (simp add: client_reads_message [simplified])
qed simp

lemma write_message_frames:
  assumes "frames_size ms + length data + 11 \<le> room"
  shows "write_message room (frames ms) data ch = frames (ms @ [(ch, data)])"
proof -
  have "length data \<le> room - length (frames ms) - 11" "11 \<le> room - length (frames ms)"
    using assms length_frames [of ms] by linarith+
  then show ?thesis by (simp add: write_message_def Let_def)
qed

section \<open>Text with tags\<close>

datatype ws_tagged = Pueblo "byte list" | Channel byte "byte list" | Alt | Alt_End | Other byte "byte list"

fun tag_text :: "ws_tagged \<Rightarrow> byte list" where
  "tag_text (Pueblo d) = MARKUP_HTML # d"
| "tag_text (Channel c d) = MARKUP_WS # c # d"
| "tag_text Alt = [MARKUP_WS_ALT]"
| "tag_text Alt_End = [MARKUP_WS_ALT_END]"
| "tag_text (Other k d) = k # d"

definition tag_ok :: "ws_tagged \<Rightarrow> bool" where
  "tag_ok g \<longleftrightarrow> 0 \<notin> set (tag_text g) \<and> TAG_END_byte \<notin> set (tag_text g) \<and>
     (\<forall>k d. g = Other k d \<longrightarrow> k \<notin> {MARKUP_HTML, MARKUP_WS, MARKUP_WS_ALT, MARKUP_WS_ALT_END})"

definition text_ok :: "byte list \<Rightarrow> bool" where
  "text_ok t \<longleftrightarrow> 0 \<notin> set t \<and> TAG_START_byte \<notin> set t \<and> TAG_END_byte \<notin> set t"

fun render :: "(byte list \<times> ws_tagged) list \<Rightarrow> byte list \<Rightarrow> byte list" where
  "render [] tail = tail"
| "render ((t, g) # ps) tail = t @ TAG_START_byte # tag_text g @ TAG_END_byte # render ps tail"

fun tag_message :: "ws_tagged \<Rightarrow> ws_message list" where
  "tag_message (Pueblo d) = [(WEBSOCKET_CHANNEL_PUEBLO, d)]"
| "tag_message (Channel c d) = [(c, d)]"
| "tag_message g = []"

fun tag_suppress :: "ws_tagged \<Rightarrow> bool \<Rightarrow> bool" where
  "tag_suppress Alt s = True"
| "tag_suppress Alt_End s = False"
| "tag_suppress g s = s"

definition text_message :: "bool \<Rightarrow> byte list \<Rightarrow> ws_message list" where
  "text_message suppress t = (if \<not> suppress \<and> t \<noteq> [] then [(WEBSOCKET_CHANNEL_TEXT, t)] else [])"

fun sent :: "bool \<Rightarrow> (byte list \<times> ws_tagged) list \<Rightarrow> byte list \<Rightarrow> ws_message list" where
  "sent suppress [] tail = text_message suppress tail"
| "sent suppress ((t, g) # ps) tail = text_message suppress t @ tag_message g @ sent (tag_suppress g suppress) ps tail"

lemma ws_scan_text: "text_ok t \<Longrightarrow> ws_scan room (t @ s) start None suppress dst = ws_scan room s (start @ t) None suppress dst"
  by (induction t arbitrary: start) (auto simp: text_ok_def)

lemma ws_scan_tag:
  "TAG_END_byte \<notin> set t \<Longrightarrow>
   ws_scan room (t @ TAG_END_byte # s) start (Some u) suppress dst =
     ws_scan room s [] None (fst (ws_tag room (u @ t) suppress dst)) (snd (ws_tag room (u @ t) suppress dst))"
proof (induction t arbitrary: start u)
  case Nil
  have "TAG_END_byte \<noteq> TAG_START_byte" by (simp add: TAG_END_byte_def TAG_START_byte_def TAG_END_def TAG_START_def)
  then show ?case by simp
qed auto

lemma ws_tag_frames:
  assumes "tag_ok g" "frames_size (ms @ tag_message g) \<le> room"
  shows "ws_tag room (tag_text g) suppress (frames ms) = (tag_suppress g suppress, frames (ms @ tag_message g))"
proof (cases g)
  case (Other k d)
  with assms show ?thesis by (auto simp: ws_tag_def tag_ok_def)
qed (use assms in \<open>auto simp: ws_tag_def write_message_frames [simplified]
    MARKUP_HTML_def MARKUP_WS_def MARKUP_WS_ALT_def MARKUP_WS_ALT_END_def\<close>)

lemma ws_scan_render:
  "\<forall>(t, g) \<in> set ps. text_ok t \<and> tag_ok g \<Longrightarrow> text_ok tail \<Longrightarrow> frames_size (ms @ sent suppress ps tail) \<le> room \<Longrightarrow>
   ws_scan room (render ps tail) [] None suppress (frames ms) = frames (ms @ sent suppress ps tail)"
proof (induction ps arbitrary: suppress ms)
  case Nil
  then show ?case
    using ws_scan_text [of tail room "[]" "[]" suppress "frames ms"]
    by (auto simp: text_message_def write_message_frames [simplified])
next
  case (Cons p ps)
  obtain t g where p: "p = (t, g)" by (cases p)
  with Cons.prems have ok: "text_ok t" "tag_ok g" by auto
  define ms' where "ms' = ms @ text_message suppress t"
  have w: "(if \<not> suppress \<and> t \<noteq> [] then write_message room (frames ms) t WEBSOCKET_CHANNEL_TEXT else frames ms) = frames ms'"
    using Cons.prems(3) p by (auto simp: ms'_def text_message_def write_message_frames [simplified])
  have g: "ws_tag room (tag_text g) suppress (frames ms') = (tag_suppress g suppress, frames (ms' @ tag_message g))"
    using Cons.prems(3) p by (intro ws_tag_frames ok) (simp add: ms'_def)
  have "ws_scan room (render (p # ps) tail) [] None suppress (frames ms) =
      ws_scan room (TAG_START_byte # tag_text g @ TAG_END_byte # render ps tail) t None suppress (frames ms)"
    using ws_scan_text [OF ok(1)] by (simp add: p)
  also have "\<dots> = ws_scan room (tag_text g @ TAG_END_byte # render ps tail) (t @ [TAG_START_byte]) (Some []) suppress (frames ms')"
    using w by simp
  also have "\<dots> = ws_scan room (render ps tail) [] None (tag_suppress g suppress) (frames (ms' @ tag_message g))"
    using ws_scan_tag [of "tag_text g" room] ok(2) g by (simp add: tag_ok_def)
  also have "\<dots> = frames ((ms' @ tag_message g) @ sent (tag_suppress g suppress) ps tail)"
    using Cons.prems p by (intro Cons.IH) (auto simp: ms'_def)
  finally show ?case by (simp add: p ms'_def)
qed

lemma render_no_zero:
  "\<forall>(t, g) \<in> set ps. text_ok t \<and> tag_ok g \<Longrightarrow> text_ok tail \<Longrightarrow> 0 \<notin> set (render ps tail)"
  by (induction ps) (auto simp: text_ok_def tag_ok_def TAG_START_byte_def TAG_END_byte_def TAG_START_def TAG_END_def)

lemma sends_messages:
  assumes "\<forall>(t, g) \<in> set ps. text_ok t \<and> tag_ok g" "text_ok tail" "frames_size (sent False ps tail) \<le> WS_BUF"
  shows "client_reads (to_websocket_frame (render ps tail) WEBSOCKET_CHANNEL_AUTO) = Some (sent False ps tail)"
proof -
  have tk: "takeWhile (\<lambda>c. c \<noteq> 0) (render ps tail) = render ps tail"
    using render_no_zero [OF assms(1,2)] unfolding takeWhile_eq_all_conv by metis
  have "frames_size (sent False ps tail) < 2 ^ 64"
    using assms(3) by (simp add: WS_BUF_def BUFFER_LEN_def)
  then show ?thesis
    using ws_scan_render [OF assms(1,2), of "[]" False WS_BUF] assms(3)
    unfolding to_websocket_frame_def tk by (simp add: client_reads_frames)
qed

section \<open>Markup for channels\<close>

text \<open>C22: a text with tags is sent as the messages it stands for, in order: its plain parts on the text channel, unless
  they are a fallback, HTML on the Pueblo channel and marked-up data on the channel named; a client that reads the
  frames gets exactly these, when they fit the buffer.\<close>

theorem websocket_sends_messages:
  assumes "\<forall>(t, g) \<in> set ps. text_ok t \<and> tag_ok g" "text_ok tail" "frames_size (sent False ps tail) \<le> WS_BUF"
  shows "client_reads (to_websocket_frame (render ps tail) WEBSOCKET_CHANNEL_AUTO) = Some (sent False ps tail)"
  using assms by (rule sends_messages)

theorem websocket_sends_messages_witness:
  "client_reads (to_websocket_frame
     (render [(bytes ''hi '', Channel 0x6A (bytes ''{}'')), ([], Alt), (bytes ''no'', Alt_End)] (bytes ''bye'')) WEBSOCKET_CHANNEL_AUTO)
   = Some [(WEBSOCKET_CHANNEL_TEXT, bytes ''hi ''), (0x6A, bytes ''{}''), (WEBSOCKET_CHANNEL_TEXT, bytes ''bye'')]"
  using websocket_sends_messages [of "[(bytes ''hi '', Channel 0x6A (bytes ''{}'')), ([], Alt), (bytes ''no'', Alt_End)]" "bytes ''bye''"]
  by (simp add: text_ok_def tag_ok_def bytes_def text_message_def WS_BUF_def BUFFER_LEN_def TAG_START_byte_def TAG_END_byte_def
      TAG_START_def TAG_END_def MARKUP_HTML_def MARKUP_WS_def MARKUP_WS_ALT_def MARKUP_WS_ALT_END_def)

lemma fit_fits: "fst (safe_chr c (fit t)) = 0 \<Longrightarrow> fit (t @ [c]) = t @ [c]"
  by (auto simp: safe_chr_def fit_def split: if_splits)

lemma byte_of_char [simp]: "of_char c = (of_char d :: byte) \<longleftrightarrow> c = d"
proof -
  have "char_of (unat (of_char c :: byte)) = c" for c
    by (metis nat_of_char_less_256 of_nat_of_char unat_byte mod_less of_char_of char_of_char)
  then show ?thesis by metis
qed

lemma byte_zero [simp]: "of_char c = (0 :: byte) \<longleftrightarrow> c = NUL" "0 = (of_char c :: byte) \<longleftrightarrow> c = NUL"
  using byte_of_char [of c NUL] by auto

lemma byte_three [simp]: "of_char c = (3 :: byte) \<longleftrightarrow> c = CHR 0x03" "3 = (of_char c :: byte) \<longleftrightarrow> c = CHR 0x03"
  using byte_of_char [of c "CHR 0x03"] by auto

definition markup_text :: "string \<Rightarrow> char \<Rightarrow> string" where
  "markup_text data channel = TAG_START # CHR ''w'' # channel # data @ [TAG_END]"

definition fallback_text :: "string option \<Rightarrow> string" where
  "fallback_text alt =
     (case alt of None \<Rightarrow> []
      | Some f \<Rightarrow> if f = [] then [] else [TAG_START, CHR ''W'', TAG_END] @ f @ [TAG_START, CHR ''M'', TAG_END])"

lemma markup_written_at:
  assumes "markup_websocket (fit s) data alt channel = (False, b)" "data \<noteq> []"
  shows "b = s @ markup_text data channel @ fallback_text alt"
proof -
  let ?d = "s @ [TAG_START, CHR ''w'', channel] @ data"
  let ?f = "?d @ [TAG_END]"
  have one: "fst (safe_chr TAG_END (fit ?d)) = 0"
    using assms by (auto simp: markup_websocket_def Let_def split: if_splits)
  note d = fit_fits [OF one]
  show ?thesis
  proof (cases "alt = None \<or> alt = Some []")
    case True
    then have "b = fit ?f"
      using assms one by (auto simp: markup_websocket_def Let_def)
    with d True show ?thesis by (auto simp: markup_text_def fallback_text_def)
  next
    case False
    then obtain f where f: "alt = Some f" "f \<noteq> []" by (cases alt) auto
    let ?a = "?f @ [TAG_START, CHR ''W'', TAG_END] @ f @ [TAG_START, CHR ''M'']"
    have two: "fst (safe_chr TAG_END (fit ?a)) = 0" and b: "b = fit (?a @ [TAG_END])"
      using assms one f by (auto simp: markup_websocket_def Let_def split: if_splits)
    then have "b = ?a @ [TAG_END]" using fit_fits [OF two] by simp
    with f show ?thesis by (simp add: markup_text_def fallback_text_def)
  qed
qed

lemma markup_bounded:
  assumes "markup_websocket (fit s) data alt channel = (False, b)"
  shows "length b < BUFFER_LEN"
proof -
  have "\<exists>t. b = fit t"
    using assms by (auto simp: markup_websocket_def Let_def split: if_splits option.splits)
  then show ?thesis by (auto simp: fit_def BUFFER_LEN_def)
qed

text \<open>C23: what \<open>markup_websocket\<close> writes for a channel reaches a client as one message with the data on that
  channel; the fallback text is not sent.\<close>

theorem markup_websocket_reaches_client:
  assumes "markup_websocket [] data alt channel = (False, b)" "data \<noteq> []"
    and "NUL \<notin> set (channel # data)" "TAG_END \<notin> set (channel # data)"
    and "\<forall>f. alt = Some f \<longrightarrow> text_ok (bytes f)"
  shows "client_reads (to_websocket_frame (bytes b) WEBSOCKET_CHANNEL_AUTO) = Some [(of_char channel, bytes data)]"
proof -
  have b: "b = markup_text data channel @ fallback_text alt"
    using markup_written_at [of "[]" data alt channel b] assms(1,2) by simp
  have len: "length b < BUFFER_LEN" using markup_bounded [of "[]"] assms(1) by simp
  define ps where "ps = ([], Channel (of_char channel) (bytes data)) #
    (case alt of None \<Rightarrow> [] | Some f \<Rightarrow> if f = [] then [] else [([], Alt), (bytes f, Alt_End)])"
  have r: "bytes b = render ps []"
    by (auto simp: b ps_def bytes_def markup_text_def fallback_text_def TAG_START_byte_def TAG_END_byte_def
      MARKUP_WS_def MARKUP_WS_ALT_def MARKUP_WS_ALT_END_def split: option.splits)
  have m: "sent False ps [] = [(of_char channel, bytes data)]"
    by (auto simp: ps_def text_message_def split: option.splits)
  have ok: "\<forall>(t, g) \<in> set ps. text_ok t \<and> tag_ok g"
    using assms(3-5)
    by (auto simp: ps_def text_ok_def tag_ok_def bytes_def byte_of_char TAG_START_byte_def TAG_END_byte_def TAG_END_def TAG_START_def
        MARKUP_WS_def MARKUP_WS_ALT_def MARKUP_WS_ALT_END_def split: option.splits if_splits)
  have "length data + 11 \<le> WS_BUF"
    using len by (simp add: b markup_text_def WS_BUF_def BUFFER_LEN_def)
  then show ?thesis
    using sends_messages [OF ok, of "[]"] unfolding m r by (simp add: text_ok_def bytes_def)
qed

theorem markup_websocket_reaches_client_witness:
  "markup_websocket [] ''{x}'' (Some ''plain'') (CHR ''j'') =
     (False, markup_text ''{x}'' (CHR ''j'') @ fallback_text (Some ''plain''))
    \<and> client_reads (to_websocket_frame (bytes (markup_text ''{x}'' (CHR ''j'') @ fallback_text (Some ''plain''))) WEBSOCKET_CHANNEL_AUTO)
      = Some [(0x6A, bytes ''{x}'')]"
proof -
  have m: "markup_websocket [] ''{x}'' (Some ''plain'') (CHR ''j'') =
     (False, markup_text ''{x}'' (CHR ''j'') @ fallback_text (Some ''plain''))" by code_simp
  from markup_websocket_reaches_client [OF m] m show ?thesis
    by (simp add: TAG_END_def TAG_START_byte_def TAG_START_def TAG_END_byte_def text_ok_def bytes_def)
qed

end
