(* ===== verification/Mush_Strtree.thy ===== *)
theory Mush_Strtree
  imports Mush_Prelude "HOL-Library.Word"
begin

text \<open>
  String tables (\<open>strtree.c\<close>, \<open>strtree.h\<close>): red-black trees of strings with use counts, the colour in the
  low bit of the word that holds the count.  The C code keeps no parent pointers: an insertion or deletion
  records its search path in an array of \<open>ST_MAX_DEPTH\<close> nodes and repairs the tree along it.  Here a node
  is a value and the path is the list of what remains of the ancestors (\<open>frame\<close>), so that assigning to a
  child pointer of an ancestor is rebuilding the tree with \<open>plug\<close>.  The C code writes each repair twice, for
  the two sides; the model has a \<open>side\<close> argument.  A failed \<open>assert\<close> and a write beyond the path array are
  \<open>None\<close>.  Allocation succeeds.  The first group of lemmas says that no repair changes the in-order
  sequence of strings and counts.
\<close>

unbundle bit_operations_syntax

section \<open>Nodes\<close>

datatype strnode = Null | Node (left: strnode) (str: string) (info: "32 word") (right: strnode)

definition ST_MAX_DEPTH :: nat where "ST_MAX_DEPTH = 64"
definition ST_RED :: "32 word" where "ST_RED = 1"
definition ST_BLACK :: "32 word" where "ST_BLACK = 0"
definition ST_COLOR :: "32 word" where "ST_COLOR = 1"
definition ST_USE_STEP :: "32 word" where "ST_USE_STEP = 2"
definition ST_USE_LIMIT :: "32 word" where "ST_USE_LIMIT = - 1 - ST_USE_STEP + 1"

record strtree =
  st_root :: strnode
  st_count :: "64 word"
  st_mem :: "64 word"

definition st_init :: strtree where
  "st_init = \<lparr>st_root = Null, st_count = 0, st_mem = 0\<rparr>"

definition st_flush :: "strtree \<Rightarrow> strtree" where
  "st_flush tree = (if st_root tree = Null then tree else tree\<lparr>st_root := Null, st_count := 0, st_mem := 0\<rparr>)"

definition red_info :: "32 word \<Rightarrow> bool" where
  "red_info i \<longleftrightarrow> i AND ST_COLOR = ST_RED"

fun is_red :: "strnode \<Rightarrow> bool" where
  "is_red Null = False"
| "is_red (Node l s i r) = red_info i"

definition black_info :: "32 word \<Rightarrow> 32 word" where
  "black_info i = i AND NOT ST_RED"

fun blacken :: "strnode \<Rightarrow> strnode" where
  "blacken Null = Null"
| "blacken (Node l s i r) = Node l s (black_info i) r"

definition copy_color :: "32 word \<Rightarrow> 32 word \<Rightarrow> 32 word" where
  "copy_color i c = (i AND NOT ST_COLOR) OR (c AND ST_COLOR)"

text \<open>
  The array \<open>path\<close> holds the ancestors of a node.  Here it is the list of what is left of each when the
  subtree on the path is taken out, the nearest first: the side the path leaves by, the string, the
  word \<open>info\<close> and the other child.
\<close>

datatype side = L | R

type_synonym frame = "side \<times> string \<times> 32 word \<times> strnode"

fun hang :: "frame \<Rightarrow> strnode \<Rightarrow> strnode" where
  "hang (L, s, i, sib) t = Node t s i sib"
| "hang (R, s, i, sib) t = Node sib s i t"

fun plug :: "strnode \<Rightarrow> frame list \<Rightarrow> strnode" where
  "plug t [] = t"
| "plug t (f # fs) = plug (hang f t) fs"

fun other :: "side \<Rightarrow> side" where
  "other L = R"
| "other R = L"

fun st_left_rotate :: "strnode \<Rightarrow> strnode option" where
  "st_left_rotate (Node a s i (Node b s' i' c)) = Some (Node (Node a s i b) s' i' c)"
| "st_left_rotate _ = None"

fun st_right_rotate :: "strnode \<Rightarrow> strnode option" where
  "st_right_rotate (Node (Node a s i b) s' i' c) = Some (Node a s i (Node b s' i' c))"
| "st_right_rotate _ = None"

fun rotate :: "side \<Rightarrow> strnode \<Rightarrow> strnode option" where
  "rotate L t = st_left_rotate t"
| "rotate R t = st_right_rotate t"

section \<open>Finding and inserting\<close>

fun st_descend :: "string \<Rightarrow> strnode \<Rightarrow> frame list \<Rightarrow> (strnode \<times> frame list) option" where
  "st_descend s Null path = Some (Null, path)"
| "st_descend s (Node l t i r) path =
     (let cmp = strcmp s t in
      if cmp = 0 then Some (Node l t i r, path)
      else if ST_MAX_DEPTH \<le> length path + 1 then None
      else if cmp < 0 then st_descend s l ((L, t, i, r) # path)
      else st_descend s r ((R, t, i, l) # path))"

fun st_find_node :: "string \<Rightarrow> strnode \<Rightarrow> string option" where
  "st_find_node s Null = None"
| "st_find_node s (Node l t i r) =
     (let cmp = strcmp s t in
      if cmp = 0 then Some t else if cmp < 0 then st_find_node s l else st_find_node s r)"

definition st_find :: "string \<Rightarrow> strtree \<Rightarrow> string option" where
  "st_find s tree = st_find_node s (st_root tree)"

fun ins_fix :: "strnode \<Rightarrow> frame list \<Rightarrow> strnode option" where
  "ins_fix n ((d, ps, pin, psib) # (gd, gs, gin, gsib) # path) =
     (if \<not> red_info pin then Some (plug n ((d, ps, pin, psib) # (gd, gs, gin, gsib) # path))
      else if is_red gsib then
        ins_fix (hang (gd, gs, gin OR ST_RED, blacken gsib) (hang (d, ps, black_info pin, psib) n)) path
      else
        Option.bind (if d \<noteq> gd then rotate gd (hang (d, ps, pin, psib) n) else Some (hang (d, ps, pin, psib) n))
          (\<lambda>p. map_option (\<lambda>g. plug g path) (rotate (other gd) (hang (gd, gs, gin OR ST_RED, gsib) (blacken p)))))"
| "ins_fix n path = Some (plug n path)"

definition st_insert :: "string \<Rightarrow> strtree \<Rightarrow> (strtree \<times> string) option" where
  "st_insert s tree =
     Option.bind (st_descend s (st_root tree) [])
       (\<lambda>(n, path).
          case n of
            Node l t i r \<Rightarrow>
              Some (tree\<lparr>st_root := plug (Node l t (if i < ST_USE_LIMIT then i + ST_USE_STEP else i) r) path\<rparr>, t)
          | Null \<Rightarrow>
              if path = [] then Some (tree\<lparr>st_root := Node Null s (ST_BLACK + ST_USE_STEP) Null\<rparr>, s)
              else
                map_option
                  (\<lambda>t. (tree\<lparr>st_root := blacken t, st_count := st_count tree + 1,
                       st_mem := st_mem tree + (of_nat (length s) + 1)\<rparr>, s))
                  (ins_fix (Node Null s (ST_RED + ST_USE_STEP) Null) path))"

section \<open>Deleting\<close>

text \<open>The parts of a black sibling: the child on the side of the deleted node, and the other one.\<close>

fun near :: "side \<Rightarrow> strnode \<Rightarrow> strnode" where
  "near L w = left w"
| "near R w = right w"

fun far :: "side \<Rightarrow> strnode \<Rightarrow> strnode" where
  "far L w = right w"
| "far R w = left w"

fun set_near :: "side \<Rightarrow> strnode \<Rightarrow> strnode \<Rightarrow> strnode" where
  "set_near L (Node l s i r) t = Node t s i r"
| "set_near R (Node l s i r) t = Node l s i t"
| "set_near d Null t = Null"

fun set_far :: "side \<Rightarrow> strnode \<Rightarrow> strnode \<Rightarrow> strnode" where
  "set_far L (Node l s i r) t = Node l s i t"
| "set_far R (Node l s i r) t = Node t s i r"
| "set_far d Null t = Null"

fun set_info :: "strnode \<Rightarrow> 32 word \<Rightarrow> strnode" where
  "set_info (Node l s i r) j = Node l s j r"
| "set_info Null j = Null"

text \<open>The last case of the loop: the subtree at the parent after the rotations, or a failed assertion.\<close>

definition del_rotate :: "strnode \<Rightarrow> frame \<Rightarrow> nat \<Rightarrow> strnode option" where
  "del_rotate x f tree_depth =
     (case f of (d, ps, pin, w) \<Rightarrow>
        Option.bind
          (if \<not> is_red (far d w)
           then (if near d w = Null \<or> ST_MAX_DEPTH \<le> tree_depth then None else rotate (other d) (set_near d w (blacken (near d w))))
           else Some w)
          (\<lambda>w. if w = Null \<or> far d w = Null then None
               else rotate d (hang (d, ps, black_info pin, set_far d (set_info w (copy_color (info w) pin)) (blacken (far d w))) x)))"

lemma red_info_odd: "red_info i \<longleftrightarrow> odd i"
  by (simp add: red_info_def ST_COLOR_def ST_RED_def and_one_eq odd_iff_mod_2_eq_one)

lemma red_or_red [simp]: "red_info (i OR ST_RED)"
  by (simp add: red_info_odd ST_RED_def even_or_iff)

lemma red_black [simp]: "\<not> red_info (black_info i)" "\<not> is_red (blacken t)"
proof -
  show "\<not> red_info (black_info i)" for i by (simp add: red_info_odd black_info_def ST_RED_def even_and_iff even_not_iff)
  then show "\<not> is_red (blacken t)" by (cases t) simp_all
qed

lemma red_copy [simp]: "red_info (copy_color i c) \<longleftrightarrow> red_info c"
  by (simp add: red_info_odd copy_color_def ST_COLOR_def even_and_iff even_not_iff even_or_iff)

function (sequential) del_fix :: "strnode \<Rightarrow> frame list \<Rightarrow> strnode option" where
  "del_fix x [] = Some (blacken x)"
| "del_fix x ((d, ps, pin, w) # path) =
     (if is_red x then Some (plug (blacken x) ((d, ps, pin, w) # path))
      else if w = Null then None
      else if is_red w then
        (let w' = near d w; outer = (d, str w, black_info (info w), far d w) in
         if ST_MAX_DEPTH \<le> length path + 1 \<or> w' = Null \<or> is_red w' then None
         else if \<not> is_red (near d w') \<and> \<not> is_red (far d w')
         then del_fix (hang (d, ps, pin OR ST_RED, set_info w' (info w' OR ST_RED)) x) (outer # path)
         else map_option (\<lambda>t. blacken (plug t (outer # path))) (del_rotate x (d, ps, pin OR ST_RED, w') (length path + 2)))
      else if \<not> is_red (near d w) \<and> \<not> is_red (far d w)
      then del_fix (hang (d, ps, pin, set_info w (info w OR ST_RED)) x) path
      else map_option (\<lambda>t. blacken (plug t path)) (del_rotate x (d, ps, pin, w) (length path + 1)))"
  by pat_completeness auto

termination
  by (relation "measure (\<lambda>(x, path). 2 * length path + (if is_red x then 0 else 1))")
    (auto, (metis hang.simps is_red.simps(2) red_or_red side.exhaust)+)

text \<open>The way to the successor; a step beyond the end of \<open>path\<close> is \<open>None\<close>.\<close>

fun st_min :: "strnode \<Rightarrow> frame list \<Rightarrow> (strnode \<times> frame list) option" where
  "st_min Null path = None"
| "st_min (Node l s i r) path =
     (if ST_MAX_DEPTH \<le> length path then None
      else if l = Null then Some (Node l s i r, path)
      else st_min l ((L, s, i, r) # path))"

text \<open>
  Taking a node out: \<open>y\<close> changes places and colours with its successor if it has two children, and
  then its child moves up.
\<close>

definition st_unlink :: "strnode \<Rightarrow> frame list \<Rightarrow> strnode option" where
  "st_unlink y path =
     (case y of
        Null \<Rightarrow> None
      | Node l s i r \<Rightarrow>
          if l \<noteq> Null \<and> r \<noteq> Null then
            Option.bind (st_min r ((R, s, i, l) # path))
              (\<lambda>(z, zpath).
                 let zpath = take (length zpath - length path - 1) zpath @ (R, str z, copy_color (info z) i, l) # path
                 in if red_info (info z) then Some (plug (right z) zpath) else del_fix (right z) zpath)
          else
            let x = (if l \<noteq> Null then l else r)
            in if red_info i then Some (plug x path) else del_fix x path)"

definition st_delete :: "string \<Rightarrow> strtree \<Rightarrow> strtree option" where
  "st_delete s tree =
     Option.bind (st_descend s (st_root tree) [])
       (\<lambda>(y, path).
          case y of
            Null \<Rightarrow> Some tree
          | Node l t i r \<Rightarrow>
              if ST_USE_LIMIT \<le> i then Some tree
              else if 2 * ST_USE_STEP \<le> i then Some (tree\<lparr>st_root := plug (Node l t (i - ST_USE_STEP) r) path\<rparr>)
              else
                map_option
                  (\<lambda>t. tree\<lparr>st_root := t, st_mem := st_mem tree - (of_nat (length s) + 1), st_count := st_count tree - 1\<rparr>)
                  (st_unlink y path))"

text \<open>\<open>node->info >> ST_COLOR\<close>, the count of a node.\<close>

definition st_uses :: "32 word \<Rightarrow> nat" where
  "st_uses i = unat (drop_bit 1 i)"

fun st_node_walk :: "strnode \<Rightarrow> (string \<times> nat) list" where
  "st_node_walk Null = []"
| "st_node_walk (Node l s i r) = st_node_walk l @ (s, st_uses i) # st_node_walk r"

definition st_walk :: "strtree \<Rightarrow> (string \<times> nat) list" where
  "st_walk tree = st_node_walk (st_root tree)"

section \<open>The entries of a tree\<close>

lemma bit_RED: "bit ST_RED n \<longleftrightarrow> n = 0" "ST_COLOR = ST_RED"
  by (simp_all add: ST_RED_def ST_COLOR_def bit_1_iff)

lemma st_uses_color [simp]:
  "st_uses (i OR ST_RED) = st_uses i" "st_uses (black_info i) = st_uses i" "st_uses (copy_color i c) = st_uses i"
proof -
  have "drop_bit 1 (i OR ST_RED) = drop_bit 1 i" "drop_bit 1 (black_info i) = drop_bit 1 i"
    "drop_bit 1 (copy_color i c) = drop_bit 1 i"
    unfolding black_info_def copy_color_def bit_RED(2)
    by ((rule bit_word_eqI; auto simp: bit_simps bit_RED simp del: drop_bit_or drop_bit_and dest: bit_imp_le_length))+
  then show "st_uses (i OR ST_RED) = st_uses i" "st_uses (black_info i) = st_uses i" "st_uses (copy_color i c) = st_uses i"
    by (simp_all add: st_uses_def)
qed

fun lefts :: "frame list \<Rightarrow> (string \<times> nat) list" where
  "lefts [] = []"
| "lefts ((L, s, i, sib) # fs) = lefts fs"
| "lefts ((R, s, i, sib) # fs) = lefts fs @ st_node_walk sib @ [(s, st_uses i)]"

fun rights :: "frame list \<Rightarrow> (string \<times> nat) list" where
  "rights [] = []"
| "rights ((L, s, i, sib) # fs) = (s, st_uses i) # st_node_walk sib @ rights fs"
| "rights ((R, s, i, sib) # fs) = rights fs"

lemma walk_plug: "st_node_walk (plug t fs) = lefts fs @ st_node_walk t @ rights fs"
  by (induction fs arbitrary: t rule: lefts.induct) simp_all

lemma walk_blacken [simp]: "st_node_walk (blacken t) = st_node_walk t"
  by (cases t) simp_all

lemma walk_set_info: "st_uses j = st_uses (info t) \<Longrightarrow> st_node_walk (set_info t j) = st_node_walk t"
  by (cases t) simp_all

lemma walk_rotate: "rotate d t = Some t' \<Longrightarrow> st_node_walk t' = st_node_walk t"
proof (cases d)
  case L
  assume "rotate d t = Some t'"
  with L show ?thesis by (cases t rule: st_left_rotate.cases) auto
next
  case R
  assume "rotate d t = Some t'"
  with R show ?thesis by (cases t rule: st_right_rotate.cases) auto
qed

lemma walk_hang: "st_node_walk t = st_node_walk t' \<Longrightarrow> st_node_walk sib = st_node_walk sib' \<Longrightarrow> st_uses i = st_uses i' \<Longrightarrow>
  st_node_walk (hang (d, s, i, sib) t) = st_node_walk (hang (d, s, i', sib') t')"
  by (cases d) simp_all

lemma walk_plug_cong: "st_node_walk t = st_node_walk t' \<Longrightarrow> st_node_walk (plug t fs) = st_node_walk (plug t' fs)"
  by (simp add: walk_plug)

lemma walk_ins_fix: "ins_fix n path = Some t \<Longrightarrow> st_node_walk t = st_node_walk (plug n path)"
proof (induction n path arbitrary: t rule: ins_fix.induct)
  case (1 n d ps pin psib gd gs gin gsib path)
  let ?p = "hang (d, ps, pin, psib) n"
  consider "\<not> red_info pin" | "red_info pin" "is_red gsib" | "red_info pin" "\<not> is_red gsib" by blast
  then show ?case
  proof cases
    case 2
    with 1 have "st_node_walk t = st_node_walk (plug (hang (gd, gs, gin OR ST_RED, blacken gsib) (hang (d, ps, black_info pin, psib) n)) path)"
      by simp
    also have "\<dots> = st_node_walk (plug (hang (gd, gs, gin, gsib) ?p) path)"
      by (intro walk_plug_cong walk_hang) simp_all
    finally show ?thesis by simp
  next
    case 3
    with 1(2) obtain p g where p: "(if d \<noteq> gd then rotate gd ?p else Some ?p) = Some p"
      "rotate (other gd) (hang (gd, gs, gin OR ST_RED, gsib) (blacken p)) = Some g" "t = plug g path"
      by (auto simp: bind_eq_Some_conv)
    from p(1) have "st_node_walk p = st_node_walk ?p" by (auto simp: walk_rotate split: if_splits)
    then have "st_node_walk (hang (gd, gs, gin OR ST_RED, gsib) (blacken p)) = st_node_walk (hang (gd, gs, gin, gsib) ?p)"
      by (intro walk_hang) simp_all
    with walk_rotate [OF p(2)] have "st_node_walk g = st_node_walk (hang (gd, gs, gin, gsib) ?p)" by simp
    from walk_plug_cong [OF this, of path] show ?thesis by (simp add: p(3))
  qed (use 1 in simp)
qed auto

lemma walk_swing: "w \<noteq> Null \<Longrightarrow>
  st_node_walk (hang (d, str w, i', far d w) (hang (d, ps, p', near d w) x)) = st_node_walk (hang (d, ps, q, w) x)"
  if "st_uses i' = st_uses (info w)" "st_uses p' = st_uses q" for w :: strnode
  using that by (cases d; cases w) simp_all

lemma walk_set_near: "st_node_walk t = st_node_walk (near d w) \<Longrightarrow> w \<noteq> Null \<Longrightarrow> st_node_walk (set_near d w t) = st_node_walk w"
  by (cases d; cases w) simp_all

lemma walk_set_far: "st_node_walk t = st_node_walk (far d w) \<Longrightarrow> w \<noteq> Null \<Longrightarrow> st_node_walk (set_far d w t) = st_node_walk w"
  by (cases d; cases w) simp_all

lemma far_set_info [simp]: "far d (set_info w j) = far d w" "near d (set_info w j) = near d w" "(set_info w j = Null) = (w = Null)"
  "w \<noteq> Null \<Longrightarrow> is_red (set_info w j) = red_info j" "w \<noteq> Null \<Longrightarrow> info (set_info w j) = j"
  by (cases d; cases w; simp)+

lemma walk_del_rotate:
  assumes "del_rotate x (d, ps, pin, w) n = Some t" "w \<noteq> Null"
  shows "st_node_walk t = st_node_walk (hang (d, ps, pin, w) x)"
proof -
  obtain v where v: "(if \<not> is_red (far d w)
       then (if near d w = Null \<or> ST_MAX_DEPTH \<le> n then None else rotate (other d) (set_near d w (blacken (near d w))))
       else Some w) = Some v" "v \<noteq> Null" "far d v \<noteq> Null"
    "rotate d (hang (d, ps, black_info pin, set_far d (set_info v (copy_color (info v) pin)) (blacken (far d v))) x) = Some t"
    using assms(1) by (auto simp: del_rotate_def bind_eq_Some_conv split: if_splits)
  have "st_node_walk v = st_node_walk w"
  proof (cases "is_red (far d w)")
    case False
    then have "rotate (other d) (set_near d w (blacken (near d w))) = Some v" using v(1) by (auto split: if_splits)
    from walk_rotate [OF this] show ?thesis using assms(2) by (simp add: walk_set_near)
  qed (use v(1) in simp)
  moreover have "st_node_walk (set_far d (set_info v (copy_color (info v) pin)) (blacken (far d v))) = st_node_walk v"
    using v(2) by (subst walk_set_far) (simp_all add: walk_set_info)
  ultimately show ?thesis
    using walk_rotate [OF v(4)] walk_hang [of x x "set_far d (set_info v (copy_color (info v) pin)) (blacken (far d v))" w "black_info pin" pin d ps]
    by simp
qed

lemma walk_del_fix: "del_fix x path = Some t \<Longrightarrow> st_node_walk t = st_node_walk (plug x path)"
proof (induction x path arbitrary: t rule: del_fix.induct)
  case (2 x d ps pin w path)
  show ?case
  proof (cases "is_red x \<or> w = Null")
    case True
    with 2(3) show ?thesis by (auto split: if_splits intro!: walk_plug_cong walk_hang)
  next
    case x: False
    show ?thesis
    proof (cases "is_red w")
      case True
      define w' where "w' = near d w"
      define outer where "outer = (d, str w, black_info (info w), far d w)"
      have eq: "del_fix x ((d, ps, pin, w) # path) =
         (if ST_MAX_DEPTH \<le> length path + 1 \<or> w' = Null \<or> is_red w' then None
          else if \<not> is_red (near d w') \<and> \<not> is_red (far d w')
          then del_fix (hang (d, ps, pin OR ST_RED, set_info w' (info w' OR ST_RED)) x) (outer # path)
          else map_option (\<lambda>t. blacken (plug t (outer # path))) (del_rotate x (d, ps, pin OR ST_RED, w') (length path + 2)))"
        using x True unfolding w'_def outer_def by (subst del_fix.simps) (simp only: Let_def if_True if_False de_Morgan_disj)
      then have guard: "\<not> (ST_MAX_DEPTH \<le> length path + 1 \<or> w' = Null \<or> is_red w')"
        using 2(3) by (metis option.distinct(1))
      then have w': "w' \<noteq> Null" by blast
      have step: "(if \<not> is_red (near d w') \<and> \<not> is_red (far d w')
         then del_fix (hang (d, ps, pin OR ST_RED, set_info w' (info w' OR ST_RED)) x) (outer # path)
         else map_option (\<lambda>t. blacken (plug t (outer # path))) (del_rotate x (d, ps, pin OR ST_RED, w') (length path + 2))) = Some t"
        using 2(3) unfolding eq if_not_P [OF guard] .
      have swing: "st_node_walk (plug (hang (d, ps, pin OR ST_RED, w') x) (outer # path)) = st_node_walk (plug x ((d, ps, pin, w) # path))"
        using x by (auto simp: outer_def w'_def intro!: walk_plug_cong walk_swing)
      show ?thesis
      proof (cases "\<not> is_red (near d w') \<and> \<not> is_red (far d w')")
        case black: True
        then have "st_node_walk t = st_node_walk (plug (hang (d, ps, pin OR ST_RED, set_info w' (info w' OR ST_RED)) x) (outer # path))"
          using "2.IH"(1) [OF _ _ True w'_def outer_def guard] step x by auto
        also have "\<dots> = st_node_walk (plug (hang (d, ps, pin OR ST_RED, w') x) (outer # path))"
          by (intro walk_plug_cong walk_hang) (simp_all add: walk_set_info)
        finally show ?thesis using swing by simp
      next
        case False
        then obtain r where "del_rotate x (d, ps, pin OR ST_RED, w') (length path + 2) = Some r" "t = blacken (plug r (outer # path))"
          using step by (auto split: if_splits)
        with walk_del_rotate [OF _ w'] swing show ?thesis
          using walk_plug_cong [of r "hang (d, ps, pin OR ST_RED, w') x" "outer # path"] by simp
      qed
    next
      case wb: False
      show ?thesis
      proof (cases "\<not> is_red (near d w) \<and> \<not> is_red (far d w)")
        case True
        then have "st_node_walk t = st_node_walk (plug (hang (d, ps, pin, set_info w (info w OR ST_RED)) x) path)"
          using "2.IH"(2) 2(3) x wb by simp
        also have "\<dots> = st_node_walk (plug (hang (d, ps, pin, w) x) path)"
          by (intro walk_plug_cong walk_hang) (simp_all add: walk_set_info)
        finally show ?thesis by simp
      next
        case False
        then obtain r where "del_rotate x (d, ps, pin, w) (length path + 1) = Some r" "t = blacken (plug r path)"
          using 2(3) x wb by (auto split: if_splits)
        with walk_del_rotate x show ?thesis
          using walk_plug_cong [of r "hang (d, ps, pin, w) x" path] by simp
      qed
    qed
  qed
qed simp

end
