(* ===== verification/Mush_Strtree_Balance.thy ===== *)
theory Mush_Strtree_Balance
  imports Mush_Strtree
begin

text \<open>
  The red-black properties of string tables.  \<open>fits h path\<close> says that a path is what a balanced tree leaves when
  a subtree of black height \<open>h\<close> is cut out of it; with it the repairs after an insertion (\<open>ins_fix\<close>) and after a
  deletion (\<open>del_fix\<close>) are shown to return a balanced tree.
\<close>

section \<open>Balance\<close>

fun black_height :: "strnode \<Rightarrow> nat" where
  "black_height Null = 0"
| "black_height (Node l s i r) = black_height l + (if red_info i then 0 else 1)"

fun invh :: "strnode \<Rightarrow> bool" where
  "invh Null = True"
| "invh (Node l s i r) = (black_height l = black_height r \<and> invh l \<and> invh r)"

fun invc :: "strnode \<Rightarrow> bool" where
  "invc Null = True"
| "invc (Node l s i r) = ((red_info i \<longrightarrow> \<not> is_red l \<and> \<not> is_red r) \<and> invc l \<and> invc r)"

definition frame_red :: "frame list \<Rightarrow> bool" where
  "frame_red fs = (case fs of [] \<Rightarrow> False | (d, s, i, sib) # _ \<Rightarrow> red_info i)"

text \<open>A path into a balanced tree that lacks a subtree of black height \<open>h\<close> at its end.\<close>

fun fits :: "nat \<Rightarrow> frame list \<Rightarrow> bool" where
  "fits h [] = True"
| "fits h ((d, s, i, sib) # fs) =
     (invc sib \<and> invh sib \<and> black_height sib = h \<and> (red_info i \<longrightarrow> \<not> is_red sib \<and> \<not> frame_red fs)
      \<and> fits (if red_info i then h else h + 1) fs)"

definition root_black :: "frame list \<Rightarrow> bool" where
  "root_black fs = (fs \<noteq> [] \<longrightarrow> \<not> frame_red [last fs])"

lemma root_black_simps [simp]:
  "root_black []" "root_black [(d, s, i, sib)] = (\<not> red_info i)" "root_black (f # g # fs) = root_black (g # fs)"
  "root_black (f # fs) \<Longrightarrow> root_black fs"
  by (auto simp: root_black_def frame_red_def)

lemma frame_red_simps [simp]: "\<not> frame_red []" "frame_red ((d, s, i, sib) # fs) = red_info i"
  by (simp_all add: frame_red_def)

lemma hang_simps [simp]:
  "is_red (hang (d, s, i, sib) t) = red_info i" "black_height sib = black_height t \<Longrightarrow>
     black_height (hang (d, s, i, sib) t) = black_height t + (if red_info i then 0 else 1)"
  "invh (hang (d, s, i, sib) t) = (black_height sib = black_height t \<and> invh sib \<and> invh t)"
  "invc (hang (d, s, i, sib) t) = ((red_info i \<longrightarrow> \<not> is_red sib \<and> \<not> is_red t) \<and> invc sib \<and> invc t)"
  "hang (d, s, i, sib) t \<noteq> Null"
  by (cases d; auto)+

lemma blacken_simps [simp]:
  "invh (blacken t) = invh t" "invc t \<Longrightarrow> invc (blacken t)" "\<not> is_red t \<Longrightarrow> black_height (blacken t) = black_height t"
  "is_red t \<Longrightarrow> black_height (blacken t) = black_height t + 1" "(blacken t = Null) = (t = Null)"
  by (cases t; auto)+

lemma plug_balanced:
  "invc t \<Longrightarrow> invh t \<Longrightarrow> fits (black_height t) fs \<Longrightarrow> (is_red t \<Longrightarrow> \<not> frame_red fs) \<Longrightarrow> invc (plug t fs) \<and> invh (plug t fs)"
proof (induction fs arbitrary: t)
  case (Cons f fs)
  obtain d s i sib where f: "f = (d, s, i, sib)" by (cases f)
  with Cons.prems have "invc (hang f t)" "invh (hang f t)" "fits (black_height (hang f t)) fs" "is_red (hang f t) \<Longrightarrow> \<not> frame_red fs"
    by auto
  from Cons.IH [OF this] show ?case by simp
qed simp

lemma plug_red: "is_red (plug t fs) = (if fs = [] then is_red t else \<not> root_black fs)"
proof (induction fs arbitrary: t)
  case (Cons f fs)
  obtain d s i sib where f: "f = (d, s, i, sib)" by (cases f)
  with Cons.IH [of "hang f t"] show ?case by (cases fs) simp_all
qed simp

lemma rotate_grand:
  assumes "d \<noteq> gd" "is_red n"
  shows "\<exists>p. rotate gd (hang (d, ps, pin, psib) n) = Some p \<and> p = hang (gd, str n, info n, far gd n) (hang (d, ps, pin, psib) (near gd n))"
  using assms by (cases d; cases gd; cases n) auto

lemma ins_fix_balanced:
  "is_red n \<Longrightarrow> invc n \<Longrightarrow> invh n \<Longrightarrow> fits (black_height n) path \<Longrightarrow> root_black path \<Longrightarrow>
   \<exists>t. ins_fix n path = Some t \<and> invc (blacken t) \<and> invh t"
proof (induction n path rule: ins_fix.induct [case_names grand none one])
  case (grand n d ps pin psib gd gs gin gsib path)
  consider "\<not> red_info pin" | "red_info pin" "is_red gsib" | "red_info pin" "\<not> is_red gsib" by blast
  then show ?case
  proof cases
    case 1
    with "grand.prems" plug_balanced [of n "(d, ps, pin, psib) # (gd, gs, gin, gsib) # path"] show ?thesis by simp
  next
    case 2
    define g where "g = hang (gd, gs, gin OR ST_RED, blacken gsib) (hang (d, ps, black_info pin, psib) n)"
    have "\<exists>t. ins_fix g path = Some t \<and> invc (blacken t) \<and> invh t"
      using "grand.prems" 2 unfolding g_def by (intro "grand.IH") auto
    with 2 show ?thesis by (simp add: g_def)
  next
    case 3
    have gb: "\<not> red_info gin" "\<not> is_red psib" using "grand.prems"(4) 3 by simp_all
    obtain l s i r where n: "n = Node l s i r" "red_info i" using "grand.prems"(1) by (cases n) auto
    have "\<exists>p. (if d \<noteq> gd then rotate gd (hang (d, ps, pin, psib) n) else Some (hang (d, ps, pin, psib) n)) = Some p
        \<and> invc (blacken p) \<and> invh p \<and> p \<noteq> Null \<and> black_height (blacken p) = black_height n + 1
        \<and> (\<exists>v. rotate (other gd) (hang (gd, gs, gin OR ST_RED, gsib) (blacken p)) = Some v \<and> invc v \<and> invh v \<and> \<not> is_red v
           \<and> black_height v = black_height n + 1)"
      using "grand.prems" 3 gb n by (cases d; cases gd) (auto split: if_splits)
    then obtain p v where p: "(if d \<noteq> gd then rotate gd (hang (d, ps, pin, psib) n) else Some (hang (d, ps, pin, psib) n)) = Some p"
      "rotate (other gd) (hang (gd, gs, gin OR ST_RED, gsib) (blacken p)) = Some v" "invc v" "invh v" "\<not> is_red v"
      "black_height v = black_height n + 1" by blast
    have "fits (black_height v) path" using "grand.prems"(4) p(6) 3 gb by simp
    with plug_balanced [of v path] p show ?thesis using 3 by simp
  qed
next
  case (one n f)
  obtain d s i sib where "f = (d, s, i, sib)" by (cases f)
  with one show ?case using plug_balanced [of n "[f]"] by simp
qed auto

lemma is_redD: "is_red t \<Longrightarrow> \<exists>l s i r. t = Node l s i r \<and> red_info i"
  by (cases t) auto

lemma hang_cover: "w \<noteq> Null \<Longrightarrow> w = hang (d, str w, info w, far d w) (near d w)"
  by (cases d; cases w) simp_all

lemma rotate_over:
  "rotate d (hang (d, ps, p', hang (d, ws, wi, b)  a) x) = Some (hang (d, ws, wi, b) (hang (d, ps, p', a) x))"
  by (cases d) simp_all

lemma rotate_back:
  "rotate (other d) (hang (d, ws, wi, b) (hang (d, zs, zi, z) a)) = Some (hang (d, zs, zi, hang (d, ws, wi, b) z) a)"
  by (cases d) simp_all

lemma parts_hang [simp]:
  "near d (hang (d, s, i, b) a) = a" "far d (hang (d, s, i, b) a) = b" "set_near d (hang (d, s, i, b) a) t = hang (d, s, i, b) t"
  "set_far d (hang (d, s, i, b) a) t = hang (d, s, i, t) a" "set_info (hang (d, s, i, b) a) j = hang (d, s, j, b) a"
  "info (hang (d, s, i, b) a) = i" "str (hang (d, s, i, b) a) = s"
  by (cases d; simp)+

lemma del_rotate_far:
  "is_red b \<Longrightarrow> del_rotate x (d, ps, pin, hang (d, ws, wi, b) a) n =
     Some (hang (d, ws, copy_color wi pin, blacken b) (hang (d, ps, black_info pin, a) x))"
  using is_redD [of b] by (auto simp: del_rotate_def rotate_over)

lemma del_rotate_near:
  "\<not> is_red b \<Longrightarrow> n < ST_MAX_DEPTH \<Longrightarrow> del_rotate x (d, ps, pin, hang (d, ws, wi, b) (hang (d, zs, zi, z) a)) n =
     Some (hang (d, zs, copy_color (black_info zi) pin, blacken (hang (d, ws, wi, b) z)) (hang (d, ps, black_info pin, a) x))"
proof -
  have "blacken (hang (d, zs, zi, z) a) = hang (d, zs, black_info zi, z) a" by (cases d) simp_all
  moreover assume "\<not> is_red b" "n < ST_MAX_DEPTH"
  ultimately show ?thesis by (simp add: del_rotate_def rotate_over rotate_back)
qed

lemma del_rotate_balanced:
  assumes "w \<noteq> Null" "\<not> is_red w" "is_red (near d w) \<or> is_red (far d w)" "invc w" "invh w" "black_height w = black_height x + 1"
    and "invc x" "invh x" "\<not> is_red x" "n < ST_MAX_DEPTH"
  shows "\<exists>t. del_rotate x (d, ps, pin, w) n = Some t \<and> invc t \<and> invh t \<and> is_red t = red_info pin
    \<and> black_height t = black_height x + 1 + (if red_info pin then 0 else 1)"
proof -
  obtain ws wi a b where w: "w = hang (d, ws, wi, b) a" using hang_cover [OF assms(1), of d] by blast
  show ?thesis
  proof (cases "is_red b")
    case True
    then show ?thesis using assms unfolding w by (simp add: del_rotate_far)
  next
    case False
    then have "is_red a" using assms(3) w by simp
    then have "a \<noteq> Null" by auto
    then obtain zs zi z y where a: "a = hang (d, zs, zi, z) y" using hang_cover [of a d] by blast
    have "\<not> is_red (hang (d, ws, wi, b) z)" using assms(2) w by simp
    with False \<open>is_red a\<close> assms show ?thesis unfolding w a by (simp add: del_rotate_near)
  qed
qed

lemma invc_blacken: "\<not> is_red x \<Longrightarrow> invc (blacken x) = invc x"
  by (cases x) auto

lemma set_info_red:
  "invh w \<Longrightarrow> \<not> is_red w \<Longrightarrow> w \<noteq> Null \<Longrightarrow> invh (set_info w (i OR ST_RED)) \<and> black_height (set_info w (i OR ST_RED)) + 1 = black_height w"
  "invc w \<Longrightarrow> \<not> is_red (near d w) \<Longrightarrow> \<not> is_red (far d w) \<Longrightarrow> invc (set_info w (i OR ST_RED))"
  by (cases w; cases d; auto)+

lemma del_fix_balanced:
  "invc (blacken x) \<Longrightarrow> invh x \<Longrightarrow> fits (black_height x + 1) path \<Longrightarrow> root_black path \<Longrightarrow> length path \<le> 62 \<Longrightarrow>
   \<exists>t. del_fix x path = Some t \<and> invc t \<and> invh t \<and> \<not> is_red t"
proof (induction x path rule: del_fix.induct)
  case (1 x)
  then show ?case by simp
next
  case (2 x d ps pin w path)
  have w: "invc w" "invh w" "black_height w = black_height x + 1" "red_info pin \<Longrightarrow> \<not> is_red w \<and> \<not> frame_red path"
    "fits (if red_info pin then black_height x + 1 else black_height x + 2) path"
    using "2.prems"(3) by (simp_all split: if_splits)
  have done_black: "\<exists>t. Some (blacken (plug r fs)) = Some t \<and> invc t \<and> invh t \<and> \<not> is_red t"
    if "invc r" "invh r" "fits (black_height r) fs" "is_red r \<Longrightarrow> \<not> frame_red fs" for r fs
    using plug_balanced [OF that] by simp
  show ?case
  proof (cases "is_red x")
    case True
    let ?fs = "(d, ps, pin, w) # path"
    have "invc (plug (blacken x) ?fs) \<and> invh (plug (blacken x) ?fs)"
      using True "2.prems" by (intro plug_balanced) auto
    moreover have "\<not> is_red (plug (blacken x) ?fs)" using "2.prems"(4) by (simp only: plug_red) simp
    ultimately show ?thesis using True by simp
  next
    case x: False
    with "2.prems"(1) have xc: "invc x" by (simp add: invc_blacken)
    have wn: "w \<noteq> Null" using w(3) by auto
    obtain ws wi b a where wh: "w = hang (d, ws, wi, b) a" using hang_cover [OF wn, of d] by blast
    show ?thesis
    proof (cases "is_red w")
      case red: True
      then have ri: "red_info wi" "invc a" "invh a" "invc b" "invh b" "\<not> is_red a" "\<not> is_red b" "black_height b = black_height a"
        using w(1,2) by (simp_all add: wh)
      then have bh: "black_height a = black_height x + 1" using w(3) by (simp add: wh)
      then have an: "a \<noteq> Null" by auto
      have pb: "\<not> red_info pin" using w(4) red by blast
      define outer where "outer = (d, ws, black_info wi, b)"
      have guard: "\<not> (ST_MAX_DEPTH \<le> length path + 1 \<or> a = Null \<or> is_red a)"
        using "2.prems"(5) an ri by (simp add: ST_MAX_DEPTH_def)
      have eq: "del_fix x ((d, ps, pin, w) # path) =
         (if \<not> is_red (near d a) \<and> \<not> is_red (far d a)
          then del_fix (hang (d, ps, pin OR ST_RED, set_info a (info a OR ST_RED)) x) (outer # path)
          else map_option (\<lambda>t. blacken (plug t (outer # path))) (del_rotate x (d, ps, pin OR ST_RED, a) (length path + 2)))"
        using x wn red if_not_P [OF guard] unfolding wh outer_def
        by (subst del_fix.simps) (simp only: Let_def if_True if_False de_Morgan_disj parts_hang)
      have fo: "fits (black_height x + 1) (outer # path)"
        using w(5) pb ri bh by (simp add: outer_def)
      show ?thesis
      proof (cases "\<not> is_red (near d a) \<and> \<not> is_red (far d a)")
        case True
        define x' where "x' = hang (d, ps, pin OR ST_RED, set_info a (info a OR ST_RED)) x"
        have s: "invh (set_info a (info a OR ST_RED))" "black_height (set_info a (info a OR ST_RED)) = black_height x"
          "invc (set_info a (info a OR ST_RED))"
          using set_info_red(1) [of a "info a"] set_info_red(2) [of a d "info a"] ri an True bh by simp_all
        have "blacken x' = hang (d, ps, black_info (pin OR ST_RED), set_info a (info a OR ST_RED)) x"
          unfolding x'_def by (cases d) simp_all
        then have "invc (blacken x')" "invh x'" "black_height x' = black_height x"
          using s xc "2.prems"(2) by (simp_all add: x'_def)
        then have "\<exists>t. del_fix x' (outer # path) = Some t \<and> invc t \<and> invh t \<and> \<not> is_red t"
          using "2.IH"(1) [OF x wn red, of a outer] True fo "2.prems"(4,5) guard
          unfolding x'_def outer_def wh by (simp add: root_black_def split: if_splits)
        with True show ?thesis unfolding eq x'_def by simp
      next
        case False
        then obtain t where t: "del_rotate x (d, ps, pin OR ST_RED, a) (length path + 2) = Some t" "invc t" "invh t" "is_red t"
          "black_height t = black_height x + 1"
          using del_rotate_balanced [OF an, of d x "length path + 2" ps "pin OR ST_RED"] ri bh x xc "2.prems"
          by (auto simp: ST_MAX_DEPTH_def)
        have "\<not> frame_red (outer # path)" by (simp add: outer_def)
        moreover have "del_fix x ((d, ps, pin, w) # path) = Some (blacken (plug t (outer # path)))"
          unfolding eq t(1) if_not_P [OF False] by (simp del: plug.simps)
        ultimately show ?thesis using done_black [OF t(2,3), of "outer # path"] fo t(5) by (simp del: plug.simps)
      qed
    next
      case wb: False
      then have eq: "del_fix x ((d, ps, pin, w) # path) =
         (if \<not> is_red (near d w) \<and> \<not> is_red (far d w)
          then del_fix (hang (d, ps, pin, set_info w (info w OR ST_RED)) x) path
          else map_option (\<lambda>t. blacken (plug t path)) (del_rotate x (d, ps, pin, w) (length path + 1)))"
        using x wn by (subst del_fix.simps) (simp only: if_False)
      show ?thesis
      proof (cases "\<not> is_red (near d w) \<and> \<not> is_red (far d w)")
        case True
        define x' where "x' = hang (d, ps, pin, set_info w (info w OR ST_RED)) x"
        have s: "invh (set_info w (info w OR ST_RED))" "black_height (set_info w (info w OR ST_RED)) = black_height x"
          "invc (set_info w (info w OR ST_RED))"
          using set_info_red(1) [of w "info w"] set_info_red(2) [of w d "info w"] w(1-3) wn wb True by simp_all
        have "blacken x' = hang (d, ps, black_info pin, set_info w (info w OR ST_RED)) x"
          unfolding x'_def by (cases d) simp_all
        then have x': "invc (blacken x')" "invh x'" "black_height x' = black_height x + (if red_info pin then 0 else 1)"
          using s xc "2.prems"(2) by (simp_all add: x'_def)
        moreover have "root_black path" "length path \<le> 62" using "2.prems"(4,5) by (auto simp: root_black_def split: if_splits)
        moreover have "fits (black_height x' + 1) path" using w(5) x'(3) by (simp split: if_splits)
        ultimately have "\<exists>t. del_fix x' path = Some t \<and> invc t \<and> invh t \<and> \<not> is_red t"
          using "2.IH"(2) [OF x wn wb True] unfolding x'_def by blast
        with True show ?thesis unfolding eq x'_def by simp
      next
        case False
        then obtain t where t: "del_rotate x (d, ps, pin, w) (length path + 1) = Some t" "invc t" "invh t" "is_red t = red_info pin"
          "black_height t = black_height x + 1 + (if red_info pin then 0 else 1)"
          using del_rotate_balanced [OF wn wb, of d x "length path + 1" ps pin] w x xc "2.prems"
          by (auto simp: ST_MAX_DEPTH_def)
        have "del_fix x ((d, ps, pin, w) # path) = Some (blacken (plug t path))"
          unfolding eq t(1) if_not_P [OF False] by simp
        with done_black [OF t(2,3), of path] t w(4,5) show ?thesis by (simp split: if_splits)
      qed
    qed
  qed
qed

end
