(* ===== verification/Mush_Strtree_Table.thy ===== *)
theory Mush_Strtree_Table
  imports Mush_Strtree_Balance "HOL-Library.Multiset"
begin

text \<open>
  String tables as tables: searching, the refinement of the map from strings to use counts, the statistics of
  \<open>st_stats\<close> and the field \<open>count\<close>.  The locale \<open>counted_strings\<close> is the contract the users of \<open>strtree.c\<close>
  (attribute names, lock names, flag aliases) rely on.
\<close>

section \<open>Searching\<close>

fun st_height :: "strnode \<Rightarrow> nat" where
  "st_height Null = 0"
| "st_height (Node l s i r) = Suc (max (st_height l) (st_height r))"

lemma height_black: "invc t \<Longrightarrow> invh t \<Longrightarrow> st_height t \<le> 2 * black_height t + (if is_red t then 1 else 0)"
proof (induction t)
  case (Node l s i r)
  then show ?case by (auto split: if_splits)
qed simp

lemma black_size: "invh t \<Longrightarrow> 2 ^ black_height t \<le> length (st_node_walk t) + 1"
proof (induction t)
  case (Node l s i r)
  then have "2 ^ black_height l \<le> length (st_node_walk l) + 1" "2 ^ black_height l \<le> length (st_node_walk r) + 1" by auto
  then show ?case by (simp split: if_splits)
qed simp

lemma height_bound:
  assumes "invc t" "invh t" "\<not> is_red t" "length (st_node_walk t) + 1 < 2 ^ k"
  shows "st_height t < 2 * k"
proof -
  have "(2 :: nat) ^ black_height t < 2 ^ k" using black_size [OF assms(2)] assms(4) by (rule le_less_trans)
  then have "black_height t < k" by (rule power_less_imp_less_exp [rotated]) simp
  with height_black [OF assms(1,2)] assms(3) show ?thesis by simp
qed

lemma plug_append: "plug t (fs @ gs) = plug (plug t fs) gs"
  by (induction fs arbitrary: t) simp_all

lemma plug_balanced_rev:
  "invc (plug t fs) \<Longrightarrow> invh (plug t fs) \<Longrightarrow> invc t \<and> invh t \<and> fits (black_height t) fs \<and> (is_red t \<longrightarrow> \<not> frame_red fs)"
proof (induction fs arbitrary: t)
  case (Cons f fs)
  obtain d s i sib where f: "f = (d, s, i, sib)" by (cases f)
  with Cons.prems have "invc (hang f t) \<and> invh (hang f t) \<and> fits (black_height (hang f t)) fs \<and> (is_red (hang f t) \<longrightarrow> \<not> frame_red fs)"
    by (intro Cons.IH) simp_all
  then show ?case by (auto simp: f)
qed simp

lemma plug_root_black: "\<not> is_red (plug t fs) \<Longrightarrow> root_black fs"
  by (cases "fs = []") (simp_all add: plug_red)

definition st_sorted :: "(string \<times> nat) list \<Rightarrow> bool" where
  "st_sorted es = sorted_wrt (\<lambda>a b. str_key (fst a) < str_key (fst b)) es"

definition st_keys :: "(string \<times> nat) list \<Rightarrow> bool" where
  "st_keys es \<longleftrightarrow> (\<forall>(s, n) \<in> set es. no_nul s \<and> 0 < n)"

lemma sides_append [simp]: "lefts (fs @ gs) = lefts gs @ lefts fs" "rights (fs @ gs) = rights fs @ rights gs"
  by (induction fs rule: lefts.induct) simp_all

lemma st_descend_finds:
  assumes "no_nul s" "st_keys (st_node_walk t)" "st_sorted (st_node_walk t)" "length path + st_height t < ST_MAX_DEPTH"
  shows "\<exists>n fs. st_descend s t path = Some (n, fs @ path) \<and> plug n fs = t \<and> length fs + st_height n \<le> st_height t
    \<and> (n = Null \<or> str n = s) \<and> (\<forall>a \<in> set (lefts fs). str_key (fst a) < str_key s) \<and> (\<forall>a \<in> set (rights fs). str_key s < str_key (fst a))"
  using assms(2-)
proof (induction t arbitrary: path)
  case Null
  show ?case by (intro exI [of _ Null] exI [of _ "[]"]) simp
next
  case (Node l t i r)
  have keys: "no_nul t" "st_keys (st_node_walk l)" "st_keys (st_node_walk r)" using Node.prems(1) by (auto simp: st_keys_def)
  have sorted: "st_sorted (st_node_walk l)" "st_sorted (st_node_walk r)" "\<forall>a \<in> set (st_node_walk l). str_key (fst a) < str_key t"
    "\<forall>a \<in> set (st_node_walk r). str_key t < str_key (fst a)"
    using Node.prems(2) by (auto simp: st_sorted_def sorted_wrt_append)
  have room: "\<not> ST_MAX_DEPTH \<le> length path + 1" using Node.prems(3) by simp
  have deep: "length ((L, t, i, r) # path) + st_height l < ST_MAX_DEPTH" "length ((R, t, i, l) # path) + st_height r < ST_MAX_DEPTH"
    using Node.prems(3) by simp_all
  consider "strcmp s t < 0" "str_key s < str_key t" | "s = t" | "0 < strcmp s t" "str_key t < str_key s"
    using strcmp_less [OF assms(1) keys(1)] strcmp_order.cmp_greater [OF assms(1) keys(1)] linorder_less_linear [of "str_key s" "str_key t"]
    by auto
  then show ?case
  proof cases
    case 1
    then have step: "st_descend s (Node l t i r) path = st_descend s l ((L, t, i, r) # path)" using room by simp
    obtain n fs where ih: "st_descend s l ((L, t, i, r) # path) = Some (n, fs @ (L, t, i, r) # path)" "plug n fs = l"
      "length fs + st_height n \<le> st_height l" "n = Null \<or> str n = s" "\<forall>a \<in> set (lefts fs). str_key (fst a) < str_key s"
      "\<forall>a \<in> set (rights fs). str_key s < str_key (fst a)"
      using Node.IH(1) [OF keys(2) sorted(1) deep(1)] by blast
    have "plug n (fs @ [(L, t, i, r)]) = Node l t i r" using ih(2) by (simp add: plug_append)
    moreover have "\<forall>a \<in> set (rights (fs @ [(L, t, i, r)])). str_key s < str_key (fst a)"
      using ih(6) sorted(4) 1(2) by (auto intro: less_trans)
    ultimately have "st_descend s l ((L, t, i, r) # path) = Some (n, (fs @ [(L, t, i, r)]) @ path) \<and> plug n (fs @ [(L, t, i, r)]) = Node l t i r
      \<and> length (fs @ [(L, t, i, r)]) + st_height n \<le> st_height (Node l t i r) \<and> (n = Null \<or> str n = s)
      \<and> (\<forall>a \<in> set (lefts (fs @ [(L, t, i, r)])). str_key (fst a) < str_key s)
      \<and> (\<forall>a \<in> set (rights (fs @ [(L, t, i, r)])). str_key s < str_key (fst a))"
      using ih by simp
    then show ?thesis unfolding step by (intro exI)
  next
    case 2
    then show ?thesis using strcmp_zero [OF keys(1) keys(1)] by (intro exI [of _ "Node l t i r"] exI [of _ "[]"]) simp
  next
    case 3
    then have step: "st_descend s (Node l t i r) path = st_descend s r ((R, t, i, l) # path)" using room by simp
    obtain n fs where ih: "st_descend s r ((R, t, i, l) # path) = Some (n, fs @ (R, t, i, l) # path)" "plug n fs = r"
      "length fs + st_height n \<le> st_height r" "n = Null \<or> str n = s" "\<forall>a \<in> set (lefts fs). str_key (fst a) < str_key s"
      "\<forall>a \<in> set (rights fs). str_key s < str_key (fst a)"
      using Node.IH(2) [OF keys(3) sorted(2) deep(2)] by blast
    have "plug n (fs @ [(R, t, i, l)]) = Node l t i r" using ih(2) by (simp add: plug_append)
    moreover have "\<forall>a \<in> set (lefts (fs @ [(R, t, i, l)])). str_key (fst a) < str_key s"
      using ih(5) sorted(3) 3(2) by (auto intro: less_trans)
    ultimately have "st_descend s r ((R, t, i, l) # path) = Some (n, (fs @ [(R, t, i, l)]) @ path) \<and> plug n (fs @ [(R, t, i, l)]) = Node l t i r
      \<and> length (fs @ [(R, t, i, l)]) + st_height n \<le> st_height (Node l t i r) \<and> (n = Null \<or> str n = s)
      \<and> (\<forall>a \<in> set (lefts (fs @ [(R, t, i, l)])). str_key (fst a) < str_key s)
      \<and> (\<forall>a \<in> set (rights (fs @ [(R, t, i, l)])). str_key s < str_key (fst a))"
      using ih by simp
    then show ?thesis unfolding step by (intro exI)
  qed
qed

lemma fits_swap: "fits h (gs @ (d, s, i, b) # path) \<Longrightarrow> red_info i' = red_info i \<Longrightarrow> fits h (gs @ (d, s', i', b) # path)"
proof (induction gs arbitrary: h)
  case (Cons g gs)
  obtain e t j c where g: "g = (e, t, j, c)" by (cases g)
  have "frame_red (gs @ (d, s', i', b) # path) = frame_red (gs @ (d, s, i, b) # path)"
    using Cons.prems(2) by (cases gs) (auto simp: frame_red_def)
  with Cons g show ?case by auto
qed simp

lemma root_black_swap: "root_black (gs @ (d, s, i, b) # path) \<Longrightarrow> red_info i' = red_info i \<Longrightarrow> root_black (gs @ (d, s', i', b) # path)"
  by (auto simp: root_black_def frame_red_def split: if_splits)

lemma st_min_finds:
  "t \<noteq> Null \<Longrightarrow> length path + st_height t \<le> ST_MAX_DEPTH \<Longrightarrow>
   \<exists>s i r gs. st_min t path = Some (Node Null s i r, gs @ path) \<and> plug (Node Null s i r) gs = t \<and> lefts gs = [] \<and> length gs < st_height t"
proof (induction t arbitrary: path)
  case (Node l s i r)
  have room: "\<not> ST_MAX_DEPTH \<le> length path" using Node.prems(2) by simp
  show ?case
  proof (cases "l = Null")
    case True
    have "st_min (Node l s i r) path = Some (Node Null s i r, [] @ path)" using True room by simp
    moreover have "plug (Node Null s i r) [] = Node l s i r \<and> lefts [] = [] \<and> length [] < st_height (Node l s i r)" using True by simp
    ultimately show ?thesis by blast
  next
    case False
    have deep: "length ((L, s, i, r) # path) + st_height l \<le> ST_MAX_DEPTH" using Node.prems(2) by simp
    obtain s' i' r' gs where ih: "st_min l ((L, s, i, r) # path) = Some (Node Null s' i' r', gs @ (L, s, i, r) # path)"
      "plug (Node Null s' i' r') gs = l" "lefts gs = []" "length gs < st_height l"
      using Node.IH(1) [OF False deep] by blast
    have "st_min (Node l s i r) path = Some (Node Null s' i' r', (gs @ [(L, s, i, r)]) @ path)" using False room ih(1) by simp
    moreover have "plug (Node Null s' i' r') (gs @ [(L, s, i, r)]) = Node l s i r" using ih(2) by (simp add: plug_append)
    moreover have "lefts (gs @ [(L, s, i, r)]) = []" "length (gs @ [(L, s, i, r)]) < st_height (Node l s i r)" using ih(3,4) by simp_all
    ultimately show ?thesis by blast
  qed
qed simp

lemma take_out:
  assumes "invc x" "invh x" "root_black path" "length path \<le> 62" "c \<Longrightarrow> \<not> is_red x"
    and "fits (if c then black_height x else black_height x + 1) path" "path = [] \<Longrightarrow> \<not> c"
  shows "\<exists>t. (if c then Some (plug x path) else del_fix x path) = Some t \<and> invc t \<and> invh t \<and> \<not> is_red t
    \<and> st_node_walk t = lefts path @ st_node_walk x @ rights path"
proof (cases c)
  case True
  with assms have "invc (plug x path) \<and> invh (plug x path)" by (intro plug_balanced) simp_all
  moreover have "\<not> is_red (plug x path)" using assms True by (simp add: plug_red)
  ultimately show ?thesis using True by (simp add: walk_plug)
next
  case False
  have "invc (blacken x)" using assms(1) by simp
  with False assms obtain t where "del_fix x path = Some t" "invc t" "invh t" "\<not> is_red t"
    using del_fix_balanced [of x path] by auto
  with walk_del_fix [of x path t] False show ?thesis by (simp add: walk_plug)
qed

lemma st_unlink_ok:
  assumes "invc (plug y path)" "invh (plug y path)" "\<not> is_red (plug y path)" "y = Node l s i r" "length path + st_height y \<le> 62"
  shows "\<exists>t. st_unlink y path = Some t \<and> invc t \<and> invh t \<and> \<not> is_red t
    \<and> st_node_walk t = lefts path @ st_node_walk l @ st_node_walk r @ rights path"
proof (cases "l \<noteq> Null \<and> r \<noteq> Null")
  case True
  have "length ((R, s, i, l) # path) + st_height r \<le> ST_MAX_DEPTH" using assms(4,5) by (simp add: ST_MAX_DEPTH_def)
  then obtain zs zi x gs where z: "st_min r ((R, s, i, l) # path) = Some (Node Null zs zi x, gs @ (R, s, i, l) # path)"
    "plug (Node Null zs zi x) gs = r" "lefts gs = []" "length gs < st_height r"
    using st_min_finds [of r "(R, s, i, l) # path"] True by blast
  define zpath where "zpath = gs @ (R, zs, copy_color zi i, l) # path"
  have whole: "plug (Node Null zs zi x) (gs @ (R, s, i, l) # path) = plug y path" by (simp add: plug_append z(2) assms(4))
  have b: "invc (Node Null zs zi x)" "invh (Node Null zs zi x)" "fits (black_height (Node Null zs zi x)) zpath"
    using plug_balanced_rev [of "Node Null zs zi x" "gs @ (R, s, i, l) # path"] assms(1,2) fits_swap unfolding whole zpath_def by auto
  have rb: "root_black zpath"
    using plug_root_black [of "Node Null zs zi x" "gs @ (R, s, i, l) # path"] assms(3) root_black_swap unfolding whole zpath_def by auto
  have "length zpath \<le> 62" using z(4) assms(4,5) by (simp add: zpath_def)
  moreover have "fits (if red_info zi then black_height x else black_height x + 1) zpath" using b by (simp split: if_splits)
  ultimately have "\<exists>t. (if red_info zi then Some (plug x zpath) else del_fix x zpath) = Some t \<and> invc t \<and> invh t \<and> \<not> is_red t
    \<and> st_node_walk t = lefts zpath @ st_node_walk x @ rights zpath"
    using b rb by (intro take_out) (auto simp: zpath_def)
  moreover have "st_unlink y path = (if red_info zi then Some (plug x zpath) else del_fix x zpath)"
    using True z(1) by (simp add: st_unlink_def assms(4) zpath_def)
  moreover have "lefts zpath @ st_node_walk x @ rights zpath = lefts path @ st_node_walk l @ st_node_walk r @ rights path"
    using z(3) walk_plug [of "Node Null zs zi x" gs] z(2) by (simp add: zpath_def)
  ultimately show ?thesis by simp
next
  case False
  define x where "x = (if l \<noteq> Null then l else r)"
  have b: "invc y" "invh y" "fits (black_height y) path" "is_red y \<Longrightarrow> \<not> frame_red path"
    using plug_balanced_rev [OF assms(1,2)] by auto
  have "invc x" "invh x" "red_info i \<Longrightarrow> \<not> is_red x" "fits (if red_info i then black_height x else black_height x + 1) path"
    using b assms(4) by (auto simp: x_def)
  moreover have "root_black path" "path = [] \<Longrightarrow> \<not> red_info i" using plug_root_black [OF assms(3)] assms(3,4) by auto
  ultimately have "\<exists>t. (if red_info i then Some (plug x path) else del_fix x path) = Some t \<and> invc t \<and> invh t \<and> \<not> is_red t
    \<and> st_node_walk t = lefts path @ st_node_walk x @ rights path"
    using assms(5) by (intro take_out) auto
  moreover have "st_unlink y path = (if red_info i then Some (plug x path) else del_fix x path)"
    unfolding st_unlink_def assms(4) x_def using False by auto
  moreover have "st_node_walk x = st_node_walk l @ st_node_walk r" using False by (auto simp: x_def)
  ultimately show ?thesis by simp
qed

section \<open>The table a tree stands for\<close>

definition st_table :: "strtree \<Rightarrow> string \<rightharpoonup> nat" where
  "st_table tree = map_of (st_walk tree)"

definition st_ok :: "strtree \<Rightarrow> bool" where
  "st_ok tree \<longleftrightarrow> invc (st_root tree) \<and> invh (st_root tree) \<and> \<not> is_red (st_root tree)
     \<and> st_sorted (st_walk tree) \<and> st_keys (st_walk tree)"

definition max_uses :: nat where "max_uses = 2 ^ 31 - 1"

text \<open>What the two operations promise of the count of a string.  A count that reaches \<open>max_uses\<close> is permanent.\<close>

definition add_use :: "nat option \<Rightarrow> nat option" where
  "add_use u = (case u of None \<Rightarrow> Some 1 | Some n \<Rightarrow> Some (if n < max_uses then n + 1 else n))"

definition drop_use :: "nat option \<Rightarrow> nat option" where
  "drop_use u = (case u of None \<Rightarrow> None | Some n \<Rightarrow> if max_uses \<le> n then Some n else if 2 \<le> n then Some (n - 1) else None)"

lemma sorted_mid:
  assumes "st_sorted (ls @ rs)" "\<forall>a \<in> set ls. str_key (fst a) < str_key s" "\<forall>a \<in> set rs. str_key s < str_key (fst a)"
  shows "st_sorted (ls @ (s, n) # rs)" "map_of (ls @ (s, n) # rs) = (map_of (ls @ rs))(s \<mapsto> n)" "map_of (ls @ rs) s = None"
proof -
  show "st_sorted (ls @ (s, n) # rs)" using assms by (auto simp: st_sorted_def sorted_wrt_append intro: less_trans)
  have "map_of ls s = None" "map_of rs s = None" using assms(2,3) by (auto simp: map_of_eq_None_iff)
  then show "map_of (ls @ (s, n) # rs) = (map_of (ls @ rs))(s \<mapsto> n)" "map_of (ls @ rs) s = None"
    by (auto simp: fun_eq_iff map_add_def split: option.splits)
qed

lemma sorted_drop: "st_sorted (ls @ es @ rs) \<Longrightarrow> st_sorted (ls @ rs)"
  by (auto simp: st_sorted_def sorted_wrt_append)

lemma st_uses_bounds:
  "st_uses i \<le> max_uses" "i < ST_USE_LIMIT \<longleftrightarrow> st_uses i < max_uses" "2 * ST_USE_STEP \<le> i \<longleftrightarrow> 2 \<le> st_uses i"
  "i < ST_USE_LIMIT \<Longrightarrow> st_uses (i + ST_USE_STEP) = st_uses i + 1" "2 * ST_USE_STEP \<le> i \<Longrightarrow> st_uses (i - ST_USE_STEP) = st_uses i - 1"
proof -
  have u: "st_uses i = unat i div 2" for i by (simp add: st_uses_def drop_bit_eq_div unat_div)
  have b: "unat i < 2 ^ 32" using unsigned_less [of i] by simp
  have lim: "unat ST_USE_LIMIT = 2 ^ 32 - 2" by (simp add: ST_USE_LIMIT_def ST_USE_STEP_def unsigned_minus_1_eq_mask mask_eq_exp_minus_1)
  show "st_uses i \<le> max_uses" using b div_le_mono [of "unat i" "2 ^ 32 - 1" 2] unfolding u max_uses_def by simp
  have l: "i < ST_USE_LIMIT \<longleftrightarrow> unat i < 2 ^ 32 - 2" unfolding word_less_nat_alt lim ..
  have g: "2 * ST_USE_STEP \<le> i \<longleftrightarrow> 4 \<le> unat i" by (simp add: word_le_nat_alt ST_USE_STEP_def)
  show "i < ST_USE_LIMIT \<longleftrightarrow> st_uses i < max_uses" using b unfolding u l max_uses_def by auto
  show "2 * ST_USE_STEP \<le> i \<longleftrightarrow> 2 \<le> st_uses i" unfolding u g by auto
  { assume "i < ST_USE_LIMIT"
    then have "unat (i + ST_USE_STEP) = unat i + 2" using l by (subst unat_add_lem [THEN iffD1]) (simp_all add: ST_USE_STEP_def)
    then show "st_uses (i + ST_USE_STEP) = st_uses i + 1" unfolding u by simp }
  { assume "2 * ST_USE_STEP \<le> i"
    then have "unat (i - ST_USE_STEP) = unat i - 2" using g by (subst unat_sub) (simp_all add: ST_USE_STEP_def word_le_nat_alt)
    then show "st_uses (i - ST_USE_STEP) = st_uses i - 1" unfolding u by (simp add: div_if) }
qed

lemma red_info_step [simp]: "red_info (i + ST_USE_STEP) = red_info i" "red_info (i - ST_USE_STEP) = red_info i"
  by (simp_all add: red_info_odd ST_USE_STEP_def)

lemma st_descend_ok:
  assumes "st_ok tree" "length (st_walk tree) + 1 < 2 ^ 31" "no_nul s"
  obtains n path where "st_descend s (st_root tree) [] = Some (n, path)" "plug n path = st_root tree" "length path + st_height n < 62"
    "n = Null \<or> str n = s" "\<forall>a \<in> set (lefts path). str_key (fst a) < str_key s" "\<forall>a \<in> set (rights path). str_key s < str_key (fst a)"
proof -
  have h: "st_height (st_root tree) < 62"
    using height_bound [of "st_root tree" 31] assms(1,2) by (simp add: st_ok_def st_walk_def)
  then have "length [] + st_height (st_root tree) < ST_MAX_DEPTH" by (simp add: ST_MAX_DEPTH_def)
  from st_descend_finds [OF assms(3) _ _ this] assms(1) h that show thesis
    by (fastforce simp: st_ok_def st_walk_def)
qed

lemma st_find_table: "st_ok tree \<Longrightarrow> no_nul s \<Longrightarrow> st_find s tree = (if st_table tree s = None then None else Some s)"
proof -
  have "st_sorted (st_node_walk t) \<Longrightarrow> st_keys (st_node_walk t) \<Longrightarrow> no_nul s \<Longrightarrow>
      st_find_node s t = (if map_of (st_node_walk t) s = None then None else Some s)" for t
  proof (induction t)
    case (Node l t i r)
    have sorted: "st_sorted (st_node_walk l)" "st_sorted (st_node_walk r)" "\<forall>a \<in> set (st_node_walk l). str_key (fst a) < str_key t"
      "\<forall>a \<in> set (st_node_walk r). str_key t < str_key (fst a)"
      using Node.prems(1) by (auto simp: st_sorted_def sorted_wrt_append)
    have nt: "no_nul t" "st_keys (st_node_walk l)" "st_keys (st_node_walk r)" using Node.prems(2) by (auto simp: st_keys_def)
    have "map_of (st_node_walk r) s = None" if "str_key s \<le> str_key t" using that sorted(4) by (fastforce simp: map_of_eq_None_iff)
    moreover have "map_of (st_node_walk l) s = None" if "str_key t \<le> str_key s" using that sorted(3) by (fastforce simp: map_of_eq_None_iff)
    ultimately show ?case
      using Node.IH(1) [OF sorted(1) nt(2) Node.prems(3)] Node.IH(2) [OF sorted(2) nt(3) Node.prems(3)]
        strcmp_less [OF Node.prems(3) nt(1)] strcmp_zero [OF Node.prems(3) nt(1)]
      by (auto simp: map_add_def Let_def split: option.splits)
  qed simp
  then show "st_ok tree \<Longrightarrow> no_nul s \<Longrightarrow> ?thesis" by (simp add: st_ok_def st_find_def st_table_def st_walk_def)
qed

lemma entries_mid:
  assumes "st_sorted (ls @ (s, n) # rs)"
  shows "\<forall>a \<in> set ls. str_key (fst a) < str_key s" "\<forall>a \<in> set rs. str_key s < str_key (fst a)" "st_sorted (ls @ rs)"
  using assms by (auto simp: st_sorted_def sorted_wrt_append)

lemma st_replace:
  assumes "st_ok tree" "plug (Node l s i r) path = st_root tree" "red_info j = red_info i" "0 < st_uses j"
  shows "st_ok (tree\<lparr>st_root := plug (Node l s j r) path\<rparr>)" "st_table (tree\<lparr>st_root := plug (Node l s j r) path\<rparr>) = (st_table tree)(s \<mapsto> st_uses j)"
    "st_table tree s = Some (st_uses i)" "length (st_node_walk (plug (Node l s j r) path)) = length (st_walk tree)"
proof -
  let ?ls = "lefts path @ st_node_walk l" and ?rs = "st_node_walk r @ rights path"
  have walk: "st_walk tree = ?ls @ (s, st_uses i) # ?rs" "st_node_walk (plug (Node l s j r) path) = ?ls @ (s, st_uses j) # ?rs"
    by (simp_all add: st_walk_def assms(2) [symmetric] walk_plug)
  note ok = assms(1) [unfolded st_ok_def walk(1)]
  note mid = entries_mid [of ?ls s "st_uses i" ?rs]
  have sorted: "st_sorted (?ls @ (s, st_uses i) # ?rs)" using ok by blast
  note new = sorted_mid [OF mid(3) [OF sorted] mid(1) [OF sorted] mid(2) [OF sorted]]
  have b: "invc (Node l s i r)" "invh (Node l s i r)" "fits (black_height (Node l s i r)) path" "red_info i \<Longrightarrow> \<not> frame_red path"
    using ok plug_balanced_rev [of "Node l s i r" path] by (auto simp: assms(2))
  then have "invc (plug (Node l s j r) path) \<and> invh (plug (Node l s j r) path)"
    using assms(3) by (intro plug_balanced) auto
  moreover have "is_red (plug (Node l s j r) path) = is_red (plug (Node l s i r) path)" using assms(3) by (simp add: plug_red)
  moreover have "st_keys (?ls @ (s, st_uses j) # ?rs)" using ok assms(4) by (auto simp: st_keys_def)
  ultimately show "st_ok (tree\<lparr>st_root := plug (Node l s j r) path\<rparr>)"
    using ok new(1) [of "st_uses j"] assms(2) by (simp add: st_ok_def st_walk_def walk(2) del: append_assoc)
  show "st_table (tree\<lparr>st_root := plug (Node l s j r) path\<rparr>) = (st_table tree)(s \<mapsto> st_uses j)"
    using new(2) by (simp add: st_table_def walk(1)) (simp add: st_walk_def walk(2))
  show "st_table tree s = Some (st_uses i)" using new(2) [of "st_uses i"] by (simp only: st_table_def walk(1) fun_upd_same)
  show "length (st_node_walk (plug (Node l s j r) path)) = length (st_walk tree)" by (simp add: walk)
qed

lemma insert_step:
  assumes "st_ok tree" "length (st_walk tree) + 1 < 2 ^ 31" "no_nul s"
  shows "\<exists>tree'. st_insert s tree = Some (tree', s) \<and> st_ok tree' \<and> st_table tree' = (st_table tree)(s := add_use (st_table tree s))
    \<and> length (st_walk tree') = length (st_walk tree) + (if st_table tree s = None then 1 else 0)
    \<and> st_count tree' = st_count tree + (if st_table tree s = None \<and> st_root tree \<noteq> Null then 1 else 0)"
proof -
  obtain n path where d: "st_descend s (st_root tree) [] = Some (n, path)" "plug n path = st_root tree"
    "n = Null \<or> str n = s" "\<forall>a \<in> set (lefts path). str_key (fst a) < str_key s" "\<forall>a \<in> set (rights path). str_key s < str_key (fst a)"
    using st_descend_ok [OF assms] by metis
  show ?thesis
  proof (cases n)
    case (Node l t i r)
    then have n: "n = Node l s i r" using d(3) by simp
    define j where "j = (if i < ST_USE_LIMIT then i + ST_USE_STEP else i)"
    have u: "st_table tree s = Some (st_uses i)" "0 < st_uses i"
    proof -
      have "st_walk tree = (lefts path @ st_node_walk l) @ (s, st_uses i) # st_node_walk r @ rights path"
        using d(2) n by (simp add: st_walk_def walk_plug flip: d(2))
      moreover have "st_sorted (st_walk tree)" "st_keys (st_walk tree)" using assms(1) by (simp_all add: st_ok_def)
      ultimately show "0 < st_uses i" by (auto simp: st_keys_def)
      then show "st_table tree s = Some (st_uses i)" using st_replace(3) [OF assms(1) d(2) [unfolded n] refl] by simp
    qed
    have j: "red_info j = red_info i" "0 < st_uses j" "Some (st_uses j) = add_use (Some (st_uses i))"
      using st_uses_bounds [of i] u(2) by (auto simp: j_def add_use_def)
    note r = st_replace [OF assms(1) d(2) [unfolded n] j(1,2)]
    have "st_insert s tree = Some (tree\<lparr>st_root := plug (Node l s j r) path\<rparr>, s)"
      using d(1) n by (simp add: st_insert_def j_def)
    then show ?thesis using r j(3) u(1) by (simp add: st_walk_def)
  next
    case Null
    have walk: "st_walk tree = lefts path @ rights path" by (simp add: st_walk_def walk_plug Null flip: d(2))
    have ok: "st_sorted (lefts path @ rights path)" "st_keys (lefts path @ rights path)" "invc (plug Null path)" "invh (plug Null path)"
      "\<not> is_red (plug Null path)" using assms(1) d(2) Null by (simp_all add: st_ok_def walk)
    note new = sorted_mid [OF ok(1) d(4,5)]
    have u: "st_table tree s = None" using new(3) by (simp add: st_table_def walk)
    have one: "st_uses (ST_BLACK + ST_USE_STEP) = 1" "st_uses (ST_RED + ST_USE_STEP) = 1" "red_info (ST_RED + ST_USE_STEP)" "\<not> red_info (ST_BLACK + ST_USE_STEP)"
      by (simp_all add: st_uses_def ST_BLACK_def ST_RED_def ST_USE_STEP_def drop_bit_eq_div red_info_odd)
    have keys: "st_keys (lefts path @ (s, 1) # rights path)" using ok(2) assms(3) by (auto simp: st_keys_def)
    show ?thesis
    proof (cases "path = []")
      case True
      define tree' where "tree' = tree\<lparr>st_root := Node Null s (ST_BLACK + ST_USE_STEP) Null\<rparr>"
      have root: "st_root tree = Null" using d(2) True Null by simp
      have w': "st_walk tree' = [(s, 1)]" using one by (simp add: tree'_def st_walk_def)
      have "st_insert s tree = Some (tree', s)" using d(1) True Null by (simp add: st_insert_def tree'_def)
      moreover have "st_ok tree'" using one keys True w' unfolding st_ok_def by (simp add: tree'_def st_sorted_def)
      moreover have "st_table tree' = (st_table tree)(s := add_use (st_table tree s))"
        using u walk True by (simp add: st_table_def w' add_use_def)
      moreover have "length (st_walk tree') = length (st_walk tree) + 1" using walk True by (simp add: w')
      moreover have "st_count tree' = st_count tree" by (simp add: tree'_def)
      ultimately show ?thesis using u root by auto
    next
      case False
      have b: "fits 0 path" "root_black path" using plug_balanced_rev [OF ok(3,4)] plug_root_black [OF ok(5)] by simp_all
      then obtain t where t: "ins_fix (Node Null s (ST_RED + ST_USE_STEP) Null) path = Some t" "invc (blacken t)" "invh t"
        using ins_fix_balanced [of "Node Null s (ST_RED + ST_USE_STEP) Null" path] one by auto
      have wt: "st_node_walk t = lefts path @ (s, 1) # rights path" using walk_ins_fix [OF t(1)] one by (simp add: walk_plug)
      define tree' where "tree' = tree\<lparr>st_root := blacken t, st_count := st_count tree + 1, st_mem := st_mem tree + (of_nat (length s) + 1)\<rparr>"
      have root: "st_root tree \<noteq> Null"
      proof
        assume "st_root tree = Null"
        with d(1) have "path = []" by simp
        with False show False by simp
      qed
      have w': "st_walk tree' = lefts path @ (s, 1) # rights path" by (simp add: tree'_def st_walk_def wt)
      have "st_insert s tree = Some (tree', s)" using d(1) t(1) Null False by (simp add: st_insert_def tree'_def)
      moreover have "st_ok tree'" using t(2,3) new(1) keys w' unfolding st_ok_def by (simp add: tree'_def)
      moreover have "st_table tree' = (st_table tree)(s := add_use (st_table tree s))"
        using new(2) by (simp add: st_table_def w' add_use_def u [unfolded st_table_def]) (simp add: walk)
      moreover have "length (st_walk tree') = length (st_walk tree) + 1" using walk by (simp add: w')
      moreover have "st_count tree' = st_count tree + 1" by (simp add: tree'_def)
      ultimately show ?thesis using u root by auto
    qed
  qed
qed

lemma delete_step:
  assumes "st_ok tree" "length (st_walk tree) + 1 < 2 ^ 31" "no_nul s"
  shows "\<exists>tree'. st_delete s tree = Some tree' \<and> st_ok tree' \<and> st_table tree' = (st_table tree)(s := drop_use (st_table tree s))
    \<and> length (st_walk tree) = length (st_walk tree') + (if drop_use (st_table tree s) = None \<and> st_table tree s \<noteq> None then 1 else 0)
    \<and> st_count tree' = st_count tree - (if drop_use (st_table tree s) = None \<and> st_table tree s \<noteq> None then 1 else 0)"
proof -
  obtain n path where d: "st_descend s (st_root tree) [] = Some (n, path)" "plug n path = st_root tree" "length path + st_height n < 62"
    "n = Null \<or> str n = s" "\<forall>a \<in> set (lefts path). str_key (fst a) < str_key s" "\<forall>a \<in> set (rights path). str_key s < str_key (fst a)"
    using st_descend_ok [OF assms] by metis
  show ?thesis
  proof (cases n)
    case (Node l t i r)
    then have n: "n = Node l s i r" using d(4) by simp
    let ?ls = "lefts path @ st_node_walk l" and ?rs = "st_node_walk r @ rights path"
    have walk: "st_walk tree = ?ls @ (s, st_uses i) # ?rs" using n by (simp add: st_walk_def walk_plug flip: d(2))
    have ok: "st_sorted (?ls @ (s, st_uses i) # ?rs)" "st_keys (?ls @ (s, st_uses i) # ?rs)" using assms(1) unfolding st_ok_def walk by simp_all
    have pos: "0 < st_uses i" using ok(2) by (auto simp: st_keys_def)
    have u: "st_table tree s = Some (st_uses i)" using st_replace(3) [OF assms(1) d(2) [unfolded n] refl pos] .
    consider "ST_USE_LIMIT \<le> i" | "i < ST_USE_LIMIT" "2 * ST_USE_STEP \<le> i" | "i < ST_USE_LIMIT" "\<not> 2 * ST_USE_STEP \<le> i" by force
    then show ?thesis
    proof cases
      case 1
      then have "st_delete s tree = Some tree" using d(1) n by (simp add: st_delete_def)
      moreover have "drop_use (st_table tree s) = st_table tree s" using 1 st_uses_bounds(2) [of i] by (auto simp: u drop_use_def)
      ultimately show ?thesis using assms(1) by auto
    next
      case 2
      then have j: "red_info (i - ST_USE_STEP) = red_info i" "0 < st_uses (i - ST_USE_STEP)"
        "drop_use (Some (st_uses i)) = Some (st_uses (i - ST_USE_STEP))"
        using st_uses_bounds [of i] by (auto simp: drop_use_def)
      have "st_delete s tree = Some (tree\<lparr>st_root := plug (Node l s (i - ST_USE_STEP) r) path\<rparr>)"
        using d(1) n 2 by (simp add: st_delete_def)
      with st_replace [OF assms(1) d(2) [unfolded n] j(1,2)] j(3) show ?thesis by (simp add: u st_walk_def)
    next
      case 3
      then have gone: "drop_use (Some (st_uses i)) = None" using st_uses_bounds [of i] by (auto simp: drop_use_def)
      have b: "invc (plug n path)" "invh (plug n path)" "\<not> is_red (plug n path)" using assms(1) d(2) by (simp_all add: st_ok_def)
      obtain t where t: "st_unlink n path = Some t" "invc t" "invh t" "\<not> is_red t" "st_node_walk t = ?ls @ ?rs"
        using st_unlink_ok [OF b n] d(3) by auto
      define tree' where "tree' = tree\<lparr>st_root := t, st_mem := st_mem tree - (of_nat (length s) + 1), st_count := st_count tree - 1\<rparr>"
      have w': "st_walk tree' = ?ls @ ?rs" using t(5) by (simp add: tree'_def st_walk_def)
      note mid = entries_mid [OF ok(1)]
      note old = sorted_mid [OF mid(3,1,2)]
      have "st_delete s tree = Some tree'" using d(1) n 3 t(1) by (simp add: st_delete_def tree'_def)
      moreover have "st_ok tree'" using t(2-4) mid(3) ok(2) unfolding st_ok_def w' by (auto simp: tree'_def st_keys_def)
      moreover have "st_table tree' = (st_table tree)(s := drop_use (st_table tree s))"
        using old(2,3) by (simp add: u gone) (simp add: st_table_def w' walk fun_upd_idem)
      moreover have "length (st_walk tree) = length (st_walk tree') + 1" unfolding w' walk by simp
      moreover have "st_count tree' = st_count tree - 1" by (simp add: tree'_def)
      ultimately show ?thesis using u gone by auto
    qed
  next
    case Null
    have walk: "st_walk tree = lefts path @ rights path" by (simp add: st_walk_def walk_plug Null flip: d(2))
    have "st_sorted (lefts path @ rights path)" using assms(1) by (simp add: st_ok_def walk)
    from sorted_mid(3) [OF this d(5,6)] have u: "st_table tree s = None" by (simp add: st_table_def walk)
    then have "(st_table tree)(s := drop_use (st_table tree s)) = st_table tree" by (auto simp: drop_use_def)
    moreover have "st_delete s tree = Some tree" using d(1) Null by (simp add: st_delete_def)
    ultimately show ?thesis using assms(1) u by simp
  qed
qed

section \<open>Statistics\<close>

type_synonym st_stats = "nat \<times> nat \<times> nat \<times> nat"

fun st_depth_helper :: "strnode \<Rightarrow> st_stats \<Rightarrow> nat \<Rightarrow> st_stats" where
  "st_depth_helper Null st cnt = st"
| "st_depth_helper (Node l s i r) (maxdepth, mindepth, avgdepth, leaves) cnt =
     (let st = (if maxdepth < cnt then cnt else maxdepth, mindepth, avgdepth, leaves);
          st = (if l \<noteq> Null then st_depth_helper l st (cnt + 1) else st);
          st = (if r \<noteq> Null then st_depth_helper r st (cnt + 1) else st)
      in if l = Null \<and> r = Null
         then (case st of (maxdepth, mindepth, avgdepth, leaves) \<Rightarrow>
                 (maxdepth, if cnt < mindepth then cnt else mindepth, avgdepth + cnt, leaves + 1))
         else st)"

definition st_traverse_stats :: "strtree \<Rightarrow> st_stats" where
  "st_traverse_stats tree =
     (case st_depth_helper (st_root tree) (0, if st_root tree \<noteq> Null then ST_MAX_DEPTH + 1 else 0, 0, 0) 1 of
        (maxdepth, mindepth, avgdepth, leaves) \<Rightarrow> (maxdepth, mindepth, if avgdepth \<noteq> 0 then avgdepth div leaves else avgdepth, leaves))"

fun st_shallow :: "strnode \<Rightarrow> nat" where
  "st_shallow Null = 0"
| "st_shallow (Node l s i r) =
     (if l = Null \<and> r = Null then 1 else if l = Null then st_shallow r + 1 else if r = Null then st_shallow l + 1
      else min (st_shallow l) (st_shallow r) + 1)"

fun st_leaves :: "strnode \<Rightarrow> nat" where
  "st_leaves Null = 0"
| "st_leaves (Node l s i r) = (if l = Null \<and> r = Null then 1 else st_leaves l + st_leaves r)"

lemma depth_helper:
  "t \<noteq> Null \<Longrightarrow> \<exists>a'. st_depth_helper t (mx, mn, a, k) c = (max mx (c - 1 + st_height t), min mn (c - 1 + st_shallow t), a', k + st_leaves t)"
  if "0 < c"
  using that
proof (induction t arbitrary: mx mn a k c)
  case (Node l s i r)
  let ?d = "\<lambda>t q. if t \<noteq> Null then st_depth_helper t q (c + 1) else q"
  have sub: "\<exists>a'. ?d l (mx, mn, a, k) = (max mx (if l = Null then 0 else c + st_height l), if l = Null then mn else min mn (c + st_shallow l), a', k + st_leaves l)"
    for mx mn a k using Node.IH(1) [of "c + 1" mx mn a k] by auto
  have sub': "\<exists>a'. ?d r (mx, mn, a, k) = (max mx (if r = Null then 0 else c + st_height r), if r = Null then mn else min mn (c + st_shallow r), a', k + st_leaves r)"
    for mx mn a k using Node.IH(2) [of "c + 1" mx mn a k] by auto
  obtain a1 where a1: "?d l (if mx < c then c else mx, mn, a, k) =
      (max (if mx < c then c else mx) (if l = Null then 0 else c + st_height l), if l = Null then mn else min mn (c + st_shallow l), a1, k + st_leaves l)"
    using sub by blast
  obtain a2 where a2: "?d r (max (if mx < c then c else mx) (if l = Null then 0 else c + st_height l), if l = Null then mn else min mn (c + st_shallow l), a1, k + st_leaves l) =
      (max (max (if mx < c then c else mx) (if l = Null then 0 else c + st_height l)) (if r = Null then 0 else c + st_height r),
       if r = Null then (if l = Null then mn else min mn (c + st_shallow l)) else min (if l = Null then mn else min mn (c + st_shallow l)) (c + st_shallow r),
       a2, k + st_leaves l + st_leaves r)"
    using sub' by blast
  show ?case
    unfolding st_depth_helper.simps Let_def a1 a2 using Node.prems(2)
    by (cases "l = Null"; cases "r = Null") (auto simp: max_def min_def)
qed simp

lemma black_shallow: "invh t \<Longrightarrow> black_height t \<le> st_shallow t"
  by (induction t) auto

lemma shallow_height: "st_shallow t \<le> st_height t"
  by (induction t) auto

lemma traverse_stats:
  assumes "st_height (st_root tree) \<le> ST_MAX_DEPTH"
  shows "\<exists>a. st_traverse_stats tree = (st_height (st_root tree), st_shallow (st_root tree), a, st_leaves (st_root tree))"
proof (cases "st_root tree = Null")
  case False
  with depth_helper [of 1 "st_root tree" 0 "ST_MAX_DEPTH + 1" 0 0] shallow_height [of "st_root tree"] assms show ?thesis
    by (auto simp: st_traverse_stats_def)
qed (simp add: st_traverse_stats_def)

lemma st_ok_height:
  assumes "st_ok tree"
  shows "st_height (st_root tree) \<le> 2 * st_shallow (st_root tree)" "2 ^ (st_height (st_root tree) div 2) \<le> length (st_walk tree) + 1"
proof -
  have h: "st_height (st_root tree) \<le> 2 * black_height (st_root tree)" using assms height_black [of "st_root tree"] by (simp add: st_ok_def)
  then show "st_height (st_root tree) \<le> 2 * st_shallow (st_root tree)"
    using assms black_shallow [of "st_root tree"] by (simp add: st_ok_def)
  have "(2 :: nat) ^ (st_height (st_root tree) div 2) \<le> 2 ^ black_height (st_root tree)" using h by (intro power_increasing) auto
  also have "\<dots> \<le> length (st_walk tree) + 1" using assms black_size by (simp add: st_ok_def st_walk_def)
  finally show "2 ^ (st_height (st_root tree) div 2) \<le> length (st_walk tree) + 1" .
qed

section \<open>Sequences of operations\<close>

datatype string_op = Insert string | Delete string

fun op_string :: "string_op \<Rightarrow> string" where
  "op_string (Insert s) = s"
| "op_string (Delete s) = s"

fun apply_op :: "(string \<Rightarrow> 't \<Rightarrow> ('t \<times> string) option) \<Rightarrow> (string \<Rightarrow> 't \<Rightarrow> 't option) \<Rightarrow> string_op \<Rightarrow> 't \<Rightarrow> 't option" where
  "apply_op add remove (Insert s) t = map_option fst (add s t)"
| "apply_op add remove (Delete s) t = remove s t"

fun run_ops :: "(string \<Rightarrow> 't \<Rightarrow> ('t \<times> string) option) \<Rightarrow> (string \<Rightarrow> 't \<Rightarrow> 't option) \<Rightarrow> string_op list \<Rightarrow> 't \<Rightarrow> 't option" where
  "run_ops add remove [] t = Some t"
| "run_ops add remove (opn # ops) t = Option.bind (apply_op add remove opn t) (run_ops add remove ops)"

fun spec_op :: "string_op \<Rightarrow> (string \<rightharpoonup> nat) \<Rightarrow> (string \<rightharpoonup> nat)" where
  "spec_op (Insert s) m = m(s := add_use (m s))"
| "spec_op (Delete s) m = m(s := drop_use (m s))"

text \<open>
  What the users of a table of counted strings rely on: the operations return, keep the table well
  formed and change the count of their own string only, and the table says which strings are in it.
\<close>

locale counted_strings =
  fixes add :: "string \<Rightarrow> 't \<Rightarrow> ('t \<times> string) option"
    and remove :: "string \<Rightarrow> 't \<Rightarrow> 't option"
    and lookup :: "string \<Rightarrow> 't \<Rightarrow> string option"
    and ok :: "'t \<Rightarrow> bool"
    and counts :: "'t \<Rightarrow> string \<rightharpoonup> nat"
    and entries :: "'t \<Rightarrow> nat"
    and room :: nat
  assumes add_law: "ok t \<Longrightarrow> no_nul s \<Longrightarrow> entries t < room \<Longrightarrow>
      \<exists>t'. add s t = Some (t', s) \<and> ok t' \<and> counts t' = (counts t)(s := add_use (counts t s)) \<and> entries t' \<le> entries t + 1"
    and remove_law: "ok t \<Longrightarrow> no_nul s \<Longrightarrow> entries t < room \<Longrightarrow>
      \<exists>t'. remove s t = Some t' \<and> ok t' \<and> counts t' = (counts t)(s := drop_use (counts t s)) \<and> entries t' \<le> entries t"
    and lookup_law: "ok t \<Longrightarrow> no_nul s \<Longrightarrow> lookup s t = (if counts t s = None then None else Some s)"
    and counted_law: "ok t \<Longrightarrow> counts t s \<noteq> Some 0"
    and entries_law: "ok t \<Longrightarrow> entries t = card (dom (counts t))"
begin

lemma op_refines:
  assumes "ok t" "no_nul (op_string opn)" "entries t < room"
  shows "\<exists>t'. apply_op add remove opn t = Some t' \<and> ok t' \<and> counts t' = spec_op opn (counts t) \<and> entries t' \<le> entries t + 1"
  using add_law [OF assms(1) _ assms(3)] remove_law [OF assms(1) _ assms(3)] assms(2) by (cases opn) fastforce+

lemma run_refines:
  "ok t \<Longrightarrow> \<forall>opn \<in> set ops. no_nul (op_string opn) \<Longrightarrow> entries t + length ops \<le> room \<Longrightarrow>
   \<exists>t'. run_ops add remove ops t = Some t' \<and> ok t' \<and> counts t' = fold spec_op ops (counts t) \<and> entries t' \<le> entries t + length ops"
proof (induction ops arbitrary: t)
  case (Cons opn ops)
  then obtain t' where t': "apply_op add remove opn t = Some t'" "ok t'" "counts t' = spec_op opn (counts t)" "entries t' \<le> entries t + 1"
    using op_refines [of t opn] by auto
  with Cons.prems Cons.IH [of t'] show ?case by auto
qed simp

lemma add_then_remove:
  assumes "ok t" "no_nul s" "entries t + 1 < room" "counts t s \<noteq> Some (max_uses - 1)"
  shows "\<exists>t'. run_ops add remove [Insert s, Delete s] t = Some t' \<and> counts t' = counts t"
  using run_refines [of t "[Insert s, Delete s]"] assms counted_law [OF assms(1), of s]
  by (fastforce simp: add_use_def drop_use_def max_uses_def split: option.splits if_splits)

end

text \<open>The table that counts the elements of a multiset of strings, for clients that hold strings.\<close>

definition counts_of :: "string multiset \<Rightarrow> string \<rightharpoonup> nat" where
  "counts_of M = (\<lambda>s. if s \<in># M then Some (count M s) else None)"

context counted_strings
begin

lemma entries_of: "ok t \<Longrightarrow> counts t = counts_of M \<Longrightarrow> entries t \<le> size M"
proof -
  assume "ok t" "counts t = counts_of M"
  moreover have "dom (counts_of M) = set_mset M" by (auto simp: counts_of_def split: if_splits)
  moreover have "card (set_mset M) \<le> size M"
    using sum_mono [of "set_mset M" "\<lambda>_. 1" "count M"] by (simp add: size_multiset_overloaded_eq Suc_le_eq)
  ultimately show "entries t \<le> size M" using entries_law by simp
qed

lemma hold:
  assumes "ok t" "counts t = counts_of M" "no_nul s" "size M < room" "size M < max_uses"
  shows "\<exists>t'. add s t = Some (t', s) \<and> ok t' \<and> counts t' = counts_of (add_mset s M)"
proof -
  have "entries t < room" using entries_of [OF assms(1,2)] assms(4) by simp
  then obtain t' where t': "add s t = Some (t', s)" "ok t'" "counts t' = (counts t)(s := add_use (counts t s))"
    using add_law [OF assms(1,3)] by blast
  moreover have "count M s < max_uses" using assms(5) count_le_size [of M s] by simp
  then have "(counts_of M)(s := add_use (counts_of M s)) = counts_of (add_mset s M)"
    by (auto simp: counts_of_def add_use_def fun_eq_iff not_in_iff)
  ultimately show ?thesis using assms(2) by auto
qed

lemma release:
  assumes "ok t" "counts t = counts_of (add_mset s M)" "no_nul s" "size M + 1 < room" "size M + 1 < max_uses"
  shows "\<exists>t'. remove s t = Some t' \<and> ok t' \<and> counts t' = counts_of M"
proof -
  have "entries t < room" using entries_of [OF assms(1,2)] assms(4) by simp
  then obtain t' where t': "remove s t = Some t'" "ok t'" "counts t' = (counts t)(s := drop_use (counts t s))"
    using remove_law [OF assms(1,3)] by blast
  moreover have "count M s + 1 < max_uses" using assms(5) count_le_size [of M s] by simp
  then have "(counts_of (add_mset s M))(s := drop_use (counts_of (add_mset s M) s)) = counts_of M"
    by (auto simp: counts_of_def drop_use_def fun_eq_iff not_in_iff Suc_le_eq)
  ultimately show ?thesis using assms(2) by auto
qed

end

lemma st_entries: "st_ok tree \<Longrightarrow> length (st_walk tree) = card (dom (st_table tree))"
proof -
  assume "st_ok tree"
  then have "sorted_wrt (\<lambda>a b. str_key (fst a) < str_key (fst b)) (st_walk tree)" by (simp add: st_ok_def st_sorted_def)
  then have "distinct (map fst es)" if "es = st_walk tree" for es unfolding that [symmetric] by (induction es) auto
  from distinct_card [OF this [OF refl]] show ?thesis by (simp add: st_table_def dom_map_of_conv_image_fst)
qed

interpretation st: counted_strings st_insert st_delete st_find st_ok st_table "\<lambda>tree. length (st_walk tree)" "2 ^ 31 - 1"
proof
  show "st_ok tree \<Longrightarrow> st_table tree s \<noteq> Some 0" for tree s
    by (auto simp: st_ok_def st_table_def st_keys_def dest: map_of_SomeD)
qed (use insert_step delete_step st_find_table st_entries in \<open>fastforce simp: less_diff_conv\<close>)+

lemma st_init_ok: "st_ok st_init" "st_table st_init = Map.empty" "st_walk st_init = []"
  by (simp_all add: st_ok_def st_init_def st_walk_def st_sorted_def st_keys_def st_table_def)

text \<open>C24: any sequence of at most \<open>2 ^ 31 - 1\<close> insertions and deletions of strings of any kind, started on an
  empty string table, returns: no assertion of \<open>strtree.c\<close> fails and its path array never overflows.  The
  tree that results has the red-black properties and its strings in order, its use counts are those of the
  abstract table that counts each string on its own, up to the permanent count \<open>2 ^ 31 - 1\<close>, and \<open>st_find\<close>
  finds exactly the strings the abstract table holds.\<close>

theorem strtree_counts_uses:
  assumes "\<forall>opn \<in> set ops. no_nul (op_string opn)" "length ops \<le> 2 ^ 31 - 1"
  shows "\<exists>tree. run_ops st_insert st_delete ops st_init = Some tree \<and> st_ok tree \<and> st_table tree = fold spec_op ops Map.empty
    \<and> (\<forall>s. no_nul s \<longrightarrow> st_find s tree = (if fold spec_op ops Map.empty s = None then None else Some s))"
  using st.run_refines [OF st_init_ok(1) assms(1)] assms(2) st_init_ok(2,3) st_find_table by fastforce

lemma strtree_counts_uses_witness:
  "\<exists>tree. run_ops st_insert st_delete [Insert ''b'', Insert ''a'', Insert ''c'', Delete ''b'', Insert ''a''] st_init = Some tree
     \<and> st_find ''b'' tree = None \<and> st_table tree ''a'' = Some 2"
proof -
  let ?ops = "[Insert ''b'', Insert ''a'', Insert ''c'', Delete ''b'', Insert ''a'']"
  have "\<forall>opn \<in> set ?ops. no_nul (op_string opn)" "length ?ops \<le> 2 ^ 31 - 1" by (simp_all add: no_nul_def)
  from strtree_counts_uses [OF this] obtain tree where t: "run_ops st_insert st_delete ?ops st_init = Some tree"
    "st_table tree = fold spec_op ?ops Map.empty"
    "\<forall>s. no_nul s \<longrightarrow> st_find s tree = (if fold spec_op ?ops Map.empty s = None then None else Some s)" by blast
  have m: "fold spec_op ?ops Map.empty ''b'' = None" "fold spec_op ?ops Map.empty ''a'' = Some 2"
    by (simp_all add: add_use_def drop_use_def max_uses_def)
  have "st_find ''b'' tree = None" using t(3) m(1) by (simp add: no_nul_def)
  moreover have "st_table tree ''a'' = Some 2" using t(2) m(2) by metis
  ultimately show ?thesis using t(1) by blast
qed

text \<open>C25: the statistics \<open>@stats/tables\<close> shows of a string table tell of a balanced tree: the deepest leaf is at
  most twice as deep as the shallowest one, and a tree of depth \<open>d\<close> holds at least \<open>2 ^ (d div 2) - 1\<close> strings.\<close>

theorem strtree_stays_balanced:
  assumes "\<forall>opn \<in> set ops. no_nul (op_string opn)" "length ops \<le> 2 ^ 31 - 1" "run_ops st_insert st_delete ops st_init = Some tree"
    and "st_traverse_stats tree = (maxdepth, mindepth, avgdepth, leaves)"
  shows "maxdepth \<le> 2 * mindepth \<and> 2 ^ (maxdepth div 2) \<le> length (st_walk tree) + 1 \<and> maxdepth < ST_MAX_DEPTH"
proof -
  have tree: "st_ok tree" "length (st_walk tree) \<le> 2 ^ 31 - 1"
    using st.run_refines [OF st_init_ok(1) assms(1)] assms(2,3) st_init_ok(2,3) by fastforce+
  have "(2 :: nat) ^ (st_height (st_root tree) div 2) < 2 ^ 32" using st_ok_height(2) [OF tree(1)] tree(2) by simp
  then have "st_height (st_root tree) div 2 < 32" by (rule power_less_imp_less_exp [rotated]) simp
  then have h: "st_height (st_root tree) < ST_MAX_DEPTH" by (simp add: ST_MAX_DEPTH_def)
  with traverse_stats [of tree] assms(4) st_ok_height [OF tree(1)] show ?thesis by auto
qed

lemma strtree_stays_balanced_witness:
  "\<exists>tree maxdepth mindepth. run_ops st_insert st_delete [Insert ''a'', Insert ''b'', Insert ''c'', Insert ''d''] st_init = Some tree
     \<and> st_traverse_stats tree = (maxdepth, mindepth, 2, 2) \<and> maxdepth = 3 \<and> maxdepth \<le> 2 * mindepth"
proof -
  let ?ops = "[Insert ''a'', Insert ''b'', Insert ''c'', Insert ''d'']"
  define tree where "tree = the (run_ops st_insert st_delete ?ops st_init)"
  have run: "run_ops st_insert st_delete ?ops st_init = Some tree" "st_traverse_stats tree = (3, 2, 2, 2)"
    unfolding tree_def by code_simp+
  have "\<forall>opn \<in> set ?ops. no_nul (op_string opn)" "length ?ops \<le> 2 ^ 31 - 1" by (simp_all add: no_nul_def)
  from strtree_stays_balanced [OF this run] run show ?thesis by blast
qed

text \<open>The insertions of a sequence that find the tree empty.\<close>

fun first_inserts :: "string_op list \<Rightarrow> strtree \<Rightarrow> nat" where
  "first_inserts [] tree = 0"
| "first_inserts (Delete s # ops) tree = (case st_delete s tree of None \<Rightarrow> 0 | Some tree' \<Rightarrow> first_inserts ops tree')"
| "first_inserts (Insert s # ops) tree =
     (if st_root tree = Null then 1 else 0) + (case st_insert s tree of None \<Rightarrow> 0 | Some (tree', _) \<Rightarrow> first_inserts ops tree')"

lemma root_Null_table: "st_root tree = Null \<Longrightarrow> st_table tree s = None"
  by (simp add: st_table_def st_walk_def)

lemma count_drifts:
  "st_ok tree \<Longrightarrow> \<forall>opn \<in> set ops. no_nul (op_string opn) \<Longrightarrow> length (st_walk tree) + length ops \<le> 2 ^ 31 - 1 \<Longrightarrow>
   run_ops st_insert st_delete ops tree = Some tree' \<Longrightarrow>
   st_count tree' + of_nat (length (st_walk tree)) + of_nat (first_inserts ops tree) = st_count tree + of_nat (length (st_walk tree'))"
proof (induction ops arbitrary: tree)
  case (Cons opn ops)
  show ?case
  proof (cases opn)
    case (Insert s)
    then have s: "no_nul s" "length (st_walk tree) + 1 < 2 ^ 31" using Cons.prems(2,3) by auto
    obtain t where t: "st_insert s tree = Some (t, s)" "st_ok t"
      "length (st_walk t) = length (st_walk tree) + (if st_table tree s = None then 1 else 0)"
      "st_count t = st_count tree + (if st_table tree s = None \<and> st_root tree \<noteq> Null then 1 else 0)"
      using insert_step [OF Cons.prems(1) s(2,1)] by blast
    have "st_count tree' + of_nat (length (st_walk t)) + of_nat (first_inserts ops t) = st_count t + of_nat (length (st_walk tree'))"
      using Cons.prems Insert t by (intro Cons.IH) auto
    then show ?thesis using t root_Null_table [of tree s] Insert by (auto simp: algebra_simps split: if_splits)
  next
    case (Delete s)
    then have s: "no_nul s" "length (st_walk tree) + 1 < 2 ^ 31" using Cons.prems(2,3) by auto
    obtain t where t: "st_delete s tree = Some t" "st_ok t"
      "length (st_walk tree) = length (st_walk t) + (if drop_use (st_table tree s) = None \<and> st_table tree s \<noteq> None then 1 else 0)"
      "st_count t = st_count tree - (if drop_use (st_table tree s) = None \<and> st_table tree s \<noteq> None then 1 else 0)"
      using delete_step [OF Cons.prems(1) s(2,1)] by blast
    have "st_count tree' + of_nat (length (st_walk t)) + of_nat (first_inserts ops t) = st_count t + of_nat (length (st_walk tree'))"
      using Cons.prems Delete t by (intro Cons.IH) auto
    then show ?thesis using t Delete by (auto simp: algebra_simps split: if_splits)
  qed
qed simp

text \<open>The field \<open>count\<close>, documented as the number of nodes, misses every node that was inserted into an
  empty tree: the first insertion returns before the increment, while the deletion of the last node does
  decrement the field.  After any sequence of operations it is the number of strings less the number of such
  insertions, modulo \<open>2 ^ 64\<close>.\<close>

theorem strtree_count_drifts:
  assumes "\<forall>opn \<in> set ops. no_nul (op_string opn)" "length ops \<le> 2 ^ 31 - 1" "run_ops st_insert st_delete ops st_init = Some tree"
  shows "st_count tree = of_nat (length (st_walk tree)) - of_nat (first_inserts ops st_init)"
  using count_drifts [OF st_init_ok(1) assms(1) _ assms(3)] assms(2) st_init_ok(3) by (simp add: st_init_def eq_diff_eq)

lemma strtree_count_drifts_witness:
  "\<exists>tree. run_ops st_insert st_delete [Insert ''a'', Delete ''a''] st_init = Some tree \<and> st_walk tree = [] \<and> st_count tree = - 1"
proof -
  let ?ops = "[Insert ''a'', Delete ''a'']"
  define tree where "tree = the (run_ops st_insert st_delete ?ops st_init)"
  have run: "run_ops st_insert st_delete ?ops st_init = Some tree" "st_walk tree = []" "first_inserts ?ops st_init = 1"
    unfolding tree_def by code_simp+
  have "\<forall>opn \<in> set ?ops. no_nul (op_string opn)" "length ?ops \<le> 2 ^ 31 - 1" by (simp_all add: no_nul_def)
  from strtree_count_drifts [OF this run(1)] have "st_count tree = - 1" unfolding run(2,3) by simp
  with run(1,2) show ?thesis by blast
qed

end
