(* ===== verification/Mush_Db.thy ===== *)
theory Mush_Db
  imports Mush_Boolexp_Parse Mush_Privtab Mush_Strtree_Table
begin

text \<open>
  The object database as the lock, permission and matching code sees it: the array \<open>db\<close> of \<open>dbdefs.h\<close>,
  the macros that read it, and the tables of lock names.  An object's flags and powers are the lists of the
  names of those set on it.  A state also records the messages sent to players, in order, and the calls of
  \<open>do_atrlock\<close>.  What the rest of the server answers (options, attributes, player names, softcode) is the
  record \<open>server\<close>.
\<close>

section \<open>Objects\<close>

record lock_list =
  L_TYPE :: string
  L_KEY :: boolexp
  L_CREATOR :: dbref
  L_FLAGS :: privbits

record object =
  obj_name :: string
  obj_location :: dbref
  obj_contents :: dbref
  obj_exits :: dbref
  obj_next :: dbref
  obj_parent :: dbref
  obj_owner :: dbref
  obj_zone :: dbref
  obj_mtime :: int
  obj_ctime :: "64 word"
  obj_type :: "32 word"
  obj_flags :: "string list"
  obj_powers :: "string list"
  obj_locks :: "lock_list list"

datatype notice = Notify dbref string | Notify_lock dbref dbref string string | Do_atrlock dbref string string

record mush =
  db :: "object list"
  lock_names :: strtree
  htab_locks :: "string \<rightharpoonup> lock_list"
  notices :: "notice list"

record server =
  sv_world :: world
  sv_steps :: nat
  sv_ancestor_room :: dbref
  sv_ancestor_exit :: dbref
  sv_ancestor_thing :: dbref
  sv_ancestor_player :: dbref
  sv_zone_control_zmp :: bool
  sv_master_room :: dbref
  sv_player_start :: dbref
  sv_mudtime :: int
  sv_parse :: "dbref \<Rightarrow> parse_env"
  sv_good_atr_name :: "string \<Rightarrow> bool"
  sv_parse_objid :: "string \<Rightarrow> dbref"
  sv_lookup_player :: "string \<Rightarrow> dbref"
  sv_visible_short_page :: "dbref \<Rightarrow> string \<Rightarrow> dbref"
  sv_alias :: "dbref \<Rightarrow> string option"
  sv_can_interact_first :: "dbref \<Rightarrow> dbref \<Rightarrow> dbref"
  sv_can_interact_last :: "dbref \<Rightarrow> dbref \<Rightarrow> dbref"

definition GOD :: dbref where "GOD = 1"
definition AMBIGUOUS :: dbref where "AMBIGUOUS = - 2"

definition GoodObject :: "mush \<Rightarrow> dbref \<Rightarrow> bool" where
  "GoodObject s x \<longleftrightarrow> 0 \<le> sint x \<and> sint x < int (length (db s))"

text \<open>A read of a field outside the array, which the code avoids by testing \<open>GoodObject\<close>, gives \<open>no_object\<close>.\<close>

definition no_object :: object where
  "no_object = \<lparr>obj_name = [], obj_location = NOTHING, obj_contents = NOTHING, obj_exits = NOTHING, obj_next = NOTHING,
     obj_parent = NOTHING, obj_owner = NOTHING, obj_zone = NOTHING, obj_mtime = 0, obj_ctime = 0, obj_type = 0, obj_flags = [],
     obj_powers = [], obj_locks = []\<rparr>"

definition obj :: "mush \<Rightarrow> dbref \<Rightarrow> object" where
  "obj s x = (if GoodObject s x then db s ! nat (sint x) else no_object)"

definition set_obj :: "mush \<Rightarrow> dbref \<Rightarrow> object \<Rightarrow> mush" where
  "set_obj s x ob = (if GoodObject s x then s\<lparr>db := (db s)[nat (sint x) := ob]\<rparr> else s)"

abbreviation Name :: "mush \<Rightarrow> dbref \<Rightarrow> string" where "Name s x \<equiv> obj_name (obj s x)"
abbreviation Location :: "mush \<Rightarrow> dbref \<Rightarrow> dbref" where "Location s x \<equiv> obj_location (obj s x)"
abbreviation Contents :: "mush \<Rightarrow> dbref \<Rightarrow> dbref" where "Contents s x \<equiv> obj_contents (obj s x)"
abbreviation Exits :: "mush \<Rightarrow> dbref \<Rightarrow> dbref" where "Exits s x \<equiv> obj_exits (obj s x)"
abbreviation Next :: "mush \<Rightarrow> dbref \<Rightarrow> dbref" where "Next s x \<equiv> obj_next (obj s x)"
abbreviation Parent :: "mush \<Rightarrow> dbref \<Rightarrow> dbref" where "Parent s x \<equiv> obj_parent (obj s x)"
abbreviation Owner :: "mush \<Rightarrow> dbref \<Rightarrow> dbref" where "Owner s x \<equiv> obj_owner (obj s x)"
abbreviation Zone :: "mush \<Rightarrow> dbref \<Rightarrow> dbref" where "Zone s x \<equiv> obj_zone (obj s x)"
abbreviation Locks :: "mush \<Rightarrow> dbref \<Rightarrow> lock_list list" where "Locks s x \<equiv> obj_locks (obj s x)"

definition set_Locks :: "mush \<Rightarrow> dbref \<Rightarrow> lock_list list \<Rightarrow> mush" where
  "set_Locks s x ls = set_obj s x ((obj s x)\<lparr>obj_locks := ls\<rparr>)"

definition set_ModTime :: "mush \<Rightarrow> dbref \<Rightarrow> int \<Rightarrow> mush" where
  "set_ModTime s x t = set_obj s x ((obj s x)\<lparr>obj_mtime := t\<rparr>)"

definition add_notice :: "notice \<Rightarrow> mush \<Rightarrow> mush" where
  "add_notice n s = s\<lparr>notices := notices s @ [n]\<rparr>"

section \<open>Types, flags and powers\<close>

definition TYPE_MARKED :: "32 word" where "TYPE_MARKED = 0x20"
definition TYPE_GARBAGE :: "32 word" where "TYPE_GARBAGE = 0x10"
definition NOTYPE :: "32 word" where "NOTYPE = 0xFFFF"

definition Typeof :: "mush \<Rightarrow> dbref \<Rightarrow> 32 word" where
  "Typeof s x = obj_type (obj s x) AND NOT TYPE_MARKED"

definition is_type :: "mush \<Rightarrow> dbref \<Rightarrow> 32 word \<Rightarrow> bool" where
  "is_type s x t \<longleftrightarrow> Typeof s x AND t = t"

definition IsRoom :: "mush \<Rightarrow> dbref \<Rightarrow> bool" where "IsRoom s x \<longleftrightarrow> is_type s x (of_nat TYPE_ROOM)"
definition IsThing :: "mush \<Rightarrow> dbref \<Rightarrow> bool" where "IsThing s x \<longleftrightarrow> is_type s x (of_nat TYPE_THING)"
definition IsExit :: "mush \<Rightarrow> dbref \<Rightarrow> bool" where "IsExit s x \<longleftrightarrow> is_type s x (of_nat TYPE_EXIT)"
definition IsPlayer :: "mush \<Rightarrow> dbref \<Rightarrow> bool" where "IsPlayer s x \<longleftrightarrow> is_type s x (of_nat TYPE_PLAYER)"
definition IsGarbage :: "mush \<Rightarrow> dbref \<Rightarrow> bool" where "IsGarbage s x \<longleftrightarrow> is_type s x TYPE_GARBAGE"

definition RealGoodObject :: "mush \<Rightarrow> dbref \<Rightarrow> bool" where
  "RealGoodObject s x \<longleftrightarrow> GoodObject s x \<and> \<not> IsGarbage s x"

definition has_flag :: "mush \<Rightarrow> dbref \<Rightarrow> string \<Rightarrow> bool" where
  "has_flag s x f \<longleftrightarrow> GoodObject s x \<and> \<not> IsGarbage s x \<and> f \<in> set (obj_flags (obj s x))"

definition has_power :: "mush \<Rightarrow> dbref \<Rightarrow> string \<Rightarrow> bool" where
  "has_power s x f \<longleftrightarrow> GoodObject s x \<and> \<not> IsGarbage s x \<and> f \<in> set (obj_powers (obj s x))"

definition God :: "dbref \<Rightarrow> bool" where "God x \<longleftrightarrow> x = GOD"
definition Wizard :: "mush \<Rightarrow> dbref \<Rightarrow> bool" where "Wizard s x \<longleftrightarrow> God x \<or> has_flag s x ''WIZARD''"
definition Hasprivs :: "mush \<Rightarrow> dbref \<Rightarrow> bool" where
  "Hasprivs s x \<longleftrightarrow> God x \<or> has_flag s x ''ROYALTY'' \<or> Wizard s x"
definition See_All :: "mush \<Rightarrow> dbref \<Rightarrow> bool" where "See_All s x \<longleftrightarrow> Hasprivs s x \<or> has_power s x ''SEE_ALL''"
definition Guest :: "mush \<Rightarrow> dbref \<Rightarrow> bool" where "Guest s x \<longleftrightarrow> has_power s x ''GUEST''"
definition Long_Fingers :: "mush \<Rightarrow> dbref \<Rightarrow> bool" where
  "Long_Fingers s x \<longleftrightarrow> Hasprivs s x \<or> has_power s x ''LONG_FINGERS''"
definition Orphan :: "mush \<Rightarrow> dbref \<Rightarrow> bool" where "Orphan s x \<longleftrightarrow> has_flag s x ''ORPHAN''"
definition Quiet :: "mush \<Rightarrow> dbref \<Rightarrow> bool" where "Quiet s x \<longleftrightarrow> has_flag s x ''QUIET''"
definition AreQuiet :: "mush \<Rightarrow> dbref \<Rightarrow> dbref \<Rightarrow> bool" where
  "AreQuiet s x y \<longleftrightarrow> Quiet s x \<or> Quiet s y \<and> Owner s y = x"
definition Visual :: "mush \<Rightarrow> dbref \<Rightarrow> bool" where "Visual s x \<longleftrightarrow> has_flag s x ''VISUAL''"
definition Mistrust :: "mush \<Rightarrow> dbref \<Rightarrow> bool" where
  "Mistrust s x \<longleftrightarrow> has_flag s x ''MISTRUST''"
definition Inherit :: "mush \<Rightarrow> dbref \<Rightarrow> bool" where "Inherit s x \<longleftrightarrow> has_flag s x ''TRUST''"
definition Inheritable :: "mush \<Rightarrow> dbref \<Rightarrow> bool" where
  "Inheritable s x \<longleftrightarrow> IsPlayer s x \<or> Inherit s x \<or> Inherit s (Owner s x) \<or> Wizard s x"
definition Owns :: "mush \<Rightarrow> dbref \<Rightarrow> dbref \<Rightarrow> bool" where "Owns s p x \<longleftrightarrow> Owner s p = Owner s x"
definition ZMaster :: "mush \<Rightarrow> dbref \<Rightarrow> bool" where
  "ZMaster s x \<longleftrightarrow> Typeof s x = of_nat TYPE_PLAYER \<and> has_flag s x ''SHARED''"

definition Ancestor_Parent :: "server \<Rightarrow> mush \<Rightarrow> dbref \<Rightarrow> dbref" where
  "Ancestor_Parent sv s x =
     (if Orphan s x then NOTHING
      else if IsRoom s x then sv_ancestor_room sv
      else if IsExit s x then sv_ancestor_exit sv
      else if IsPlayer s x then sv_ancestor_player sv
      else if IsThing s x then sv_ancestor_thing sv
      else NOTHING)"

section \<open>Reading and writing objects\<close>

named_theorems db_simps \<open>reading the database after a write\<close>

lemma GoodObject_set_obj [simp, db_simps]: "GoodObject (set_obj s x ob) y = GoodObject s y"
  by (simp add: GoodObject_def set_obj_def)

lemma length_set_obj [simp]: "length (db (set_obj s x ob)) = length (db s)"
  by (simp add: set_obj_def)

lemma GoodObject_notice [simp, db_simps]: "GoodObject (add_notice n s) y = GoodObject s y" "obj (add_notice n s) y = obj s y"
  "db (add_notice n s) = db s" "lock_names (add_notice n s) = lock_names s" "htab_locks (add_notice n s) = htab_locks s"
  by (simp_all add: GoodObject_def add_notice_def obj_def)

lemma GoodObject_names [simp, db_simps]: "GoodObject (s\<lparr>lock_names := t\<rparr>) y = GoodObject s y" "obj (s\<lparr>lock_names := t\<rparr>) y = obj s y"
  by (simp_all add: GoodObject_def obj_def)

lemma obj_set_obj [db_simps]: "obj (set_obj s x ob) y = (if y = x \<and> GoodObject s x then ob else obj s y)"
proof (cases "GoodObject s x \<and> GoodObject s y")
  case True
  have "nat (sint x) = nat (sint y) \<longleftrightarrow> x = y"
  proof
    assume "nat (sint x) = nat (sint y)"
    with True show "x = y" using eq_nat_nat_iff [of "sint x" "sint y"] signed_word_eqI [of x y] by (auto simp: GoodObject_def)
  qed simp
  then show ?thesis using True unfolding obj_def set_obj_def by (auto simp: GoodObject_def nth_list_update)
next
  case False
  then show ?thesis by (auto simp: obj_def set_obj_def GoodObject_def)
qed

lemma set_obj_fields [simp]: "lock_names (set_obj s x ob) = lock_names s" "htab_locks (set_obj s x ob) = htab_locks s"
  "notices (set_obj s x ob) = notices s"
  by (simp_all add: set_obj_def)

lemma set_Locks_simps [simp, db_simps]: "GoodObject (set_Locks s x ls) y = GoodObject s y" "lock_names (set_Locks s x ls) = lock_names s"
  "htab_locks (set_Locks s x ls) = htab_locks s" "notices (set_Locks s x ls) = notices s"
  by (simp_all add: set_Locks_def)

lemma Locks_set_Locks [db_simps]: "Locks (set_Locks s x ls) y = (if y = x \<and> GoodObject s x then ls else Locks s y)"
  by (simp add: set_Locks_def obj_set_obj)

end
