(* ===== verification/Mush_Lock.thy ===== *)
theory Mush_Lock
  imports Mush_Db
begin

text \<open>
  The locks of an object (\<open>lock.c\<close>, \<open>lock.h\<close>, \<open>lock_tab.h\<close>) and what it means to control one (\<open>controls\<close> of
  \<open>predicat.c\<close>).  The locks hang off an object in a list sorted by \<open>strcasecmp\<close>; their names live in the string
  table \<open>lock_names\<close>, one use for each lock.  \<open>None\<close> is a failed assertion of \<open>strtree.c\<close> or, in what depends
  on the value of a lock, an evaluation that does not return.
\<close>

section \<open>Lock flags and the table of locks\<close>

definition LF_VISUAL :: privbits where "LF_VISUAL = 0x001"
definition LF_PRIVATE :: privbits where "LF_PRIVATE = 0x002"
definition LF_WIZARD :: privbits where "LF_WIZARD = 0x004"
definition LF_LOCKED :: privbits where "LF_LOCKED = 0x008"
definition LF_NOCLONE :: privbits where "LF_NOCLONE = 0x010"
definition LF_OWNER :: privbits where "LF_OWNER = 0x100"
definition LF_DEFAULT :: privbits where "LF_DEFAULT = 0x200"

definition has_lf :: "lock_list \<Rightarrow> privbits \<Rightarrow> bool" where
  "has_lf l f \<longleftrightarrow> L_FLAGS l AND f \<noteq> 0"

definition lock_types :: "lock_list list" where
  "lock_types =
     map (\<lambda>(n, f). \<lparr>L_TYPE = n, L_KEY = None, L_CREATOR = GOD, L_FLAGS = f\<rparr>)
       [(''Basic'', LF_PRIVATE), (''Enter'', LF_PRIVATE), (''Use'', LF_PRIVATE), (''Zone'', LF_PRIVATE), (''Page'', LF_PRIVATE),
        (''Teleport'', LF_PRIVATE), (''Speech'', LF_PRIVATE), (''Listen'', LF_PRIVATE), (''Command'', LF_PRIVATE),
        (''Parent'', LF_PRIVATE), (''Link'', LF_PRIVATE), (''Leave'', LF_PRIVATE), (''Drop'', LF_PRIVATE), (''Give'', LF_PRIVATE),
        (''From'', LF_PRIVATE), (''Pay'', LF_PRIVATE), (''Receive'', LF_PRIVATE), (''Mail'', LF_PRIVATE), (''Follow'', LF_PRIVATE),
        (''Examine'', LF_PRIVATE OR LF_OWNER), (''Chzone'', LF_PRIVATE), (''Forward'', LF_PRIVATE OR LF_OWNER),
        (''Control'', LF_PRIVATE OR LF_OWNER), (''Dropto'', LF_PRIVATE), (''Destroy'', LF_PRIVATE OR LF_OWNER),
        (''Interact'', LF_PRIVATE), (''MailForward'', LF_PRIVATE), (''Take'', LF_PRIVATE), (''Open'', LF_PRIVATE),
        (''Filter'', LF_PRIVATE), (''InFilter'', LF_PRIVATE), (''DropIn'', LF_PRIVATE), (''Chown'', LF_PRIVATE OR LF_OWNER)]"

definition lock_privs :: "priv_info list" where
  "lock_privs =
     [\<lparr>priv_name = ''visual'', priv_letter = CHR ''v'', bits_to_set = LF_VISUAL, bits_to_show = LF_VISUAL\<rparr>,
      \<lparr>priv_name = ''no_inherit'', priv_letter = CHR ''i'', bits_to_set = LF_PRIVATE, bits_to_show = LF_PRIVATE\<rparr>,
      \<lparr>priv_name = ''no_clone'', priv_letter = CHR ''c'', bits_to_set = LF_NOCLONE, bits_to_show = LF_NOCLONE\<rparr>,
      \<lparr>priv_name = ''wizard'', priv_letter = CHR ''w'', bits_to_set = LF_WIZARD, bits_to_show = LF_WIZARD\<rparr>,
      \<lparr>priv_name = ''locked'', priv_letter = CHR ''+'', bits_to_set = LF_LOCKED, bits_to_show = LF_LOCKED\<rparr>]"

text \<open>\<open>hashadd\<close> keeps the entry a key already has.\<close>

definition hashadd :: "string \<Rightarrow> 'a \<Rightarrow> (string \<rightharpoonup> 'a) \<Rightarrow> (string \<rightharpoonup> 'a)" where
  "hashadd key data tab = (if tab key \<noteq> None then tab else tab(key \<mapsto> data))"

definition init_locks :: "mush \<Rightarrow> mush" where
  "init_locks s = s\<lparr>lock_names := st_init, htab_locks := fold (\<lambda>ll. hashadd (strupper (Some (L_TYPE ll))) ll) lock_types Map.empty\<rparr>"

definition define_lock :: "string \<Rightarrow> privbits \<Rightarrow> mush \<Rightarrow> mush" where
  "define_lock name flags s =
     (let newlock = \<lparr>L_TYPE = strupper_a name, L_KEY = None, L_CREATOR = GOD, L_FLAGS = flags\<rparr>
      in s\<lparr>htab_locks := hashadd (L_TYPE newlock) newlock (htab_locks s)\<rparr>)"

definition get_lockproto :: "mush \<Rightarrow> string \<Rightarrow> lock_list option" where
  "get_lockproto s type = htab_locks s (strupper (Some type))"

definition match_lock :: "mush \<Rightarrow> string \<Rightarrow> string option" where
  "match_lock s type = map_option L_TYPE (htab_locks s (strupper (Some type)))"

definition lock_flags :: "lock_list \<Rightarrow> string" where
  "lock_flags ll = privs_to_letters lock_privs (L_FLAGS ll)"

definition lock_flags_long :: "lock_list \<Rightarrow> string" where
  "lock_flags_long ll = privs_to_string lock_privs (L_FLAGS ll)"

text \<open>The flags the text \<open>p\<close> names, if \<open>player\<close> may set them.\<close>

definition string_to_lockflag :: "mush \<Rightarrow> dbref \<Rightarrow> string \<Rightarrow> privbits option option" where
  "string_to_lockflag s player p =
     map_option (\<lambda>f. if f = 0 then None else if \<not> See_All s player \<and> f AND LF_WIZARD \<noteq> 0 then None else Some f)
       (string_to_privs lock_privs (Some p) 0)"

section \<open>Finding a lock\<close>

fun find_lock :: "string \<Rightarrow> lock_list list \<Rightarrow> lock_list option" where
  "find_lock type [] = None"
| "find_lock type (ll # ls) =
     (let cmp = strcasecmp (L_TYPE ll) type in
      if cmp = 0 then Some ll else if cmp > 0 then None else find_lock type ls)"

definition getlockstruct_noparent :: "mush \<Rightarrow> dbref \<Rightarrow> string \<Rightarrow> lock_list option" where
  "getlockstruct_noparent s thing type = find_lock type (Locks s thing)"

text \<open>
  One pass of the loop over \<open>Parent\<close>: it returns what was found, or goes on with the number of objects
  looked at and whether the ancestor was among them.
\<close>

function parent_chain ::
  "mush \<Rightarrow> dbref \<Rightarrow> string \<Rightarrow> dbref \<Rightarrow> dbref \<Rightarrow> nat \<Rightarrow> bool \<Rightarrow> lock_list option + (nat \<times> bool)" where
  "parent_chain s thing type ancestor p steps ancestor_in_chain =
     (if \<not> GoodObject s p then Inr (steps, ancestor_in_chain)
      else if 100 < steps then Inl None
      else
        let ancestor_in_chain = (p = ancestor \<or> ancestor_in_chain) in
        case find_lock type (Locks s p) of
          Some ll \<Rightarrow> Inl (if p \<noteq> thing \<and> has_lf ll LF_PRIVATE then None else Some ll)
        | None \<Rightarrow> parent_chain s thing type ancestor (Parent s p) (steps + 1) ancestor_in_chain)"
  by pat_completeness auto
termination
  by (relation "measure (\<lambda>(s, thing, type, ancestor, p, steps, a). 101 - steps)") auto

declare parent_chain.simps [simp del]

lemma parent_chain_seen:
  "parent_chain s thing type ancestor p steps a = Inr (steps', a') \<Longrightarrow> (a \<longrightarrow> a') \<and> (p = ancestor \<and> GoodObject s p \<longrightarrow> a')"
proof (induction s thing type ancestor p steps a rule: parent_chain.induct)
  case (1 s thing type ancestor p steps a)
  from 1(2) show ?case
    by (subst (asm) parent_chain.simps) (use 1(1) in \<open>auto simp: Let_def split: if_splits option.splits\<close>)
qed

function lock_rounds :: "server \<Rightarrow> mush \<Rightarrow> dbref \<Rightarrow> string \<Rightarrow> dbref \<Rightarrow> dbref \<Rightarrow> nat \<Rightarrow> bool \<Rightarrow> lock_list option" where
  "lock_rounds sv s thing type ancestor p steps ancestor_in_chain =
     (case parent_chain s thing type ancestor p steps ancestor_in_chain of
        Inl r \<Rightarrow> r
      | Inr (steps, ancestor_in_chain) \<Rightarrow>
          if \<not> ancestor_in_chain \<and> \<not> Orphan s thing \<and> GoodObject s ancestor
          then lock_rounds sv s thing type ancestor ancestor steps ancestor_in_chain
          else None)"
  by pat_completeness auto
termination
  by (relation "measure (\<lambda>(sv, s, thing, type, ancestor, p, steps, a). if p = ancestor then 0 else 1)")
    (auto dest: parent_chain_seen)

declare lock_rounds.simps [simp del]

definition getlockstruct :: "server \<Rightarrow> mush \<Rightarrow> dbref \<Rightarrow> string \<Rightarrow> lock_list option" where
  "getlockstruct sv s thing type =
     lock_rounds sv s thing type (if GoodObject s thing then Ancestor_Parent sv s thing else NOTHING) thing 0 False"

definition getlock :: "server \<Rightarrow> mush \<Rightarrow> dbref \<Rightarrow> string \<Rightarrow> boolexp" where
  "getlock sv s thing type = (case getlockstruct sv s thing type of None \<Rightarrow> None | Some ll \<Rightarrow> L_KEY ll)"

definition getlock_noparent :: "mush \<Rightarrow> dbref \<Rightarrow> string \<Rightarrow> boolexp" where
  "getlock_noparent s thing type = (case getlockstruct_noparent s thing type of None \<Rightarrow> None | Some ll \<Rightarrow> L_KEY ll)"

definition lock_visual :: "server \<Rightarrow> mush \<Rightarrow> dbref \<Rightarrow> string \<Rightarrow> bool" where
  "lock_visual sv s thing type = (case getlockstruct sv s thing type of None \<Rightarrow> False | Some l \<Rightarrow> has_lf l LF_VISUAL)"

section \<open>Evaluating a lock, and control\<close>

text \<open>The lock evaluator's view of the database.\<close>

definition lock_world :: "server \<Rightarrow> mush \<Rightarrow> world" where
  "lock_world sv s =
     (sv_world sv)\<lparr>w_good_object := GoodObject s, w_garbage := IsGarbage s, w_owner := (\<lambda>x. Owner s x),
       w_typeof := (\<lambda>x. unat (Typeof s x)), w_name := (\<lambda>x. Name s x), w_getlock := getlock sv s\<rparr>"

definition passes :: "vm_result \<Rightarrow> bool option" where
  "passes r = (case r of Returns v \<Rightarrow> Some (v \<noteq> 0) | _ \<Rightarrow> None)"

definition eval_lock_with :: "server \<Rightarrow> mush \<Rightarrow> dbref \<Rightarrow> dbref \<Rightarrow> string \<Rightarrow> vm_result" where
  "eval_lock_with sv s player thing ltype =
     eval_boolexp (lock_world sv s) (sv_steps sv) 0 player (getlock sv s thing ltype) thing"

definition eval_lock :: "server \<Rightarrow> mush \<Rightarrow> dbref \<Rightarrow> dbref \<Rightarrow> string \<Rightarrow> bool option" where
  "eval_lock sv s player thing ltype = passes (eval_lock_with sv s player thing ltype)"

definition controls :: "server \<Rightarrow> mush \<Rightarrow> dbref \<Rightarrow> dbref \<Rightarrow> bool option" where
  "controls sv s who what =
     (if \<not> GoodObject s what then Some False
      else if Guest s who then Some False
      else if what = who then Some True
      else if God what then Some False
      else if Wizard s who then Some True
      else if Wizard s what \<or> Hasprivs s what \<and> \<not> Hasprivs s who then Some False
      else if Mistrust s who then Some False
      else if Owns s who what \<and> (\<not> Inheritable s what \<or> Inheritable s who) then Some True
      else if Inheritable s what \<or> IsPlayer s what then Some False
      else
        Option.bind
          (if \<not> sv_zone_control_zmp sv \<and> Zone s what \<noteq> NOTHING then eval_lock sv s who (Zone s what) ''Zone'' else Some False)
          (\<lambda>z. if z then Some True
               else
                 Option.bind
                   (if ZMaster s (Owner s what) \<and> \<not> IsPlayer s what then eval_lock sv s who (Owner s what) ''Zone'' else Some False)
                   (\<lambda>m. if m then Some True
                        else
                          let c = getlock_noparent s what ''Control'' in
                          if c \<noteq> None then passes (eval_boolexp (lock_world sv s) (sv_steps sv) 0 who c what) else Some False)))"

definition Can_Read_Lock :: "server \<Rightarrow> mush \<Rightarrow> dbref \<Rightarrow> dbref \<Rightarrow> string \<Rightarrow> bool option" where
  "Can_Read_Lock sv s p x l =
     (if See_All s p then Some True
      else
        Option.bind (controls sv s p x)
          (\<lambda>c. if c then Some True
               else if Visual s x \<or> lock_visual sv s x l then eval_lock sv s p x ''Examine'' else Some False))"

definition can_write_lock :: "mush \<Rightarrow> dbref \<Rightarrow> dbref \<Rightarrow> lock_list \<Rightarrow> bool" where
  "can_write_lock s player thing lock =
     (if God player then True
      else if God thing then False
      else if Wizard s player then True
      else if has_lf lock LF_WIZARD then False
      else if has_lf lock LF_OWNER \<and> player \<noteq> Owner s thing then False
      else if has_lf lock LF_LOCKED \<and> player \<noteq> L_CREATOR lock \<and> Owner s player \<noteq> L_CREATOR lock then False
      else True)"

section \<open>Adding and deleting locks\<close>

fun insert_lock :: "lock_list \<Rightarrow> lock_list list \<Rightarrow> lock_list list" where
  "insert_lock ll [] = [ll]"
| "insert_lock ll (t # ts) = (if strcasecmp (L_TYPE t) (L_TYPE ll) < 0 then t # insert_lock ll ts else ll # t # ts)"

text \<open>Changing the lock that \<open>find_lock\<close> finds.\<close>

fun update_lock :: "string \<Rightarrow> (lock_list \<Rightarrow> lock_list) \<Rightarrow> lock_list list \<Rightarrow> lock_list list" where
  "update_lock type f [] = []"
| "update_lock type f (ll # ls) =
     (let cmp = strcasecmp (L_TYPE ll) type in
      if cmp = 0 then f ll # ls else if cmp > 0 then ll # ls else ll # update_lock type f ls)"

definition new_lock_flags :: "mush \<Rightarrow> string \<Rightarrow> privbits \<Rightarrow> privbits" where
  "new_lock_flags s real_type flags =
     (if flags = LF_DEFAULT then (case get_lockproto s real_type of Some l2 \<Rightarrow> L_FLAGS l2 | None \<Rightarrow> 0) else flags)"

definition add_lock :: "server \<Rightarrow> dbref \<Rightarrow> dbref \<Rightarrow> string \<Rightarrow> boolexp \<Rightarrow> privbits \<Rightarrow> mush \<Rightarrow> (bool \<times> mush) option" where
  "add_lock sv player thing type key flags s =
     (if \<not> GoodObject s thing then Some (False, s)
      else
        case getlockstruct_noparent s thing type of
          Some ll \<Rightarrow>
            if \<not> can_write_lock s player thing ll then Some (False, s)
            else Some (True, set_Locks s thing (update_lock type
                   (\<lambda>ll. ll\<lparr>L_KEY := key, L_CREATOR := player, L_FLAGS := (if flags \<noteq> LF_DEFAULT then flags else L_FLAGS ll)\<rparr>)
                   (Locks s thing)))
        | None \<Rightarrow>
            Option.bind (st_insert type (lock_names s))
              (\<lambda>(names, real_type).
                 let ll = \<lparr>L_TYPE = real_type, L_KEY = key, L_CREATOR = player, L_FLAGS = new_lock_flags s real_type flags\<rparr>
                 in if \<not> can_write_lock s player thing ll
                    then map_option (\<lambda>names. (False, s\<lparr>lock_names := names\<rparr>)) (st_delete real_type names)
                    else Some (True, set_Locks (s\<lparr>lock_names := names\<rparr>) thing (insert_lock ll (Locks s thing)))))"

definition add_lock_raw :: "dbref \<Rightarrow> dbref \<Rightarrow> string \<Rightarrow> boolexp \<Rightarrow> privbits \<Rightarrow> mush \<Rightarrow> (bool \<times> mush) option" where
  "add_lock_raw player thing type key flags s =
     (if \<not> GoodObject s thing then Some (False, s)
      else
        Option.bind (st_insert type (lock_names s))
          (\<lambda>(names, real_type).
             let ll = \<lparr>L_TYPE = real_type, L_KEY = key, L_CREATOR = player, L_FLAGS = new_lock_flags s real_type flags\<rparr>
             in Some (True, set_Locks (s\<lparr>lock_names := names\<rparr>) thing (insert_lock ll (Locks s thing)))))"

text \<open>The loop of \<open>delete_lock\<close>: the locks before the one with the name, that lock and those after it.\<close>

fun split_locks :: "string \<Rightarrow> lock_list list \<Rightarrow> lock_list list \<times> (lock_list \<times> lock_list list) option" where
  "split_locks type [] = ([], None)"
| "split_locks type (ll # ls) =
     (if strcasecmp (L_TYPE ll) type \<noteq> 0 then (let (before, rest) = split_locks type ls in (ll # before, rest))
      else ([], Some (ll, ls)))"

definition delete_lock :: "dbref \<Rightarrow> dbref \<Rightarrow> string \<Rightarrow> mush \<Rightarrow> (bool \<times> mush) option" where
  "delete_lock player thing type s =
     (if \<not> GoodObject s thing then Some (False, s)
      else
        case split_locks type (Locks s thing) of
          (before, Some (ll, rest)) \<Rightarrow>
            if can_write_lock s player thing ll
            then map_option (\<lambda>names. (True, set_Locks (s\<lparr>lock_names := names\<rparr>) thing (before @ rest))) (st_delete (L_TYPE ll) (lock_names s))
            else Some (False, s)
        | (_, None) \<Rightarrow> Some (True, s))"

text \<open>\<open>free_locks\<close> returns the names the list used; its caller drops the list.\<close>

fun free_locks :: "lock_list list \<Rightarrow> strtree \<Rightarrow> strtree option" where
  "free_locks [] names = Some names"
| "free_locks (ll # ls) names = Option.bind (st_delete (L_TYPE ll) names) (free_locks ls)"

fun clone_loop :: "server \<Rightarrow> dbref \<Rightarrow> dbref \<Rightarrow> lock_list list \<Rightarrow> mush \<Rightarrow> mush option" where
  "clone_loop sv player clone [] s = Some s"
| "clone_loop sv player clone (ll # ls) s =
     (if has_lf ll LF_NOCLONE then clone_loop sv player clone ls s
      else Option.bind (add_lock sv player clone (L_TYPE ll) (L_KEY ll) (L_FLAGS ll) s) (\<lambda>(_, s). clone_loop sv player clone ls s))"

definition clone_locks :: "server \<Rightarrow> dbref \<Rightarrow> dbref \<Rightarrow> dbref \<Rightarrow> mush \<Rightarrow> mush option" where
  "clone_locks sv player orig clone s = clone_loop sv player clone (Locks s orig) s"

fun purge_list :: "world \<Rightarrow> lock_list list \<Rightarrow> lock_list list option" where
  "purge_list w [] = Some []"
| "purge_list w (ll # ls) =
     Option.bind (cleanup_boolexp w (L_KEY ll)) (\<lambda>k. map_option ((#) (ll\<lparr>L_KEY := k\<rparr>)) (purge_list w ls))"

fun purge_objects :: "world \<Rightarrow> object list \<Rightarrow> object list option" where
  "purge_objects w [] = Some []"
| "purge_objects w (ob # obs) =
     Option.bind (purge_list w (obj_locks ob)) (\<lambda>ls. map_option ((#) (ob\<lparr>obj_locks := ls\<rparr>)) (purge_objects w obs))"

definition purge_locks :: "server \<Rightarrow> mush \<Rightarrow> mush option" where
  "purge_locks sv s = map_option (\<lambda>obs. s\<lparr>db := obs\<rparr>) (purge_objects (lock_world sv s) (db s))"

end
