(* ===== verification/Mush_Lock_Correct.thy ===== *)
theory Mush_Lock_Correct
  imports Mush_Lock
begin

text \<open>
  The operations of \<open>lock.c\<close> on the locks of objects.  A sorted list of locks is a finite map from the names
  without regard to case (\<open>lock_map\<close>); every operation keeps it one and changes it at one name.  The names of all
  locks form a multiset, which the string table of names counts: its contract \<open>counted_strings\<close> gives that no
  name is freed while a lock has it.
\<close>

section \<open>Lists of locks\<close>

definition lkey :: "lock_list \<Rightarrow> nat list" where
  "lkey ll = case_key (L_TYPE ll)"

definition lock_list_ok :: "lock_list list \<Rightarrow> bool" where
  "lock_list_ok ls \<longleftrightarrow> sorted_wrt (\<lambda>a b. lkey a < lkey b) ls \<and> (\<forall>ll \<in> set ls. no_nul (L_TYPE ll))"

definition lock_map :: "lock_list list \<Rightarrow> nat list \<rightharpoonup> lock_list" where
  "lock_map ls = map_of (map (\<lambda>ll. (lkey ll, ll)) ls)"

lemma lock_map_simps [simp]: "lock_map [] = Map.empty" "lock_map (ll # ls) = (lock_map ls)(lkey ll \<mapsto> ll)"
  by (simp_all add: lock_map_def)

lemma lock_list_ok_simps [simp]: "lock_list_ok []"
  "lock_list_ok (ll # ls) \<longleftrightarrow> no_nul (L_TYPE ll) \<and> (\<forall>l \<in> set ls. lkey ll < lkey l) \<and> lock_list_ok ls"
  by (auto simp: lock_list_ok_def)

lemma lock_map_None: "lock_map ls k = None \<longleftrightarrow> (\<forall>ll \<in> set ls. lkey ll \<noteq> k)"
  by (auto simp: lock_map_def map_of_eq_None_iff image_image)

lemma lock_map_Some: "lock_map ls k = Some ll \<Longrightarrow> ll \<in> set ls \<and> lkey ll = k"
  by (auto simp: lock_map_def dest: map_of_SomeD)

lemma lock_cmp:
  assumes "no_nul (L_TYPE ll)" "no_nul type"
  shows "strcasecmp (L_TYPE ll) type = 0 \<longleftrightarrow> lkey ll = case_key type" "0 < strcasecmp (L_TYPE ll) type \<longleftrightarrow> case_key type < lkey ll"
    "strcasecmp (L_TYPE ll) type < 0 \<longleftrightarrow> lkey ll < case_key type"
  using assms strcasecmp_order.cmp_greater [OF assms] by (simp_all add: lkey_def strcasecmp_zero strcasecmp_less)

lemma lock_map_below: "\<forall>l \<in> set ls. k < lkey l \<Longrightarrow> j \<le> k \<Longrightarrow> lock_map ls j = None"
  by (auto simp: lock_map_None)

lemma find_lock_map: "lock_list_ok ls \<Longrightarrow> no_nul type \<Longrightarrow> find_lock type ls = lock_map ls (case_key type)"
  by (induction ls) (auto simp: lock_cmp Let_def lock_map_below)

lemma insert_lock_set [simp]: "set (insert_lock ll ls) = insert ll (set ls)" "mset (insert_lock ll ls) = add_mset ll (mset ls)"
  by (induction ls) auto

lemma insert_lock_ok:
  "lock_list_ok ls \<Longrightarrow> no_nul (L_TYPE ll) \<Longrightarrow> lock_map ls (lkey ll) = None \<Longrightarrow>
   lock_list_ok (insert_lock ll ls) \<and> lock_map (insert_lock ll ls) = (lock_map ls)(lkey ll \<mapsto> ll)"
proof (induction ls)
  case (Cons t ts)
  have neq: "lkey t \<noteq> lkey ll" "lock_map ts (lkey ll) = None" using Cons.prems(3) by (auto split: if_splits)
  show ?case
  proof (cases "strcasecmp (L_TYPE t) (L_TYPE ll) < 0")
    case True
    then have "lkey t < lkey ll" using Cons.prems lock_cmp(3) [of t "L_TYPE ll"] by (simp add: lkey_def)
    with True Cons.IH Cons.prems neq show ?thesis by auto
  next
    case False
    then have "lkey ll < lkey t" using Cons.prems neq lock_cmp(3) [of t "L_TYPE ll"] by (auto simp: lkey_def)
    with False Cons.prems show ?thesis by auto
  qed
qed simp

lemma update_lock_types: "(\<And>l. L_TYPE (f l) = L_TYPE l) \<Longrightarrow> map L_TYPE (update_lock type f ls) = map L_TYPE ls"
  by (induction ls) (auto simp: Let_def)

lemma lock_list_ok_types: "map L_TYPE ls = map L_TYPE ls' \<Longrightarrow> lock_list_ok ls = lock_list_ok ls'"
proof -
  have gen: "lock_list_ok xs = (sorted_wrt (\<lambda>a b. case_key a < case_key b) (map L_TYPE xs) \<and> (\<forall>n \<in> set (map L_TYPE xs). no_nul n))" for xs
    by (simp add: lock_list_ok_def lkey_def sorted_wrt_map)
  show "map L_TYPE ls = map L_TYPE ls' \<Longrightarrow> ?thesis" by (simp only: gen)
qed

lemma update_lock_map:
  assumes "\<And>l. L_TYPE (f l) = L_TYPE l"
  shows "lock_list_ok ls \<Longrightarrow> no_nul type \<Longrightarrow>
    lock_map (update_lock type f ls) = (lock_map ls)(case_key type := map_option f (lock_map ls (case_key type)))"
proof (induction ls)
  case (Cons l ls)
  have k: "lkey (f l) = lkey l" by (simp add: lkey_def assms)
  consider "lkey l = case_key type" | "case_key type < lkey l" | "lkey l < case_key type" by fastforce
  then show ?case using Cons k lock_cmp [of l type] lock_map_below [of ls "lkey l" "case_key type"]
    by cases (auto simp: Let_def)
qed simp

lemma split_locks_parts: "split_locks type ls = (before, Some (ll, rest)) \<Longrightarrow> ls = before @ ll # rest \<and> strcasecmp (L_TYPE ll) type = 0"
  by (induction ls arbitrary: before) (auto split: if_splits prod.splits)

lemma split_locks_none: "split_locks type ls = (before, None) \<Longrightarrow> \<forall>ll \<in> set ls. strcasecmp (L_TYPE ll) type \<noteq> 0"
  by (induction ls arbitrary: before) (auto split: if_splits prod.splits)

lemma lock_list_ok_append: "lock_list_ok (xs @ ys) \<longleftrightarrow> lock_list_ok xs \<and> lock_list_ok ys \<and> (\<forall>x \<in> set xs. \<forall>y \<in> set ys. lkey x < lkey y)"
  by (auto simp: lock_list_ok_def sorted_wrt_append)

lemma lock_map_remove:
  "lock_list_ok (xs @ ll # ys) \<Longrightarrow> lock_list_ok (xs @ ys) \<and> lock_map (xs @ ys) = (lock_map (xs @ ll # ys))(lkey ll := None)"
proof (induction xs)
  case Nil
  then show ?case using lock_map_below [of ys "lkey ll" "lkey ll"] by (auto simp: fun_upd_idem)
next
  case (Cons x xs)
  then show ?case by (auto simp: fun_eq_iff)
qed

section \<open>The names of all locks\<close>

definition names_of :: "lock_list list \<Rightarrow> string multiset" where
  "names_of ls = image_mset L_TYPE (mset ls)"

definition all_names :: "mush \<Rightarrow> string multiset" where
  "all_names s = sum_list (map (\<lambda>ob. names_of (obj_locks ob)) (db s))"

lemma names_of_simps [simp]: "names_of [] = {#}" "names_of (ll # ls) = add_mset (L_TYPE ll) (names_of ls)"
  "names_of (xs @ ys) = names_of xs + names_of ys" "names_of (insert_lock ll ls) = add_mset (L_TYPE ll) (names_of ls)"
  by (simp_all add: names_of_def)

lemma names_of_types: "map L_TYPE ls = map L_TYPE ls' \<Longrightarrow> names_of ls = names_of ls'"
  by (simp add: names_of_def flip: mset_map)

lemma names_list_update:
  "i < length obs \<Longrightarrow> sum_list (map g (obs[i := ob])) + g (obs ! i) = sum_list (map g obs) + (g ob :: 'a multiset)"
  by (induction obs arbitrary: i) (auto split: nat.splits simp: algebra_simps)

lemma all_names_set_Locks:
  assumes "GoodObject s x"
  shows "all_names (set_Locks s x ls) + names_of (Locks s x) = all_names s + names_of ls"
proof -
  have "nat (sint x) < length (db s)" using assms by (simp add: GoodObject_def nat_less_iff)
  from names_list_update [OF this, of "\<lambda>ob. names_of (obj_locks ob)" "(obj s x)\<lparr>obj_locks := ls\<rparr>"] assms show ?thesis
    by (simp add: all_names_def set_Locks_def set_obj_def obj_def)
qed

lemma all_names_names [simp]: "all_names (s\<lparr>lock_names := t\<rparr>) = all_names s"
  by (simp add: all_names_def)

text \<open>
  A database is well formed when every object's locks are sorted without repetition, and the string table
  holds exactly the names in use, each as often as it is used.
\<close>

definition locks_ok :: "mush \<Rightarrow> bool" where
  "locks_ok s \<longleftrightarrow> (\<forall>ob \<in> set (db s). lock_list_ok (obj_locks ob)) \<and> st_ok (lock_names s)
     \<and> st_table (lock_names s) = counts_of (all_names s)"

lemma locks_ok_at: "locks_ok s \<Longrightarrow> lock_list_ok (Locks s x)"
  by (auto simp: locks_ok_def obj_def no_object_def GoodObject_def)

lemma locks_ok_update:
  assumes "locks_ok s" "GoodObject s x" "lock_list_ok ls" "st_ok t" "st_table t = counts_of (all_names (set_Locks s x ls))"
  shows "locks_ok (set_Locks (s\<lparr>lock_names := t\<rparr>) x ls)"
proof -
  have "db (set_Locks (s\<lparr>lock_names := t\<rparr>) x ls) = db (set_Locks s x ls)"
    by (simp add: set_Locks_def set_obj_def GoodObject_def obj_def)
  then have "all_names (set_Locks (s\<lparr>lock_names := t\<rparr>) x ls) = all_names (set_Locks s x ls)" by (simp add: all_names_def)
  moreover have "\<forall>ob \<in> set (db (set_Locks s x ls)). lock_list_ok (obj_locks ob)"
    using assms(1,3) by (auto simp: locks_ok_def set_Locks_def set_obj_def dest!: set_update_subset_insert [THEN subsetD])
  ultimately show ?thesis using assms(4,5) \<open>db _ = db _\<close> by (simp add: locks_ok_def)
qed

section \<open>What the operations do\<close>

lemma max_uses_room: "max_uses = 2 ^ 31 - 1"
  by (simp add: max_uses_def)

lemma write_locks:
  assumes "locks_ok s" "GoodObject s x" "lock_list_ok ls" "st_ok t" "st_table t = counts_of M" "M + names_of (Locks s x) = all_names s + names_of ls"
  shows "locks_ok (set_Locks (s\<lparr>lock_names := t\<rparr>) x ls)" "all_names (set_Locks (s\<lparr>lock_names := t\<rparr>) x ls) = M"
    "Locks (set_Locks (s\<lparr>lock_names := t\<rparr>) x ls) y = (if y = x then ls else Locks s y)"
proof -
  have "all_names (set_Locks s x ls) = M"
    using all_names_set_Locks [OF assms(2), of ls] assms(6) by (metis add_right_cancel)
  moreover have "all_names (set_Locks (s\<lparr>lock_names := t\<rparr>) x ls) = all_names (set_Locks s x ls)"
    by (simp add: set_Locks_def set_obj_def GoodObject_def obj_def all_names_def)
  ultimately show "locks_ok (set_Locks (s\<lparr>lock_names := t\<rparr>) x ls)" "all_names (set_Locks (s\<lparr>lock_names := t\<rparr>) x ls) = M"
    using locks_ok_update [OF assms(1-4)] assms(5) by simp_all
  show "Locks (set_Locks (s\<lparr>lock_names := t\<rparr>) x ls) y = (if y = x then ls else Locks s y)"
    using assms(2) by (simp add: Locks_set_Locks)
qed

lemma same_names: "s\<lparr>lock_names := lock_names s\<rparr> = s"
  by simp

definition room_for :: "nat \<Rightarrow> mush \<Rightarrow> bool" where
  "room_for n s \<longleftrightarrow> size (all_names s) + n < max_uses"

definition sets_lock :: "mush \<Rightarrow> dbref \<Rightarrow> lock_list \<Rightarrow> mush \<Rightarrow> bool" where
  "sets_lock s thing ll s' \<longleftrightarrow>
     (\<forall>x. lock_map (Locks s' x) = (if x = thing then (lock_map (Locks s thing))(lkey ll \<mapsto> ll) else lock_map (Locks s x)))"

lemma set_sum_list: "set_mset (sum_list (map g obs)) = (\<Union>ob \<in> set obs. set_mset (g ob))"
  by (induction obs) auto

lemma add_lock_ok:
  assumes "locks_ok s" "no_nul type" "room_for 1 s"
  shows "\<exists>r s'. add_lock sv player thing type key flags s = Some (r, s') \<and> locks_ok s'
    \<and> size (all_names s') \<le> size (all_names s) + 1 \<and> (\<forall>x. GoodObject s' x = GoodObject s x)
    \<and> (if r then GoodObject s thing \<and> (\<exists>ll. lkey ll = case_key type \<and> L_KEY ll = key \<and> L_CREATOR ll = player
            \<and> can_write_lock s player thing (case lock_map (Locks s thing) (case_key type) of None \<Rightarrow> ll | Some old \<Rightarrow> old)
            \<and> sets_lock s thing ll s')
       else \<forall>x. Locks s' x = Locks s x)"
proof (cases "GoodObject s thing")
  case False
  then show ?thesis using assms(1) by (auto simp: add_lock_def)
next
  case good: True
  note lok = locks_ok_at [OF assms(1), of thing]
  note find = find_lock_map [OF lok assms(2)]
  have names: "st_ok (lock_names s)" "st_table (lock_names s) = counts_of (all_names s)" using assms(1) by (simp_all add: locks_ok_def)
  show ?thesis
  proof (cases "lock_map (Locks s thing) (case_key type)")
    case (Some ll)
    show ?thesis
    proof (cases "can_write_lock s player thing ll")
      case False
      then show ?thesis using assms(1) good Some find by (auto simp: add_lock_def getlockstruct_noparent_def)
    next
      case True
      define f :: "lock_list \<Rightarrow> lock_list" where "f = (\<lambda>l. l\<lparr>L_KEY := key, L_CREATOR := player, L_FLAGS := (if flags \<noteq> LF_DEFAULT then flags else L_FLAGS l)\<rparr>)"
      have types: "\<And>l. L_TYPE (f l) = L_TYPE l" by (simp add: f_def)
      let ?ls = "update_lock type f (Locks s thing)"
      have ls: "map L_TYPE ?ls = map L_TYPE (Locks s thing)" using update_lock_types [of f, OF types] by blast
      then have ok: "lock_list_ok ?ls" "names_of ?ls = names_of (Locks s thing)" using lok lock_list_ok_types names_of_types by metis+
      have "all_names s + names_of (Locks s thing) = all_names s + names_of ?ls" using ok by simp
      note w = write_locks [OF assms(1) good ok(1) names this, unfolded same_names]
      have "add_lock sv player thing type key flags s = Some (True, set_Locks s thing ?ls)"
        using good Some find True by (simp add: add_lock_def getlockstruct_noparent_def f_def)
      moreover have k: "lkey (f ll) = case_key type" "L_KEY (f ll) = key" "L_CREATOR (f ll) = player"
        using lock_map_Some [OF Some] by (simp_all add: f_def lkey_def)
      moreover have "sets_lock s thing (f ll) (set_Locks s thing ?ls)"
        using update_lock_map [of f, OF types lok assms(2)] Some unfolding sets_lock_def w(3) k(1) by simp
      ultimately show ?thesis using w(1,2) good True Some by (intro exI [of _ True] exI [of _ "set_Locks s thing ?ls"]) auto
    qed
  next
    case None
    have "size (all_names s) < 2 ^ 31 - 1" "size (all_names s) < max_uses" using assms(3) by (simp_all add: room_for_def max_uses_def)
    then obtain t where t: "st_insert type (lock_names s) = Some (t, type)" "st_ok t" "st_table t = counts_of (add_mset type (all_names s))"
      using st.hold [OF names assms(2)] by blast
    define ll where "ll = \<lparr>L_TYPE = type, L_KEY = key, L_CREATOR = player, L_FLAGS = new_lock_flags s type flags\<rparr>"
    have add: "add_lock sv player thing type key flags s =
        (if \<not> can_write_lock s player thing ll then map_option (\<lambda>names. (False, s\<lparr>lock_names := names\<rparr>)) (st_delete type t)
         else Some (True, set_Locks (s\<lparr>lock_names := t\<rparr>) thing (insert_lock ll (Locks s thing))))"
      using good None find t(1) by (simp add: add_lock_def getlockstruct_noparent_def ll_def)
    show ?thesis
    proof (cases "can_write_lock s player thing ll")
      case False
      have "size (all_names s) + 1 < 2 ^ 31 - 1" "size (all_names s) + 1 < max_uses" using assms(3) by (simp_all add: room_for_def max_uses_def)
      then obtain t' where t': "st_delete type t = Some t'" "st_ok t'" "st_table t' = counts_of (all_names s)"
        using st.release [OF t(2,3) assms(2)] by blast
      have "locks_ok (s\<lparr>lock_names := t'\<rparr>)" using assms(1) t'(2,3) by (simp add: locks_ok_def)
      with False t'(1) show ?thesis unfolding add by auto
    next
      case True
      have k: "lkey ll = case_key type" "no_nul (L_TYPE ll)" "L_TYPE ll = type" by (simp_all add: ll_def lkey_def assms(2))
      have ins: "lock_list_ok (insert_lock ll (Locks s thing))"
        "lock_map (insert_lock ll (Locks s thing)) = (lock_map (Locks s thing))(lkey ll \<mapsto> ll)"
        using insert_lock_ok [OF lok k(2)] None k(1) by simp_all
      have "add_mset type (all_names s) + names_of (Locks s thing) = all_names s + names_of (insert_lock ll (Locks s thing))"
        by (simp add: k(3))
      note w = write_locks [OF assms(1) good ins(1) t(2,3) this]
      have "sets_lock s thing ll (set_Locks (s\<lparr>lock_names := t\<rparr>) thing (insert_lock ll (Locks s thing)))"
        unfolding sets_lock_def w(3) using ins(2) by simp
      moreover have "L_KEY ll = key" "L_CREATOR ll = player" by (simp_all add: ll_def)
      ultimately show ?thesis using w(1,2) good True None k(1) unfolding add
        by (intro exI [of _ True] exI [of _ "set_Locks (s\<lparr>lock_names := t\<rparr>) thing (insert_lock ll (Locks s thing))"]) auto
    qed
  qed
qed

lemma delete_lock_ok:
  assumes "locks_ok s" "no_nul type" "room_for 0 s"
  shows "\<exists>r s'. delete_lock player thing type s = Some (r, s') \<and> locks_ok s'
    \<and> size (all_names s') \<le> size (all_names s) \<and> (\<forall>x. GoodObject s' x = GoodObject s x)
    \<and> (if r then \<forall>x. lock_map (Locks s' x) = (if x = thing then (lock_map (Locks s x))(case_key type := None) else lock_map (Locks s x))
       else \<forall>x. Locks s' x = Locks s x)"
proof (cases "GoodObject s thing")
  case False
  then show ?thesis using assms(1) by (auto simp: delete_lock_def)
next
  case good: True
  note lok = locks_ok_at [OF assms(1), of thing]
  have names: "st_ok (lock_names s)" "st_table (lock_names s) = counts_of (all_names s)" using assms(1) by (simp_all add: locks_ok_def)
  obtain before r where sp: "split_locks type (Locks s thing) = (before, r)" by (cases "split_locks type (Locks s thing)")
  show ?thesis
  proof (cases r)
    case None
    have "\<forall>ll \<in> set (Locks s thing). lkey ll \<noteq> case_key type"
      using split_locks_none [OF sp [unfolded None]] lock_cmp(1) assms(2) lok by (auto simp: lock_list_ok_def)
    then have "(lock_map (Locks s thing))(case_key type := None) = lock_map (Locks s thing)"
      using lock_map_None [of "Locks s thing" "case_key type"] by (auto simp: fun_upd_idem)
    then show ?thesis using None sp good assms(1) by (auto simp: delete_lock_def)
  next
    case (Some p)
    then obtain ll rest where p: "r = Some (ll, rest)" by (cases p) simp
    have ls: "Locks s thing = before @ ll # rest" "strcasecmp (L_TYPE ll) type = 0" using split_locks_parts [OF sp [unfolded p]] by simp_all
    have nn: "no_nul (L_TYPE ll)" using lok by (simp add: ls(1) lock_list_ok_append)
    have k: "lkey ll = case_key type" using ls(2) lock_cmp(1) [OF nn assms(2)] by simp
    show ?thesis
    proof (cases "can_write_lock s player thing ll")
      case False
      then show ?thesis using assms(1) good sp p by (auto simp: delete_lock_def)
    next
      case True
      have "L_TYPE ll \<in># all_names s"
      proof -
        have "obj s thing \<in> set (db s)" using good by (simp add: obj_def GoodObject_def nat_less_iff)
        then have "set_mset (names_of (Locks s thing)) \<subseteq> set_mset (all_names s)" unfolding all_names_def by (auto simp: set_sum_list)
        then show ?thesis by (rule subsetD) (simp add: ls(1))
      qed
      then obtain M where M: "all_names s = add_mset (L_TYPE ll) M" by (metis multi_member_split)
      have "size M + 1 < 2 ^ 31 - 1" "size M + 1 < max_uses" using assms(3) by (simp_all add: room_for_def max_uses_def M)
      then obtain t where t: "st_delete (L_TYPE ll) (lock_names s) = Some t" "st_ok t" "st_table t = counts_of M"
        using st.release [OF names(1) _ nn] names(2) M by metis
      have "M + names_of (Locks s thing) = all_names s + names_of (before @ rest)" by (simp add: M ls(1))
      note rem = lock_map_remove [OF lok [unfolded ls(1)]]
      note w = write_locks [OF assms(1) good conjunct1 [OF rem] t(2,3) \<open>M + _ = _\<close>]
      have "delete_lock player thing type s = Some (True, set_Locks (s\<lparr>lock_names := t\<rparr>) thing (before @ rest))"
        using good sp p True t(1) by (simp add: delete_lock_def)
      then show ?thesis using w rem k ls(1) M
        by (intro exI [of _ True] exI [of _ "set_Locks (s\<lparr>lock_names := t\<rparr>) thing (before @ rest)"]) auto
    qed
  qed
qed

lemma size_names: "size (names_of (Locks s x)) = length (Locks s x)"
  by (simp add: names_of_def)

lemma clone_loop_ok:
  "locks_ok s \<Longrightarrow> \<forall>ll \<in> set ls. no_nul (L_TYPE ll) \<Longrightarrow> room_for (length ls) s \<Longrightarrow>
   \<exists>s'. clone_loop sv player clone ls s = Some s' \<and> locks_ok s' \<and> size (all_names s') \<le> size (all_names s) + length ls"
proof (induction ls arbitrary: s)
  case (Cons ll ls)
  show ?case
  proof (cases "has_lf ll LF_NOCLONE")
    case True
    with Cons.prems Cons.IH [of s] show ?thesis by (fastforce simp: room_for_def)
  next
    case False
    have "room_for 1 s" "no_nul (L_TYPE ll)" using Cons.prems by (simp_all add: room_for_def)
    then obtain r s' where s': "add_lock sv player clone (L_TYPE ll) (L_KEY ll) (L_FLAGS ll) s = Some (r, s')" "locks_ok s'"
      "size (all_names s') \<le> size (all_names s) + 1"
      using add_lock_ok [OF Cons.prems(1), of "L_TYPE ll" sv player clone "L_KEY ll" "L_FLAGS ll"] by blast
    then obtain s'' where "clone_loop sv player clone ls s' = Some s''" "locks_ok s''" "size (all_names s'') \<le> size (all_names s') + length ls"
      using Cons.IH [of s'] Cons.prems by (auto simp: room_for_def)
    with False s' show ?thesis by auto
  qed
qed simp

lemma free_locks_ok:
  "st_ok t \<Longrightarrow> st_table t = counts_of (M + names_of ls) \<Longrightarrow> \<forall>ll \<in> set ls. no_nul (L_TYPE ll) \<Longrightarrow> size (M + names_of ls) < max_uses \<Longrightarrow>
   \<exists>t'. free_locks ls t = Some t' \<and> st_ok t' \<and> st_table t' = counts_of M"
proof (induction ls arbitrary: t)
  case (Cons ll ls)
  have nn: "no_nul (L_TYPE ll)" using Cons.prems(3) by simp
  have counts: "st_table t = counts_of (add_mset (L_TYPE ll) (M + names_of ls))" using Cons.prems(2) by simp
  have "size (M + names_of ls) + 1 < 2 ^ 31 - 1" "size (M + names_of ls) + 1 < max_uses"
    using Cons.prems(4) by (simp_all add: max_uses_def)
  then obtain t' where "st_delete (L_TYPE ll) t = Some t'" "st_ok t'" "st_table t' = counts_of (M + names_of ls)"
    using st.release [OF Cons.prems(1) counts nn] by blast
  with Cons.IH [of t'] Cons.prems(3,4) show ?case by auto
qed simp

text \<open>The operations of \<open>lock.c\<close> on the lists of locks, as its callers use them.\<close>

datatype lock_op =
    Add_lock dbref dbref string boolexp privbits
  | Delete_lock dbref dbref string
  | Clone_locks dbref dbref dbref
  | Free_locks dbref
  | Load_lock dbref dbref string boolexp privbits

fun lock_op_step :: "server \<Rightarrow> lock_op \<Rightarrow> mush \<Rightarrow> mush option" where
  "lock_op_step sv (Add_lock player thing type key flags) s = map_option snd (add_lock sv player thing type key flags s)"
| "lock_op_step sv (Delete_lock player thing type) s = map_option snd (delete_lock player thing type s)"
| "lock_op_step sv (Clone_locks player orig clone) s = clone_locks sv player orig clone s"
| "lock_op_step sv (Free_locks thing) s =
     map_option (\<lambda>names. set_Locks (s\<lparr>lock_names := names\<rparr>) thing []) (free_locks (Locks s thing) (lock_names s))"
| "lock_op_step sv (Load_lock player thing type key flags) s = map_option snd (add_lock_raw player thing type key flags s)"

fun op_cost :: "lock_op \<Rightarrow> mush \<Rightarrow> nat" where
  "op_cost (Add_lock player thing type key flags) s = 1"
| "op_cost (Delete_lock player thing type) s = 0"
| "op_cost (Clone_locks player orig clone) s = length (Locks s orig)"
| "op_cost (Free_locks thing) s = 0"
| "op_cost (Load_lock player thing type key flags) s = 1"

text \<open>Names are C strings, and a database file does not hold two locks of one name on an object.\<close>

fun op_names_ok :: "lock_op \<Rightarrow> mush \<Rightarrow> bool" where
  "op_names_ok (Add_lock player thing type key flags) s = no_nul type"
| "op_names_ok (Delete_lock player thing type) s = no_nul type"
| "op_names_ok (Load_lock player thing type key flags) s = (no_nul type \<and> getlockstruct_noparent s thing type = None)"
| "op_names_ok _ s = True"

lemma add_lock_raw_ok:
  assumes "locks_ok s" "no_nul type" "room_for 1 s" "getlockstruct_noparent s thing type = None"
  shows "\<exists>r s'. add_lock_raw player thing type key flags s = Some (r, s') \<and> locks_ok s'"
proof (cases "GoodObject s thing")
  case False
  then show ?thesis using assms(1) by (auto simp: add_lock_raw_def)
next
  case good: True
  note lok = locks_ok_at [OF assms(1), of thing]
  have names: "st_ok (lock_names s)" "st_table (lock_names s) = counts_of (all_names s)" using assms(1) by (simp_all add: locks_ok_def)
  have "size (all_names s) < 2 ^ 31 - 1" "size (all_names s) < max_uses" using assms(3) by (simp_all add: room_for_def max_uses_def)
  then obtain t where t: "st_insert type (lock_names s) = Some (t, type)" "st_ok t" "st_table t = counts_of (add_mset type (all_names s))"
    using st.hold [OF names assms(2)] by blast
  define ll where "ll = \<lparr>L_TYPE = type, L_KEY = key, L_CREATOR = player, L_FLAGS = new_lock_flags s type flags\<rparr>"
  have k: "lkey ll = case_key type" "no_nul (L_TYPE ll)" "L_TYPE ll = type" by (simp_all add: ll_def lkey_def assms(2))
  have ins: "lock_list_ok (insert_lock ll (Locks s thing))"
    using insert_lock_ok [OF lok k(2)] assms(4) find_lock_map [OF lok assms(2)] k(1) by (simp add: getlockstruct_noparent_def)
  have "add_mset type (all_names s) + names_of (Locks s thing) = all_names s + names_of (insert_lock ll (Locks s thing))"
    by (simp add: k(3))
  from write_locks(1) [OF assms(1) good ins t(2,3) this] good t(1) show ?thesis by (auto simp: add_lock_raw_def ll_def)
qed

lemma lock_op_ok:
  assumes "locks_ok s" "op_names_ok opn s" "room_for (op_cost opn s) s"
  shows "\<exists>s'. lock_op_step sv opn s = Some s' \<and> locks_ok s'"
proof (cases opn)
  case (Add_lock player thing type key flags)
  with assms add_lock_ok [of s type sv player thing key flags] show ?thesis by auto
next
  case (Delete_lock player thing type)
  with assms delete_lock_ok [of s type player thing] show ?thesis by auto
next
  case (Clone_locks player orig clone)
  moreover have "\<forall>ll \<in> set (Locks s orig). no_nul (L_TYPE ll)" using locks_ok_at [OF assms(1), of orig] by (simp add: lock_list_ok_def)
  ultimately show ?thesis using assms clone_loop_ok [of s "Locks s orig" sv player clone] by (auto simp: clone_locks_def)
next
  case (Free_locks thing)
  have nn: "\<forall>ll \<in> set (Locks s thing). no_nul (L_TYPE ll)" using locks_ok_at [OF assms(1), of thing] by (simp add: lock_list_ok_def)
  show ?thesis
  proof (cases "GoodObject s thing")
    case True
    have "obj s thing \<in> set (db s)" using True by (simp add: obj_def GoodObject_def nat_less_iff)
    define M where "M = all_names (set_Locks s thing [])"
    have M: "M + names_of (Locks s thing) = all_names s + names_of []"
      using all_names_set_Locks [OF True, of "[]"] by (simp add: M_def)
    then have "st_table (lock_names s) = counts_of (M + names_of (Locks s thing))" "size (M + names_of (Locks s thing)) < max_uses"
      using assms(1,3) Free_locks by (simp_all add: locks_ok_def room_for_def)
    then obtain t' where "free_locks (Locks s thing) (lock_names s) = Some t'" "st_ok t'" "st_table t' = counts_of M"
      using free_locks_ok [OF _ _ nn, of "lock_names s" M] assms(1) unfolding locks_ok_def by blast
    with write_locks(1) [OF assms(1) True _ _ _ M] Free_locks show ?thesis by auto
  next
    case False
    then have "Locks s thing = []" "set_Locks s thing [] = s" by (simp_all add: obj_def no_object_def set_Locks_def set_obj_def)
    with Free_locks assms(1) show ?thesis by simp
  qed
next
  case (Load_lock player thing type key flags)
  with assms add_lock_raw_ok [of s type thing player key flags] show ?thesis by auto
qed

definition lock_types_of :: "object \<Rightarrow> string list" where
  "lock_types_of ob = map L_TYPE (obj_locks ob)"

text \<open>
  The states the database can get into: the server starts with no locks, the operations run while the
  names in use are fewer than \<open>2 ^ 31 - 1\<close>, and everything else may change what is not a lock, the keys, creators and flags of locks, and create objects.
\<close>

inductive lock_state :: "server \<Rightarrow> mush \<Rightarrow> bool" for sv :: server where
  start: "\<forall>ob \<in> set (db s). obj_locks ob = [] \<Longrightarrow> lock_state sv (init_locks s)"
| step: "lock_state sv s \<Longrightarrow> op_names_ok opn s \<Longrightarrow> room_for (op_cost opn s) s \<Longrightarrow> lock_op_step sv opn s = Some s' \<Longrightarrow> lock_state sv s'"
| other: "lock_state sv s \<Longrightarrow> map lock_types_of (db s') = map lock_types_of (db s) @ replicate n [] \<Longrightarrow> lock_names s' = lock_names s \<Longrightarrow> lock_state sv s'"

lemma locks_ok_same:
  assumes "locks_ok s" "map lock_types_of (db s') = map lock_types_of (db s) @ replicate n []" "lock_names s' = lock_names s"
  shows "locks_ok s'"
proof -
  have names: "all_names x = sum_list (map mset (map lock_types_of (db x)))" for x
    by (simp add: all_names_def comp_def names_of_def lock_types_of_def)
  have "sum_list (map mset (replicate n ([] :: string list))) = {#}" by (induction n) auto
  then have "all_names s' = all_names s" unfolding names assms(2) map_append sum_list_append by (simp only: add_0_right)
  moreover have ok: "lock_list_ok (obj_locks ob) = (sorted_wrt (\<lambda>a b. case_key a < case_key b) (lock_types_of ob) \<and> (\<forall>n \<in> set (lock_types_of ob). no_nul n))" for ob
    by (simp add: lock_types_of_def lock_list_ok_def lkey_def sorted_wrt_map)
  have "lock_list_ok (obj_locks ob)" if "ob \<in> set (db s')" for ob
  proof -
    have "lock_types_of ob \<in> set (map lock_types_of (db s'))" using that by simp
    then have "lock_types_of ob \<in> lock_types_of ` set (db s) \<or> lock_types_of ob = []" unfolding assms(2) by auto
    then show ?thesis using assms(1) unfolding locks_ok_def ok by auto
  qed
  ultimately show "locks_ok s'" using assms(1,3) by (simp add: locks_ok_def)
qed

lemma lock_state_ok: "lock_state sv s \<Longrightarrow> locks_ok s"
proof (induction rule: lock_state.induct)
  case (start s)
  then have "all_names (init_locks s) = sum_list (map (\<lambda>ob. {#}) (db s))" unfolding all_names_def init_locks_def
    by (intro arg_cong [of _ _ sum_list]) simp
  then have "all_names (init_locks s) = {#}" by (simp add: sum_list_0)
  with start show ?case using st_init_ok by (auto simp: locks_ok_def init_locks_def counts_of_def)
next
  case (step s opn s')
  with lock_op_ok [of s opn sv] show ?case by auto
next
  case (other s s' n)
  then show ?case using locks_ok_same by blast
qed



end
