(* ===== verification/Mush_Match.thy ===== *)
theory Mush_Match
  imports Mush_Lock
begin

text \<open>
  Finding the object a name stands for (\<open>match.c\<close>, \<open>match.h\<close>), with \<open>can_interact\<close> (\<open>utils.c\<close>), \<open>nearby\<close> and
  \<open>could_doit\<close> (\<open>predicat.c\<close>) and \<open>check_alias\<close> (\<open>game.c\<close>).  The macros \<open>MATCH_LIST\<close> and \<open>MATCHED\<close> are
  functions on the variables they change (\<open>mstate\<close>).  \<open>None\<close> is a matcher that does not return: a lock it evaluates
  does not, or a list of objects it walks is a cycle.
\<close>

section \<open>Flags\<close>

type_synonym mat_flags = "64 word"

definition MAT_CHECK_KEYS :: mat_flags where "MAT_CHECK_KEYS = 0x000001"
definition MAT_GLOBAL :: mat_flags where "MAT_GLOBAL = 0x000002"
definition MAT_REMOTES :: mat_flags where "MAT_REMOTES = 0x000004"
definition MAT_CONTROL :: mat_flags where "MAT_CONTROL = 0x000008"
definition MAT_ME :: mat_flags where "MAT_ME = 0x000010"
definition MAT_HERE :: mat_flags where "MAT_HERE = 0x000020"
definition MAT_ABSOLUTE :: mat_flags where "MAT_ABSOLUTE = 0x000040"
definition MAT_PLAYER :: mat_flags where "MAT_PLAYER = 0x000080"
definition MAT_NEIGHBOR :: mat_flags where "MAT_NEIGHBOR = 0x000100"
definition MAT_POSSESSION :: mat_flags where "MAT_POSSESSION = 0x000200"
definition MAT_CONTENTS :: mat_flags where "MAT_CONTENTS = 0x000400"
definition MAT_EXIT :: mat_flags where "MAT_EXIT = 0x000800"
definition MAT_PMATCH :: mat_flags where "MAT_PMATCH = 0x001000"
definition MAT_CARRIED_EXIT :: mat_flags where "MAT_CARRIED_EXIT = 0x002000"
definition MAT_CONTAINER :: mat_flags where "MAT_CONTAINER = 0x004000"
definition MAT_REMOTE_CONTENTS :: mat_flags where "MAT_REMOTE_CONTENTS = 0x008000"
definition MAT_NEAR :: mat_flags where "MAT_NEAR = 0x010000"
definition MAT_ENGLISH :: mat_flags where "MAT_ENGLISH = 0x020000"
definition MAT_NOISY :: mat_flags where "MAT_NOISY = 0x040000"
definition MAT_LAST :: mat_flags where "MAT_LAST = 0x080000"
definition MAT_TYPE :: mat_flags where "MAT_TYPE = 0x100000"
definition MAT_EXACT :: mat_flags where "MAT_EXACT = 0x200000"

definition MAT_EVERYTHING :: mat_flags where
  "MAT_EVERYTHING = MAT_ME OR MAT_HERE OR MAT_ABSOLUTE OR MAT_PLAYER OR MAT_NEIGHBOR OR MAT_POSSESSION OR MAT_EXIT OR MAT_ENGLISH"

definition mat :: "mat_flags \<Rightarrow> mat_flags \<Rightarrow> bool" where
  "mat flags m \<longleftrightarrow> flags AND m \<noteq> 0"

definition LOOKUP_TOKEN :: char where "LOOKUP_TOKEN = CHR ''*''"
definition ALIAS_DELIMITER :: char where "ALIAS_DELIMITER = CHR '';''"
definition INTERACT_HEAR :: nat where "INTERACT_HEAR = 2"
definition INTERACT_MATCH :: nat where "INTERACT_MATCH = 4"

section \<open>Names and aliases\<close>

text \<open>The inner loop of \<open>check_alias\<close>: what is left of the name and of the list where they part.\<close>

fun alias_prefix :: "string \<Rightarrow> string \<Rightarrow> string \<times> string" where
  "alias_prefix (p # ps) (c # cs) = (if DOWNCASE p = DOWNCASE c \<and> c \<noteq> ALIAS_DELIMITER then alias_prefix ps cs else (p # ps, c # cs))"
| "alias_prefix ps cs = (ps, cs)"

lemma alias_prefix_length: "length (snd (alias_prefix ps cs)) \<le> length cs"
  by (induction ps cs rule: alias_prefix.induct) auto

definition next_alias :: "string \<Rightarrow> string" where
  "next_alias cs = dropWhile c_isspace (tl (dropWhile (\<lambda>c. c \<noteq> ALIAS_DELIMITER) cs))"

lemma next_alias_length: "length (next_alias cs) \<le> length cs" "cs \<noteq> [] \<Longrightarrow> length (next_alias cs) < length cs"
proof -
  have "length (next_alias cs) \<le> length (tl (dropWhile (\<lambda>c. c \<noteq> ALIAS_DELIMITER) cs))"
    unfolding next_alias_def by (rule length_dropWhile_le)
  moreover have "length (dropWhile (\<lambda>c. c \<noteq> ALIAS_DELIMITER) cs) \<le> length cs" by (rule length_dropWhile_le)
  ultimately show "length (next_alias cs) \<le> length cs" "cs \<noteq> [] \<Longrightarrow> length (next_alias cs) < length cs" by (auto, cases cs, auto)
qed

function check_alias :: "string \<Rightarrow> string \<Rightarrow> bool" where
  "check_alias command [] = False"
| "check_alias command (c # cs) =
     (let (p, l) = alias_prefix command (c # cs);
          l' = (if p = [] then dropWhile c_isspace l else l)
      in if p = [] \<and> (l' = [] \<or> hd l' = ALIAS_DELIMITER) then True else check_alias command (next_alias l'))"
  by pat_completeness auto
termination
proof (relation "measure (\<lambda>(command, l). length l)", simp)
  fix command :: string and c cs x p l l'
  assume "x = alias_prefix command (c # cs)" "(p, l) = x" "l' = (if p = [] then dropWhile c_isspace l else l)"
  then have "length l' \<le> length (c # cs)"
    using alias_prefix_length [of command "c # cs"] length_dropWhile_le [of c_isspace l] by (auto split: if_splits simp: order.trans) (metis order.trans snd_conv list.size(4))+
  then have "length (next_alias l') < length (c # cs)"
    using next_alias_length [of l'] by (cases "l' = []") (auto simp: next_alias_def)
  then show "((command, next_alias l'), (command, c # cs)) \<in> measure (\<lambda>(command, l). length l)" by simp
qed

definition match_aliases :: "server \<Rightarrow> mush \<Rightarrow> dbref \<Rightarrow> string \<Rightarrow> bool" where
  "match_aliases sv s match name =
     (if \<not> IsPlayer s match \<and> \<not> IsExit s match then False
      else if IsExit s match \<and> check_alias name (Name s match) then True
      else case sv_alias sv match of None \<Rightarrow> False | Some a \<Rightarrow> check_alias name (take (BUFFER_LEN - 1) a))"

definition match_player :: "server \<Rightarrow> mush \<Rightarrow> dbref \<Rightarrow> string \<Rightarrow> bool \<Rightarrow> dbref" where
  "match_player sv s who name partial =
     (let name = (if name \<noteq> [] \<and> hd name = LOOKUP_TOKEN then tl name else name);
          name = dropWhile c_isspace name;
          match = sv_lookup_player sv name
      in if match \<noteq> NOTHING then match
         else if GoodObject s who \<and> partial then sv_visible_short_page sv who name else NOTHING)"

section \<open>Relations between objects\<close>

definition where_is :: "mush \<Rightarrow> dbref \<Rightarrow> dbref" where
  "where_is s thing =
     (if \<not> GoodObject s thing then NOTHING
      else if Typeof s thing = of_nat TYPE_ROOM then NOTHING
      else if Typeof s thing = of_nat TYPE_EXIT then Exits s thing
      else Location s thing)"

definition nearby :: "mush \<Rightarrow> dbref \<Rightarrow> dbref \<Rightarrow> bool" where
  "nearby s obj1 obj2 =
     (if \<not> GoodObject s obj1 \<or> \<not> GoodObject s obj2 then False
      else if IsRoom s obj1 \<and> IsRoom s obj2 then False
      else
        let loc1 = where_is s obj1 in
        if loc1 = obj2 then True
        else let loc2 = where_is s obj2 in loc2 = obj1 \<or> loc2 = loc1)"

definition could_doit :: "server \<Rightarrow> mush \<Rightarrow> dbref \<Rightarrow> dbref \<Rightarrow> bool option" where
  "could_doit sv s player thing =
     (if \<not> IsRoom s thing \<and> Location s thing = NOTHING then Some False else eval_lock sv s player thing ''Basic'')"

text \<open>\<open>can_interact\<close> for the types of interaction other than \<open>INTERACT_HEAR\<close>.\<close>

definition can_interact :: "server \<Rightarrow> mush \<Rightarrow> dbref \<Rightarrow> dbref \<Rightarrow> bool option" where
  "can_interact sv s from_obj to_obj =
     (if IsGarbage s from_obj \<or> IsGarbage s to_obj then Some False
      else if from_obj = to_obj \<or> IsRoom s from_obj \<or> IsRoom s to_obj then Some True
      else
        let lci = sv_can_interact_first sv from_obj to_obj in
        if lci \<noteq> NOTHING then Some (lci \<noteq> 0)
        else
          Option.bind
            (if from_obj = Location s to_obj \<or> to_obj = Location s from_obj then Some True else controls sv s to_obj from_obj)
            (\<lambda>c. if c then Some True
                 else
                   let lci = sv_can_interact_last sv from_obj to_obj in
                   if lci \<noteq> NOTHING then Some (lci \<noteq> 0) else Some True))"

section \<open>Choosing between objects\<close>

definition choose_thing :: "server \<Rightarrow> mush \<Rightarrow> dbref \<Rightarrow> 32 word \<Rightarrow> mat_flags \<Rightarrow> dbref \<Rightarrow> dbref \<Rightarrow> dbref option" where
  "choose_thing sv s who preferred_type flags thing1 thing2 =
     (if \<not> GoodObject s thing1 \<and> \<not> GoodObject s thing2 then Some (if thing1 = NOTHING then thing2 else thing1)
      else if \<not> GoodObject s thing1 then Some thing2
      else if \<not> GoodObject s thing2 then Some thing1
      else if preferred_type \<noteq> NOTYPE \<and> Typeof s thing1 AND preferred_type \<noteq> 0 \<and> Typeof s thing2 AND preferred_type = 0 then Some thing1
      else if preferred_type \<noteq> NOTYPE \<and> Typeof s thing1 AND preferred_type = 0 \<and> Typeof s thing2 AND preferred_type \<noteq> 0 then Some thing2
      else if mat flags MAT_CHECK_KEYS then
        Option.bind (could_doit sv s who thing1)
          (\<lambda>key. map_option (\<lambda>key2. if key \<and> \<not> key2 then thing1 else thing2) (could_doit sv s who thing2))
      else Some thing2)"

record mquery =
  mq_who :: dbref
  mq_type :: "32 word"
  mq_flags :: mat_flags
  mq_name :: string
  mq_abs :: dbref
  mq_final :: nat

record mstate =
  ms_bestmatch :: dbref
  ms_curr :: nat
  ms_exact :: bool
  ms_nocontrol :: bool
  ms_right_type :: nat
  ms_done :: bool

definition match_controls :: "server \<Rightarrow> mush \<Rightarrow> mquery \<Rightarrow> dbref \<Rightarrow> bool option" where
  "match_controls sv s q match = (if \<not> mat (mq_flags q) MAT_CONTROL then Some True else controls sv s (mq_who q) match)"

definition match_type :: "mush \<Rightarrow> mquery \<Rightarrow> dbref \<Rightarrow> bool" where
  "match_type s q match \<longleftrightarrow> mq_type q AND Typeof s match \<noteq> 0 \<or> \<not> mat (mq_flags q) MAT_TYPE"

text \<open>\<open>MATCHED\<close>; the flag it returns says that the loop is left.\<close>

definition matched :: "server \<Rightarrow> mush \<Rightarrow> mquery \<Rightarrow> bool \<Rightarrow> dbref \<Rightarrow> mstate \<Rightarrow> (mstate \<times> bool) option" where
  "matched sv s q full match st =
     Option.bind (match_controls sv s q match)
       (\<lambda>c. if \<not> c then Some (st\<lparr>ms_nocontrol := True\<rparr>, False)
            else if mq_final q = 0 then
              map_option
                (\<lambda>best.
                   let st = st\<lparr>ms_bestmatch := best\<rparr> in
                   if best \<noteq> match then (st, False)
                   else
                     let st = (if full \<and> \<not> ms_exact st then st\<lparr>ms_exact := True, ms_curr := 1, ms_right_type := 0\<rparr>
                               else st\<lparr>ms_curr := ms_curr st + 1\<rparr>);
                         st = (if mq_type q \<noteq> NOTYPE \<and> Typeof s best AND mq_type q \<noteq> 0
                               then st\<lparr>ms_right_type := ms_right_type st + 1\<rparr> else st)
                     in (st, False))
                (choose_thing sv s (mq_who q) (mq_type q) (mq_flags q) (ms_bestmatch st) match)
            else
              let st = st\<lparr>ms_curr := ms_curr st + 1\<rparr> in
              Some (if ms_curr st = mq_final q then (st\<lparr>ms_bestmatch := match, ms_done := True\<rparr>, True) else (st, False)))"

definition match_one :: "server \<Rightarrow> mush \<Rightarrow> mquery \<Rightarrow> dbref \<Rightarrow> mstate \<Rightarrow> (mstate \<times> bool) option" where
  "match_one sv s q match st =
     (if \<not> match_type s q match then Some (st, False)
      else if match = mq_abs q then matched sv s q True match st
      else
        Option.bind (can_interact sv s match (mq_who q))
          (\<lambda>i. if \<not> i then Some (st, False)
               else if match_aliases sv s match (mq_name q) \<or> \<not> IsExit s match \<and> strcasecmp (Name s match) (mq_name q) = 0
               then matched sv s q True match st
               else if \<not> mat (mq_flags q) MAT_EXACT \<and> (\<not> ms_exact st \<or> \<not> GoodObject s (ms_bestmatch st)) \<and> \<not> IsExit s match
                       \<and> string_match (Some (Name s match)) (Some (mq_name q)) \<noteq> None
               then matched sv s q False match st
               else Some (st, False)))"

partial_function (option) match_list :: "server \<Rightarrow> mush \<Rightarrow> mquery \<Rightarrow> dbref \<Rightarrow> mstate \<Rightarrow> mstate option" where
  "match_list sv s q match st =
     (if \<not> GoodObject s match then Some st
      else Option.bind (match_one sv s q match st) (\<lambda>(st, leave). if leave then Some st else match_list sv s q (Next s match) st))"

declare match_list.simps [code]

text \<open>The lists to search, each with the condition under which it is; \<open>done\<close> ends the search.\<close>

fun match_lists :: "server \<Rightarrow> mush \<Rightarrow> mquery \<Rightarrow> (bool \<times> dbref) list \<Rightarrow> mstate \<Rightarrow> mstate option" where
  "match_lists sv s q [] st = Some st"
| "match_lists sv s q ((c, start) # rest) st =
     (if \<not> c then match_lists sv s q rest st
      else if ms_done st then Some st
      else Option.bind (match_list sv s q start st) (match_lists sv s q rest))"

section \<open>English-style names\<close>

definition drop_flags :: "mat_flags \<Rightarrow> mat_flags \<Rightarrow> mat_flags" where
  "drop_flags m flags = flags AND NOT m"

text \<open>Does the name start with the word, without regard to case, and what follows it?\<close>

definition strip_adj :: "string \<Rightarrow> string \<Rightarrow> string option" where
  "strip_adj adj name = (if strncasecmp name adj (length adj) = 0 then Some (drop (length adj) name) else None)"

text \<open>The adjectives that restrict where to look.\<close>

definition parse_adjectives :: "string \<Rightarrow> mat_flags \<Rightarrow> string \<times> mat_flags" where
  "parse_adjectives name flags =
     (let (name, flags) =
            (if mat flags MAT_NEIGHBOR then
               (case strip_adj ''this here '' name of
                  Some n \<Rightarrow> (n, drop_flags (MAT_POSSESSION OR MAT_EXIT) flags)
                | None \<Rightarrow>
                    (case (if strip_adj ''here '' name \<noteq> None then strip_adj ''here '' name else strip_adj ''this '' name) of
                       Some n \<Rightarrow> (n, drop_flags (MAT_POSSESSION OR MAT_EXIT OR MAT_REMOTE_CONTENTS OR MAT_CONTAINER) flags)
                     | None \<Rightarrow> (name, flags)))
             else (name, flags));
          (name, flags) =
            (case (if \<not> mat flags MAT_POSSESSION then None
                   else if strip_adj ''my '' name \<noteq> None then strip_adj ''my '' name else strip_adj ''me '' name) of
               Some n \<Rightarrow> (n, drop_flags (MAT_NEIGHBOR OR MAT_EXIT OR MAT_CONTAINER OR MAT_REMOTE_CONTENTS) flags)
             | None \<Rightarrow> (name, flags));
          (name, flags) =
            (case (if \<not> mat flags (MAT_EXIT OR MAT_CARRIED_EXIT) then None else strip_adj ''toward '' name) of
               Some n \<Rightarrow> (n, drop_flags (MAT_NEIGHBOR OR MAT_POSSESSION OR MAT_CONTAINER OR MAT_REMOTE_CONTENTS) flags)
             | None \<Rightarrow> (name, flags))
      in (name, flags))"

text \<open>\<open>strtoul\<close> of a text that starts with a digit, and its conversion to \<open>int\<close>.\<close>

definition strtoul :: "string \<Rightarrow> nat \<times> string" where
  "strtoul s = (min (foldl (\<lambda>n c. 10 * n + (c_ord c - 48)) 0 (takeWhile c_isdigit s)) (2 ^ 64 - 1), dropWhile c_isdigit s)"

definition count_word :: "string \<Rightarrow> int" where
  "count_word token =
     (let (v, e) = strtoul token; cnt = sint (word_of_nat v :: 32 word) in
      if e = [] then - 1
      else if cnt < 1 then - 1
      else
        let suffix =
          (if 10 < cnt \<and> cnt < 14 then ''th''
           else if cnt mod 10 = 1 then ''st'' else if cnt mod 10 = 2 then ''nd'' else if cnt mod 10 = 3 then ''rd'' else ''th'')
        in if strcasecmp e suffix \<noteq> 0 then - 1 else cnt)"

text \<open>The name without the adjective phrase, the flags, and the count.\<close>

definition parse_english :: "string \<Rightarrow> mat_flags \<Rightarrow> string \<times> mat_flags \<times> nat" where
  "parse_english xname saveflags =
     (let (name, flags) = parse_adjectives xname saveflags;
          name = dropWhile (\<lambda>c. c = CHR '' '') name
      in if name = [] then (xname, saveflags, 0)
         else if \<not> c_isdigit (hd name) then (name, flags, 0)
         else if CHR '' '' \<notin> set name then (name, flags, 0)
         else
           let cnt = count_word (takeWhile (\<lambda>c. c \<noteq> CHR '' '') name) in
           if cnt < 0 then (name, flags, 0)
           else (dropWhile (\<lambda>c. c = CHR '' '') (dropWhile (\<lambda>c. c \<noteq> CHR '' '') name), flags, nat cnt))"

section \<open>The matcher\<close>

text \<open>
  The tests that return at once: \<open>Inl\<close> is the object found, \<open>Inr\<close> what the search goes on with, \<open>bestmatch\<close> and
  \<open>nocontrol\<close>.
\<close>

definition match_loc :: "mush \<Rightarrow> dbref \<Rightarrow> dbref" where
  "match_loc s where_obj =
     (if \<not> RealGoodObject s where_obj then NOTHING
      else if IsRoom s where_obj then where_obj
      else if IsExit s where_obj then Exits s where_obj
      else Location s where_obj)"

definition match_contents :: "mush \<Rightarrow> mat_flags \<Rightarrow> dbref \<Rightarrow> dbref \<Rightarrow> bool" where
  "match_contents s flags where_obj match \<longleftrightarrow> \<not> mat flags MAT_CONTENTS \<or> Location s match = where_obj"

type_synonym early = "dbref + (dbref \<times> bool)"

definition try_match :: "server \<Rightarrow> mush \<Rightarrow> mquery \<Rightarrow> bool \<Rightarrow> dbref \<Rightarrow> dbref \<times> bool \<Rightarrow> early option" where
  "try_match sv s q c match bn =
     (if \<not> c then Some (Inr bn)
      else map_option (\<lambda>k. if k then Inl match else Inr (fst bn, True)) (match_controls sv s q match))"

definition match_me :: "server \<Rightarrow> mush \<Rightarrow> mquery \<Rightarrow> dbref \<Rightarrow> string \<Rightarrow> dbref \<times> bool \<Rightarrow> early option" where
  "match_me sv s q where_obj xname =
     try_match sv s q
       (RealGoodObject s where_obj \<and> match_type s q where_obj \<and> mat (mq_flags q) MAT_ME \<and> \<not> mat (mq_flags q) MAT_CONTENTS
        \<and> strcasecmp xname ''me'' = 0)
       where_obj"

definition match_here :: "server \<Rightarrow> mush \<Rightarrow> mquery \<Rightarrow> dbref \<Rightarrow> string \<Rightarrow> dbref \<times> bool \<Rightarrow> early option" where
  "match_here sv s q where_obj xname =
     (let match = (if RealGoodObject s where_obj then if IsRoom s where_obj then NOTHING else Location s where_obj else NOTHING)
      in try_match sv s q
           (mat (mq_flags q) MAT_HERE \<and> \<not> mat (mq_flags q) MAT_CONTENTS \<and> strcasecmp xname ''here'' = 0 \<and> GoodObject s match
            \<and> match_type s q match)
           match)"

text \<open>With \<open>MAT_NEAR\<close> an object must be near the matcher or under its control.\<close>

definition match_near :: "server \<Rightarrow> mush \<Rightarrow> mquery \<Rightarrow> dbref \<Rightarrow> bool option" where
  "match_near sv s q match =
     (if \<not> mat (mq_flags q) MAT_NEAR \<or> Long_Fingers s (mq_who q) then Some True
      else if nearby s (mq_who q) match then Some True
      else controls sv s (mq_who q) match)"

definition match_star :: "server \<Rightarrow> mush \<Rightarrow> mquery \<Rightarrow> dbref \<Rightarrow> string \<Rightarrow> dbref \<times> bool \<Rightarrow> early option" where
  "match_star sv s q where_obj xname bn =
     (if (mat (mq_flags q) MAT_PMATCH \<or> mat (mq_flags q) MAT_PLAYER \<and> xname \<noteq> [] \<and> hd xname = LOOKUP_TOKEN)
         \<and> (mq_type q AND of_nat TYPE_PLAYER \<noteq> 0 \<or> \<not> mat (mq_flags q) MAT_TYPE)
      then
        let match = match_player sv s (mq_who q) xname (\<not> mat (mq_flags q) MAT_EXACT) in
        if \<not> match_contents s (mq_flags q) where_obj match then Some (Inr bn)
        else if GoodObject s match then Option.bind (match_near sv s q match) (\<lambda>n. try_match sv s q n match bn)
        else map_option (\<lambda>best. Inr (best, snd bn)) (choose_thing sv s (mq_who q) (mq_type q) (mq_flags q) (fst bn) match)
      else Some (Inr bn))"

definition match_dbref :: "server \<Rightarrow> mush \<Rightarrow> mquery \<Rightarrow> dbref \<Rightarrow> dbref \<times> bool \<Rightarrow> early option" where
  "match_dbref sv s q where_obj bn =
     (let match = mq_abs q in
      if RealGoodObject s match \<and> mat (mq_flags q) MAT_ABSOLUTE \<and> match_type s q match \<and> match_contents s (mq_flags q) where_obj match
      then Option.bind (match_near sv s q match) (\<lambda>n. try_match sv s q n match bn)
      else Some (Inr bn))"

definition or_else :: "early option \<Rightarrow> (dbref \<times> bool \<Rightarrow> early option) \<Rightarrow> early option" where
  "or_else r f = Option.bind r (\<lambda>e. case e of Inl x \<Rightarrow> Some (Inl x) | Inr bn \<Rightarrow> f bn)"

definition match_early :: "server \<Rightarrow> mush \<Rightarrow> mquery \<Rightarrow> dbref \<Rightarrow> string \<Rightarrow> early option" where
  "match_early sv s q where_obj xname =
     or_else (or_else (or_else (match_me sv s q where_obj xname (NOTHING, False)) (match_here sv s q where_obj xname))
       (match_star sv s q where_obj xname)) (match_dbref sv s q where_obj)"

text \<open>The lists of objects the search goes through, in the order of the code.\<close>

definition match_starts :: "server \<Rightarrow> mush \<Rightarrow> mquery \<Rightarrow> dbref \<Rightarrow> (bool \<times> dbref) list" where
  "match_starts sv s q where_obj =
     (let flags = mq_flags q; loc = match_loc s where_obj; goodwhere = RealGoodObject s where_obj;
          exits = (mq_type q AND of_nat TYPE_EXIT \<noteq> 0 \<or> \<not> mat flags MAT_TYPE);
          room = (exits \<and> GoodObject s loc \<and> IsRoom s loc \<and> mat flags MAT_EXIT)
      in [(goodwhere \<and> mat flags (MAT_POSSESSION OR MAT_REMOTE_CONTENTS), Contents s where_obj),
          (GoodObject s loc \<and> mat flags MAT_NEIGHBOR \<and> \<not> mat flags MAT_CONTENTS \<and> loc \<noteq> where_obj, Contents s loc),
          (room \<and> mat flags MAT_REMOTES \<and> \<not> mat flags (MAT_NEAR OR MAT_CONTENTS) \<and> GoodObject s (Zone s loc) \<and> IsRoom s (Zone s loc),
           Exits s (Zone s loc)),
          (room \<and> mat flags MAT_GLOBAL \<and> \<not> mat flags (MAT_NEAR OR MAT_CONTENTS), Exits s (sv_master_room sv)),
          (room, Exits s loc),
          (mat flags MAT_CONTAINER \<and> \<not> mat flags MAT_CONTENTS \<and> goodwhere, loc),
          (exits \<and> mat flags MAT_CARRIED_EXIT \<and> goodwhere \<and> IsRoom s where_obj \<and> (loc \<noteq> where_obj \<or> \<not> mat flags MAT_EXIT),
           Exits s where_obj)])"

definition match_decide :: "mush \<Rightarrow> mquery \<Rightarrow> mstate \<Rightarrow> dbref" where
  "match_decide s q st =
     (if \<not> GoodObject s (ms_bestmatch st) \<and> mq_final q \<noteq> 0 then NOTHING
      else if mq_final q = 0 \<and> 1 < ms_curr st then
        if ms_right_type st \<noteq> 1 \<and> \<not> mat (mq_flags q) MAT_LAST then AMBIGUOUS else ms_bestmatch st
      else ms_bestmatch st)"

definition match_complain :: "mush \<Rightarrow> dbref \<Rightarrow> mat_flags \<Rightarrow> dbref \<Rightarrow> bool \<Rightarrow> mush" where
  "match_complain s who flags bestmatch nocontrol =
     (if \<not> GoodObject s bestmatch \<and> mat flags MAT_NOISY \<and> GoodObject s who then
        add_notice (Notify who
          (if bestmatch = AMBIGUOUS then ''I don't know which one you mean!''
           else if nocontrol then ''Permission denied.'' else ''I can't see that here.'')) s
      else s)"

definition match_result_internal :: "server \<Rightarrow> mush \<Rightarrow> dbref \<Rightarrow> dbref \<Rightarrow> string \<Rightarrow> 32 word \<Rightarrow> mat_flags \<Rightarrow> (dbref \<times> mush) option" where
  "match_result_internal sv s who where_obj xname type flags =
     (let q = \<lparr>mq_who = who, mq_type = type, mq_flags = flags, mq_name = xname, mq_abs = sv_parse_objid sv xname, mq_final = 0\<rparr>
      in if mat flags (MAT_NEAR OR MAT_CONTENTS) \<and> \<not> RealGoodObject s where_obj
         then Some (NOTHING, if mat flags MAT_NOISY \<and> GoodObject s who then add_notice (Notify who ''I can't see that here.'') s else s)
         else
           Option.bind (match_early sv s q where_obj xname)
             (\<lambda>e. case e of
                    Inl found \<Rightarrow> Some (found, s)
                  | Inr (best, nocontrol) \<Rightarrow>
                      let (name, flags, final) = (if mat flags MAT_ENGLISH then parse_english xname flags else (xname, flags, 0));
                          q = q\<lparr>mq_name := name, mq_flags := flags, mq_final := final\<rparr>
                      in map_option
                           (\<lambda>st. let bestmatch = match_decide s q st
                                 in (bestmatch, match_complain s who flags bestmatch (ms_nocontrol st)))
                           (match_lists sv s q (match_starts sv s q where_obj)
                              \<lparr>ms_bestmatch = best, ms_curr = 0, ms_exact = False, ms_nocontrol = nocontrol, ms_right_type = 0, ms_done = False\<rparr>)))"

definition match_result :: "server \<Rightarrow> mush \<Rightarrow> dbref \<Rightarrow> string \<Rightarrow> 32 word \<Rightarrow> mat_flags \<Rightarrow> (dbref \<times> mush) option" where
  "match_result sv s who xname type flags = match_result_internal sv s who who xname type flags"

definition noisy_match_result :: "server \<Rightarrow> mush \<Rightarrow> dbref \<Rightarrow> string \<Rightarrow> 32 word \<Rightarrow> mat_flags \<Rightarrow> (dbref \<times> mush) option" where
  "noisy_match_result sv s who name type flags =
     map_option (\<lambda>(match, s). (if \<not> GoodObject s match then NOTHING else match, s)) (match_result sv s who name type (flags OR MAT_NOISY))"

definition last_match_result :: "server \<Rightarrow> mush \<Rightarrow> dbref \<Rightarrow> string \<Rightarrow> 32 word \<Rightarrow> mat_flags \<Rightarrow> (dbref \<times> mush) option" where
  "last_match_result sv s who name type flags = match_result sv s who name type (flags OR MAT_LAST)"

definition match_controlled :: "server \<Rightarrow> mush \<Rightarrow> dbref \<Rightarrow> string \<Rightarrow> (dbref \<times> mush) option" where
  "match_controlled sv s player name = noisy_match_result sv s player name NOTYPE (MAT_EVERYTHING OR MAT_CONTROL)"

end
