(* ===== verification/Mush_Match_Correct.thy ===== *)
theory Mush_Match_Correct
  imports Mush_Match
begin

text \<open>
  The matcher of \<open>match.c\<close>.  Under \<open>MAT_CONTROL\<close> it returns only what the matcher controls.  The walk through the
  lists of objects is a fold over the candidates (\<open>match_seq\<close>), and when names alone decide it returns what the
  comment of \<open>match.c\<close> promises (\<open>match_spec\<close>); when locks are consulted the order of the exits matters.
\<close>

section \<open>A match under MAT_CONTROL is under control\<close>

lemma mat_drop:
  "mat (drop_flags (MAT_POSSESSION OR MAT_EXIT) flags) MAT_CONTROL = mat flags MAT_CONTROL"
  "mat (drop_flags (MAT_POSSESSION OR MAT_EXIT OR MAT_REMOTE_CONTENTS OR MAT_CONTAINER) flags) MAT_CONTROL = mat flags MAT_CONTROL"
  "mat (drop_flags (MAT_NEIGHBOR OR MAT_EXIT OR MAT_CONTAINER OR MAT_REMOTE_CONTENTS) flags) MAT_CONTROL = mat flags MAT_CONTROL"
  "mat (drop_flags (MAT_NEIGHBOR OR MAT_POSSESSION OR MAT_CONTAINER OR MAT_REMOTE_CONTENTS) flags) MAT_CONTROL = mat flags MAT_CONTROL"
  by (simp_all add: mat_def drop_flags_def and.assoc MAT_POSSESSION_def MAT_EXIT_def MAT_REMOTE_CONTENTS_def MAT_CONTAINER_def
      MAT_NEIGHBOR_def MAT_CONTROL_def)

lemma parse_adjectives_control: "parse_adjectives xname flags = (name, flags') \<Longrightarrow> mat flags' MAT_CONTROL = mat flags MAT_CONTROL"
  by (auto simp: parse_adjectives_def mat_drop split: if_splits option.splits prod.splits)

lemma parse_english_control: "parse_english xname flags = (name, flags', n) \<Longrightarrow> mat flags' MAT_CONTROL = mat flags MAT_CONTROL"
  using parse_adjectives_control [of xname flags] by (auto simp: parse_english_def Let_def split: if_splits prod.splits)

definition owned :: "server \<Rightarrow> mush \<Rightarrow> dbref \<Rightarrow> dbref \<Rightarrow> bool" where
  "owned sv s who x \<longleftrightarrow> \<not> GoodObject s x \<or> controls sv s who x = Some True"

lemma choose_thing_cases: "choose_thing sv s who type flags a b = Some c \<Longrightarrow> c = a \<or> c = b"
  by (auto simp: choose_thing_def bind_eq_Some_conv split: if_splits)

lemma matched_owned:
  assumes "matched sv s q full x st = Some (st', leave)" "mat (mq_flags q) MAT_CONTROL" "owned sv s (mq_who q) (ms_bestmatch st)"
  shows "owned sv s (mq_who q) (ms_bestmatch st')"
proof -
  obtain c where c: "controls sv s (mq_who q) x = Some c" using assms(1,2) by (auto simp: matched_def match_controls_def bind_eq_Some_conv)
  show ?thesis
  proof (cases c)
    case True
    then have "owned sv s (mq_who q) x" using c by (simp add: owned_def)
    then show ?thesis
      using assms(1,3) c True assms(2) choose_thing_cases [of sv s "mq_who q" "mq_type q" "mq_flags q" "ms_bestmatch st" x]
      by (auto simp: matched_def match_controls_def Let_def split: if_splits)
  next
    case False
    then show ?thesis using assms c by (auto simp: matched_def match_controls_def)
  qed
qed

lemma match_one_owned:
  assumes "match_one sv s q x st = Some (st', leave)" "mat (mq_flags q) MAT_CONTROL" "owned sv s (mq_who q) (ms_bestmatch st)"
  shows "owned sv s (mq_who q) (ms_bestmatch st')"
  using assms matched_owned [OF _ assms(2,3)] by (auto simp: match_one_def bind_eq_Some_conv split: if_splits)

lemmas match_list_induct = match_list.raw_induct [rotated 1, consumes 1, case_names step]

lemma match_list_owned:
  "match_list sv s q x st = Some st' \<Longrightarrow> mat (mq_flags q) MAT_CONTROL \<Longrightarrow> owned sv s (mq_who q) (ms_bestmatch st) \<Longrightarrow>
   owned sv s (mq_who q) (ms_bestmatch st')"
proof (induction rule: match_list_induct)
  case (step f sv s q x st st')
  show ?case
  proof (cases "GoodObject s x")
    case True
    then obtain st1 leave where one: "match_one sv s q x st = Some (st1, leave)" "(if leave then Some st1 else f sv s q (Next s x) st1) = Some st'"
      using step(2) by (auto simp: bind_eq_Some_conv)
    with match_one_owned [OF one(1) step(3,4)] step(1) [OF _ step(3)] show ?thesis by (auto split: if_splits)
  qed (use step(2,4) in simp)
qed

lemma match_lists_owned:
  "match_lists sv s q ls st = Some st' \<Longrightarrow> mat (mq_flags q) MAT_CONTROL \<Longrightarrow> owned sv s (mq_who q) (ms_bestmatch st) \<Longrightarrow>
   owned sv s (mq_who q) (ms_bestmatch st')"
proof (induction sv s q ls st rule: match_lists.induct)
  case (2 sv s q c start rest st)
  then show ?case using match_list_owned [of sv s q start st] by (auto simp: bind_eq_Some_conv split: if_splits)
qed simp

definition early_owned :: "server \<Rightarrow> mush \<Rightarrow> mquery \<Rightarrow> early \<Rightarrow> bool" where
  "early_owned sv s q e = (case e of Inl x \<Rightarrow> controls sv s (mq_who q) x = Some True | Inr (b, nc) \<Rightarrow> owned sv s (mq_who q) b)"

lemma early_owned_simps [simp]: "early_owned sv s q (Inl x) = (controls sv s (mq_who q) x = Some True)"
  "early_owned sv s q (Inr bn) = owned sv s (mq_who q) (fst bn)"
  by (simp_all add: early_owned_def split: prod.splits)

lemma try_match_owned:
  "try_match sv s q c x bn = Some e \<Longrightarrow> mat (mq_flags q) MAT_CONTROL \<Longrightarrow> owned sv s (mq_who q) (fst bn) \<Longrightarrow> early_owned sv s q e"
  by (auto simp: try_match_def early_owned_def match_controls_def split: if_splits prod.splits)

lemma or_else_owned:
  assumes "or_else r f = Some e" "\<And>e. r = Some e \<Longrightarrow> early_owned sv s q e"
    "\<And>bn e. owned sv s (mq_who q) (fst bn) \<Longrightarrow> f bn = Some e \<Longrightarrow> early_owned sv s q e"
  shows "early_owned sv s q e"
proof -
  obtain e' where e': "r = Some e'" "(case e' of Inl x \<Rightarrow> Some (Inl x) | Inr bn \<Rightarrow> f bn) = Some e"
    using assms(1) by (auto simp: or_else_def bind_eq_Some_conv)
  from assms(2) [OF e'(1)] e'(2) assms(3) show ?thesis by (cases e') (auto simp: early_owned_def)
qed

lemma match_early_owned:
  assumes "match_early sv s q w xname = Some e" "mat (mq_flags q) MAT_CONTROL"
  shows "early_owned sv s q e"
proof -
  note attempt = try_match_owned [OF _ assms(2)]
  have start: "owned sv s (mq_who q) (fst (NOTHING, False))" by (simp add: owned_def GoodObject_def NOTHING_def)
  have me: "early_owned sv s q e" if "match_me sv s q w xname (NOTHING, False) = Some e" for e
    using that attempt [OF _ start] by (auto simp: match_me_def)
  have here: "early_owned sv s q e" if "owned sv s (mq_who q) (fst bn)" "match_here sv s q w xname bn = Some e" for bn e
    using that attempt [OF _ that(1)] by (auto simp: match_here_def Let_def)
  have star: "early_owned sv s q e" if "owned sv s (mq_who q) (fst bn)" "match_star sv s q w xname bn = Some e" for bn e
  proof -
    let ?x = "match_player sv s (mq_who q) xname (\<not> mat (mq_flags q) MAT_EXACT)"
    have same: "early_owned sv s q (Inr bn)" using that(1) by (cases bn) (simp add: early_owned_def)
    define c where "c \<longleftrightarrow> (mat (mq_flags q) MAT_PMATCH \<or> mat (mq_flags q) MAT_PLAYER \<and> xname \<noteq> [] \<and> hd xname = LOOKUP_TOKEN)
      \<and> (mq_type q AND of_nat TYPE_PLAYER \<noteq> 0 \<or> \<not> mat (mq_flags q) MAT_TYPE)"
    have run: "(if c then
        if \<not> match_contents s (mq_flags q) w ?x then Some (Inr bn)
        else if GoodObject s ?x then Option.bind (match_near sv s q ?x) (\<lambda>n. try_match sv s q n ?x bn)
        else map_option (\<lambda>best. Inr (best, snd bn)) (choose_thing sv s (mq_who q) (mq_type q) (mq_flags q) (fst bn) ?x)
      else Some (Inr bn)) = Some e"
      using that(2) unfolding match_star_def c_def Let_def .
    show ?thesis
    proof (cases "\<not> c \<or> \<not> match_contents s (mq_flags q) w ?x")
      case True
      then have "e = Inr bn" using run by (auto split: if_splits)
      with same show ?thesis by simp
    next
      case now: False
      show ?thesis
      proof (cases "GoodObject s ?x")
        case True
        with now run obtain n where "try_match sv s q n ?x bn = Some e" by (auto simp: bind_eq_Some_conv)
        from attempt [OF this that(1)] show ?thesis .
      next
        case False
        with now run obtain best where best: "choose_thing sv s (mq_who q) (mq_type q) (mq_flags q) (fst bn) ?x = Some best" "e = Inr (best, snd bn)"
          by auto
        then have "owned sv s (mq_who q) best" using choose_thing_cases [OF best(1)] that(1) False by (auto simp: owned_def)
        then show ?thesis by (simp add: best(2) early_owned_def)
      qed
    qed
  qed
  have dref: "early_owned sv s q e" if "owned sv s (mq_who q) (fst bn)" "match_dbref sv s q w bn = Some e" for bn e
    using that attempt [OF _ that(1)]
    by (auto simp: match_dbref_def Let_def bind_eq_Some_conv split: if_splits)
  have "early_owned sv s q e" if "or_else (match_me sv s q w xname (NOTHING, False)) (match_here sv s q w xname) = Some e" for e
    using or_else_owned [OF that me here] .
  note two = or_else_owned [OF _ this star]
  show ?thesis using or_else_owned [OF assms(1) [unfolded match_early_def] two dref] .
qed

lemma match_result_owned:
  assumes "match_result_internal sv s who w xname type flags = Some (x, s')" "mat flags MAT_CONTROL"
  shows "owned sv s who x"
proof -
  let ?q = "\<lparr>mq_who = who, mq_type = type, mq_flags = flags, mq_name = xname, mq_abs = sv_parse_objid sv xname, mq_final = 0\<rparr>"
  show ?thesis
  proof (cases "mat flags (MAT_NEAR OR MAT_CONTENTS) \<and> \<not> RealGoodObject s w")
    case True
    then show ?thesis using assms by (auto simp: match_result_internal_def owned_def GoodObject_def NOTHING_def)
  next
    case False
    then obtain e where e: "match_early sv s ?q w xname = Some e"
      using assms(1) by (auto simp: match_result_internal_def bind_eq_Some_conv)
    note eo = match_early_owned [OF e] 
    show ?thesis
    proof (cases e)
      case (Inl found)
      then show ?thesis using False e eo assms by (auto simp: match_result_internal_def early_owned_def owned_def)
    next
      case (Inr bn)
      obtain best nc where bn: "bn = (best, nc)" by (cases bn)
      obtain name flags' final where english: "(if mat flags MAT_ENGLISH then parse_english xname flags else (xname, flags, 0)) = (name, flags', final)"
        by (metis prod_cases3)
      then have m: "mat flags' MAT_CONTROL" using assms(2) parse_english_control [of xname flags] by (auto split: if_splits)
      let ?q' = "?q\<lparr>mq_name := name, mq_flags := flags', mq_final := final\<rparr>"
      obtain st where st: "match_lists sv s ?q' (match_starts sv s ?q' w)
            \<lparr>ms_bestmatch = best, ms_curr = 0, ms_exact = False, ms_nocontrol = nc, ms_right_type = 0, ms_done = False\<rparr> = Some st"
          "x = match_decide s ?q' st"
        using assms(1) False e Inr bn english by (auto simp: match_result_internal_def Let_def)
      have "owned sv s who best" using eo assms(2) Inr bn by (simp add: early_owned_def)
      with match_lists_owned [OF st(1)] m have "owned sv s who (ms_bestmatch st)" by simp
      then show ?thesis unfolding st(2) match_decide_def owned_def by (auto simp: GoodObject_def NOTHING_def AMBIGUOUS_def)
    qed
  qed
qed

section \<open>The search as a choice among candidates\<close>

partial_function (option) dolist :: "mush \<Rightarrow> dbref \<Rightarrow> dbref list option" where
  "dolist s x = (if \<not> GoodObject s x then Some [] else Option.bind (dolist s (Next s x)) (\<lambda>xs. Some (x # xs)))"

declare dolist.simps [code]

fun candidates :: "mush \<Rightarrow> (bool \<times> dbref) list \<Rightarrow> dbref list option" where
  "candidates s [] = Some []"
| "candidates s ((c, start) # rest) =
     (if \<not> c then candidates s rest
      else Option.bind (dolist s start) (\<lambda>xs. map_option ((@) xs) (candidates s rest)))"

fun match_seq :: "server \<Rightarrow> mush \<Rightarrow> mquery \<Rightarrow> dbref list \<Rightarrow> mstate \<Rightarrow> mstate option" where
  "match_seq sv s q [] st = Some st"
| "match_seq sv s q (x # xs) st =
     Option.bind (match_one sv s q x st) (\<lambda>(st, leave). if leave then Some st else match_seq sv s q xs st)"

lemma dolist_good: "dolist s x = Some xs \<Longrightarrow> \<forall>y \<in> set xs. GoodObject s y"
proof (induction xs arbitrary: x)
  case (Cons y ys)
  then show ?case by (subst (asm) (2) dolist.simps) (auto simp: bind_eq_Some_conv split: if_splits)
qed simp

lemma match_list_seq: "dolist s x = Some xs \<Longrightarrow> match_list sv s q x st = match_seq sv s q xs st"
proof (induction xs arbitrary: x st)
  case Nil
  then have "\<not> GoodObject s x" by (subst (asm) dolist.simps) (auto simp: bind_eq_Some_conv split: if_splits)
  then show ?case by (subst match_list.simps) simp
next
  case (Cons y ys)
  then have x: "GoodObject s x" "y = x" "dolist s (Next s x) = Some ys" by (subst (asm) (2) dolist.simps, auto simp: bind_eq_Some_conv split: if_splits)+
  have "match_list sv s q (Next s x) = match_seq sv s q ys" using Cons.IH [OF x(3)] by blast
  then show ?case using x(1,2) by (subst match_list.simps) (simp cong: if_cong)
qed

lemma matched_done: "matched sv s q full x st = Some (st', leave) \<Longrightarrow> ms_done st' = (ms_done st \<or> leave)"
proof -
  assume "matched sv s q full x st = Some (st', leave)"
  then obtain c where c: "match_controls sv s q x = Some c" by (auto simp: matched_def bind_eq_Some_conv)
  with \<open>matched _ _ _ _ _ _ = _\<close> show ?thesis
    by (cases c; cases "mq_final q = 0") (auto simp: matched_def Let_def split: if_splits)
qed

lemma match_one_done: "match_one sv s q x st = Some (st', leave) \<Longrightarrow> ms_done st' = (ms_done st \<or> leave)"
  by (auto simp: match_one_def bind_eq_Some_conv matched_done split: if_splits)

lemma match_seq_append:
  "\<not> ms_done st \<Longrightarrow> match_seq sv s q (xs @ ys) st =
     Option.bind (match_seq sv s q xs st) (\<lambda>st. if ms_done st then Some st else match_seq sv s q ys st)"
proof (induction xs arbitrary: st)
  case (Cons x xs)
  show ?case
  proof (cases "match_one sv s q x st")
    case (Some r)
    obtain st1 leave where r: "r = (st1, leave)" by (cases r)
    with Some Cons.prems have d: "ms_done st1 = leave" using match_one_done by auto
    show ?thesis using Cons.IH [of st1] d by (simp add: Some r)
  qed simp
qed simp

lemma match_lists_seq:
  "candidates s ls = Some xs \<Longrightarrow> \<not> ms_done st \<Longrightarrow> match_lists sv s q ls st = match_seq sv s q xs st"
proof (induction s ls arbitrary: st xs rule: candidates.induct)
  case (2 s c start rest)
  show ?case
  proof (cases c)
    case True
    with "2.prems"(1) obtain as bs where xs: "dolist s start = Some as" "candidates s rest = Some bs" "xs = as @ bs"
      by (auto simp: bind_eq_Some_conv)
    have "match_lists sv s q rest st' = (if ms_done st' then Some st' else match_seq sv s q bs st')" for st'
    proof (cases "ms_done st'")
      case True
      have "match_lists sv s q ls st' = Some st'" for ls by (induction ls) (auto simp: True)
      with True show ?thesis by simp
    qed (use "2.IH"(2) xs(1,2) \<open>c\<close> in auto)
    then have "match_lists sv s q rest = (\<lambda>st'. if ms_done st' then Some st' else match_seq sv s q bs st')" by blast
    with True "2.prems"(2) show ?thesis by (simp add: match_list_seq [OF xs(1)] xs(3) match_seq_append)
  next
    case False
    with "2.prems" "2.IH"(1) show ?thesis by simp
  qed
qed simp

text \<open>What an object is to a query, the best match so far aside.\<close>

datatype match_kind = Unmatched | Uncontrolled | Full | Partial

definition name_kind :: "server \<Rightarrow> mush \<Rightarrow> mquery \<Rightarrow> dbref \<Rightarrow> bool option option" where
  "name_kind sv s q x =
     (if \<not> match_type s q x then Some None
      else if x = mq_abs q then Some (Some True)
      else map_option
        (\<lambda>i. if \<not> i then None
             else if match_aliases sv s x (mq_name q) \<or> \<not> IsExit s x \<and> strcasecmp (Name s x) (mq_name q) = 0 then Some True
             else if \<not> mat (mq_flags q) MAT_EXACT \<and> \<not> IsExit s x \<and> string_match (Some (Name s x)) (Some (mq_name q)) \<noteq> None
             then Some False else None)
        (can_interact sv s x (mq_who q)))"

definition match_kind :: "server \<Rightarrow> mush \<Rightarrow> mquery \<Rightarrow> dbref \<Rightarrow> match_kind option" where
  "match_kind sv s q x =
     Option.bind (name_kind sv s q x)
       (\<lambda>k. case k of
              None \<Rightarrow> Some Unmatched
            | Some full \<Rightarrow> map_option (\<lambda>c. if \<not> c then Uncontrolled else if full then Full else Partial) (match_controls sv s q x))"

definition of_kind :: "server \<Rightarrow> mush \<Rightarrow> mquery \<Rightarrow> match_kind list \<Rightarrow> dbref list \<Rightarrow> dbref list" where
  "of_kind sv s q ks xs = filter (\<lambda>x. \<exists>k \<in> set ks. match_kind sv s q x = Some k) xs"

text \<open>
  The decision, as the comment of \<open>match.c\<close> states it: a single full match, else, if there is no full match, a
  single partial match; several are ambiguous.  With a count, the match with that number.
\<close>

definition pick :: "bool \<Rightarrow> dbref list \<Rightarrow> dbref" where
  "pick newest xs = (if xs = [] then NOTHING else if length xs = 1 \<or> newest then last xs else AMBIGUOUS)"

definition match_spec :: "server \<Rightarrow> mush \<Rightarrow> mquery \<Rightarrow> dbref list \<Rightarrow> dbref" where
  "match_spec sv s q xs =
     (let full = of_kind sv s q [Full] xs; partial = of_kind sv s q [Partial] xs; both = of_kind sv s q [Full, Partial] xs
      in if mq_final q \<noteq> 0 then (if mq_final q \<le> length both then both ! (mq_final q - 1) else NOTHING)
         else pick (mat (mq_flags q) MAT_LAST) (if full \<noteq> [] then full else partial))"

definition start_state :: "dbref \<Rightarrow> bool \<Rightarrow> mstate" where
  "start_state best nocontrol =
     \<lparr>ms_bestmatch = best, ms_curr = 0, ms_exact = False, ms_nocontrol = nocontrol, ms_right_type = 0, ms_done = False\<rparr>"

text \<open>One object, when the search compares by name only.\<close>

lemma choose_last: "\<not> mat flags MAT_CHECK_KEYS \<Longrightarrow> GoodObject s b \<Longrightarrow> choose_thing sv s who NOTYPE flags a b = Some b"
  by (simp add: choose_thing_def)

lemma match_one_kind:
  assumes "mq_type q = NOTYPE" "\<not> mat (mq_flags q) MAT_CHECK_KEYS" "GoodObject s x" "match_kind sv s q x = Some k" "mq_final q = 0"
    and "ms_exact st \<Longrightarrow> GoodObject s (ms_bestmatch st)"
  shows "match_one sv s q x st = Some
     (if k = Full then st\<lparr>ms_bestmatch := x, ms_exact := True, ms_curr := (if ms_exact st then ms_curr st + 1 else 1),
                          ms_right_type := (if ms_exact st then ms_right_type st else 0)\<rparr>
      else if k = Partial \<and> \<not> ms_exact st then st\<lparr>ms_bestmatch := x, ms_curr := ms_curr st + 1\<rparr>
      else if k = Uncontrolled \<and> (name_kind sv s q x = Some (Some True) \<or> \<not> ms_exact st) then st\<lparr>ms_nocontrol := True\<rparr>
      else st, False)"
proof -
  obtain n where n: "name_kind sv s q x = Some n"
    "(case n of None \<Rightarrow> Some Unmatched
      | Some full \<Rightarrow> map_option (\<lambda>c. if \<not> c then Uncontrolled else if full then Full else Partial) (match_controls sv s q x)) = Some k"
    using assms(4) by (auto simp: match_kind_def bind_eq_Some_conv)
  have m: "matched sv s q full x st = Some
     (if \<not> c then (st\<lparr>ms_nocontrol := True\<rparr>, False)
      else (if full \<and> \<not> ms_exact st then st\<lparr>ms_bestmatch := x, ms_exact := True, ms_curr := 1, ms_right_type := 0\<rparr>
            else st\<lparr>ms_bestmatch := x, ms_curr := ms_curr st + 1\<rparr>, False))"
    if "match_controls sv s q x = Some c" for full c
    using that assms choose_last [OF assms(2,3)] by (auto simp: matched_def Let_def)
  show ?thesis
  proof (cases n)
    case None
    then have "k = Unmatched" using n(2) by simp
    with None n(1) show ?thesis unfolding match_one_def name_kind_def by (auto split: if_splits)
  next
    case (Some full)
    then obtain c where c: "match_controls sv s q x = Some c" "k = (if \<not> c then Uncontrolled else if full then Full else Partial)"
      using n(2) by auto
    have "match_one sv s q x st = (if full \<or> \<not> ms_exact st then matched sv s q full x st else Some (st, False))"
      using n(1) assms(6) unfolding Some match_one_def name_kind_def by (auto split: if_splits)
    with m [OF c(1)] c(2) n(1) Some show ?thesis by auto
  qed
qed

text \<open>The whole search, when the comparison is by name only.\<close>

lemma of_kind_simps [simp]: "of_kind sv s q ks [] = []"
  "of_kind sv s q ks (x # xs) = (if \<exists>k \<in> set ks. match_kind sv s q x = Some k then x # of_kind sv s q ks xs else of_kind sv s q ks xs)"
  by (simp_all add: of_kind_def)

lemma match_seq_names:
  assumes "mq_type q = NOTYPE" "\<not> mat (mq_flags q) MAT_CHECK_KEYS" "mq_final q = 0"
  shows "\<forall>x \<in> set xs. GoodObject s x \<and> match_kind sv s q x \<noteq> None \<Longrightarrow> (ms_exact st \<Longrightarrow> GoodObject s (ms_bestmatch st)) \<Longrightarrow>
    \<exists>st'. match_seq sv s q xs st = Some st' \<and>
      (let full = of_kind sv s q [Full] xs; partial = of_kind sv s q [Partial] xs in
       if ms_exact st \<or> full \<noteq> [] then
         ms_exact st' \<and> ms_curr st' = (if ms_exact st then ms_curr st else 0) + length full
         \<and> ms_bestmatch st' = (if full = [] then ms_bestmatch st else last full)
         \<and> ms_right_type st' = (if ms_exact st then ms_right_type st else 0)
       else \<not> ms_exact st' \<and> ms_curr st' = ms_curr st + length partial
         \<and> ms_bestmatch st' = (if partial = [] then ms_bestmatch st else last partial)
         \<and> ms_right_type st' = ms_right_type st)"
proof (induction xs arbitrary: st)
  case (Cons x xs)
  obtain k where k: "match_kind sv s q x = Some k" "GoodObject s x" using Cons.prems(1) by auto
  note one = match_one_kind [OF assms(1,2) k(2,1) assms(3) Cons.prems(2)]
  obtain st1 where st1: "match_one sv s q x st = Some (st1, False)"
    "ms_exact st1 = (ms_exact st \<or> k = Full)"
    "ms_curr st1 = (if k = Full then (if ms_exact st then ms_curr st + 1 else 1) else if k = Partial \<and> \<not> ms_exact st then ms_curr st + 1 else ms_curr st)"
    "ms_bestmatch st1 = (if k = Full \<or> k = Partial \<and> \<not> ms_exact st then x else ms_bestmatch st)"
    "ms_right_type st1 = (if k = Full \<and> \<not> ms_exact st then 0 else ms_right_type st)"
    using one by (auto split: if_splits)
  have "ms_exact st1 \<Longrightarrow> GoodObject s (ms_bestmatch st1)" using st1 k(2) Cons.prems(2) by auto
  with Cons.IH [of st1] Cons.prems(1) obtain st' where st': "match_seq sv s q xs st1 = Some st'"
    "let full = of_kind sv s q [Full] xs; partial = of_kind sv s q [Partial] xs in
       if ms_exact st1 \<or> full \<noteq> [] then
         ms_exact st' \<and> ms_curr st' = (if ms_exact st1 then ms_curr st1 else 0) + length full
         \<and> ms_bestmatch st' = (if full = [] then ms_bestmatch st1 else last full)
         \<and> ms_right_type st' = (if ms_exact st1 then ms_right_type st1 else 0)
       else \<not> ms_exact st' \<and> ms_curr st' = ms_curr st1 + length partial
         \<and> ms_bestmatch st' = (if partial = [] then ms_bestmatch st1 else last partial)
         \<and> ms_right_type st' = ms_right_type st1" by auto
  show ?case
    using st1 st' k(1) by (intro exI [of _ st']) (cases k; cases "ms_exact st"; auto simp: Let_def split: if_splits)
qed simp

lemma match_seq_count:
  assumes "mq_final q \<noteq> 0"
  shows "\<forall>x \<in> set xs. GoodObject s x \<and> match_kind sv s q x \<noteq> None \<Longrightarrow> \<not> ms_exact st \<Longrightarrow> ms_curr st < mq_final q \<Longrightarrow>
    \<exists>st'. match_seq sv s q xs st = Some st' \<and>
      (let both = of_kind sv s q [Full, Partial] xs in
       if mq_final q \<le> ms_curr st + length both then ms_bestmatch st' = both ! (mq_final q - ms_curr st - 1)
       else ms_bestmatch st' = ms_bestmatch st)"
proof (induction xs arbitrary: st)
  case (Cons x xs)
  obtain k where k: "match_kind sv s q x = Some k" "GoodObject s x" using Cons.prems(1) by auto
  show ?case
  proof (cases "k = Full \<or> k = Partial")
    case True
    obtain full where n: "name_kind sv s q x = Some (Some full)" "match_controls sv s q x = Some True"
      using k(1) True by (auto simp: match_kind_def bind_eq_Some_conv split: option.splits if_splits)
    then have "match_one sv s q x st = matched sv s q full x st"
      using Cons.prems(2) unfolding match_one_def name_kind_def by (auto split: if_splits)
    with n(2) assms have one: "match_one sv s q x st =
        Some (if ms_curr st + 1 = mq_final q then (st\<lparr>ms_curr := ms_curr st + 1, ms_bestmatch := x, ms_done := True\<rparr>, True)
              else (st\<lparr>ms_curr := ms_curr st + 1\<rparr>, False))"
      by (simp add: matched_def Let_def)
    show ?thesis
    proof (cases "ms_curr st + 1 = mq_final q")
      case True
      with one k(1) \<open>k = Full \<or> k = Partial\<close> show ?thesis by auto
    next
      case False
      with Cons.IH [of "st\<lparr>ms_curr := ms_curr st + 1\<rparr>"] Cons.prems one k(1) \<open>k = Full \<or> k = Partial\<close> show ?thesis
        by (auto simp: Let_def nth_Cons' split: if_splits)
    qed
  next
    case False
    have "\<exists>st1. match_one sv s q x st = Some (st1, False) \<and> ms_curr st1 = ms_curr st \<and> ms_exact st1 = ms_exact st \<and> ms_bestmatch st1 = ms_bestmatch st"
    proof (cases "name_kind sv s q x")
      case (Some n)
      show ?thesis
      proof (cases n)
        case None
        with Some show ?thesis unfolding match_one_def name_kind_def by (auto split: if_splits)
      next
        case (Some full)
        have "match_controls sv s q x = Some False"
          using k(1) False Some \<open>name_kind sv s q x = Some n\<close> by (auto simp: match_kind_def bind_eq_Some_conv split: if_splits)
        then have "matched sv s q full x st = Some (st\<lparr>ms_nocontrol := True\<rparr>, False)" by (simp add: matched_def)
        moreover have "match_one sv s q x st = matched sv s q full x st"
          using Cons.prems(2) \<open>name_kind sv s q x = Some n\<close> unfolding Some match_one_def name_kind_def by (auto split: if_splits)
        ultimately show ?thesis by simp
      qed
    qed (use k(1) in \<open>simp add: match_kind_def\<close>)
    then obtain st1 where st1: "match_one sv s q x st = Some (st1, False)" "ms_curr st1 = ms_curr st" "ms_exact st1 = ms_exact st"
      "ms_bestmatch st1 = ms_bestmatch st" by blast
    with Cons.IH [of st1] Cons.prems k(1) False show ?thesis by (auto simp: Let_def)
  qed
qed simp

text \<open>The query the search goes through the lists with.\<close>

definition search_query :: "server \<Rightarrow> dbref \<Rightarrow> string \<Rightarrow> 32 word \<Rightarrow> mat_flags \<Rightarrow> mquery" where
  "search_query sv who xname type flags =
     (let (name, flags', final) = (if mat flags MAT_ENGLISH then parse_english xname flags else (xname, flags, 0))
      in \<lparr>mq_who = who, mq_type = type, mq_flags = flags', mq_name = name, mq_abs = sv_parse_objid sv xname, mq_final = final\<rparr>)"

lemma match_result_search:
  assumes "match_early sv s \<lparr>mq_who = who, mq_type = type, mq_flags = flags, mq_name = xname, mq_abs = sv_parse_objid sv xname, mq_final = 0\<rparr> w xname
      = Some (Inr (best, nc))" "RealGoodObject s w \<or> \<not> mat flags (MAT_NEAR OR MAT_CONTENTS)" "q = search_query sv who xname type flags"
    and "match_lists sv s q (match_starts sv s q w) (start_state best nc) = Some st"
  shows "match_result_internal sv s who w xname type flags =
    Some (match_decide s q st, match_complain s who (mq_flags q) (match_decide s q st) (ms_nocontrol st))"
proof -
  obtain name flags' final where e: "(if mat flags MAT_ENGLISH then parse_english xname flags else (xname, flags, 0)) = (name, flags', final)"
    by (metis prod_cases3)
  have q: "q = \<lparr>mq_who = who, mq_type = type, mq_flags = flags', mq_name = name, mq_abs = sv_parse_objid sv xname, mq_final = final\<rparr>"
    unfolding assms(3) search_query_def e by simp
  show ?thesis
    using assms(1,2,4) unfolding match_result_internal_def Let_def e q start_state_def by auto
qed


lemma keys_step:
  assumes "mq_type q = of_nat TYPE_EXIT" "mat (mq_flags q) MAT_CHECK_KEYS" "mq_final q = 0" "GoodObject s x" "match_kind sv s q x = Some Full"
    and "choose_thing sv s (mq_who q) (mq_type q) (mq_flags q) (ms_bestmatch st) x = Some best" "IsExit s x"
  shows "match_one sv s q x st = Some
     (let st = st\<lparr>ms_bestmatch := best\<rparr> in
      if best \<noteq> x then st
      else if ms_exact st then st\<lparr>ms_curr := ms_curr st + 1, ms_right_type := ms_right_type st + 1\<rparr>
      else st\<lparr>ms_exact := True, ms_curr := 1, ms_right_type := 1\<rparr>, False)"
proof -
  have n: "name_kind sv s q x = Some (Some True)" "match_controls sv s q x = Some True"
    using assms(5) by (auto simp: match_kind_def bind_eq_Some_conv split: option.splits if_splits)
  then have "match_one sv s q x st = matched sv s q True x st" unfolding match_one_def name_kind_def by (auto split: if_splits)
  moreover have "Typeof s x AND of_nat TYPE_EXIT \<noteq> 0" "(of_nat TYPE_EXIT :: 32 word) \<noteq> NOTYPE"
    using assms(7) by (auto simp: IsExit_def is_type_def TYPE_EXIT_def NOTYPE_def)
  ultimately show ?thesis using n(2) assms by (simp add: matched_def Let_def)
qed

text \<open>With \<open>MAT_CHECK_KEYS\<close>, as players move, whether a name is ambiguous depends on the order of the exits.  Of
  two exits with the same name, of which the mover can pass only the second, the matcher takes the second if it
  comes first on the list; but if the exit that cannot be passed comes first, it counts both and answers that the
  name is ambiguous.\<close>

theorem exit_order_matters:
  assumes "mq_type q = of_nat TYPE_EXIT" "mat (mq_flags q) MAT_CHECK_KEYS" "\<not> mat (mq_flags q) MAT_LAST" "mq_final q = 0"
    and "GoodObject s a" "GoodObject s b" "a \<noteq> b" "IsExit s a" "IsExit s b" "match_kind sv s q a = Some Full" "match_kind sv s q b = Some Full"
    and "could_doit sv s (mq_who q) a = Some False" "could_doit sv s (mq_who q) b = Some True"
  shows "(dolist s x = Some [a, b] \<longrightarrow> map_option (match_decide s q) (match_list sv s q x (start_state NOTHING nc)) = Some AMBIGUOUS)
    \<and> (dolist s x = Some [b, a] \<longrightarrow> map_option (match_decide s q) (match_list sv s q x (start_state NOTHING nc)) = Some b)"
proof -
  have none: "\<not> GoodObject s NOTHING" by (simp add: GoodObject_def NOTHING_def)
  have first: "choose_thing sv s (mq_who q) (mq_type q) (mq_flags q) NOTHING y = Some y" if "GoodObject s y" for y
    using that none by (simp add: choose_thing_def)
  have type: "Typeof s a AND of_nat TYPE_EXIT \<noteq> 0" "Typeof s b AND of_nat TYPE_EXIT \<noteq> 0"
    using assms(8,9) by (auto simp: IsExit_def is_type_def TYPE_EXIT_def)
  have ab: "choose_thing sv s (mq_who q) (mq_type q) (mq_flags q) a b = Some b" "choose_thing sv s (mq_who q) (mq_type q) (mq_flags q) b a = Some b"
    using assms type by (simp_all add: choose_thing_def)
  show ?thesis
    using assms none first [OF assms(5)] first [OF assms(6)] ab
    by (auto simp: match_list_seq keys_step start_state_def match_decide_def)
qed

lemma parent_chain_steps:
  "\<not> GoodObject s p \<Longrightarrow> parent_chain s thing type anc p k a = Inr (k, a)"
  "GoodObject s p \<Longrightarrow> k \<le> 100 \<Longrightarrow> find_lock type (Locks s p) = Some ll \<Longrightarrow>
     parent_chain s thing type anc p k a = Inl (if p \<noteq> thing \<and> has_lf ll LF_PRIVATE then None else Some ll)"
  "GoodObject s p \<Longrightarrow> k \<le> 100 \<Longrightarrow> find_lock type (Locks s p) = None \<Longrightarrow>
     parent_chain s thing type anc p k a = parent_chain s thing type anc (Parent s p) (k + 1) (p = anc \<or> a)"
  by (subst parent_chain.simps; simp add: Let_def)+

lemma getlockstruct_own: "GoodObject s thing \<Longrightarrow> find_lock type (Locks s thing) = Some ll \<Longrightarrow> getlockstruct sv s thing type = Some ll"
  by (simp add: getlockstruct_def lock_rounds.simps [of _ _ _ _ _ thing] parent_chain_steps(2))

section \<open>Sample databases\<close>

definition sample_server :: server where
  "sample_server =
     \<lparr>sv_world = sample_world, sv_steps = 20, sv_ancestor_room = NOTHING, sv_ancestor_exit = NOTHING, sv_ancestor_thing = NOTHING,
      sv_ancestor_player = NOTHING, sv_zone_control_zmp = True, sv_master_room = NOTHING, sv_player_start = 0, sv_mudtime = 100,
      sv_parse = (\<lambda>p. sample_env), sv_good_atr_name = (\<lambda>s. True), sv_parse_objid = (\<lambda>s. NOTHING), sv_lookup_player = (\<lambda>s. NOTHING),
      sv_visible_short_page = (\<lambda>p s. NOTHING), sv_alias = (\<lambda>d. None), sv_can_interact_first = (\<lambda>a b. NOTHING),
      sv_can_interact_last = (\<lambda>a b. NOTHING)\<rparr>"

definition sample_object :: "string \<Rightarrow> nat \<Rightarrow> dbref \<Rightarrow> dbref \<Rightarrow> dbref \<Rightarrow> dbref \<Rightarrow> object" where
  "sample_object name t loc contents exits next_obj =
     no_object\<lparr>obj_name := name, obj_type := of_nat t, obj_location := loc, obj_contents := contents, obj_exits := exits,
       obj_next := next_obj, obj_owner := 1\<rparr>"

text \<open>A room with a wizard who holds two balls, and two exits; the first one leads nowhere.\<close>

definition sample_db :: "object list" where
  "sample_db =
     [sample_object ''Hall'' TYPE_ROOM NOTHING 1 2 NOTHING, sample_object ''One'' TYPE_PLAYER 0 4 0 NOTHING,
      sample_object ''north'' TYPE_EXIT NOTHING NOTHING 0 3, sample_object ''north'' TYPE_EXIT 0 NOTHING 0 NOTHING,
      sample_object ''red ball'' TYPE_THING 1 NOTHING 0 5, sample_object ''blue ball'' TYPE_THING 1 NOTHING 0 NOTHING]"

definition sample_mush :: "object list \<Rightarrow> mush" where
  "sample_mush obs = \<lparr>db = obs, lock_names = st_init, htab_locks = Map.empty, notices = []\<rparr>"

definition swapped_db :: "object list" where
  "swapped_db = sample_db[2 := sample_object ''north'' TYPE_EXIT NOTHING NOTHING 0 NOTHING, 3 := sample_object ''north'' TYPE_EXIT 0 NOTHING 0 2]"

lemmas sample_defs = sample_server_def sample_object_def sample_db_def sample_mush_def swapped_db_def no_object_def NOTHING_def
  TYPE_ROOM_def TYPE_PLAYER_def TYPE_EXIT_def TYPE_THING_def TYPE_MARKED_def TYPE_GARBAGE_def NOTYPE_def

lemmas db_defs = GoodObject_def obj_def Typeof_def is_type_def IsRoom_def IsExit_def IsPlayer_def IsThing_def IsGarbage_def RealGoodObject_def
  has_flag_def has_power_def Guest_def Wizard_def God_def GOD_def Orphan_def

lemma sample_controls: "0 \<le> sint x \<Longrightarrow> sint x < 6 \<Longrightarrow> controls sample_server (sample_mush sample_db) 1 x = Some True"
  "0 \<le> sint x \<Longrightarrow> sint x < 6 \<Longrightarrow> controls sample_server (sample_mush swapped_db) 1 x = Some True"
  by (simp_all add: controls_def sample_defs db_defs)

definition exit_query :: mquery where
  "exit_query = search_query sample_server 1 ''north'' (of_nat TYPE_EXIT) (MAT_EXIT OR MAT_CHECK_KEYS OR MAT_TYPE)"

lemma exit_query: "exit_query = \<lparr>mq_who = 1, mq_type = 4, mq_flags = 0x100801, mq_name = ''north'', mq_abs = - 1, mq_final = 0\<rparr>"
  by (simp add: exit_query_def search_query_def mat_def MAT_EXIT_def MAT_CHECK_KEYS_def MAT_TYPE_def MAT_ENGLISH_def sample_defs)

lemma sample_exits:
  assumes "s = sample_mush sample_db \<or> s = sample_mush swapped_db"
  shows "GoodObject s 2" "GoodObject s 3" "IsExit s 2" "IsExit s 3" "match_kind sample_server s exit_query 2 = Some Full"
    "match_kind sample_server s exit_query 3 = Some Full" "could_doit sample_server s 1 2 = Some False" "could_doit sample_server s 1 3 = Some True"
proof -
  have c: "controls sample_server s 1 2 = Some True" "controls sample_server s 1 3 = Some True" using assms sample_controls by auto
  show exits: "GoodObject s 2" "GoodObject s 3" "IsExit s 2" "IsExit s 3" using assms by (auto simp: sample_defs db_defs)
  have check: "check_alias ''north'' ''north''" by code_simp
  have n: "Name s 2 = ''north''" "Name s 3 = ''north''" "Typeof s 2 = 4" "Typeof s 3 = 4" "\<not> IsGarbage s 1" "\<not> IsGarbage s 2" "\<not> IsGarbage s 3"
    "\<not> IsRoom s 1" "\<not> IsRoom s 2" "\<not> IsRoom s 3" "Location s 1 = 0" "Location s 2 = - 1" "Location s 3 = 0"
    using assms by (auto simp: sample_defs db_defs)
  show "match_kind sample_server s exit_query 2 = Some Full" "match_kind sample_server s exit_query 3 = Some Full"
    using n c exits check
    by (simp_all add: match_kind_def name_kind_def match_type_def match_controls_def can_interact_def match_aliases_def exit_query mat_def MAT_CONTROL_def
        MAT_TYPE_def sample_server_def)
  show "could_doit sample_server s 1 2 = Some False" using n by (simp add: could_doit_def NOTHING_def)
  have "Locks s 3 = []" "Parent s 3 = NOTHING" "\<not> GoodObject s NOTHING" "Ancestor_Parent sample_server s 3 = NOTHING"
    using assms by (auto simp: sample_defs db_defs Ancestor_Parent_def)
  then have "getlock sample_server s 3 ''Basic'' = None"
    using exits(2) by (simp add: getlock_def getlockstruct_def lock_rounds.simps [of _ _ _ _ _ 3] parent_chain_steps)
  moreover have "GoodObject s 1" using assms by (auto simp: sample_defs db_defs)
  ultimately show "could_doit sample_server s 1 3 = Some True"
    using n by (simp add: could_doit_def NOTHING_def eval_lock_def eval_lock_with_def eval_boolexp.simps [of _ _ _ _ None] lock_world_def
        sample_server_def sample_world_def passes_def)
qed

lemma exit_order_matters_witness:
  "map_option (match_decide (sample_mush sample_db) exit_query)
     (match_list sample_server (sample_mush sample_db) exit_query 2 (start_state NOTHING False)) = Some AMBIGUOUS
   \<and> map_option (match_decide (sample_mush swapped_db) exit_query)
     (match_list sample_server (sample_mush swapped_db) exit_query 3 (start_state NOTHING False)) = Some 3"
proof -
  have q: "mq_type exit_query = of_nat TYPE_EXIT" "mat (mq_flags exit_query) MAT_CHECK_KEYS" "\<not> mat (mq_flags exit_query) MAT_LAST"
    "mq_final exit_query = 0" "mq_who exit_query = 1"
    by (simp_all add: exit_query mat_def MAT_CHECK_KEYS_def MAT_LAST_def TYPE_EXIT_def)
  have "dolist (sample_mush sample_db) 2 = Some [2, 3]" "dolist (sample_mush swapped_db) 3 = Some [3, 2]"
    by (subst dolist.simps, subst dolist.simps, subst dolist.simps, simp add: sample_defs db_defs)+
  moreover note exit_order_matters [OF q(1-4) sample_exits(1,2) _ sample_exits(3-6), unfolded q(5), OF _ _ _ _ _ _ _ sample_exits(7,8)]
  ultimately show ?thesis by simp
qed


end
