(* ===== verification/Mush_Lock_Cmd.thy ===== *)
theory Mush_Lock_Cmd
  imports Mush_Lock_Correct Mush_Match_Correct
begin

text \<open>
  The commands on locks: \<open>@lock\<close>, \<open>@unlock\<close> and \<open>@lset\<close> (\<open>do_lock\<close>, \<open>do_unlock\<close>, \<open>do_lset\<close> of \<open>lock.c\<close>), from the
  text the player types to the bytecode of the lock that is evaluated, and the lock of a zone.
\<close>

section \<open>Definitions\<close>

text \<open>The name of the lock a type stands for, or the message that there is none.\<close>

definition check_lock_type :: "server \<Rightarrow> mush \<Rightarrow> dbref \<Rightarrow> dbref \<Rightarrow> string \<Rightarrow> bool \<Rightarrow> string option \<times> mush" where
  "check_lock_type sv s player thing name silent =
     (let complain = (\<lambda>msg. (None, if silent then s else add_notice (Notify player msg) s)) in
      if name = [] then (Some ''Basic'', s)
      else
        case match_lock s name of
          Some ll \<Rightarrow> (Some ll, s)
        | None \<Rightarrow>
            if getlock sv s thing name \<noteq> None then (Some name, s)
            else if \<not> string_prefix (Some name) (Some ''User:'') then complain ''Unknown lock type.''
            else if CHR ''|'' \<in> set name then complain ''The character '|' may not be used in lock names.''
            else
              let colon = tl (dropWhile (\<lambda>c. c \<noteq> CHR '':'') name) in
              if \<not> sv_good_atr_name sv (strupper (Some colon)) then complain ''That is not a valid lock name.''
              else (Some colon, s))"

text \<open>The parser of keys, with the tables of this database.\<close>

definition lock_parse_env :: "server \<Rightarrow> mush \<Rightarrow> dbref \<Rightarrow> string \<Rightarrow> parse_env" where
  "lock_parse_env sv s player ltype =
     (sv_parse sv player)\<lparr>px_loading_db := False, px_good_object := GoodObject s, px_match_lock := match_lock s, px_ltype := ltype\<rparr>"

definition touch :: "server \<Rightarrow> mush \<Rightarrow> dbref \<Rightarrow> mush" where
  "touch sv s thing = (if \<not> IsPlayer s thing then set_ModTime s thing (sv_mudtime sv) else s)"

definition tell_lock :: "dbref \<Rightarrow> dbref \<Rightarrow> string \<Rightarrow> string \<Rightarrow> mush \<Rightarrow> mush" where
  "tell_lock player thing real_type what s =
     (if \<not> AreQuiet s player thing then add_notice (Notify_lock player thing real_type what) s else s)"

definition do_unlock :: "server \<Rightarrow> dbref \<Rightarrow> string \<Rightarrow> string \<Rightarrow> mush \<Rightarrow> mush option" where
  "do_unlock sv player name type s =
     (if CHR ''/'' \<in> set name then Some (add_notice (Do_atrlock player name ''off'') s)
      else
        Option.bind (match_controlled sv s player name)
          (\<lambda>(thing, s).
             if thing = NOTHING then Some s
             else
               case check_lock_type sv s player thing type False of
                 (None, s) \<Rightarrow> Some s
               | (Some real_type, s) \<Rightarrow>
                   if getlock sv s thing real_type = None then Some (tell_lock player thing real_type ''(already) unlocked'' s)
                   else
                     map_option
                       (\<lambda>(ok, s). if ok then touch sv (tell_lock player thing real_type ''unlocked'' s) thing
                                  else add_notice (Notify player ''Permission denied.'') s)
                       (delete_lock player thing real_type s)))"

definition do_lock :: "server \<Rightarrow> dbref \<Rightarrow> string \<Rightarrow> string \<Rightarrow> string \<Rightarrow> mush \<Rightarrow> mush option" where
  "do_lock sv player name keyname type s =
     (if CHR ''/'' \<in> set name then Some (add_notice (Do_atrlock player name ''on'') s)
      else if keyname = [] then do_unlock sv player name type s
      else
        Option.bind (match_result sv s player name NOTYPE MAT_EVERYTHING)
          (\<lambda>(thing, s).
             if thing = NOTHING then Some (add_notice (Notify player ''I don't see what you want to lock!'') s)
             else if thing = AMBIGUOUS then Some (add_notice (Notify player ''I don't know which one you want to lock!'') s)
             else
               Option.bind (controls sv s player thing)
                 (\<lambda>c. if \<not> c then Some (add_notice (Notify player ''You can't lock that!'') s)
                      else if IsGarbage s thing then Some (add_notice (Notify player ''Why would you want to lock garbage?'') s)
                      else
                        Option.bind (parse_boolexp_d (lock_parse_env sv s player type) keyname)
                          (\<lambda>key.
                             if key = None then Some (add_notice (Notify player ''I don't understand that key.'') s)
                             else
                               case check_lock_type sv s player thing type False of
                                 (None, s) \<Rightarrow> Some s
                               | (Some real_type, s) \<Rightarrow>
                                   map_option
                                     (\<lambda>(ok, s). if ok then touch sv (tell_lock player thing real_type ''locked'' s) thing
                                                else add_notice (Notify player ''Permission denied.'') s)
                                     (add_lock sv player thing real_type key LF_DEFAULT s)))))"

definition do_lset :: "server \<Rightarrow> dbref \<Rightarrow> string \<Rightarrow> string \<Rightarrow> mush \<Rightarrow> mush option" where
  "do_lset sv player what flags s =
     (if CHR ''/'' \<notin> set what then Some (add_notice (Notify player ''No lock name given.'') s)
      else
        let obj_name = takeWhile (\<lambda>c. c \<noteq> CHR ''/'') what; lname = tl (dropWhile (\<lambda>c. c \<noteq> CHR ''/'') what) in
        Option.bind (match_controlled sv s player obj_name)
          (\<lambda>(thing, s).
             if thing = NOTHING then Some s
             else
               let unset = (flags \<noteq> [] \<and> hd flags = CHR ''!''); flags = (if unset then tl flags else flags) in
               Option.bind (string_to_lockflag s player flags)
                 (\<lambda>f. case f of
                        None \<Rightarrow> Some (add_notice (Notify player ''Unrecognized lock flag.'') s)
                      | Some flag \<Rightarrow>
                          case getlockstruct_noparent s thing lname of
                            None \<Rightarrow> Some (add_notice (Notify player ''No such lock.'') s)
                          | Some l \<Rightarrow>
                              Option.bind (Can_Read_Lock sv s player thing (L_TYPE l))
                                (\<lambda>r. if \<not> r then Some (add_notice (Notify player ''No such lock.'') s)
                                     else if \<not> can_write_lock s player thing l then Some (add_notice (Notify player ''Permission denied.'') s)
                                     else
                                       let s = set_Locks s thing (update_lock lname
                                             (\<lambda>l. l\<lparr>L_FLAGS := (if unset then L_FLAGS l AND NOT flag else L_FLAGS l OR flag)\<rparr>) (Locks s thing));
                                           s = (if \<not> Quiet s player \<and> \<not> (Quiet s thing \<and> Owner s thing = player)
                                                then add_notice (Notify_lock player thing (L_TYPE l)
                                                       (if unset then ''lock flags unset'' else ''lock flags set'')) s
                                                else s)
                                       in Some (touch sv s thing)))))"

text \<open>The lock of a zone: one without a lock is locked to itself; the questions are put to \<open>noisy\<close> callers only.\<close>

definition check_zone_lock :: "server \<Rightarrow> dbref \<Rightarrow> dbref \<Rightarrow> bool \<Rightarrow> mush \<Rightarrow> mush option" where
  "check_zone_lock sv player zone noisy s =
     (if getlock sv s zone ''Zone'' = None then
        Option.bind (parse_boolexp_d (lock_parse_env sv s zone ''Zone'') ''=me'')
          (\<lambda>key. map_option
             (\<lambda>(ok, s). if noisy then add_notice (Notify_lock player zone ''Zone'' ''automatically zone-locking to itself'') s else s)
             (add_lock sv GOD zone ''Zone'' key LF_DEFAULT s))
      else if \<not> noisy then Some s
      else
        Option.bind (eval_lock sv s (Location s player) zone ''Zone'')
          (\<lambda>e. if \<not> e then Some s
               else
                 Option.bind (eval_lock sv s (sv_player_start sv) zone ''Zone'')
                   (\<lambda>a. Option.bind (if a then eval_lock sv s (sv_master_room sv) zone ''Zone'' else Some False)
                      (\<lambda>b. Some (add_notice (Notify_lock player zone ''Zone''
                            (if b then ''really should have a more secure zone-lock'' else ''may have loose zone lock'')) s)))))"

text \<open>The attributes that hold the failure messages of a lock.\<close>

definition lock_msgs :: "(string \<times> string) list" where
  "lock_msgs = [(''Basic'', ''FAILURE''), (''Enter'', ''EFAIL''), (''Use'', ''UFAIL''), (''Leave'', ''LFAIL'')]"

definition safe_format2 :: "string \<Rightarrow> string \<Rightarrow> string" where
  "safe_format2 a b = take (BUFFER_LEN - 1) (a @ b)"

definition fail_lock_atrs :: "string \<Rightarrow> string \<times> string \<times> string" where
  "fail_lock_atrs ltype =
     (let names =
        (case map_of lock_msgs ltype of
           Some failbase \<Rightarrow> (let oatr = safe_format2 ''O'' failbase in (failbase, oatr, CHR ''A'' # tl oatr))
         | None \<Rightarrow> (safe_format2 ltype ''_LOCK`FAILURE'', safe_format2 ltype ''_LOCK`OFAILURE'', safe_format2 ltype ''_LOCK`AFAILURE''))
      in (map UPCASE (fst names), map UPCASE (fst (snd names)), map UPCASE (snd (snd names))))"

end
