(* ===== verification/Mush_Lock_Cmd_Correct.thy ===== *)
theory Mush_Lock_Cmd_Correct
  imports Mush_Lock_Cmd Mush_Boolexp_Roundtrip
begin

text \<open>
  What the commands on locks do: only locks of objects under the player's control change, and only those the player
  may write; the key that is typed is the lock that is evaluated; \<open>@unlock\<close> of an inherited lock reports a success
  that has no effect.
\<close>

section \<open>What the messages and times do not change\<close>

definition same_objects :: "mush \<Rightarrow> mush \<Rightarrow> bool" where
  "same_objects s s' \<longleftrightarrow> (\<forall>x. GoodObject s' x = GoodObject s x \<and> (obj s' x)\<lparr>obj_mtime := 0\<rparr> = (obj s x)\<lparr>obj_mtime := 0\<rparr>)"

lemma same_objects_fields:
  assumes "same_objects s s'"
  shows "GoodObject s' = GoodObject s" "obj_locks (obj s' x) = obj_locks (obj s x)" "obj_parent (obj s' x) = obj_parent (obj s x)"
    "obj_type (obj s' x) = obj_type (obj s x)" "obj_flags (obj s' x) = obj_flags (obj s x)" "obj_owner (obj s' x) = obj_owner (obj s x)"
    "obj_name (obj s' x) = obj_name (obj s x)"
proof -
  have "(obj s' x)\<lparr>obj_mtime := 0\<rparr> = (obj s x)\<lparr>obj_mtime := 0\<rparr>" using assms by (simp add: same_objects_def)
  from arg_cong [OF this, of obj_locks] arg_cong [OF this, of obj_parent] arg_cong [OF this, of obj_type] arg_cong [OF this, of obj_flags]
    arg_cong [OF this, of obj_owner] arg_cong [OF this, of obj_name]
  show "obj_locks (obj s' x) = obj_locks (obj s x)" "obj_parent (obj s' x) = obj_parent (obj s x)"
    "obj_type (obj s' x) = obj_type (obj s x)" "obj_flags (obj s' x) = obj_flags (obj s x)" "obj_owner (obj s' x) = obj_owner (obj s x)"
    "obj_name (obj s' x) = obj_name (obj s x)" by simp_all
  show "GoodObject s' = GoodObject s" using assms by (auto simp: same_objects_def)
qed

lemma same_objects_parent_chain:
  "same_objects s s' \<Longrightarrow> parent_chain s' thing type anc p k a = parent_chain s thing type anc p k a"
proof (induction s thing type anc p k a rule: parent_chain.induct)
  case (1 s thing type anc p k a)
  note f = same_objects_fields [OF 1(2)]
  show ?case
    by (subst (1 2) parent_chain.simps) (use 1(1) [OF _ _ refl _ 1(2)] f in \<open>auto simp: Let_def split: option.splits\<close>)
qed

lemma same_objects_flags: "same_objects s s' \<Longrightarrow> has_flag s' x f = has_flag s x f" "same_objects s s' \<Longrightarrow> is_type s' x t = is_type s x t"
  using same_objects_fields [of s s'] by (simp_all add: has_flag_def IsGarbage_def is_type_def Typeof_def)

lemma same_objects_rounds:
  "same_objects s s' \<Longrightarrow> lock_rounds sv s' thing type anc p k a = lock_rounds sv s thing type anc p k a"
proof (induction sv s thing type anc p k a rule: lock_rounds.induct)
  case (1 sv s thing type anc p k a)
  note f = same_objects_fields [OF 1(2)] same_objects_parent_chain [OF 1(2)] same_objects_flags [OF 1(2)]
  show ?case
    by (subst (1 2) lock_rounds.simps) (use 1(1) [OF _ refl _ 1(2)] f in \<open>auto simp: Orphan_def split: sum.splits\<close>)
qed

lemma same_objects_getlock: "same_objects s s' \<Longrightarrow> getlock sv s' thing type = getlock sv s thing type"
  using same_objects_fields [of s s'] same_objects_flags [of s s'] same_objects_rounds [of s s']
  by (simp add: getlock_def getlockstruct_def Ancestor_Parent_def Orphan_def IsRoom_def IsExit_def IsPlayer_def IsThing_def)

lemma same_objects_refl [simp]: "same_objects s s" "same_objects s (add_notice n s)"
  by (simp_all add: same_objects_def)

lemma same_objects_touch [simp]: "same_objects s (touch sv s thing)" "same_objects s (tell_lock player thing rt what s)"
  by (auto simp: same_objects_def touch_def tell_lock_def set_ModTime_def obj_set_obj)

lemma same_objects_trans: "same_objects s s' \<Longrightarrow> same_objects s' s'' \<Longrightarrow> same_objects s s''"
  by (simp add: same_objects_def)

lemma touch_fields [simp]: "notices (touch sv s thing) = notices s" "Locks (touch sv s thing) x = Locks s x"
  "Locks (tell_lock player thing rt what s) x = Locks s x"
  by (auto simp: touch_def tell_lock_def set_ModTime_def obj_set_obj)

section \<open>What a match returns\<close>

lemma match_complain_state: "match_complain s who flags b nc = s \<or> \<not> GoodObject s b \<and> (\<exists>n. match_complain s who flags b nc = add_notice n s)"
  by (auto simp: match_complain_def)

lemma match_result_cases:
  assumes "match_result_internal sv s who w xname type flags = Some (x, s')"
  obtains (near) "x = NOTHING" "mat flags (MAT_NEAR OR MAT_CONTENTS)" "s' = s \<or> (\<exists>n. s' = add_notice n s)"
  | (early) "s' = s"
  | (search) name flags' final nc where
      "(if mat flags MAT_ENGLISH then parse_english xname flags else (xname, flags, 0)) = (name, flags', final)"
      "s' = match_complain s who flags' x nc"
proof (cases "mat flags (MAT_NEAR OR MAT_CONTENTS) \<and> \<not> RealGoodObject s w")
  case True
  with assms near show ?thesis by (auto simp: match_result_internal_def split: if_splits)
next
  case False
  let ?q = "\<lparr>mq_who = who, mq_type = type, mq_flags = flags, mq_name = xname, mq_abs = sv_parse_objid sv xname, mq_final = 0\<rparr>"
  obtain e where e: "match_early sv s ?q w xname = Some e"
    using assms False by (auto simp: match_result_internal_def bind_eq_Some_conv)
  show ?thesis
  proof (cases e)
    case (Inl found)
    then show ?thesis using False e assms early by (auto simp: match_result_internal_def)
  next
    case (Inr bn)
    obtain best nc where bn: "bn = (best, nc)" by (cases bn)
    obtain name flags' final where english: "(if mat flags MAT_ENGLISH then parse_english xname flags else (xname, flags, 0)) = (name, flags', final)"
      by (metis prod_cases3)
    let ?q' = "?q\<lparr>mq_name := name, mq_flags := flags', mq_final := final\<rparr>"
    obtain st where "x = match_decide s ?q' st" "s' = match_complain s who flags' (match_decide s ?q' st) (ms_nocontrol st)"
      using assms(1) False e Inr bn english by (auto simp: match_result_internal_def Let_def)
    with search english show ?thesis by blast
  qed
qed

lemma match_result_state:
  assumes "match_result_internal sv s who w xname type flags = Some (x, s')"
  shows "s' = s \<or> \<not> GoodObject s x \<and> (\<exists>n. s' = add_notice n s)"
  using assms
proof (cases rule: match_result_cases)
  case near
  then show ?thesis by (auto simp: GoodObject_def NOTHING_def)
next
  case (search name flags' final nc)
  then show ?thesis using match_complain_state [of s who flags' x nc] by auto
qed auto

lemma match_controlled_owned:
  assumes "match_controlled sv s player name = Some (x, s')" "x \<noteq> NOTHING"
  shows "s' = s" "GoodObject s x" "controls sv s player x = Some True"
proof -
  let ?flags = "MAT_EVERYTHING OR MAT_CONTROL OR MAT_NOISY"
  obtain y where y: "match_result_internal sv s player player name NOTYPE ?flags = Some (y, s')" "x = (if GoodObject s' y then y else NOTHING)"
    using assms(1) by (auto simp: match_controlled_def noisy_match_result_def match_result_def or.assoc)
  then have good: "GoodObject s' y" "x = y" using assms(2) by (auto split: if_splits)
  have state: "s' = s \<or> \<not> GoodObject s y \<and> (\<exists>n. s' = add_notice n s)" using match_result_state [OF y(1)] .
  then show "s' = s" "GoodObject s x" using good by auto
  have "mat ?flags MAT_CONTROL"
    by (simp add: mat_def MAT_EVERYTHING_def MAT_CONTROL_def MAT_NOISY_def MAT_ME_def MAT_HERE_def MAT_ABSOLUTE_def MAT_PLAYER_def MAT_NEIGHBOR_def
        MAT_POSSESSION_def MAT_EXIT_def MAT_ENGLISH_def)
  from match_result_owned [OF y(1) this] \<open>GoodObject s x\<close> good(2) show "controls sv s player x = Some True" by (simp add: owned_def)
qed

lemma mat_drop_le: "mat (drop_flags m f) k \<Longrightarrow> mat f k"
proof -
  have "(f AND NOT m) AND k = NOT m AND (f AND k)" by (simp only: ac_simps)
  then show "mat (drop_flags m f) k \<Longrightarrow> mat f k" by (auto simp: mat_def drop_flags_def)
qed

lemma parse_adjectives_le: "parse_adjectives xname flags = (name, flags') \<Longrightarrow> mat flags' k \<Longrightarrow> mat flags k"
  by (auto simp: parse_adjectives_def Let_def split: if_splits option.splits prod.splits dest!: mat_drop_le)

lemma parse_english_le: "parse_english xname flags = (name, flags', n) \<Longrightarrow> mat flags' k \<Longrightarrow> mat flags k"
  using parse_adjectives_le [of xname flags] by (auto simp: parse_english_def Let_def split: if_splits prod.splits)

lemma match_everything_state:
  assumes "match_result sv s player name NOTYPE MAT_EVERYTHING = Some (x, s')"
  shows "s' = s"
proof -
  have everything: "\<not> mat MAT_EVERYTHING MAT_NOISY" "mat MAT_EVERYTHING MAT_ENGLISH" "\<not> mat MAT_EVERYTHING (MAT_NEAR OR MAT_CONTENTS)"
    by (simp_all add: mat_def MAT_EVERYTHING_def MAT_NOISY_def MAT_ME_def MAT_HERE_def MAT_ABSOLUTE_def MAT_PLAYER_def MAT_NEIGHBOR_def
        MAT_POSSESSION_def MAT_EXIT_def MAT_ENGLISH_def MAT_NEAR_def MAT_CONTENTS_def)
  have quiet: "\<not> mat flags' MAT_NOISY" if "parse_english name MAT_EVERYTHING = (n, flags', c)" for n flags' c using parse_english_le [OF that] everything(1) by blast
  show ?thesis
    using assms unfolding match_result_def
  proof (cases rule: match_result_cases)
    case near
    then show ?thesis using everything(3) by blast
  next
    case (search name' flags' final nc)
    then show ?thesis using quiet everything(2) by (simp add: match_complain_def)
  qed
qed

section \<open>Only what is under control changes\<close>

datatype lock_cmd = At_lock string string string | At_unlock string string | At_lset string string

fun lock_command :: "server \<Rightarrow> dbref \<Rightarrow> lock_cmd \<Rightarrow> mush \<Rightarrow> mush option" where
  "lock_command sv player (At_lock name key type) s = do_lock sv player name key type s"
| "lock_command sv player (At_unlock name type) s = do_unlock sv player name type s"
| "lock_command sv player (At_lset what flags) s = do_lset sv player what flags s"

fun cmd_names_ok :: "lock_cmd \<Rightarrow> bool" where
  "cmd_names_ok (At_lock name key type) = no_nul type"
| "cmd_names_ok (At_unlock name type) = no_nul type"
| "cmd_names_ok (At_lset what flags) = no_nul what"

definition htab_ok :: "mush \<Rightarrow> bool" where
  "htab_ok s \<longleftrightarrow> (\<forall>k ll. htab_locks s k = Some ll \<longrightarrow> no_nul (L_TYPE ll))"

lemma check_lock_type_name:
  assumes "check_lock_type sv s player thing type silent = (r, s')"
  shows "r = Some rt \<Longrightarrow> s' = s \<and> (no_nul type \<longrightarrow> htab_ok s \<longrightarrow> no_nul rt)" "\<exists>ns. s' = s\<lparr>notices := ns\<rparr>"
proof -
  have "no_nul (tl (dropWhile p type))" if "no_nul type" for p
  proof -
    have "set (tl xs) \<subseteq> set xs" for xs :: string by (cases xs) auto
    then have "set (tl (dropWhile p type)) \<subseteq> set type" using set_dropWhileD by (metis subset_code(1))
    then show ?thesis using that by (auto simp: no_nul_def)
  qed
  then show "r = Some rt \<Longrightarrow> s' = s \<and> (no_nul type \<longrightarrow> htab_ok s \<longrightarrow> no_nul rt)"
    using assms by (auto simp: check_lock_type_def match_lock_def htab_ok_def Let_def no_nul_def split: if_splits option.splits)
  define P where "P t \<longleftrightarrow> (\<exists>ns. t = s\<lparr>notices := ns\<rparr>)" for t
  have "P s" unfolding P_def by (rule exI [of _ "notices s"]) simp
  moreover have "P (add_notice n s)" for n unfolding P_def add_notice_def by blast
  ultimately have "P s'" using assms unfolding check_lock_type_def Let_def by (auto split: if_splits option.splits)
  then show "\<exists>ns. s' = s\<lparr>notices := ns\<rparr>" unfolding P_def .
qed

text \<open>The change a command by a player may make to the locks of an object.\<close>

definition lock_change :: "server \<Rightarrow> mush \<Rightarrow> dbref \<Rightarrow> mush \<Rightarrow> bool" where
  "lock_change sv s player s' \<longleftrightarrow>
     (\<forall>x k. lock_map (Locks s' x) k \<noteq> lock_map (Locks s x) k \<longrightarrow>
        controls sv s player x = Some True \<and> (\<forall>ll. lock_map (Locks s x) k = Some ll \<longrightarrow> can_write_lock s player x ll))"

lemma lock_change_same: "(\<And>x. Locks s' x = Locks s x) \<Longrightarrow> lock_change sv s player s'"
  by (simp add: lock_change_def)

lemma lock_change_cong: "lock_change sv s player s1 \<Longrightarrow> (\<And>x. Locks s' x = Locks s1 x) \<Longrightarrow> lock_change sv s player s'"
  by (simp add: lock_change_def)

lemma Locks_notices [simp]: "obj (s\<lparr>notices := ns\<rparr>) x = obj s x" "GoodObject (s\<lparr>notices := ns\<rparr>) = GoodObject s"
  by (simp_all add: obj_def GoodObject_def fun_eq_iff)

lemma lock_map_mid: "lock_list_ok (xs @ ll # ys) \<Longrightarrow> lock_map (xs @ ll # ys) (lkey ll) = Some ll"
  by (induction xs) auto

lemma delete_lock_writes:
  assumes "delete_lock player thing type s = Some (r, s')" "locks_ok s" "no_nul type" "room_for 0 s" "controls sv s player thing = Some True"
  shows "lock_change sv s player s'"
proof (cases "GoodObject s thing")
  case False
  then show ?thesis using assms(1) by (auto simp: delete_lock_def intro: lock_change_same)
next
  case good: True
  obtain before q where sp: "split_locks type (Locks s thing) = (before, q)" by (cases "split_locks type (Locks s thing)")
  show ?thesis
  proof (cases q)
    case None
    then show ?thesis using assms(1) good sp by (auto simp: delete_lock_def intro: lock_change_same)
  next
    case (Some p)
    then obtain ll rest where p: "q = Some (ll, rest)" by (cases p) simp
    have ls: "Locks s thing = before @ ll # rest" using split_locks_parts [OF sp [unfolded p]] by simp
    have lok: "lock_list_ok (before @ ll # rest)" using locks_ok_at [OF assms(2), of thing] ls by simp
    note rem = lock_map_remove [OF lok]
    show ?thesis
    proof (cases "can_write_lock s player thing ll")
      case True
      then obtain t where t: "s' = set_Locks (s\<lparr>lock_names := t\<rparr>) thing (before @ rest)"
        using assms(1) good sp p by (auto simp: delete_lock_def)
      have "lock_map (before @ ll # rest) (lkey ll) = Some ll"
        using lock_map_mid [OF lok] .
      then show ?thesis
        using rem True assms(5) good unfolding lock_change_def t by (auto simp: Locks_set_Locks ls)
    next
      case False
      then show ?thesis using assms(1) good sp p by (auto simp: delete_lock_def intro: lock_change_same)
    qed
  qed
qed

lemma add_lock_writes:
  assumes "add_lock sv player thing type key flags s = Some (r, s')" "locks_ok s" "no_nul type" "room_for 1 s" "controls sv s player thing = Some True"
  shows "lock_change sv s player s'"
proof (cases r)
  case True
  then obtain ll where ll: "lkey ll = case_key type" "sets_lock s thing ll s'"
    "can_write_lock s player thing (case lock_map (Locks s thing) (case_key type) of None \<Rightarrow> ll | Some old \<Rightarrow> old)"
    using add_lock_ok [OF assms(2-4), of sv player thing key flags] assms(1) by auto
  then show ?thesis using assms(5) unfolding lock_change_def sets_lock_def by (auto split: if_splits option.splits)
next
  case False
  then show ?thesis using add_lock_ok [OF assms(2-4), of sv player thing key flags] assms(1) by (auto intro: lock_change_same)
qed

lemma do_unlock_writes:
  assumes "do_unlock sv player name type s = Some s'" "locks_ok s" "htab_ok s" "no_nul type" "room_for 1 s"
  shows "lock_change sv s player s'"
proof (cases "CHR ''/'' \<in> set name")
  case True
  then show ?thesis using assms(1) by (auto simp: do_unlock_def intro: lock_change_same)
next
  case False
  then obtain thing s1 where m: "match_controlled sv s player name = Some (thing, s1)" using assms(1) by (auto simp: do_unlock_def bind_eq_Some_conv)
  show ?thesis
  proof (cases "thing = NOTHING")
    case True
    have "Locks s1 x = Locks s x" for x
      using m match_result_state by (fastforce simp: match_controlled_def noisy_match_result_def match_result_def split: if_splits)
    then show ?thesis using assms(1) False m True by (auto simp: do_unlock_def intro: lock_change_same)
  next
    case thing: False
    note mc = match_controlled_owned [OF m thing]
    obtain q s2 where c: "check_lock_type sv s player thing type False = (q, s2)" by (cases "check_lock_type sv s player thing type False")
    note ck = check_lock_type_name [OF c]
    show ?thesis
    proof (cases q)
      case None
      have "s' = s2" using assms(1) False m thing mc(1) c None by (simp add: do_unlock_def)
      with ck(2) show ?thesis by (auto intro: lock_change_same)
    next
      case (Some rt)
      have rt: "s2 = s" "no_nul rt" using ck(1) [OF Some] assms(3,4) by simp_all
      show ?thesis
      proof (cases "getlock sv s thing rt = None")
        case True
        then show ?thesis using assms(1) False m thing mc(1) c Some rt(1) by (auto simp: do_unlock_def intro: lock_change_same)
      next
        case locked: False
        then obtain ok s3 where d: "delete_lock player thing rt s = Some (ok, s3)"
          "s' = (if ok then touch sv (tell_lock player thing rt ''unlocked'' s3) thing else add_notice (Notify player ''Permission denied.'') s3)"
          using assms(1) False m thing mc(1) c Some rt(1) by (auto simp: do_unlock_def)
        have "room_for 0 s" using assms(5) by (simp add: room_for_def)
        from delete_lock_writes [OF d(1) assms(2) rt(2) this mc(3)] show ?thesis by (rule lock_change_cong) (simp add: d(2))
      qed
    qed
  qed
qed

lemma do_lock_writes:
  assumes "do_lock sv player name key type s = Some s'" "locks_ok s" "htab_ok s" "no_nul type" "room_for 1 s"
  shows "lock_change sv s player s'"
proof (cases "CHR ''/'' \<in> set name")
  case True
  then show ?thesis using assms(1) by (auto simp: do_lock_def intro: lock_change_same)
next
  case slash: False
  show ?thesis
  proof (cases "key = []")
    case True
    then show ?thesis using assms slash do_unlock_writes by (simp add: do_lock_def)
  next
    case nonempty: False
    then obtain thing s1 where m: "match_result sv s player name NOTYPE MAT_EVERYTHING = Some (thing, s1)"
      using assms(1) slash by (auto simp: do_lock_def bind_eq_Some_conv)
    note s1 = match_everything_state [OF m]
    show ?thesis
    proof (cases "thing = NOTHING \<or> thing = AMBIGUOUS \<or> controls sv s player thing \<noteq> Some True \<or> IsGarbage s thing")
      case True
      then show ?thesis using assms(1) slash nonempty m s1
        by (auto simp: do_lock_def bind_eq_Some_conv intro!: lock_change_same split: if_splits)
    next
      case go: False
      then obtain k where k: "parse_boolexp_d (lock_parse_env sv s player type) key = Some k"
        using assms(1) slash nonempty m s1 by (auto simp: do_lock_def bind_eq_Some_conv split: if_splits)
      obtain q s2 where c: "check_lock_type sv s player thing type False = (q, s2)" by (cases "check_lock_type sv s player thing type False")
      note ck = check_lock_type_name [OF c]
      show ?thesis
      proof (cases "k = None \<or> q = None")
        case True
        then have "\<exists>ns. s' = s\<lparr>notices := ns\<rparr>" using assms(1) slash nonempty m s1 go k c ck(2)
          by (auto simp: do_lock_def add_notice_def split: if_splits)
        then show ?thesis by (auto intro: lock_change_same)
      next
        case False
        then obtain rt where q: "q = Some rt" by auto
        have rt: "s2 = s" "no_nul rt" using ck(1) [OF q] assms(3,4) by simp_all
        obtain ok s3 where a: "add_lock sv player thing rt k LF_DEFAULT s = Some (ok, s3)"
          "s' = (if ok then touch sv (tell_lock player thing rt ''locked'' s3) thing else add_notice (Notify player ''Permission denied.'') s3)"
          using assms(1) slash nonempty m s1 go k c q rt(1) False by (auto simp: do_lock_def split: if_splits)
        have "controls sv s player thing = Some True" using go by simp
        from add_lock_writes [OF a(1) assms(2) rt(2) assms(5) this] show ?thesis by (rule lock_change_cong) (simp add: a(2))
      qed
    qed
  qed
qed

lemma do_lset_writes:
  assumes "do_lset sv player what flags s = Some s'" "locks_ok s" "no_nul what"
  shows "lock_change sv s player s'"
proof (cases "CHR ''/'' \<notin> set what")
  case True
  then show ?thesis using assms(1) by (auto simp: do_lset_def intro: lock_change_same)
next
  case slash: False
  define lname where "lname = tl (dropWhile (\<lambda>c. c \<noteq> CHR ''/'') what)"
  have nn: "no_nul lname"
  proof -
    have "set (tl xs) \<subseteq> set xs" for xs :: string by (cases xs) auto
    then have "set lname \<subseteq> set what" unfolding lname_def using set_dropWhileD by (metis subset_code(1))
    then show ?thesis using assms(3) by (auto simp: no_nul_def)
  qed
  obtain thing s1 where m: "match_controlled sv s player (takeWhile (\<lambda>c. c \<noteq> CHR ''/'') what) = Some (thing, s1)"
    using assms(1) slash by (auto simp: do_lset_def bind_eq_Some_conv Let_def)
  show ?thesis
  proof (cases "thing = NOTHING")
    case True
    have "Locks s1 x = Locks s x" for x
      using m match_result_state by (fastforce simp: match_controlled_def noisy_match_result_def match_result_def split: if_splits)
    then show ?thesis using assms(1) slash m True by (auto simp: do_lset_def Let_def intro: lock_change_same)
  next
    case thing: False
    note mc = match_controlled_owned [OF m thing]
    define unset where "unset \<longleftrightarrow> flags \<noteq> [] \<and> hd flags = CHR ''!''"
    obtain f where f: "string_to_lockflag s player (if unset then tl flags else flags) = Some f"
      using assms(1) slash m thing mc(1) by (auto simp: do_lset_def Let_def bind_eq_Some_conv unset_def)
    show ?thesis
    proof (cases "f = None \<or> getlockstruct_noparent s thing lname = None")
      case True
      then show ?thesis using assms(1) slash m thing mc(1) f unfolding lname_def
        by (auto simp: do_lset_def Let_def unset_def intro!: lock_change_same split: option.splits)
    next
      case False
      then obtain flag l where fl: "f = Some flag" "getlockstruct_noparent s thing lname = Some l" by auto
      obtain r where r: "Can_Read_Lock sv s player thing (L_TYPE l) = Some r"
        using assms(1) slash m thing mc(1) f fl unfolding lname_def by (auto simp: do_lset_def Let_def bind_eq_Some_conv unset_def)
      show ?thesis
      proof (cases "\<not> r \<or> \<not> can_write_lock s player thing l")
        case True
        then have "\<exists>n. s' = add_notice n s" using assms(1) slash m thing mc(1) f fl r unfolding lname_def
          by (cases r) (auto simp: do_lset_def Let_def unset_def)
        then show ?thesis by (auto intro: lock_change_same)
      next
        case ok: False
        define g :: "lock_list \<Rightarrow> lock_list" where "g = (\<lambda>l. l\<lparr>L_FLAGS := (if unset then L_FLAGS l AND NOT flag else L_FLAGS l OR flag)\<rparr>)"
        have t: "\<And>l. L_TYPE (g l) = L_TYPE l" by (simp add: g_def)
        have lok: "lock_list_ok (Locks s thing)" using locks_ok_at [OF assms(2)] .
        have old: "lock_map (Locks s thing) (case_key lname) = Some l" using fl(2) find_lock_map [OF lok nn] by (simp add: getlockstruct_noparent_def)
        define s2 where "s2 = set_Locks s thing (update_lock lname g (Locks s thing))"
        have step: "s' = touch sv (if \<not> Quiet s2 player \<and> \<not> (Quiet s2 thing \<and> Owner s2 thing = player)
             then add_notice (Notify_lock player thing (L_TYPE l) (if unset then ''lock flags unset'' else ''lock flags set'')) s2 else s2) thing"
          using assms(1) slash m thing mc(1) f fl r ok unfolding lname_def s2_def g_def
          by (auto simp: do_lset_def Let_def unset_def)
        have "Locks s' x = (if x = thing then update_lock lname g (Locks s thing) else Locks s x)" for x
          using mc(2) unfolding step by (auto simp: s2_def Locks_set_Locks)
        then show ?thesis
          using update_lock_map [of g, OF t lok nn] old ok mc(3) unfolding lock_change_def by (auto split: if_splits)
      qed
    qed
  qed
qed

text \<open>C3: the commands on locks change no lock of an object its player does not control, and no lock the player
  may not write: a lock with the wizard flag only by wizards, one with the owner flag only by the owner, a locked one
  only by its creator, and the locks of God only by God.\<close>

theorem lock_commands_need_control:
  assumes "lock_command sv player cmd s = Some s'" "locks_ok s" "htab_ok s" "cmd_names_ok cmd" "room_for 1 s"
    and "lock_map (Locks s' x) k \<noteq> lock_map (Locks s x) k"
  shows "controls sv s player x = Some True \<and> (\<forall>ll. lock_map (Locks s x) k = Some ll \<longrightarrow>
     (God x \<longrightarrow> God player) \<and> (has_lf ll LF_WIZARD \<longrightarrow> Wizard s player)
     \<and> (has_lf ll LF_OWNER \<longrightarrow> Wizard s player \<or> player = Owner s x)
     \<and> (has_lf ll LF_LOCKED \<longrightarrow> Wizard s player \<or> L_CREATOR ll \<in> {player, Owner s player}))"
proof -
  have "lock_change sv s player s'"
    using assms do_lock_writes do_unlock_writes do_lset_writes by (cases cmd) auto
  then have "controls sv s player x = Some True" "\<forall>ll. lock_map (Locks s x) k = Some ll \<longrightarrow> can_write_lock s player x ll"
    using assms(6) by (auto simp: lock_change_def)
  then show ?thesis by (auto simp: can_write_lock_def Wizard_def split: if_splits)
qed

text \<open>\<open>@unlock\<close> of a lock that an object only inherits tells the player that it is unlocked, and leaves it
  locked: \<open>do_unlock\<close> asks \<open>getlock\<close>, which looks at the parents, but \<open>delete_lock\<close> finds no lock on the object and
  returns success.\<close>

theorem unlock_inherited_says_unlocked:
  assumes "locks_ok s" "no_nul rt" "CHR ''/'' \<notin> set name" "match_controlled sv s player name = Some (thing, s)" "GoodObject s thing"
    and "check_lock_type sv s player thing type False = (Some rt, s)" "getlockstruct_noparent s thing rt = None" "getlock sv s thing rt = Some key"
    and "\<not> AreQuiet s player thing"
  shows "\<exists>s'. do_unlock sv player name type s = Some s' \<and> notices s' = notices s @ [Notify_lock player thing rt ''unlocked'']
    \<and> getlock sv s' thing rt = Some key"
proof -
  have lok: "lock_list_ok (Locks s thing)" using locks_ok_at [OF assms(1)] .
  have none: "lock_map (Locks s thing) (case_key rt) = None"
    using assms(7) find_lock_map [OF lok assms(2)] by (simp add: getlockstruct_noparent_def)
  obtain before q where sp: "split_locks rt (Locks s thing) = (before, q)" by (cases "split_locks rt (Locks s thing)")
  have "q = None"
  proof (rule ccontr)
    assume "q \<noteq> None"
    then obtain ll rest where p: "q = Some (ll, rest)" by (cases q) auto
    have ls: "Locks s thing = before @ ll # rest" "strcasecmp (L_TYPE ll) rt = 0" using split_locks_parts [OF sp [unfolded p]] by simp_all
    then have "lkey ll = case_key rt" using lock_cmp(1) [of ll rt] lok assms(2) by (simp add: lock_list_ok_append)
    then show False using none lock_map_mid [of before ll rest] lok ls(1) by simp
  qed
  then have del: "delete_lock player thing rt s = Some (True, s)" using sp assms(5) by (simp add: delete_lock_def)
  define s' where "s' = touch sv (tell_lock player thing rt ''unlocked'' s) thing"
  have "thing \<noteq> NOTHING" using assms(5) by (auto simp: GoodObject_def NOTHING_def)
  then have "do_unlock sv player name type s = Some s'"
    using assms(3,4,6,8) del by (simp add: do_unlock_def s'_def)
  moreover have "same_objects s s'" unfolding s'_def by (rule same_objects_trans [OF same_objects_touch(2) same_objects_touch(1)])
  then have "getlock sv s' thing rt = Some key" using same_objects_getlock assms(8) by metis
  moreover have "notices s' = notices s @ [Notify_lock player thing rt ''unlocked'']" using assms(9) by (simp add: s'_def tell_lock_def add_notice_def)
  ultimately show ?thesis by blast
qed

section \<open>From the text of a key to the lock that is evaluated\<close>

definition keys_ok :: "nat \<Rightarrow> mush \<Rightarrow> bool" where
  "keys_ok steps s \<longleftrightarrow> (\<forall>x. \<forall>ll \<in> set (Locks s x). \<exists>b. L_KEY ll = compiled b \<and> lock_ok steps b)"

lemma keys_ok_map: "keys_ok steps s \<longleftrightarrow> (\<forall>x k ll. lock_map (Locks s x) k = Some ll \<longrightarrow> (\<exists>b. L_KEY ll = compiled b \<and> lock_ok steps b))" if "locks_ok s"
proof
  show "keys_ok steps s \<Longrightarrow> \<forall>x k ll. lock_map (Locks s x) k = Some ll \<longrightarrow> (\<exists>b. L_KEY ll = compiled b \<and> lock_ok steps b)"
    using lock_map_Some by (fastforce simp: keys_ok_def)
  assume r: "\<forall>x k ll. lock_map (Locks s x) k = Some ll \<longrightarrow> (\<exists>b. L_KEY ll = compiled b \<and> lock_ok steps b)"
  have "lock_map (Locks s x) (lkey ll) = Some ll" if ll: "ll \<in> set (Locks s x)" for x ll
  proof -
    obtain xs ys where "Locks s x = xs @ ll # ys" using split_list [OF ll] by blast
    then show ?thesis using lock_map_mid [of xs ll ys] locks_ok_at [OF \<open>locks_ok s\<close>, of x] by simp
  qed
  with r show "keys_ok steps s" unfolding keys_ok_def by blast
qed

lemma parent_chain_set: "parent_chain s thing type anc p k a = Inl (Some ll) \<Longrightarrow> \<exists>x. ll \<in> set (Locks s x)"
proof (induction s thing type anc p k a rule: parent_chain.induct)
  case (1 s thing type anc p k a)
  have "find_lock type ls = Some l \<Longrightarrow> l \<in> set ls" for ls l by (induction ls) (auto simp: Let_def split: if_splits)
  then show ?case
    using 1(2) by (subst (asm) parent_chain.simps) (use 1(1) in \<open>auto simp: Let_def split: if_splits option.splits\<close>)
qed

lemma lock_rounds_set: "lock_rounds sv s thing type anc p k a = Some ll \<Longrightarrow> \<exists>x. ll \<in> set (Locks s x)"
proof (induction sv s thing type anc p k a rule: lock_rounds.induct)
  case (1 sv s thing type anc p k a)
  from 1(2) show ?case
    by (subst (asm) lock_rounds.simps) (use 1(1) parent_chain_set in \<open>auto split: if_splits sum.splits prod.splits\<close>)
qed

lemma getlock_compiled: "keys_ok steps s \<Longrightarrow> \<exists>b. getlock sv s d t = compiled b \<and> lock_ok steps b"
proof (cases "getlockstruct sv s d t")
  case (Some ll)
  assume "keys_ok steps s"
  then show ?thesis using Some lock_rounds_set by (fastforce simp: getlock_def getlockstruct_def keys_ok_def)
qed (auto simp: getlock_def lock_ok_def compiled_def intro!: exI [of _ None])

text \<open>C2: the key a player sets with \<open>@lock\<close> is the lock that is evaluated.  If the player controls the thing, may
  write the lock and the key parses to a tree that fits a chunk, then afterwards the lock of that name, however its
  case is written, passes exactly those the tree lets pass, indirect locks read from the same database.\<close>

theorem lock_command_means_its_key:
  assumes "locks_ok s" "htab_ok s" "room_for 1 s" "keys_ok (sv_steps sv) s" "CHR ''/'' \<notin> set name"
    and "match_result sv s player name NOTYPE MAT_EVERYTHING = Some (thing, s)" "GoodObject s thing" "controls sv s player thing = Some True"
    and "\<not> IsGarbage s thing" "env_ok (lock_parse_env sv s player type)" "no_nul keyname" "keyname \<noteq> []" "length keyname < BUFFER_LEN"
    and "parse_boolexp_E (lock_parse_env sv s player type) (parse_fuel keyname) keyname = Parsed (ast, rest)"
    and "lock_size ast \<le> MAX_CHUNK_LEN" "lock_ok (sv_steps sv) (Some ast)"
    and "check_lock_type sv s player thing type False = (Some rt, s)" "no_nul rt"
    and "can_write_lock s player thing (case getlockstruct_noparent s thing rt of Some ll \<Rightarrow> ll
         | None \<Rightarrow> \<lparr>L_TYPE = rt, L_KEY = compiled (Some ast), L_CREATOR = player, L_FLAGS = new_lock_flags s rt LF_DEFAULT\<rparr>)"
  shows "\<exists>s' locks. do_lock sv player name keyname type s = Some s'
    \<and> (\<forall>d t. getlock sv s' d t = compiled (locks d t))
    \<and> (\<forall>p t. no_nul t \<and> case_key t = case_key rt \<longrightarrow> eval_lock_with sv s' p thing t = res_of (lock_value (lock_world sv s') locks 0 p (Some ast) thing))"
proof -
  let ?key = "compiled (Some ast)"
  obtain bc where bc: "compile_boolexp ast = Some bc"
    using parse_boolexp_result [OF assms(10,11,13)] assms(14) by auto
  then have "length bc = lock_size ast" "0 < lock_size ast" using compile_length lock_size_pos assms(16) by (auto simp: lock_ok_def)
  with bc have key: "parse_boolexp_d (lock_parse_env sv s player type) keyname = Some ?key" "?key \<noteq> None"
    using assms(14,15) by (simp_all add: parse_boolexp_d_def compiled_def chunk_create_def MIN_CHUNK_LEN_def)
  obtain r s1 where add: "add_lock sv player thing rt ?key LF_DEFAULT s = Some (r, s1)" "locks_ok s1" "\<forall>x. GoodObject s1 x = GoodObject s x"
    "if r then \<exists>ll. lkey ll = case_key rt \<and> L_KEY ll = ?key \<and> sets_lock s thing ll s1 else \<forall>x. Locks s1 x = Locks s x"
    using add_lock_ok [OF assms(1,18,3), of sv player thing ?key LF_DEFAULT] by (fastforce split: if_splits)
  have names: "st_ok (lock_names s)" "st_table (lock_names s) = counts_of (all_names s)" using assms(1) by (simp_all add: locks_ok_def)
  have "size (all_names s) < 2 ^ 31 - 1" "size (all_names s) < max_uses" using assms(3) by (simp_all add: room_for_def max_uses_def)
  then obtain t where t: "st_insert rt (lock_names s) = Some (t, rt)" using st.hold [OF names assms(18)] by blast
  have r using add(1) assms(7,19) t by (auto simp: add_lock_def split: option.splits)
  then obtain ll where ll: "lkey ll = case_key rt" "L_KEY ll = ?key" "sets_lock s thing ll s1" using add(4) by auto
  define s' where "s' = touch sv (tell_lock player thing rt ''locked'' s1) thing"
  have same: "same_objects s1 s'" unfolding s'_def by (rule same_objects_trans [OF same_objects_touch(2) same_objects_touch(1)])
  have thing: "thing \<noteq> NOTHING" "thing \<noteq> AMBIGUOUS" using assms(7) by (auto simp: GoodObject_def NOTHING_def AMBIGUOUS_def)
  have "do_lock sv player name keyname type s = Some s'"
  proof -
    obtain y where y: "?key = Some y" using key(2) by blast
    show ?thesis using assms(5,6,8,9,12,17) thing key(1) add(1) \<open>r\<close> unfolding y by (simp add: do_lock_def s'_def)
  qed
  moreover have keys: "keys_ok (sv_steps sv) s1"
    using assms(4,16) ll unfolding keys_ok_map [OF add(2)] keys_ok_map [OF assms(1)] sets_lock_def by (auto split: if_splits)
  define locks where "locks d t = (if d = thing \<and> no_nul t \<and> case_key t = case_key rt then Some ast
      else (SOME b. getlock sv s' d t = compiled b \<and> lock_ok (sv_steps sv) b))" for d t
  have own: "getlock sv s' thing t = ?key" if "no_nul t" "case_key t = case_key rt" for t
  proof -
    have "find_lock t (Locks s1 thing) = Some ll"
      using find_lock_map [OF locks_ok_at [OF add(2)] that(1)] ll that(2) by (simp add: sets_lock_def)
    then have "getlock sv s1 thing t = ?key" using getlockstruct_own add(3) assms(7) ll(2) by (simp add: getlock_def)
    then show ?thesis using same_objects_getlock [OF same] by simp
  qed
  have locks: "getlock sv s' d t = compiled (locks d t) \<and> lock_ok (sv_steps sv) (locks d t)" for d t
  proof (cases "d = thing \<and> no_nul t \<and> case_key t = case_key rt")
    case True
    then show ?thesis using own assms(16) by (simp add: locks_def)
  next
    case False
    have "\<exists>b. getlock sv s' d t = compiled b \<and> lock_ok (sv_steps sv) b"
      using getlock_compiled [OF keys] same_objects_getlock [OF same] by metis
    from someI_ex [OF this] False show ?thesis by (auto simp: locks_def)
  qed
  have "eval_lock_with sv s' p thing t = res_of (lock_value (lock_world sv s') locks 0 p (Some ast) thing)"
    if "no_nul t" "case_key t = case_key rt" for p t
  proof -
    have "w_getlock (lock_world sv s') = getlock sv s'" by (simp add: lock_world_def)
    then show ?thesis
      using eval_compiled_value [of "lock_world sv s'" locks "sv_steps sv" "Some ast" 0 p thing] locks assms(16) own [OF that]
      by (simp add: eval_lock_with_def)
  qed
  ultimately show ?thesis using locks by blast
qed

section \<open>Sample commands\<close>

text \<open>The sample database with the blue ball as the parent of the wizard, and a lock on the object \<open>x\<close>.\<close>

definition parent_db :: "object list" where
  "parent_db = sample_db[1 := (sample_db ! 1)\<lparr>obj_parent := 5\<rparr>]"

definition basic_lock :: lock_list where
  "basic_lock = \<lparr>L_TYPE = ''Basic'', L_KEY = Some [], L_CREATOR = 1, L_FLAGS = 0\<rparr>"

definition locked_mush :: "dbref \<Rightarrow> mush" where
  "locked_mush x =
     (case st_insert ''Basic'' st_init of
        Some (names, n) \<Rightarrow> set_Locks ((sample_mush parent_db)\<lparr>lock_names := names\<rparr>) x [basic_lock]
      | None \<Rightarrow> sample_mush parent_db)"

lemma parent_mush_ok: "locks_ok (sample_mush parent_db)" "all_names (sample_mush parent_db) = {#}" "htab_ok (sample_mush parent_db)"
  "Locks (sample_mush parent_db) x = []"
proof -
  have db: "parent_db ! 0 = sample_db ! 0" "set parent_db \<subseteq> {ob. obj_locks ob = []}" "length parent_db = 6"
    by (simp_all add: parent_db_def sample_db_def sample_object_def no_object_def)
  then show "all_names (sample_mush parent_db) = {#}"
    by (simp add: all_names_def sample_mush_def parent_db_def sample_db_def sample_object_def no_object_def)
  then show "locks_ok (sample_mush parent_db)"
    using db(2) st_init_ok by (auto simp: locks_ok_def sample_mush_def counts_of_def lock_list_ok_def)
  show "htab_ok (sample_mush parent_db)" by (simp add: htab_ok_def sample_mush_def)
  show "Locks (sample_mush parent_db) x = []"
  proof (cases "GoodObject (sample_mush parent_db) x")
    case True
    then have "nat (sint x) < length parent_db" by (simp add: GoodObject_def sample_mush_def nat_less_iff)
    then have "parent_db ! nat (sint x) \<in> {ob. obj_locks ob = []}" using db(2) nth_mem by blast
    then show ?thesis using True by (simp add: obj_def sample_mush_def)
  qed (simp add: obj_def no_object_def)
qed

lemma locked_mush:
  assumes "x = 1 \<or> x = 5"
  shows "\<exists>names. locked_mush x = set_Locks ((sample_mush parent_db)\<lparr>lock_names := names\<rparr>) x [basic_lock]" (is ?set)
    and "locks_ok (locked_mush x)" "htab_ok (locked_mush x)" "room_for 1 (locked_mush x)"
proof -
  let ?s = "sample_mush parent_db"
  have nn: "no_nul ''Basic''" by (simp add: no_nul_def)
  have names: "st_ok (lock_names ?s)" "st_table (lock_names ?s) = counts_of (all_names ?s)" using parent_mush_ok(1) by (simp_all add: locks_ok_def)
  have "size (all_names ?s) < 2 ^ 31 - 1" "size (all_names ?s) < max_uses" by (simp_all add: parent_mush_ok(2) max_uses_def)
  then obtain names where t: "st_insert ''Basic'' (lock_names ?s) = Some (names, ''Basic'')" using st.hold [OF names nn] by blast
  then have lm: "locked_mush x = set_Locks (?s\<lparr>lock_names := names\<rparr>) x [basic_lock]" by (simp add: locked_mush_def sample_mush_def)
  then show ?set by blast
  have good: "GoodObject ?s x" using assms by (auto simp: GoodObject_def parent_db_def sample_defs)
  have room: "room_for 1 ?s" by (simp add: room_for_def parent_mush_ok(2) max_uses_def)
  have "st_insert ''Basic'' st_init = Some (names, ''Basic'')" using t by (simp add: sample_mush_def)
  have "add_lock sample_server 1 x ''Basic'' (Some []) 0 ?s = Some (True, locked_mush x)"
    using good t parent_mush_ok(4) [of x]
    by (simp add: add_lock_def getlockstruct_noparent_def can_write_lock_def God_def GOD_def lm basic_lock_def new_lock_flags_def LF_DEFAULT_def)
  then have "locks_ok (locked_mush x) \<and> size (all_names (locked_mush x)) \<le> 1"
    using add_lock_ok [OF parent_mush_ok(1) nn room, of sample_server 1 x "Some []" 0] by (auto simp: parent_mush_ok(2))
  then show "locks_ok (locked_mush x)" "room_for 1 (locked_mush x)" by (auto simp: room_for_def max_uses_def)
  show "htab_ok (locked_mush x)" by (simp add: lm htab_ok_def set_Locks_def set_obj_def sample_mush_def)
qed

text \<open>A player who names itself.\<close>

lemma match_me:
  assumes "mat flags MAT_ME" "\<not> mat flags (MAT_NEAR OR MAT_CONTENTS)" "\<not> mat flags MAT_CONTENTS" "\<not> mat flags MAT_TYPE"
    and "RealGoodObject s 1" "controls sample_server s 1 1 = Some True"
  shows "match_result sample_server s 1 ''me'' NOTYPE flags = Some (1, s)"
proof -
  have "strcasecmp ''me'' ''me'' = 0" by code_simp
  then show ?thesis
    using assms by (simp add: match_result_def match_result_internal_def match_early_def match_me_def try_match_def match_type_def match_controls_def or_else_def Let_def split: if_splits)
qed

lemma match_me_flags: "mat (MAT_EVERYTHING OR MAT_CONTROL OR MAT_NOISY) MAT_ME" "\<not> mat (MAT_EVERYTHING OR MAT_CONTROL OR MAT_NOISY) (MAT_NEAR OR MAT_CONTENTS)"
  "\<not> mat (MAT_EVERYTHING OR MAT_CONTROL OR MAT_NOISY) MAT_CONTENTS" "\<not> mat (MAT_EVERYTHING OR MAT_CONTROL OR MAT_NOISY) MAT_TYPE"
  "mat MAT_EVERYTHING MAT_ME" "\<not> mat MAT_EVERYTHING (MAT_NEAR OR MAT_CONTENTS)" "\<not> mat MAT_EVERYTHING MAT_CONTENTS" "\<not> mat MAT_EVERYTHING MAT_TYPE"
  by code_simp+

lemma locked_me:
  assumes "x = 1 \<or> x = 5"
  shows "match_controlled sample_server (locked_mush x) 1 ''me'' = Some (1, locked_mush x)"
    and "Locks (locked_mush x) y = (if y = x then [basic_lock] else [])" "Parent (locked_mush x) 1 = 5" "GoodObject (locked_mush x) 1" "GoodObject (locked_mush x) 5"
    "\<not> AreQuiet (locked_mush x) 1 1" "htab_locks (locked_mush x) = Map.empty" "controls sample_server (locked_mush x) 1 1 = Some True"
proof -
  obtain names where lm: "locked_mush x = set_Locks ((sample_mush parent_db)\<lparr>lock_names := names\<rparr>) x [basic_lock]"
    using locked_mush(1) [OF assms] by blast
  have good: "GoodObject (sample_mush parent_db) x" using assms by (auto simp: GoodObject_def parent_db_def sample_defs)
  show "Locks (locked_mush x) y = (if y = x then [basic_lock] else [])"
  proof -
    let ?t = "(sample_mush parent_db)\<lparr>lock_names := names\<rparr>"
    have "GoodObject ?t x" using good by (simp add: GoodObject_def)
    moreover have "Locks ?t y = []" using parent_mush_ok(4) [of y] by (auto simp: obj_def GoodObject_def split: if_splits)
    ultimately show ?thesis by (simp add: lm Locks_set_Locks)
  qed
  show o: "Parent (locked_mush x) 1 = 5" "GoodObject (locked_mush x) 1" "GoodObject (locked_mush x) 5"
    "\<not> AreQuiet (locked_mush x) 1 1" "htab_locks (locked_mush x) = Map.empty"
    using assms by (auto simp: lm set_Locks_def set_obj_def parent_db_def sample_defs db_defs AreQuiet_def Quiet_def)
  show c: "controls sample_server (locked_mush x) 1 1 = Some True"
    using assms o(2) by (auto simp: lm set_Locks_def set_obj_def parent_db_def sample_defs db_defs controls_def)
  have "RealGoodObject (locked_mush x) 1"
    using assms o(2) by (auto simp: lm set_Locks_def set_obj_def parent_db_def sample_defs db_defs)
  from match_me [OF match_me_flags(1-4) this c]
  show "match_controlled sample_server (locked_mush x) 1 ''me'' = Some (1, locked_mush x)"
    using o(2) by (simp add: match_controlled_def noisy_match_result_def or.assoc)
qed

lemma lock_commands_need_control_witness:
  "\<exists>s'. lock_command sample_server 1 (At_unlock ''me'' ''Basic'') (locked_mush 1) = Some s' \<and> Locks s' 1 = []
     \<and> controls sample_server (locked_mush 1) 1 1 = Some True"
proof -
  let ?s = "locked_mush 1"
  have x: "(1 :: dbref) = 1 \<or> (1 :: dbref) = 5" by simp
  note lm = locked_mush [OF x] and me = locked_me [OF x]
  have nn: "no_nul ''Basic''" by (simp add: no_nul_def)
  obtain ok s1 where d: "delete_lock 1 1 ''Basic'' ?s = Some (ok, s1)"
    using delete_lock_ok [OF lm(2) nn, of 1 1] lm(4) by (auto simp: room_for_def)
  have same: "strcasecmp ''Basic'' ''Basic'' = 0" by code_simp
  then have ok: "ok" "Locks s1 1 = []"
    using d me(2) [of 1] me(4) by (auto simp: delete_lock_def basic_lock_def can_write_lock_def God_def GOD_def Locks_set_Locks GoodObject_def)
  have lock: "getlock sample_server ?s 1 ''Basic'' = Some []"
    using getlockstruct_own [OF me(4), of "''Basic''" basic_lock] me(2) [of 1] same by (simp add: getlock_def basic_lock_def)
  then have "check_lock_type sample_server ?s 1 1 ''Basic'' False = (Some ''Basic'', ?s)"
    using me(7) by (simp add: check_lock_type_def match_lock_def)
  then have "lock_command sample_server 1 (At_unlock ''me'' ''Basic'') ?s = Some (touch sample_server (tell_lock 1 1 ''Basic'' ''unlocked'' s1) 1)"
    using me(1) d ok(1) lock by (simp add: do_unlock_def NOTHING_def)
  moreover define s' where "s' = touch sample_server (tell_lock 1 1 ''Basic'' ''unlocked'' s1) 1"
  have "Locks s' 1 = []" using ok(2) by (simp add: s'_def)
  moreover have "lock_map (Locks s' 1) (lkey basic_lock) \<noteq> lock_map (Locks ?s 1) (lkey basic_lock)"
    using \<open>Locks s' 1 = []\<close> me(2) [of 1] by (simp add: lock_map_def)
  ultimately show ?thesis
    using lock_commands_need_control [of sample_server 1 "At_unlock ''me'' ''Basic''" ?s s' 1 "lkey basic_lock"] lm(2-4) nn
    by (auto simp: s'_def)
qed

lemma unlock_inherited_says_unlocked_witness:
  "\<exists>s'. do_unlock sample_server 1 ''me'' ''Basic'' (locked_mush 5) = Some s' \<and> notices s' = [Notify_lock 1 1 ''Basic'' ''unlocked'']
     \<and> getlock sample_server s' 1 ''Basic'' = Some []"
proof -
  let ?s = "locked_mush 5"
  have x: "(5 :: dbref) = 1 \<or> (5 :: dbref) = 5" by simp
  note lm = locked_mush [OF x] and me = locked_me [OF x]
  have nn: "no_nul ''Basic''" by (simp add: no_nul_def)
  have same: "strcasecmp ''Basic'' ''Basic'' = 0" by code_simp
  have own: "getlockstruct_noparent ?s 1 ''Basic'' = None" using me(2) [of 1] by (simp add: getlockstruct_noparent_def)
  have "parent_chain ?s 1 ''Basic'' anc 1 0 False = Inl (Some basic_lock)" for anc
    using me(2) [of 1] me(2) [of 5] me(3-5) same by (simp add: parent_chain_steps basic_lock_def has_lf_def LF_PRIVATE_def)
  then have lock: "getlock sample_server ?s 1 ''Basic'' = Some []"
    by (simp add: getlock_def getlockstruct_def lock_rounds.simps [of _ _ 1] basic_lock_def)
  moreover have "check_lock_type sample_server ?s 1 1 ''Basic'' False = (Some ''Basic'', ?s)"
    using me(7) lock by (simp add: check_lock_type_def match_lock_def)
  moreover have "notices ?s = []" using lm(1) by (auto simp: set_Locks_def set_obj_def sample_mush_def)
  ultimately show ?thesis
    using unlock_inherited_says_unlocked [OF lm(2) nn _ me(1,4) _ own _ me(6)] by auto
qed

lemma lock_command_means_its_key_witness:
  "\<exists>s'. do_lock sample_server 1 ''me'' ''FLAG^WIZARD|!#TRUE'' '''' (sample_mush parent_db) = Some s'
     \<and> eval_lock_with sample_server s' 2 1 ''basic'' = Returns 0"
proof -
  let ?s = "sample_mush parent_db" and ?key = "''FLAG^WIZARD|!#TRUE''" and ?ast = "B_OR (B_FLAG ''FLAG'' ''WIZARD'') (B_NOT (B_BOOL 1))"
  have nn: "no_nul ''Basic''" "no_nul ''basic''" "no_nul ?key" by (simp_all add: no_nul_def)
  have good: "GoodObject ?s 1" "RealGoodObject ?s 1" "\<not> IsGarbage ?s 1" by (simp_all add: parent_db_def sample_defs db_defs)
  then have c: "controls sample_server ?s 1 1 = Some True" by (simp add: controls_def parent_db_def sample_defs db_defs)
  have env: "lock_parse_env sample_server ?s 1 '''' =
      sample_env\<lparr>px_loading_db := False, px_good_object := GoodObject ?s, px_match_lock := match_lock ?s, px_ltype := ''''\<rparr>"
    by (simp add: lock_parse_env_def sample_server_def)
  have envok: "env_ok (lock_parse_env sample_server ?s 1 '''')"
    unfolding env by (simp add: env_ok_def match_lock_def sample_mush_def no_nul_def)
  have parse: "parse_boolexp_E (sample_env\<lparr>px_loading_db := False, px_good_object := g, px_match_lock := m, px_ltype := ''''\<rparr>) (parse_fuel ?key) ?key
      = Parsed (?ast, '''')" for g m
    by code_simp
  have flag: "is_allowed_bflag ''FLAG'' = Some OP_TFLAG" by code_simp
  have size: "lock_size ?ast \<le> MAX_CHUNK_LEN" "lock_ok 20 (Some ?ast)"
    by (simp_all add: lock_ok_def insn_count_def lock_size_def generate_bvm_asm_def gen_label_id_def paren_if_def
        append_insn_def is_label_def INSN_LEN_def Let_def MAX_CHUNK_LEN_def no_nul_def flag)
  have steps: "sv_steps sample_server = 20" by (simp add: sample_server_def)
  have "strcasecmp ''Basic'' ''basic'' = 0" by code_simp
  then have same: "case_key ''basic'' = case_key ''Basic''"
    using lock_cmp(1) [of basic_lock "''basic''"] nn by (simp add: basic_lock_def lkey_def)
  have "keys_ok 20 ?s" by (simp add: keys_ok_def parent_mush_ok(4))
  moreover have "room_for 1 ?s" by (simp add: room_for_def parent_mush_ok(2) max_uses_def)
  moreover have "check_lock_type sample_server ?s 1 1 '''' False = (Some ''Basic'', ?s)" by (simp add: check_lock_type_def)
  moreover have "can_write_lock ?s 1 1 l" for l by (simp add: can_write_lock_def God_def GOD_def)
  ultimately obtain s' locks where r: "do_lock sample_server 1 ''me'' ?key '''' ?s = Some s'"
    "\<forall>p t. no_nul t \<and> case_key t = case_key ''Basic'' \<longrightarrow>
       eval_lock_with sample_server s' p 1 t = res_of (lock_value (lock_world sample_server s') locks 0 p (Some ?ast) 1)"
    using lock_command_means_its_key [OF parent_mush_ok(1,3), where sv = sample_server and player = 1 and name = "''me''" and thing = 1
        and keyname = ?key and type = "''''" and ast = ?ast and rest = "''''" and rt = "''Basic''"]
      match_me [OF match_me_flags(5-8) good(2) c] good c envok nn parse [folded env] size steps
    by (auto simp: BUFFER_LEN_def env)
  define w where "w = lock_world sample_server s'"
  have w: "w_max_depth w = 10" "w_sees_flag w f p2 p3 a = False" for f p2 p3 a
    by (simp_all add: w_def lock_world_def sample_server_def sample_world_def)
  have "eval_lock_with sample_server s' 2 1 ''basic'' = Returns 0"
    using r(2) nn(2) same flag w lock_value.simps [of w locks 0 2 "Some ?ast" 1] by (simp add: w_def [symmetric] res_of_def test_string_def truth_def)
  with r(1) show ?thesis by blast
qed

end
