(* ===== verification/Mush_Hash_Function.thy ===== *)
theory Mush_Hash_Function
  imports Mush_Privtab
begin

text \<open>
  The hash function of \<open>hash_function.c\<close>, CityHash64 with seeds, on the bytes of a key.  Reads are at offsets into
  the key and checked.  The code assumes the byte order of a little-endian machine or swaps to it.
\<close>

unbundle bit_operations_syntax

section \<open>Words and bytes\<close>

type_synonym u64 = "64 word"

text \<open>A read of \<open>n\<close> bytes at the offset \<open>i\<close> of the key, little-endian; \<open>None\<close> if it leaves the key.\<close>

definition char_word :: "char \<Rightarrow> 'a::len word" where
  "char_word c = of_nat (c_ord c)"

definition city_Fetch :: "nat \<Rightarrow> string \<Rightarrow> nat \<Rightarrow> u64 option" where
  "city_Fetch n s i =
     (if i + n \<le> length s then Some (foldr (\<lambda>c w. push_bit 8 w OR char_word c) (take n (drop i s)) 0) else None)"

definition city_Fetch64 :: "string \<Rightarrow> nat \<Rightarrow> u64 option" where "city_Fetch64 s i = city_Fetch 8 s i"
definition city_Fetch32 :: "string \<Rightarrow> nat \<Rightarrow> u64 option" where "city_Fetch32 s i = city_Fetch 4 s i"

definition city_bswap_16 :: "16 word \<Rightarrow> 16 word" where
  "city_bswap_16 hword = (let low = hword AND 0xFF; hi = drop_bit 8 hword in hi + push_bit 8 low)"

definition city_bswap_32 :: "32 word \<Rightarrow> 32 word" where
  "city_bswap_32 word =
     (let low = word AND 0xFFFF; hi = drop_bit 16 word in ucast (city_bswap_16 (ucast hi)) + push_bit 16 (ucast (city_bswap_16 (ucast low))))"

definition city_bswap_64 :: "u64 \<Rightarrow> u64" where
  "city_bswap_64 dword =
     (let low = dword AND 0xFFFFFFFF; hi = drop_bit 32 dword in ucast (city_bswap_32 (ucast hi)) + push_bit 32 (ucast (city_bswap_32 (ucast low))))"

definition city_k0 :: u64 where "city_k0 = 0xc3a5c85c97cb3127"
definition city_k1 :: u64 where "city_k1 = 0xb492b66fbe98f273"
definition city_k2 :: u64 where "city_k2 = 0x9ae16a3b2f90404f"

definition city_Rotate :: "u64 \<Rightarrow> nat \<Rightarrow> u64" where
  "city_Rotate val shift = (if shift = 0 then val else drop_bit shift val OR push_bit (64 - shift) val)"

definition city_ShiftMix :: "u64 \<Rightarrow> u64" where
  "city_ShiftMix val = val XOR drop_bit 47 val"

definition city_HashLen16WithMul :: "u64 \<Rightarrow> u64 \<Rightarrow> u64 \<Rightarrow> u64" where
  "city_HashLen16WithMul u v mul =
     (let a = (u XOR v) * mul; a = a XOR drop_bit 47 a;
          b = (v XOR a) * mul; b = b XOR drop_bit 47 b
      in b * mul)"

definition city_Hash128to64 :: "u64 \<times> u64 \<Rightarrow> u64" where
  "city_Hash128to64 x =
     (let kMul = 0x9ddfea08eb382d69;
          a = (fst x XOR snd x) * kMul; a = a XOR drop_bit 47 a;
          b = (snd x XOR a) * kMul; b = b XOR drop_bit 47 b
      in b * kMul)"

definition city_HashLen16 :: "u64 \<Rightarrow> u64 \<Rightarrow> u64" where
  "city_HashLen16 u v = city_Hash128to64 (u, v)"

section \<open>Short keys\<close>

definition city_HashLen0to16 :: "string \<Rightarrow> nat \<Rightarrow> u64 option" where
  "city_HashLen0to16 s len =
     (if 8 \<le> len then
        let mul = city_k2 + of_nat len * 2 in
        Option.bind (city_Fetch64 s 0) (\<lambda>s0.
        Option.bind (city_Fetch64 s (len - 8)) (\<lambda>b.
          let a = s0 + city_k2;
              c = city_Rotate b 37 * mul + a;
              d = (city_Rotate a 25 + b) * mul
          in Some (city_HashLen16WithMul c d mul)))
      else if 4 \<le> len then
        let mul = city_k2 + of_nat len * 2 in
        Option.bind (city_Fetch32 s 0) (\<lambda>a.
        Option.bind (city_Fetch32 s (len - 4)) (\<lambda>b.
          Some (city_HashLen16WithMul (of_nat len + push_bit 3 a) b mul)))
      else if 0 < len then
        if length s < len then None
        else
          let a = char_word (s ! 0); b = char_word (s ! (len div 2)); c = char_word (s ! (len - 1));
              y = a + push_bit 8 b :: 32 word;
              z = of_nat len + push_bit 2 c :: 32 word
          in Some (city_ShiftMix (ucast y * city_k2 XOR ucast z * city_k0) * city_k2)
      else Some city_k2)"

definition city_HashLen17to32 :: "string \<Rightarrow> nat \<Rightarrow> u64 option" where
  "city_HashLen17to32 s len =
     (let mul = city_k2 + of_nat len * 2 in
      Option.bind (city_Fetch64 s 0) (\<lambda>a.
      Option.bind (city_Fetch64 s 8) (\<lambda>b.
      Option.bind (city_Fetch64 s (len - 8)) (\<lambda>c.
      Option.bind (city_Fetch64 s (len - 16)) (\<lambda>d.
        let a = a * city_k1; c = c * mul; d = d * city_k2
        in Some (city_HashLen16WithMul (city_Rotate (a + b) 43 + city_Rotate c 30 + d) (a + city_Rotate (b + city_k2) 18 + c) mul))))))"

definition city_HashLen33to64 :: "string \<Rightarrow> nat \<Rightarrow> u64 option" where
  "city_HashLen33to64 s len =
     (let mul = city_k2 + of_nat len * 2 in
      Option.bind (city_Fetch64 s 0) (\<lambda>a.
      Option.bind (city_Fetch64 s 8) (\<lambda>b.
      Option.bind (city_Fetch64 s (len - 24)) (\<lambda>c.
      Option.bind (city_Fetch64 s (len - 32)) (\<lambda>d.
      Option.bind (city_Fetch64 s 16) (\<lambda>e.
      Option.bind (city_Fetch64 s 24) (\<lambda>f.
      Option.bind (city_Fetch64 s (len - 8)) (\<lambda>g.
      Option.bind (city_Fetch64 s (len - 16)) (\<lambda>h.
        let a = a * city_k2; e = e * city_k2; f = f * 9; h = h * mul;
            u = city_Rotate (a + g) 43 + (city_Rotate b 30 + c) * 9;
            v = ((a + g) XOR d) + f + 1;
            w = city_bswap_64 ((u + v) * mul) + h;
            x = city_Rotate (e + f) 42 + c;
            y = (city_bswap_64 ((v + w) * mul) + g) * mul;
            z = e + f + c;
            a = city_bswap_64 ((x + z) * mul + y) + b;
            b = city_ShiftMix ((z + a) * mul + d + h) * mul
        in Some (b + x))))))))))"

section \<open>Long keys\<close>

definition city_WeakHashLen32WithSeedsHelper :: "u64 \<Rightarrow> u64 \<Rightarrow> u64 \<Rightarrow> u64 \<Rightarrow> u64 \<Rightarrow> u64 \<Rightarrow> u64 \<times> u64" where
  "city_WeakHashLen32WithSeedsHelper w x y z a b =
     (let a = a + w; b = city_Rotate (b + a + z) 21; c = a; a = a + x; a = a + y; b = b + city_Rotate a 44 in (a + z, b + c))"

definition city_WeakHashLen32WithSeeds :: "string \<Rightarrow> nat \<Rightarrow> u64 \<Rightarrow> u64 \<Rightarrow> (u64 \<times> u64) option" where
  "city_WeakHashLen32WithSeeds s i a b =
     Option.bind (city_Fetch64 s i) (\<lambda>w.
     Option.bind (city_Fetch64 s (i + 8)) (\<lambda>x.
     Option.bind (city_Fetch64 s (i + 16)) (\<lambda>y.
     Option.bind (city_Fetch64 s (i + 24)) (\<lambda>z. Some (city_WeakHashLen32WithSeedsHelper w x y z a b)))))"

text \<open>What the loop over chunks of 64 bytes keeps.\<close>

record city_state =
  cs_v :: "u64 \<times> u64"
  cs_w :: "u64 \<times> u64"
  cs_x :: u64
  cs_y :: u64
  cs_z :: u64

definition city_chunk :: "string \<Rightarrow> nat \<Rightarrow> city_state \<Rightarrow> city_state option" where
  "city_chunk s i st =
     (let (v1, v2) = cs_v st; (w1, w2) = cs_w st in
      Option.bind (city_Fetch64 s (i + 8)) (\<lambda>s8.
      Option.bind (city_Fetch64 s (i + 48)) (\<lambda>s48.
      Option.bind (city_Fetch64 s (i + 40)) (\<lambda>s40.
      Option.bind (city_Fetch64 s (i + 16)) (\<lambda>s16.
        let x = city_Rotate (cs_x st + cs_y st + v1 + s8) 37 * city_k1;
            y = city_Rotate (cs_y st + v2 + s48) 42 * city_k1;
            x = x XOR w2;
            y = y + (v1 + s40);
            z = city_Rotate (cs_z st + w1) 33 * city_k1
        in
        Option.bind (city_WeakHashLen32WithSeeds s i (v2 * city_k1) (x + w1)) (\<lambda>v.
        Option.bind (city_WeakHashLen32WithSeeds s (i + 32) (z + w2) (y + s16)) (\<lambda>w.
          Some \<lparr>cs_v = v, cs_w = w, cs_x = z, cs_y = y, cs_z = x\<rparr>)))))))"

text \<open>The loop: \<open>n\<close> chunks are left, the first at the offset \<open>i\<close>.\<close>

fun city_chunks :: "string \<Rightarrow> nat \<Rightarrow> nat \<Rightarrow> city_state \<Rightarrow> city_state option" where
  "city_chunks s i 0 st = Some st"
| "city_chunks s i (Suc n) st = Option.bind (city_chunk s i st) (city_chunks s (i + 64) n)"

definition city_CityHash64 :: "string \<Rightarrow> nat \<Rightarrow> u64 option" where
  "city_CityHash64 s len =
     (if len \<le> 32 then if len \<le> 16 then city_HashLen0to16 s len else city_HashLen17to32 s len
      else if len \<le> 64 then city_HashLen33to64 s len
      else
        Option.bind (city_Fetch64 s (len - 40)) (\<lambda>x.
        Option.bind (city_Fetch64 s (len - 16)) (\<lambda>y16.
        Option.bind (city_Fetch64 s (len - 56)) (\<lambda>y56.
        Option.bind (city_Fetch64 s (len - 48)) (\<lambda>z48.
        Option.bind (city_Fetch64 s (len - 24)) (\<lambda>z24.
          let y = y16 + y56; z = city_HashLen16 (z48 + of_nat len) z24 in
          Option.bind (city_WeakHashLen32WithSeeds s (len - 64) (of_nat len) z) (\<lambda>v.
          Option.bind (city_WeakHashLen32WithSeeds s (len - 32) (y + city_k1) x) (\<lambda>w.
          Option.bind (city_Fetch64 s 0) (\<lambda>s0.
          Option.bind (city_chunks s 0 ((len - 1) div 64) \<lparr>cs_v = v, cs_w = w, cs_x = x * city_k1 + s0, cs_y = y, cs_z = z\<rparr>) (\<lambda>st.
            Some (city_HashLen16
                    (city_HashLen16 (fst (cs_v st)) (fst (cs_w st)) + city_ShiftMix (cs_y st) * city_k1 + cs_z st)
                    (city_HashLen16 (snd (cs_v st)) (snd (cs_w st)) + cs_x st))))))))))))"

definition city_CityHash64WithSeeds :: "string \<Rightarrow> nat \<Rightarrow> u64 \<Rightarrow> u64 \<Rightarrow> u64 option" where
  "city_CityHash64WithSeeds s len seed0 seed1 = map_option (\<lambda>h. city_HashLen16 (h - seed0) seed1) (city_CityHash64 s len)"

definition city_hash :: "string \<Rightarrow> nat \<Rightarrow> u64 \<Rightarrow> 32 word option" where
  "city_hash s len seed = map_option ucast (city_CityHash64WithSeeds s len city_k2 seed)"

section \<open>Properties\<close>

lemma bind_returns: "x \<noteq> None \<Longrightarrow> (\<And>y. f y \<noteq> None) \<Longrightarrow> Option.bind x f \<noteq> None"
  by (cases x) simp_all

lemma city_Fetch64_inside: "i + 8 \<le> length s \<Longrightarrow> city_Fetch64 s i \<noteq> None"
  by (simp add: city_Fetch64_def city_Fetch_def)

lemma city_Fetch32_inside: "i + 4 \<le> length s \<Longrightarrow> city_Fetch32 s i \<noteq> None"
  by (simp add: city_Fetch32_def city_Fetch_def)

lemma city_Weak_inside: "i + 32 \<le> length s \<Longrightarrow> city_WeakHashLen32WithSeeds s i a b \<noteq> None"
  unfolding city_WeakHashLen32WithSeeds_def by (intro bind_returns city_Fetch64_inside) auto

lemmas city_inside = bind_returns city_Fetch64_inside city_Fetch32_inside city_Weak_inside

lemma city_chunk_inside: "i + 64 \<le> length s \<Longrightarrow> city_chunk s i st \<noteq> None"
  unfolding city_chunk_def case_prod_beta Let_def by (intro city_inside) auto

lemma city_chunks_inside: "i + 64 * n \<le> length s \<Longrightarrow> city_chunks s i n st \<noteq> None"
proof (induction s i n st rule: city_chunks.induct)
  case (2 s i n st)
  then have "city_chunk s i st \<noteq> None" using city_chunk_inside [of i s st] by simp
  moreover have "city_chunks s (i + 64) n st' \<noteq> None" if "city_chunk s i st = Some st'" for st'
    using 2(1) [OF that] 2(2) by simp
  ultimately show ?case by auto
qed simp

lemma city_HashLen0to16_inside: "len \<le> length s \<Longrightarrow> city_HashLen0to16 s len \<noteq> None"
proof -
  assume len: "len \<le> length s"
  consider "8 \<le> len" | "4 \<le> len" "len < 8" | "len < 4" by linarith
  then show ?thesis
  proof cases
    case 1
    then show ?thesis unfolding city_HashLen0to16_def Let_def using len
      by (simp only: if_True) (intro city_inside, auto)
  next
    case 2
    then have "(8 \<le> len) = False" "(4 \<le> len) = True" by auto
    then show ?thesis unfolding city_HashLen0to16_def Let_def using len
      by (simp only: if_True if_False) (intro city_inside, auto)
  next
    case 3
    then show ?thesis using len by (simp add: city_HashLen0to16_def Let_def)
  qed
qed

lemma city_long_inside:
  assumes "64 < length s"
  shows "city_CityHash64 s (length s) \<noteq> None"
proof -
  have c: "city_chunks s 0 ((length s - 1) div 64) st \<noteq> None" for st
    using city_chunks_inside [of 0 "(length s - 1) div 64" s st] assms by linarith
  have "(length s \<le> 32) = False" "(length s \<le> 64) = False" using assms by auto
  then show ?thesis unfolding city_CityHash64_def Let_def using assms c
    by (simp only: if_False) (intro city_inside, auto)
qed

lemma city_CityHash64_inside: "city_CityHash64 s (length s) \<noteq> None"
proof -
  define len where "len = length s"
  consider "len \<le> 16" | "16 < len" "len \<le> 32" | "32 < len" "len \<le> 64" | "64 < len" by linarith
  then have "city_CityHash64 s len \<noteq> None"
  proof cases
    case 1
    then show ?thesis using city_HashLen0to16_inside [of len s] by (simp add: city_CityHash64_def len_def)
  next
    case 2
    then have "city_HashLen17to32 s len \<noteq> None"
      unfolding city_HashLen17to32_def Let_def by (intro city_inside) (auto simp: len_def)
    with 2 show ?thesis by (simp add: city_CityHash64_def)
  next
    case 3
    then have "city_HashLen33to64 s len \<noteq> None"
      unfolding city_HashLen33to64_def Let_def by (intro city_inside) (auto simp: len_def)
    with 3 show ?thesis by (simp add: city_CityHash64_def)
  next
    case 4
    then show ?thesis using city_long_inside [of s] by (simp add: len_def)
  qed
  then show ?thesis by (simp add: len_def)
qed

text \<open>Hashing a key reads only the key: whatever its length, no read leaves its bytes.\<close>

theorem city_hash_stays_inside: "\<exists>h. city_hash s (length s) seed = Some h"
  using city_CityHash64_inside [of s] by (auto simp: city_hash_def city_CityHash64WithSeeds_def)

end
