(* ===== verification/Mush_Htab.thy ===== *)
theory Mush_Htab
  imports Mush_Hash_Function
begin

text \<open>
  Hash tables (\<open>htab.c\<close>, \<open>htab.h\<close>): cuckoo hashing with three of eight hash functions.  An insertion that finds its
  three buckets full takes one of them at random and moves on with the entry it found there; after ten moves the table
  is rebuilt with other hash functions, and when all have been tried, with more buckets.  \<open>None\<close> is an access outside
  the buckets.  The functions that free the data are not modelled, and sizes do not reach the bounds of \<open>int\<close>.
\<close>

section \<open>Hash tables\<close>

record 'a hash_bucket =
  hb_key :: string
  hb_data :: 'a
  hb_keylen :: nat

text \<open>A bucket without a key is \<open>None\<close>.\<close>

record 'a hashtable =
  hashsize :: nat
  entries :: nat
  hashseed_offset :: nat
  buckets :: "'a hash_bucket option list"
  last_index :: int

text \<open>
  What lies outside the table: the two static variables of \<open>htab.c\<close>, the numbers \<open>get_random_u32\<close> returns,
  OpenSSL's test for primes, and how often the resize has been given up with a line in the log.
\<close>

record hash_env =
  resize_calls :: nat
  first_offset :: int
  he_random :: "nat \<Rightarrow> nat"
  he_drawn :: nat
  he_prime :: "nat \<Rightarrow> bool"
  he_log :: nat

definition hash_seeds :: "u64 list" where
  "hash_seeds =
     [0x28187BCC53900639, 0x37FF1FD24D473811, 0xDFBE49319032F8A0, 0x511425D4D0A6E518,
      0xAC30C8C94941DE18, 0xC61F7F133E0DCF02, 0xA32C48FC8A34D36A, 0x6561992839F450CB]"

definition NHASH_TRIES :: nat where "NHASH_TRIES = 3"
definition NHASH_MOD :: nat where "NHASH_MOD = 8"
definition BUMP_LIMIT :: nat where "BUMP_LIMIT = 10"

definition get_random_try :: "hash_env \<Rightarrow> nat \<times> hash_env" where
  "get_random_try e = (he_random e (he_drawn e) mod NHASH_TRIES, e\<lparr>he_drawn := he_drawn e + 1\<rparr>)"

partial_function (option) next_odd_prime :: "(nat \<Rightarrow> bool) \<Rightarrow> nat \<Rightarrow> nat option" where
  [code]: "next_odd_prime is_prime val = (if is_prime val then Some val else next_odd_prime is_prime (val + 2))"

definition next_prime_after :: "(nat \<Rightarrow> bool) \<Rightarrow> nat \<Rightarrow> nat option" where
  "next_prime_after is_prime val = next_odd_prime is_prime (if odd val then val + 2 else val + 1)"

text \<open>\<open>floor(size * 1.15)\<close>; sizes are odd, so that the rounding of the double does not matter.\<close>

definition grown :: "nat \<Rightarrow> nat" where
  "grown n = n * 115 div 100"

definition hash_init :: "(nat \<Rightarrow> bool) \<Rightarrow> nat \<Rightarrow> 'a hashtable option" where
  "hash_init is_prime n =
     map_option (\<lambda>n. \<lparr>hashsize = n, entries = 0, hashseed_offset = 0, buckets = replicate n None, last_index = - 1\<rparr>)
       (next_prime_after is_prime n)"

text \<open>The bucket of a key under one of the hash functions; \<open>None\<close> if there is no bucket at all.\<close>

definition hash_val :: "'a hashtable \<Rightarrow> string \<Rightarrow> nat \<Rightarrow> nat \<Rightarrow> nat option" where
  "hash_val htab key keylen seed_index =
     (if hashsize htab = 0 \<or> length hash_seeds \<le> seed_index then None
      else map_option (\<lambda>h. nat (uint h mod int (hashsize htab))) (city_hash key keylen (hash_seeds ! seed_index)))"

definition bucket_at :: "'a hashtable \<Rightarrow> nat \<Rightarrow> 'a hash_bucket option option" where
  "bucket_at htab i = (if i < length (buckets htab) then Some (buckets htab ! i) else None)"

section \<open>Searching\<close>

text \<open>The loop of \<open>hash_find\<close> over the hash functions left to try.\<close>

fun find_loop :: "'a hashtable \<Rightarrow> string \<Rightarrow> nat list \<Rightarrow> nat option option" where
  "find_loop htab key [] = Some None"
| "find_loop htab key (n # ns) =
     Option.bind (hash_val htab key (length key) ((n + hashseed_offset htab) mod NHASH_MOD))
       (\<lambda>hval. Option.bind (bucket_at htab hval)
          (\<lambda>b. case b of
                 Some e \<Rightarrow> if length key = hb_keylen e \<and> hb_key e = key then Some (Some hval) else find_loop htab key ns
               | None \<Rightarrow> find_loop htab key ns))"

definition hash_find :: "'a hashtable \<Rightarrow> string \<Rightarrow> nat option option" where
  "hash_find htab key = (if entries htab = 0 then Some None else find_loop htab key [0..<NHASH_TRIES])"

definition hash_value :: "'a hashtable \<Rightarrow> string \<Rightarrow> 'a option option" where
  "hash_value htab key =
     map_option (map_option (\<lambda>i. hb_data (the (buckets htab ! i)))) (hash_find htab key)"

section \<open>Inserting\<close>

text \<open>The first of the buckets for \<open>bump\<close> that is empty.\<close>

fun empty_choice :: "'a hashtable \<Rightarrow> 'a hash_bucket \<Rightarrow> nat list \<Rightarrow> nat option option" where
  "empty_choice htab bump [] = Some None"
| "empty_choice htab bump (n # ns) =
     Option.bind (hash_val htab (hb_key bump) (hb_keylen bump) ((n + hashseed_offset htab) mod NHASH_MOD))
       (\<lambda>hval. Option.bind (bucket_at htab hval)
          (\<lambda>b. if b = None then Some (Some hval) else empty_choice htab bump ns))"

definition set_bucket :: "nat \<Rightarrow> 'a hash_bucket option \<Rightarrow> 'a hashtable \<Rightarrow> 'a hashtable" where
  "set_bucket i b htab = htab\<lparr>buckets := (buckets htab)[i := b]\<rparr>"

text \<open>The loop of \<open>hash_insert\<close> with \<open>n\<close> rounds left: the table, and what is still to be placed, if anything.\<close>

fun bump_loop :: "nat \<Rightarrow> 'a hash_bucket \<Rightarrow> 'a hashtable \<Rightarrow> hash_env \<Rightarrow> ('a hash_bucket option \<times> 'a hashtable \<times> hash_env) option" where
  "bump_loop 0 bump htab e = Some (Some bump, htab, e)"
| "bump_loop (Suc n) bump htab e =
     Option.bind (empty_choice htab bump [0..<NHASH_TRIES])
       (\<lambda>c. case c of
              Some hval \<Rightarrow> Some (None, set_bucket hval (Some bump) htab, e)
            | None \<Rightarrow>
                let (r, e) = get_random_try e in
                Option.bind (hash_val htab (hb_key bump) (hb_keylen bump) ((hashseed_offset htab + r) mod NHASH_MOD))
                  (\<lambda>hval. Option.bind (bucket_at htab hval)
                     (\<lambda>t. case t of
                            None \<Rightarrow> None
                          | Some temp \<Rightarrow> bump_loop n temp (set_bucket hval (Some bump) htab) e)))"

text \<open>The first empty bucket of the table.\<close>

fun first_empty :: "nat \<Rightarrow> 'a hash_bucket option list \<Rightarrow> nat option" where
  "first_empty n [] = None"
| "first_empty n (b # bs) = (if b = None then Some n else first_empty (n + 1) bs)"

definition hash_insert :: "'a hashtable \<Rightarrow> string \<Rightarrow> nat \<Rightarrow> 'a \<Rightarrow> hash_env \<Rightarrow> (bool \<times> 'a hashtable \<times> hash_env) option" where
  "hash_insert htab key keylen data e =
     map_option
       (\<lambda>(left, htab, e).
          case left of
            None \<Rightarrow> (True, htab, e)
          | Some bump \<Rightarrow>
              (case first_empty 0 (buckets htab) of
                 Some n \<Rightarrow> (False, set_bucket n (Some bump) htab, e)
               | None \<Rightarrow> (False, htab, e)))
       (bump_loop BUMP_LIMIT \<lparr>hb_key = key, hb_data = data, hb_keylen = keylen\<rparr> htab e)"

section \<open>Resizing\<close>

text \<open>The loop that moves the buckets of the old array into the new one, as long as all find a place.\<close>

fun reinsert :: "'a hash_bucket option list \<Rightarrow> 'a hashtable \<Rightarrow> hash_env \<Rightarrow> (bool \<times> 'a hashtable \<times> hash_env) option" where
  "reinsert [] htab e = Some (True, htab, e)"
| "reinsert (None # bs) htab e = reinsert bs htab e"
| "reinsert (Some b # bs) htab e =
     Option.bind (hash_insert htab (hb_key b) (hb_keylen b) (hb_data b) e)
       (\<lambda>(ok, htab, e). if ok then reinsert bs htab e else Some (False, htab, e))"

definition same_env :: "hash_env \<Rightarrow> hash_env \<Rightarrow> bool" where
  "same_env e e' \<longleftrightarrow> e' = e\<lparr>he_drawn := he_drawn e'\<rparr>"

lemma same_env_simps: "same_env e e" "same_env (snd (get_random_try e)) e' \<Longrightarrow> same_env e e'"
  "same_env e e' \<Longrightarrow> same_env e' e'' \<Longrightarrow> same_env e e''"
  by (cases e; cases e'; cases e''; simp add: same_env_def get_random_try_def)+

lemma same_env_fields: "same_env e e' \<Longrightarrow> resize_calls e' = resize_calls e \<and> first_offset e' = first_offset e \<and> he_log e' = he_log e
   \<and> he_prime e' = he_prime e"
  by (cases e; cases e') (simp add: same_env_def)

lemma bump_loop_env: "bump_loop n bump htab e = Some (l, htab', e') \<Longrightarrow> same_env e e'"
proof (induction n bump htab e rule: bump_loop.induct)
  case (2 n bump htab e)
  from 2(2) obtain c where c: "empty_choice htab bump [0..<NHASH_TRIES] = Some c" by (auto simp: bind_eq_Some_conv)
  show ?case
  proof (cases c)
    case None
    obtain r e1 where r: "get_random_try e = (r, e1)" by (cases "get_random_try e")
    from 2(2) c None r obtain hval temp where h: "hash_val htab (hb_key bump) (hb_keylen bump) ((hashseed_offset htab + r) mod NHASH_MOD) = Some hval"
      "bucket_at htab hval = Some (Some temp)" "bump_loop n temp (set_bucket hval (Some bump) htab) e1 = Some (l, htab', e')"
      by (auto simp: bind_eq_Some_conv split: option.splits)
    from 2(1) [OF c None r [symmetric] refl h(1,2) refl h(3)] show ?thesis using same_env_simps(2) [of e e'] r by simp
  next
    case (Some i)
    then show ?thesis using 2(2) c by (simp add: same_env_simps(1))
  qed
qed (simp add: same_env_simps(1))

lemma hash_insert_env: "hash_insert htab key keylen data e = Some (ok, htab', e') \<Longrightarrow> same_env e e'"
  by (auto simp: hash_insert_def split: option.splits dest!: bump_loop_env)

lemma reinsert_env: "reinsert bs htab e = Some (ok, htab', e') \<Longrightarrow> same_env e e'"
proof (induction bs htab e rule: reinsert.induct)
  case (3 b bs htab e)
  then obtain ok1 h1 e1 where i: "hash_insert htab (hb_key b) (hb_keylen b) (hb_data b) e = Some (ok1, h1, e1)"
    "(if ok1 then reinsert bs h1 e1 else Some (False, h1, e1)) = Some (ok, htab', e')"
    by (auto simp: bind_eq_Some_conv)
  show ?case
  proof (cases ok1)
    case True
    with i have "same_env e1 e'" using 3(1) [OF i(1) refl refl] by simp
    then show ?thesis using hash_insert_env [OF i(1)] same_env_simps(3) by blast
  qed (use hash_insert_env [OF i(1)] i in simp)
qed (simp_all add: same_env_simps(1))

function hash_resize :: "hash_env \<Rightarrow> 'a hashtable \<Rightarrow> nat \<Rightarrow> nat \<Rightarrow> (bool \<times> 'a hashtable \<times> hash_env) option" where
  "hash_resize e htab newsize offset =
     (if 150 < resize_calls e then Some (False, htab, e\<lparr>he_log := he_log e + 1\<rparr>)
      else if int offset = first_offset e then
        Option.bind (next_prime_after (he_prime e) (grown newsize))
          (\<lambda>newersize. hash_resize (e\<lparr>first_offset := - 1\<rparr>) htab newersize offset)
      else
        Option.bind
          (reinsert (buckets htab) (htab\<lparr>buckets := replicate newsize None, hashsize := newsize, hashseed_offset := offset\<rparr>)
             (e\<lparr>resize_calls := resize_calls e + 1\<rparr>))
          (\<lambda>(ok, new, e').
             if ok then Some (True, new, e')
             else hash_resize (if first_offset e' = - 1 then e'\<lparr>first_offset := int offset\<rparr> else e') htab newsize
                    ((offset + 1) mod NHASH_MOD)))"
  by pat_completeness auto
termination
  by (relation "measures [\<lambda>(e, htab, n, k). 151 - resize_calls e, \<lambda>(e, htab, n, k). if int k = first_offset e then 1 else 0]")
    (auto dest!: reinsert_env same_env_fields)

declare hash_resize.simps [simp del]

definition hash_add :: "'a hashtable \<Rightarrow> string \<Rightarrow> 'a \<Rightarrow> hash_env \<Rightarrow> (bool \<times> 'a hashtable \<times> hash_env) option" where
  "hash_add htab key hashdata e =
     Option.bind (hash_find htab key)
       (\<lambda>f. if f \<noteq> None then Some (False, htab, e)
            else
              Option.bind
                (if entries htab = hashsize htab
                 then Option.bind (next_prime_after (he_prime e) (grown (hashsize htab)))
                        (\<lambda>n. map_option snd (hash_resize e htab n (hashseed_offset htab)))
                 else Some (htab, e))
                (\<lambda>(htab, e).
                   Option.bind (hash_insert (htab\<lparr>entries := entries htab + 1\<rparr>) key (length key) hashdata e)
                     (\<lambda>(ok, htab, e).
                        if ok then Some (True, htab, e)
                        else
                          map_option (\<lambda>(_, htab, e). (True, htab, e))
                            (hash_resize (e\<lparr>first_offset := - 1, resize_calls := 0\<rparr>) htab (hashsize htab)
                               ((hashseed_offset htab + 1) mod NHASH_MOD)))))"

section \<open>Deleting and walking\<close>

definition hash_delete_bucket :: "'a hashtable \<Rightarrow> nat \<Rightarrow> 'a hashtable" where
  "hash_delete_bucket htab i = set_bucket i None (htab\<lparr>entries := entries htab - 1\<rparr>)"

definition hash_delete :: "'a hashtable \<Rightarrow> string \<Rightarrow> 'a hashtable option" where
  "hash_delete htab key =
     map_option (\<lambda>f. case f of None \<Rightarrow> htab | Some i \<Rightarrow> hash_delete_bucket htab i) (hash_find htab key)"

definition hash_flush :: "(nat \<Rightarrow> bool) \<Rightarrow> 'a hashtable \<Rightarrow> nat \<Rightarrow> 'a hashtable option" where
  "hash_flush is_prime htab n =
     map_option (\<lambda>n. htab\<lparr>entries := 0, hashsize := n, buckets := replicate n None\<rparr>) (next_prime_after is_prime n)"

text \<open>The first filled bucket from the index \<open>n\<close> on.\<close>

fun next_filled :: "nat \<Rightarrow> 'a hash_bucket option list \<Rightarrow> (nat \<times> 'a hash_bucket) option" where
  "next_filled n [] = None"
| "next_filled n (b # bs) = (case b of Some e \<Rightarrow> Some (n, e) | None \<Rightarrow> next_filled (n + 1) bs)"

definition hash_walk_from :: "nat \<Rightarrow> 'a hashtable \<Rightarrow> 'a hash_bucket option \<times> 'a hashtable" where
  "hash_walk_from n htab =
     (case next_filled n (drop n (buckets htab)) of
        Some (i, b) \<Rightarrow> (Some b, htab\<lparr>last_index := int i\<rparr>)
      | None \<Rightarrow> (None, htab))"

definition hash_firstentry :: "'a hashtable \<Rightarrow> 'a option \<times> 'a hashtable" where
  "hash_firstentry htab = map_prod (map_option hb_data) id (hash_walk_from 0 htab)"

definition hash_firstentry_key :: "'a hashtable \<Rightarrow> string option \<times> 'a hashtable" where
  "hash_firstentry_key htab = map_prod (map_option hb_key) id (hash_walk_from 0 htab)"

definition hash_nextentry :: "'a hashtable \<Rightarrow> 'a option \<times> 'a hashtable" where
  "hash_nextentry htab = map_prod (map_option hb_data) id (hash_walk_from (nat (last_index htab + 1)) htab)"

definition hash_nextentry_key :: "'a hashtable \<Rightarrow> string option \<times> 'a hashtable" where
  "hash_nextentry_key htab = map_prod (map_option hb_key) id (hash_walk_from (nat (last_index htab + 1)) htab)"

record hashstats =
  hs_entries :: nat
  hs_lookups :: "nat list"
  hs_key_length :: nat
  hs_bytes :: nat

text \<open>The first of the three functions that leads to the bucket \<open>n\<close>.\<close>

fun which_lookup :: "'a hashtable \<Rightarrow> 'a hash_bucket \<Rightarrow> nat \<Rightarrow> nat list \<Rightarrow> nat option option" where
  "which_lookup htab b n [] = Some None"
| "which_lookup htab b n (i # is) =
     Option.bind (hash_val htab (hb_key b) (hb_keylen b) ((i + hashseed_offset htab) mod NHASH_MOD))
       (\<lambda>h. if h = n then Some (Some i) else which_lookup htab b n is)"

text \<open>\<open>hs_key_length\<close> is the sum that the code divides by the number of entries at the end.\<close>

fun stats_loop :: "'a hashtable \<Rightarrow> nat \<Rightarrow> 'a hash_bucket option list \<Rightarrow> hashstats \<Rightarrow> hashstats option" where
  "stats_loop htab n [] st = Some st"
| "stats_loop htab n (None # bs) st = stats_loop htab (n + 1) bs st"
| "stats_loop htab n (Some b # bs) st =
     Option.bind (which_lookup htab b n [0..<3])
       (\<lambda>w. stats_loop htab (n + 1) bs
          \<lparr>hs_entries = hs_entries st + 1,
           hs_lookups = (case w of None \<Rightarrow> hs_lookups st | Some i \<Rightarrow> (hs_lookups st)[i := hs_lookups st ! i + 1]),
           hs_key_length = hs_key_length st + hb_keylen b,
           hs_bytes = hs_bytes st + hb_keylen b + 1\<rparr>)"

definition hash_stats :: "nat \<Rightarrow> nat \<Rightarrow> 'a hashtable \<Rightarrow> hashstats option" where
  "hash_stats sizeof_htab sizeof_bucket htab =
     stats_loop htab 0 (buckets htab)
       \<lparr>hs_entries = 0, hs_lookups = [0, 0, 0], hs_key_length = 0, hs_bytes = sizeof_htab + sizeof_bucket * hashsize htab\<rparr>"

end
