(* ===== verification/Mush_Htab_Correct.thy ===== *)
theory Mush_Htab_Correct
  imports Mush_Htab "HOL-Library.Multiset"
begin

text \<open>
  Hash tables implement finite maps.  What an array of buckets holds is a multiset of entries (\<open>fills\<close>); a table is
  well formed (\<open>htab_ok\<close>) when each entry is in one of the three buckets of its key, no key is there twice, and the
  count is right.  Moving entries keeps the multiset, so that an insertion adds exactly one entry, and rebuilding a
  table loses none, unless it is given up with a message in the log.
\<close>

section \<open>The contents of a table\<close>

definition bucket_mset :: "'a hash_bucket option \<Rightarrow> 'a hash_bucket multiset" where
  "bucket_mset b = (case b of None \<Rightarrow> {#} | Some x \<Rightarrow> {#x#})"

definition fills :: "'a hash_bucket option list \<Rightarrow> 'a hash_bucket multiset" where
  "fills bs = sum_list (map bucket_mset bs)"

lemma bucket_mset_simps [simp]: "bucket_mset None = {#}" "bucket_mset (Some x) = {#x#}"
  by (simp_all add: bucket_mset_def)

lemma fills_simps [simp]: "fills [] = {#}" "fills (b # bs) = bucket_mset b + fills bs" "fills (replicate n None) = {#}"
proof -
  show "fills (replicate n None) = {#}" by (induction n) (simp_all add: fills_def)
qed (simp_all add: fills_def)

lemma fills_update: "i < length bs \<Longrightarrow> fills (bs[i := x]) + bucket_mset (bs ! i) = fills bs + bucket_mset x"
proof (induction bs arbitrary: i)
  case (Cons b bs)
  then show ?case by (cases i) (simp_all add: ac_simps)
qed simp

lemma in_fills: "b \<in># fills bs \<longleftrightarrow> Some b \<in> set bs"
proof (induction bs)
  case (Cons c bs)
  then show ?case by (cases c) auto
qed simp

lemma size_fills: "size (fills bs) \<le> length bs" "None \<in> set bs \<Longrightarrow> size (fills bs) < length bs"
  "None \<notin> set bs \<Longrightarrow> size (fills bs) = length bs"
proof -
  show le: "size (fills bs) \<le> length bs" for bs :: "'a hash_bucket option list"
  proof (induction bs)
    case (Cons c bs)
    then show ?case by (cases c) auto
  qed simp
  show "None \<in> set bs \<Longrightarrow> size (fills bs) < length bs"
  proof (induction bs)
    case (Cons c bs)
    then show ?case using le [of bs] by (cases c) auto
  qed simp
  show "None \<notin> set bs \<Longrightarrow> size (fills bs) = length bs"
  proof (induction bs)
    case (Cons c bs)
    then show ?case by (cases c) auto
  qed simp
qed

text \<open>A table in shape, with the lengths of the keys; and one whose entries are where \<open>hash_find\<close> looks for them.\<close>

definition keys_sized :: "'a hash_bucket multiset \<Rightarrow> bool" where
  "keys_sized M \<longleftrightarrow> (\<forall>b \<in># M. hb_keylen b = length (hb_key b))"

definition htab_shape :: "'a hashtable \<Rightarrow> bool" where
  "htab_shape htab \<longleftrightarrow> length (buckets htab) = hashsize htab \<and> 0 < hashsize htab \<and> keys_sized (fills (buckets htab))"

definition slots :: "'a hashtable \<Rightarrow> string \<Rightarrow> nat set" where
  "slots htab key = {h. \<exists>n < NHASH_TRIES. hash_val htab key (length key) ((n + hashseed_offset htab) mod NHASH_MOD) = Some h}"

definition placed :: "'a hashtable \<Rightarrow> bool" where
  "placed htab \<longleftrightarrow> (\<forall>i b. i < length (buckets htab) \<and> buckets htab ! i = Some b \<longrightarrow> i \<in> slots htab (hb_key b))"

definition unique_keys :: "'a hash_bucket multiset \<Rightarrow> bool" where
  "unique_keys M \<longleftrightarrow> (\<forall>k. size {#b \<in># M. hb_key b = k#} \<le> 1)"

definition htab_ok :: "'a hashtable \<Rightarrow> bool" where
  "htab_ok htab \<longleftrightarrow> htab_shape htab \<and> placed htab \<and> unique_keys (fills (buckets htab)) \<and> entries htab = size (fills (buckets htab))"

text \<open>The map a table stands for.\<close>

definition fills_map :: "'a hash_bucket multiset \<Rightarrow> string \<rightharpoonup> 'a" where
  "fills_map M k = (if \<exists>b \<in># M. hb_key b = k then Some (hb_data (SOME b. b \<in># M \<and> hb_key b = k)) else None)"

lemma unique_keysD:
  assumes "unique_keys M" "b \<in># M" "c \<in># M" "hb_key b = hb_key c"
  shows "b = c"
proof (rule ccontr)
  assume "b \<noteq> c"
  then obtain N where N: "M = add_mset b (add_mset c N)"
    using assms(2,3) by (metis insert_noteq_member multi_member_split)
  then have "2 \<le> size {#x \<in># M. hb_key x = hb_key b#}" using assms(4) by simp
  then show False using assms(1) unfolding unique_keys_def by (metis Suc_1 not_less_eq_eq order.trans)
qed

lemma fills_map_at: "unique_keys M \<Longrightarrow> b \<in># M \<Longrightarrow> fills_map M (hb_key b) = Some (hb_data b)"
proof -
  assume u: "unique_keys M" "b \<in># M"
  then have "(SOME c. c \<in># M \<and> hb_key c = hb_key b) = b"
    by (intro some_equality) (auto dest: unique_keysD)
  with u show ?thesis by (auto simp: fills_map_def)
qed

lemma fills_map_None: "fills_map M k = None \<longleftrightarrow> (\<forall>b \<in># M. hb_key b \<noteq> k)"
  by (auto simp: fills_map_def)

lemma no_such_bucket: "{#b \<in># M. P b#} = {#} \<longleftrightarrow> (\<forall>b \<in># M. \<not> P b)"
  by (induction M) auto

lemma unique_add: "unique_keys (add_mset b M) \<longleftrightarrow> unique_keys M \<and> fills_map M (hb_key b) = None"
proof
  assume u: "unique_keys (add_mset b M)"
  have "size {#c \<in># M. hb_key c = hb_key b#} = 0" using u [unfolded unique_keys_def, rule_format, of "hb_key b"] by simp
  then have "fills_map M (hb_key b) = None" by (auto simp: fills_map_None no_such_bucket)
  moreover have "unique_keys M"
    unfolding unique_keys_def
  proof
    fix k
    have "size {#b' \<in># M. hb_key b' = k#} \<le> size {#b' \<in># add_mset b M. hb_key b' = k#}" by simp
    then show "size {#b' \<in># M. hb_key b' = k#} \<le> 1" using u unfolding unique_keys_def by (meson order.trans)
  qed
  ultimately show "unique_keys M \<and> fills_map M (hb_key b) = None" by simp
next
  assume a: "unique_keys M \<and> fills_map M (hb_key b) = None"
  then have none: "{#c \<in># M. hb_key c = hb_key b#} = {#}" by (auto simp: fills_map_None no_such_bucket)
  with a show "unique_keys (add_mset b M)" by (simp add: unique_keys_def)
qed

lemma fills_map_add: "unique_keys (add_mset b M) \<Longrightarrow> fills_map (add_mset b M) = (fills_map M)(hb_key b \<mapsto> hb_data b)"
proof
  fix k
  assume u: "unique_keys (add_mset b M)"
  show "fills_map (add_mset b M) k = ((fills_map M)(hb_key b \<mapsto> hb_data b)) k"
  proof (cases "k = hb_key b")
    case True
    then show ?thesis using fills_map_at [OF u, of b] by simp
  next
    case False
    have um: "unique_keys M" using u by (simp add: unique_add)
    show ?thesis
    proof (cases "\<exists>c \<in># M. hb_key c = k")
      case True
      then obtain c where "c \<in># M" "hb_key c = k" by blast
      then show ?thesis using fills_map_at [OF u, of c] fills_map_at [OF um, of c] False by auto
    next
      case none: False
      then have "fills_map M k = None" "fills_map (add_mset b M) k = None" using False by (auto simp: fills_map_None)
      then show ?thesis using False by simp
    qed
  qed
qed

section \<open>Searching\<close>

lemma hash_val_ok:
  assumes "0 < hashsize htab"
  shows "\<exists>h < hashsize htab. hash_val htab key (length key) (k mod NHASH_MOD) = Some h"
proof -
  obtain w where "city_hash key (length key) (hash_seeds ! (k mod NHASH_MOD)) = Some w"
    using city_CityHash64_inside [of key] by (auto simp: city_hash_def city_CityHash64WithSeeds_def)
  moreover have "k mod NHASH_MOD < length hash_seeds" by (simp add: NHASH_MOD_def hash_seeds_def)
  ultimately show ?thesis using assms by (simp add: hash_val_def nat_less_iff)
qed

lemma slots_less: "0 < hashsize htab \<Longrightarrow> i \<in> slots htab key \<Longrightarrow> i < hashsize htab"
  using hash_val_ok [of htab key] by (auto simp: slots_def) (metis option.inject)

lemma find_loop_ok:
  assumes "htab_shape htab"
  shows "\<exists>r. find_loop htab key ns = Some r
    \<and> (case r of Some i \<Rightarrow> i < length (buckets htab) \<and> (\<exists>b. buckets htab ! i = Some b \<and> hb_key b = key)
       | None \<Rightarrow> \<forall>n \<in> set ns. \<forall>h b. hash_val htab key (length key) ((n + hashseed_offset htab) mod NHASH_MOD) = Some h
            \<longrightarrow> buckets htab ! h = Some b \<longrightarrow> hb_key b \<noteq> key)"
proof (induction ns)
  case (Cons n ns)
  obtain h where h: "h < hashsize htab" "hash_val htab key (length key) ((n + hashseed_offset htab) mod NHASH_MOD) = Some h"
    using hash_val_ok [of htab key "n + hashseed_offset htab"] assms by (auto simp: htab_shape_def)
  have at: "bucket_at htab h = Some (buckets htab ! h)" using h assms by (simp add: bucket_at_def htab_shape_def)
  have len: "hb_keylen b = length (hb_key b)" if "buckets htab ! h = Some b" for b
  proof -
    have "Some b \<in> set (buckets htab)" using that h(1) assms by (metis htab_shape_def nth_mem)
    then show ?thesis using assms by (auto simp: htab_shape_def keys_sized_def in_fills)
  qed
  show ?case
  proof (cases "\<exists>b. buckets htab ! h = Some b \<and> hb_key b = key")
    case True
    then have "find_loop htab key (n # ns) = Some (Some h)" using h(2) at len by auto
    then show ?thesis using True h(1) assms by (auto simp: htab_shape_def)
  next
    case False
    then have "find_loop htab key (n # ns) = find_loop htab key ns" using h(2) at by (auto split: option.splits)
    with Cons False h(2) show ?thesis by (auto split: option.splits)
  qed
qed simp

lemma hash_find_ok:
  assumes "htab_shape htab"
  shows "\<exists>r. hash_find htab key = Some r
    \<and> (\<forall>i. r = Some i \<longrightarrow> i < length (buckets htab) \<and> (\<exists>b. buckets htab ! i = Some b \<and> hb_key b = key))"
    and "htab_ok htab \<Longrightarrow> hash_find htab key = Some r \<Longrightarrow> r = None \<longleftrightarrow> fills_map (fills (buckets htab)) key = None"
proof -
  obtain q where q: "find_loop htab key [0..<NHASH_TRIES] = Some q"
    "case q of Some i \<Rightarrow> i < length (buckets htab) \<and> (\<exists>b. buckets htab ! i = Some b \<and> hb_key b = key)
       | None \<Rightarrow> \<forall>n \<in> set [0..<NHASH_TRIES]. \<forall>h b. hash_val htab key (length key) ((n + hashseed_offset htab) mod NHASH_MOD) = Some h
            \<longrightarrow> buckets htab ! h = Some b \<longrightarrow> hb_key b \<noteq> key"
    using find_loop_ok [OF assms, of key "[0..<NHASH_TRIES]"] by blast
  then show "\<exists>r. hash_find htab key = Some r
    \<and> (\<forall>i. r = Some i \<longrightarrow> i < length (buckets htab) \<and> (\<exists>b. buckets htab ! i = Some b \<and> hb_key b = key))"
    by (auto simp: hash_find_def)
  assume ok: "htab_ok htab" and r: "hash_find htab key = Some r"
  show "r = None \<longleftrightarrow> fills_map (fills (buckets htab)) key = None"
  proof (cases "entries htab = 0")
    case True
    then have "fills (buckets htab) = {#}" using ok by (simp add: htab_ok_def)
    then show ?thesis using r True by (simp add: hash_find_def fills_map_None)
  next
    case False
    then have rq: "r = q" using r q(1) by (simp add: hash_find_def)
    show ?thesis
    proof (cases q)
      case (Some i)
      then obtain b where "i < length (buckets htab)" "buckets htab ! i = Some b" "hb_key b = key" using q(2) by auto
      then have "b \<in># fills (buckets htab)" by (metis in_fills nth_mem)
      then show ?thesis using rq Some \<open>hb_key b = key\<close> by (auto simp: fills_map_None)
    next
      case None
      have "hb_key b \<noteq> key" if b: "b \<in># fills (buckets htab)" for b
      proof
        assume k: "hb_key b = key"
        obtain i where i: "i < length (buckets htab)" "buckets htab ! i = Some b" using b by (auto simp: in_fills in_set_conv_nth)
        then obtain n where "n < NHASH_TRIES" "hash_val htab key (length key) ((n + hashseed_offset htab) mod NHASH_MOD) = Some i"
          using ok k by (auto simp: htab_ok_def placed_def slots_def)
        then show False using q(2) None i(2) k by auto
      qed
      then show ?thesis using rq None by (auto simp: fills_map_None)
    qed
  qed
qed

lemma hash_value_map:
  assumes "htab_ok htab"
  shows "hash_value htab key = Some (fills_map (fills (buckets htab)) key)"
proof -
  have shape: "htab_shape htab" and u: "unique_keys (fills (buckets htab))" using assms by (simp_all add: htab_ok_def)
  obtain r where r: "hash_find htab key = Some r"
    "\<forall>i. r = Some i \<longrightarrow> i < length (buckets htab) \<and> (\<exists>b. buckets htab ! i = Some b \<and> hb_key b = key)"
    using hash_find_ok(1) [OF shape, of key] by blast
  show ?thesis
  proof (cases r)
    case None
    then show ?thesis using r(1) hash_find_ok(2) [OF shape assms r(1)] by (simp add: hash_value_def)
  next
    case (Some i)
    then obtain b where b: "i < length (buckets htab)" "buckets htab ! i = Some b" "hb_key b = key" using r(2) by blast
    then have "b \<in># fills (buckets htab)" by (metis in_fills nth_mem)
    then show ?thesis using fills_map_at [OF u] b r(1) Some by (auto simp: hash_value_def)
  qed
qed

section \<open>Inserting\<close>

text \<open>What insertion keeps of a table: its size, its hash functions and its counters.\<close>

definition same_frame :: "'a hashtable \<Rightarrow> 'a hashtable \<Rightarrow> bool" where
  "same_frame t t' \<longleftrightarrow> t' = t\<lparr>buckets := buckets t'\<rparr> \<and> length (buckets t') = length (buckets t)"

lemma same_frame_simps: "same_frame t t" "same_frame t (set_bucket i x t)"
  by (cases t; simp add: same_frame_def set_bucket_def)+

lemma same_frame_trans: "same_frame t t' \<Longrightarrow> same_frame t' t'' \<Longrightarrow> same_frame t t''"
  by (cases t; cases t'; cases t'') (simp add: same_frame_def)

lemma same_frame_fields: "same_frame t t' \<Longrightarrow> hashsize t' = hashsize t \<and> entries t' = entries t \<and> hashseed_offset t' = hashseed_offset t
    \<and> last_index t' = last_index t \<and> length (buckets t') = length (buckets t)"
  by (cases t; cases t') (simp add: same_frame_def)

lemma hash_val_cong: "hashsize t' = hashsize t \<Longrightarrow> hash_val t' = hash_val t"
  by (intro ext) (simp add: hash_val_def)

lemma same_frame_slots: "same_frame t t' \<Longrightarrow> slots t' = slots t"
  using same_frame_fields [of t t'] hash_val_cong [of t' t] by (auto simp: slots_def)

lemma placed_update:
  assumes "placed t" "i < length (buckets t)" "\<And>b. x = Some b \<Longrightarrow> i \<in> slots t (hb_key b)"
  shows "placed (set_bucket i x t)"
proof -
  have "slots (set_bucket i x t) = slots t" by (rule same_frame_slots [OF same_frame_simps(2)])
  then show ?thesis using assms by (auto simp: placed_def set_bucket_def nth_list_update split: if_splits)
qed

lemma buckets_set_bucket [simp]: "buckets (set_bucket i x t) = (buckets t)[i := x]"
  by (simp add: set_bucket_def)

lemma empty_choice_ok:
  assumes "length (buckets t) = hashsize t" "0 < hashsize t" "hb_keylen bump = length (hb_key bump)"
  shows "\<exists>r. empty_choice t bump ns = Some r
    \<and> (case r of Some i \<Rightarrow> i < length (buckets t) \<and> buckets t ! i = None \<and> (set ns \<subseteq> {..<NHASH_TRIES} \<longrightarrow> i \<in> slots t (hb_key bump))
       | None \<Rightarrow> \<forall>n \<in> set ns. \<forall>h. hash_val t (hb_key bump) (hb_keylen bump) ((n + hashseed_offset t) mod NHASH_MOD) = Some h
            \<longrightarrow> buckets t ! h \<noteq> None)"
proof (induction ns)
  case (Cons n ns)
  obtain h where h: "h < hashsize t" "hash_val t (hb_key bump) (hb_keylen bump) ((n + hashseed_offset t) mod NHASH_MOD) = Some h"
    using hash_val_ok [OF assms(2), of "hb_key bump" "n + hashseed_offset t"] assms(3) by auto
  have at: "bucket_at t h = Some (buckets t ! h)" using h assms by (simp add: bucket_at_def)
  show ?case
  proof (cases "buckets t ! h = None")
    case True
    have "h \<in> slots t (hb_key bump)" if "n < NHASH_TRIES" using that h(2) assms(3) by (auto simp: slots_def)
    then show ?thesis using True h at assms(1) by auto
  next
    case False
    then have "empty_choice t bump (n # ns) = empty_choice t bump ns" using h(2) at by (auto split: option.splits)
    with Cons False h(2) show ?thesis by (auto split: option.splits)
  qed
qed simp

lemma bump_loop_ok:
  assumes "length (buckets t) = hashsize t" "0 < hashsize t" "keys_sized (add_mset bump (fills (buckets t)))"
  shows "\<exists>l t' e'. bump_loop n bump t e = Some (l, t', e') \<and> same_frame t t'
    \<and> fills (buckets t') + bucket_mset l = add_mset bump (fills (buckets t)) \<and> (placed t \<longrightarrow> placed t')"
  using assms
proof (induction n bump t e rule: bump_loop.induct)
  case (1 bump t e)
  then show ?case by (auto simp: same_frame_simps)
next
  case (2 n bump t e)
  have kl: "hb_keylen bump = length (hb_key bump)" using "2.prems"(3) by (simp add: keys_sized_def)
  obtain c where c: "empty_choice t bump [0..<NHASH_TRIES] = Some c"
    "case c of Some i \<Rightarrow> i < length (buckets t) \<and> buckets t ! i = None \<and> (set [0..<NHASH_TRIES] \<subseteq> {..<NHASH_TRIES} \<longrightarrow> i \<in> slots t (hb_key bump))
       | None \<Rightarrow> \<forall>n \<in> set [0..<NHASH_TRIES]. \<forall>h. hash_val t (hb_key bump) (hb_keylen bump) ((n + hashseed_offset t) mod NHASH_MOD) = Some h
            \<longrightarrow> buckets t ! h \<noteq> None"
    using empty_choice_ok [OF "2.prems"(1,2) kl] by blast
  show ?case
  proof (cases c)
    case (Some i)
    then have i: "i < length (buckets t)" "buckets t ! i = None" "i \<in> slots t (hb_key bump)" using c(2) by auto
    then have "fills ((buckets t)[i := Some bump]) = add_mset bump (fills (buckets t))"
      using fills_update [of i "buckets t" "Some bump"] by simp
    then show ?thesis using c(1) Some placed_update [of t i "Some bump"] i(1,3) by (auto simp: same_frame_simps)
  next
    case None
    obtain r e1 where r: "get_random_try e = (r, e1)" by (cases "get_random_try e")
    have rn: "r < NHASH_TRIES" using r by (auto simp: get_random_try_def NHASH_TRIES_def)
    obtain h where h: "h < hashsize t" "hash_val t (hb_key bump) (hb_keylen bump) ((hashseed_offset t + r) mod NHASH_MOD) = Some h"
      using hash_val_ok [OF "2.prems"(2), of "hb_key bump" "hashseed_offset t + r"] kl by auto
    then have "buckets t ! h \<noteq> None" using c(2) None rn by (simp add: add.commute)
    then obtain temp where temp: "buckets t ! h = Some temp" by blast
    have at: "bucket_at t h = Some (Some temp)" using h(1) "2.prems"(1) temp by (simp add: bucket_at_def)
    let ?t = "set_bucket h (Some bump) t"
    have hl: "h < length (buckets t)" using h(1) "2.prems"(1) by simp
    have f: "add_mset temp (fills (buckets ?t)) = add_mset bump (fills (buckets t))"
      using fills_update [OF hl, of "Some bump"] temp by simp
    have "h \<in> slots t (hb_key bump)" using h(2) rn kl by (auto simp: slots_def add.commute)
    then have pl: "placed t \<longrightarrow> placed ?t" using placed_update [OF _ hl, of "Some bump"] by auto
    have pre: "length (buckets ?t) = hashsize ?t" "0 < hashsize ?t" "keys_sized (add_mset temp (fills (buckets ?t)))"
      using "2.prems" f same_frame_fields [OF same_frame_simps(2) [of t h "Some bump"]] by (simp_all only: simp_thms)
    obtain l t' e' where ih: "bump_loop n temp ?t e1 = Some (l, t', e')" "same_frame ?t t'"
      "fills (buckets t') + bucket_mset l = add_mset temp (fills (buckets ?t))" "placed ?t \<longrightarrow> placed t'"
      using "2.IH" [OF c(1) None r [symmetric] refl h(2) at refl pre] by blast
    have "bump_loop (Suc n) bump t e = Some (l, t', e')" using c(1) None r h(2) at ih(1) by simp
    then show ?thesis using ih f pl same_frame_trans [OF same_frame_simps(2) ih(2)] by auto
  qed
qed

lemma first_empty_ok: "None \<in> set bs \<Longrightarrow> \<exists>i < length bs. first_empty n bs = Some (n + i) \<and> bs ! i = None"
proof (induction n bs rule: first_empty.induct)
  case (2 n b bs)
  show ?case
  proof (cases "b = None")
    case False
    with 2 obtain i where "i < length bs" "first_empty (n + 1) bs = Some (n + 1 + i)" "bs ! i = None" by auto
    with False show ?thesis by (intro exI [of _ "Suc i"]) auto
  qed auto
qed simp

lemma first_empty_None: "None \<notin> set bs \<Longrightarrow> first_empty n bs = None"
proof (induction n bs rule: first_empty.induct)
  case (2 n b bs)
  then show ?case by (cases b) auto
qed simp

definition new_bucket :: "string \<Rightarrow> 'a \<Rightarrow> 'a hash_bucket" where
  "new_bucket key data = \<lparr>hb_key = key, hb_data = data, hb_keylen = length key\<rparr>"

lemma hash_insert_ok:
  assumes "htab_shape t"
  shows "\<exists>ok t' e'. hash_insert t key (length key) data e = Some (ok, t', e') \<and> same_frame t t' \<and> htab_shape t'
    \<and> (size (fills (buckets t)) < hashsize t \<longrightarrow> fills (buckets t') = add_mset (new_bucket key data) (fills (buckets t)))
    \<and> (ok \<and> placed t \<longrightarrow> placed t') \<and> (ok \<longrightarrow> fills (buckets t') = add_mset (new_bucket key data) (fills (buckets t)))"
proof -
  have len: "length (buckets t) = hashsize t" "0 < hashsize t" and ks: "keys_sized (add_mset (new_bucket key data) (fills (buckets t)))"
    using assms(1) by (simp_all add: htab_shape_def new_bucket_def keys_sized_def)
  obtain l t1 e1 where b: "bump_loop BUMP_LIMIT (new_bucket key data) t e = Some (l, t1, e1)" "same_frame t t1"
    "fills (buckets t1) + bucket_mset l = add_mset (new_bucket key data) (fills (buckets t))" "placed t \<longrightarrow> placed t1"
    using bump_loop_ok [OF len ks] by blast
  have ks1: "keys_sized (fills (buckets t1) + bucket_mset l)" using ks b(3) by simp
  have fr: "hashsize t1 = hashsize t" "length (buckets t1) = length (buckets t)" using same_frame_fields [OF b(2)] by auto
  have sh1: "htab_shape t1" using ks1 fr len by (auto simp: htab_shape_def keys_sized_def)
  show ?thesis
  proof (cases l)
    case None
    then show ?thesis using b sh1 by (simp add: hash_insert_def new_bucket_def ex_bool_eq)
  next
    case (Some bump)
    show ?thesis
    proof (cases "None \<in> set (buckets t1)")
      case True
      obtain i where i: "i < length (buckets t1)" "first_empty 0 (buckets t1) = Some i" "buckets t1 ! i = None"
        using first_empty_ok [OF True, of 0] by auto
      have f: "fills (buckets (set_bucket i (Some bump) t1)) = add_mset (new_bucket key data) (fills (buckets t))"
        using fills_update [OF i(1), of "Some bump"] i(3) b(3) Some by simp
      have "same_frame t (set_bucket i (Some bump) t1)" by (rule same_frame_trans [OF b(2) same_frame_simps(2)])
      moreover have "htab_shape (set_bucket i (Some bump) t1)"
        using sh1 f ks same_frame_fields [OF same_frame_simps(2) [of t1 i "Some bump"]] by (auto simp: htab_shape_def)
      ultimately show ?thesis using b(1) i(2) Some f by (simp add: hash_insert_def new_bucket_def ex_bool_eq)
    next
      case False
      have "size (fills (buckets t1)) = hashsize t" using size_fills(3) [OF False] fr len by simp
      moreover have "size (fills (buckets t1)) + 1 = size (fills (buckets t)) + 1" using arg_cong [OF b(3), of size] Some by simp
      ultimately show ?thesis using b(1,2) sh1 first_empty_None [OF False] Some by (auto simp: hash_insert_def new_bucket_def)
    qed
  qed
qed

lemma reinsert_ok:
  assumes "htab_shape t" "keys_sized (fills bs)"
  shows "\<exists>ok t' e'. reinsert bs t e = Some (ok, t', e') \<and> same_frame t t' \<and> htab_shape t'
    \<and> (ok \<longrightarrow> fills (buckets t') = fills bs + fills (buckets t) \<and> (placed t \<longrightarrow> placed t'))"
  using assms
proof (induction bs t e rule: reinsert.induct)
  case (1 t e)
  then show ?case by (simp add: same_frame_simps(1) ex_bool_eq)
next
  case (2 bs t e)
  then show ?case by simp
next
  case (3 b bs t e)
  have b: "hb_keylen b = length (hb_key b)" "keys_sized (fills bs)" using "3.prems"(2) by (simp_all add: keys_sized_def)
  have eq: "new_bucket (hb_key b) (hb_data b) = b" using b(1) by (simp add: new_bucket_def)
  obtain ok t1 e1 where i: "hash_insert t (hb_key b) (hb_keylen b) (hb_data b) e = Some (ok, t1, e1)" "same_frame t t1" "htab_shape t1"
    "ok \<and> placed t \<longrightarrow> placed t1" "ok \<longrightarrow> fills (buckets t1) = add_mset b (fills (buckets t))"
    using hash_insert_ok [OF "3.prems"(1), of "hb_key b" "hb_data b" e] b(1) unfolding eq by auto
  show ?case
  proof (cases ok)
    case False
    then show ?thesis using i by (simp add: ex_bool_eq)
  next
    case True
    obtain ok' t' e' where r: "reinsert bs t1 e1 = Some (ok', t', e')" "same_frame t1 t'" "htab_shape t'"
      "ok' \<longrightarrow> fills (buckets t') = fills bs + fills (buckets t1) \<and> (placed t1 \<longrightarrow> placed t')"
      using "3.IH" [OF i(1) refl refl True i(3) b(2)] by blast
    then show ?thesis using i True same_frame_trans [OF i(2) r(2)] by auto
  qed
qed

section \<open>Sizes\<close>

definition prime_number :: "nat \<Rightarrow> bool" where
  "prime_number p \<longleftrightarrow> 1 < p \<and> (\<forall>d \<in> {2..<p}. \<not> d dvd p)"

lemma prime_divisor: "1 < n \<Longrightarrow> \<exists>p. prime_number p \<and> p dvd n"
proof (induction n rule: less_induct)
  case (less n)
  show ?case
  proof (cases "prime_number n")
    case False
    then obtain d where "d \<in> {2..<n}" "d dvd n" using less(2) by (auto simp: prime_number_def)
    with less(1) [of d] show ?thesis by (auto intro: dvd_trans)
  qed auto
qed

text \<open>There is always another prime for a table to grow to.\<close>

lemma primes_unbounded: "\<exists>p > n. odd p \<and> prime_number p"
proof -
  let ?m = "Suc (fact (n + 2))"
  have "2 \<le> (fact (n + 2) :: nat)" using fact_ge_self [of "n + 2"] by simp
  then obtain p where p: "prime_number p" "p dvd ?m" using prime_divisor [of ?m] by auto
  have big: "n + 2 < p"
  proof (rule ccontr)
    assume "\<not> n + 2 < p"
    then have "p dvd fact (n + 2)" using p(1) by (intro dvd_fact) (auto simp: prime_number_def)
    with p(2) have "p dvd 1" by (metis dvd_add_right_iff plus_1_eq_Suc dvd_refl add.commute)
    then show False using p(1) by (simp add: prime_number_def)
  qed
  have "odd p"
  proof
    assume "even p"
    then have "\<not> prime_number p" using big by (auto simp: prime_number_def)
    with p(1) show False by simp
  qed
  with big p(1) show ?thesis by (intro exI [of _ p]) auto
qed

lemma next_odd_prime_returns:
  "isp (v + 2 * n) \<Longrightarrow> \<exists>p. next_odd_prime isp v = Some p \<and> v \<le> p \<and> isp p"
proof (induction n arbitrary: v)
  case 0
  then show ?case by (subst next_odd_prime.simps) simp
next
  case (Suc n)
  show ?case
  proof (cases "isp v")
    case True
    then show ?thesis by (subst next_odd_prime.simps) simp
  next
    case False
    obtain p where "next_odd_prime isp (v + 2) = Some p" "v + 2 \<le> p" "isp p" using Suc.IH [of "v + 2"] Suc.prems by auto
    with False show ?thesis by (subst next_odd_prime.simps) auto
  qed
qed

lemma next_prime_after_returns:
  assumes "\<forall>n. isp n \<longleftrightarrow> prime_number n"
  shows "\<exists>p. next_prime_after isp val = Some p \<and> val < p"
proof -
  define v where "v = (if odd val then val + 2 else val + 1)"
  obtain p where p: "v < p" "odd p" "prime_number p" using primes_unbounded by blast
  have "odd v" by (simp add: v_def)
  with p(1,2) have "even (p - v)" by auto
  then have "p = v + 2 * ((p - v) div 2)" using p(1) by simp
  then obtain n where "p = v + 2 * n" by blast
  then show ?thesis using next_odd_prime_returns [of isp v n] p(3) assms by (auto simp: next_prime_after_def v_def split: if_splits)
qed

lemma grown_ge: "n \<le> grown n"
  unfolding grown_def by linarith

section \<open>Resizing\<close>

lemma hash_resize_ok:
  assumes "\<forall>n. he_prime e n \<longleftrightarrow> prime_number n" "keys_sized (fills (buckets t))" "0 < n"
  shows "\<exists>ok t' e'. hash_resize e t n off = Some (ok, t', e') \<and> he_prime e' = he_prime e \<and> he_log e \<le> he_log e'
    \<and> (if ok then htab_shape t' \<and> placed t' \<and> fills (buckets t') = fills (buckets t) \<and> entries t' = entries t \<and> n \<le> hashsize t'
       else t' = t \<and> he_log e < he_log e')"
  using assms
proof (induction e t n off rule: hash_resize.induct)
  case (1 e t n off)
  show ?case
  proof (cases "150 < resize_calls e")
    case True
    then show ?thesis by (subst hash_resize.simps) (simp add: ex_bool_eq)
  next
    case calls: False
    show ?thesis
    proof (cases "int off = first_offset e")
      case True
      obtain p where p: "next_prime_after (he_prime e) (grown n) = Some p" "grown n < p"
        using next_prime_after_returns [OF "1.prems"(1)] by blast
      have np: "n \<le> p" "0 < p" using p(2) grown_ge [of n] by auto
      have eq: "hash_resize e t n off = hash_resize (e\<lparr>first_offset := - 1\<rparr>) t p off"
        by (subst hash_resize.simps) (simp add: calls True p(1))
      have pr: "\<forall>n. he_prime (e\<lparr>first_offset := - 1\<rparr>) n \<longleftrightarrow> prime_number n" using "1.prems"(1) by simp
      show ?thesis using "1.IH"(1) [OF calls True p(1) pr "1.prems"(2) np(2)] np(1) unfolding eq by (auto split: if_splits)
    next
      case other: False
      define new where "new = t\<lparr>buckets := replicate n None, hashsize := n, hashseed_offset := off\<rparr>"
      have new: "htab_shape new" "placed new" "fills (buckets new) = {#}" "entries new = entries t" "hashsize new = n"
        using "1.prems"(3) by (auto simp: new_def htab_shape_def placed_def keys_sized_def)
      obtain ok t1 e1 where r: "reinsert (buckets t) new (e\<lparr>resize_calls := Suc (resize_calls e)\<rparr>) = Some (ok, t1, e1)" "same_frame new t1"
        "htab_shape t1" "ok \<longrightarrow> fills (buckets t1) = fills (buckets t) \<and> placed t1"
        using reinsert_ok [OF new(1) "1.prems"(2), of "e\<lparr>resize_calls := Suc (resize_calls e)\<rparr>"] new(2,3) by auto
      have e1: "he_prime e1 = he_prime e" "he_log e1 = he_log e" using same_env_fields [OF reinsert_env [OF r(1)]] by simp_all
      show ?thesis
      proof (cases ok)
        case True
        have "hash_resize e t n off = Some (True, t1, e1)"
          by (subst hash_resize.simps) (simp add: calls other r(1) [unfolded new_def] True)
        then show ?thesis using r True e1 same_frame_fields [OF r(2)] new(4,5) by auto
      next
        case False
        define e2 where "e2 = (if first_offset e1 = - 1 then e1\<lparr>first_offset := int off\<rparr> else e1)"
        have e2: "he_prime e2 = he_prime e" "he_log e2 = he_log e" using e1 by (simp_all add: e2_def)
        have eq: "hash_resize e t n off = hash_resize e2 t n ((off + 1) mod NHASH_MOD)"
          by (subst hash_resize.simps) (simp add: calls other r(1) [unfolded new_def] False e2_def)
        have pr: "\<forall>n. he_prime e2 n \<longleftrightarrow> prime_number n" using "1.prems"(1) e2(1) by simp
        show ?thesis
          using "1.IH"(2) [OF calls other r(1) [unfolded new_def Suc_eq_plus1] refl refl False, folded e2_def, OF pr "1.prems"(2,3)]
          unfolding eq e2 .
      qed
    qed
  qed
qed

section \<open>Adding and deleting\<close>

abbreviation htab_map :: "'a hashtable \<Rightarrow> string \<rightharpoonup> 'a" where
  "htab_map t \<equiv> fills_map (fills (buckets t))"

definition primes_known :: "hash_env \<Rightarrow> bool" where
  "primes_known e \<longleftrightarrow> (\<forall>n. he_prime e n \<longleftrightarrow> prime_number n)"

lemma slots_cong: "hashsize t' = hashsize t \<Longrightarrow> hashseed_offset t' = hashseed_offset t \<Longrightarrow> slots t' = slots t"
  using hash_val_cong [of t' t] by (auto simp: slots_def)

lemma placed_entries [simp]: "placed (t\<lparr>entries := n\<rparr>) = placed t" "htab_shape (t\<lparr>entries := n\<rparr>) = htab_shape t"
  using slots_cong [of "t\<lparr>entries := n\<rparr>" t] by (simp_all add: placed_def htab_shape_def)

lemma htab_okI:
  "htab_shape t \<Longrightarrow> placed t \<Longrightarrow> unique_keys (fills (buckets t)) \<Longrightarrow> entries t = size (fills (buckets t)) \<Longrightarrow> htab_ok t"
  by (simp add: htab_ok_def)

text \<open>Making room for one more entry.\<close>

lemma room_ok:
  assumes "htab_shape t" "primes_known e"
  shows "\<exists>t' e'. (if entries t = hashsize t
      then Option.bind (next_prime_after (he_prime e) (grown (hashsize t))) (\<lambda>n. map_option snd (hash_resize e t n (hashseed_offset t)))
      else Some (t, e)) = Some (t', e')
    \<and> htab_shape t' \<and> primes_known e' \<and> he_log e \<le> he_log e'
    \<and> (htab_ok t \<and> he_log e' = he_log e \<longrightarrow> htab_ok t' \<and> fills (buckets t') = fills (buckets t) \<and> size (fills (buckets t')) < hashsize t')"
proof (cases "entries t = hashsize t")
  case False
  have "size (fills (buckets t)) < hashsize t" if "htab_ok t"
    using that False size_fills(1) [of "buckets t"] by (simp add: htab_ok_def htab_shape_def)
  then show ?thesis using False assms by simp
next
  case True
  obtain n where n: "next_prime_after (he_prime e) (grown (hashsize t)) = Some n" "grown (hashsize t) < n"
    using next_prime_after_returns assms(2) unfolding primes_known_def by blast
  obtain ok t' e' where r: "hash_resize e t n (hashseed_offset t) = Some (ok, t', e')" "he_prime e' = he_prime e" "he_log e \<le> he_log e'"
    "if ok then htab_shape t' \<and> placed t' \<and> fills (buckets t') = fills (buckets t) \<and> entries t' = entries t \<and> n \<le> hashsize t'
     else t' = t \<and> he_log e < he_log e'"
    using hash_resize_ok [of e t n "hashseed_offset t"] assms n(2) by (auto simp: primes_known_def htab_shape_def)
  have "size (fills (buckets t)) < n" using n(2) grown_ge [of "hashsize t"] size_fills(1) [of "buckets t"] assms(1) by (simp add: htab_shape_def)
  then have "htab_ok t \<and> he_log e' = he_log e \<longrightarrow> htab_ok t' \<and> fills (buckets t') = fills (buckets t) \<and> size (fills (buckets t')) < hashsize t'"
    using r(4) by (auto simp: htab_ok_def split: if_splits)
  moreover have "htab_shape t'" using r(4) assms(1) by (auto split: if_splits)
  moreover have "primes_known e'" using r(2) assms(2) by (simp add: primes_known_def)
  moreover have "(if entries t = hashsize t
      then Option.bind (next_prime_after (he_prime e) (grown (hashsize t))) (\<lambda>n. map_option snd (hash_resize e t n (hashseed_offset t)))
      else Some (t, e)) = Some (t', e')" using True n(1) r(1) by simp
  ultimately show ?thesis using r(3) by blast
qed

lemma hash_add_ok:
  assumes "htab_shape t" "primes_known e"
  shows "\<exists>r t' e'. hash_add t key data e = Some (r, t', e') \<and> htab_shape t' \<and> primes_known e' \<and> he_log e \<le> he_log e'
    \<and> (htab_ok t \<and> he_log e' = he_log e \<longrightarrow> htab_ok t'
         \<and> htab_map t' = (if htab_map t key = None then (htab_map t)(key \<mapsto> data) else htab_map t))"
proof -
  obtain f where f: "hash_find t key = Some f" using hash_find_ok(1) [OF assms(1)] by blast
  note found = hash_find_ok(2) [OF assms(1) _ f]
  show ?thesis
  proof (cases "f = None")
    case False
    then show ?thesis using f assms found by (auto simp: hash_add_def)
  next
    case none: True
    obtain t1 e1 where r: "(if entries t = hashsize t
        then Option.bind (next_prime_after (he_prime e) (grown (hashsize t))) (\<lambda>n. map_option snd (hash_resize e t n (hashseed_offset t)))
        else Some (t, e)) = Some (t1, e1)" "htab_shape t1" "primes_known e1" "he_log e \<le> he_log e1"
      "htab_ok t \<and> he_log e1 = he_log e \<longrightarrow> htab_ok t1 \<and> fills (buckets t1) = fills (buckets t) \<and> size (fills (buckets t1)) < hashsize t1"
      using room_ok [OF assms] by blast
    let ?t = "t1\<lparr>entries := entries t1 + 1\<rparr>" and ?b = "new_bucket key data"
    have "htab_shape ?t" using r(2) by simp
    from hash_insert_ok [OF this, of key data e1] obtain ok t2 e2 where i: "hash_insert ?t key (length key) data e1 = Some (ok, t2, e2)"
      "same_frame ?t t2" "htab_shape t2" "size (fills (buckets t1)) < hashsize t1 \<longrightarrow> fills (buckets t2) = add_mset ?b (fills (buckets t1))"
      "ok \<and> placed t1 \<longrightarrow> placed t2" by auto
    have e2: "primes_known e2" "he_log e2 = he_log e1" using same_env_fields [OF hash_insert_env [OF i(1)]] r(3) by (simp_all add: primes_known_def)
    have filled: "fills (buckets t2) = add_mset ?b (fills (buckets t))" "entries t2 = size (fills (buckets t2))"
      "unique_keys (fills (buckets t2))" "placed t1" if "htab_ok t" "he_log e1 = he_log e"
    proof -
      have t1: "htab_ok t1" "fills (buckets t1) = fills (buckets t)" "size (fills (buckets t1)) < hashsize t1" using r(5) that by auto
      then show a: "fills (buckets t2) = add_mset ?b (fills (buckets t))" using i(4) by simp
      show "entries t2 = size (fills (buckets t2))" using same_frame_fields [OF i(2)] t1(1,2) by (simp add: a htab_ok_def)
      have "fills_map (fills (buckets t)) (hb_key ?b) = None" using found that(1) none by (simp add: new_bucket_def)
      then show "unique_keys (fills (buckets t2))" using that(1) by (simp add: a unique_add htab_ok_def)
      show "placed t1" using t1(1) by (simp add: htab_ok_def)
    qed
    have map: "htab_map t2 = (if htab_map t key = None then (htab_map t)(key \<mapsto> data) else htab_map t)" if "htab_ok t" "he_log e1 = he_log e"
      using filled [OF that] fills_map_add [of ?b "fills (buckets t)"] found that(1) none by (simp add: new_bucket_def)
    show ?thesis
    proof (cases ok)
      case True
      have "hash_add t key data e = Some (True, t2, e2)" using f none r(1) i(1) True by (simp add: hash_add_def)
      moreover have "htab_ok t2" if "htab_ok t" "he_log e2 = he_log e"
        using filled that e2(2) i(3,5) True by (intro htab_okI) auto
      ultimately show ?thesis using i(3) e2 r(4) map by auto
    next
      case False
      let ?e = "e2\<lparr>first_offset := - 1, resize_calls := 0\<rparr>"
      have h2: "keys_sized (fills (buckets t2))" "0 < hashsize t2" using i(3) by (simp_all add: htab_shape_def)
      have "\<forall>n. he_prime ?e n = prime_number n" using e2(1) by (simp add: primes_known_def)
      have env: "he_prime ?e = he_prime e2" "he_log ?e = he_log e2" by simp_all
      from hash_resize_ok [OF \<open>\<forall>n. he_prime ?e n = prime_number n\<close> h2, of "(hashseed_offset t2 + 1) mod NHASH_MOD", unfolded env]
      obtain ok' t3 e3 where s: "hash_resize ?e t2 (hashsize t2) ((hashseed_offset t2 + 1) mod NHASH_MOD) = Some (ok', t3, e3)"
        "he_prime e3 = he_prime e2" "he_log e2 \<le> he_log e3"
        "if ok' then htab_shape t3 \<and> placed t3 \<and> fills (buckets t3) = fills (buckets t2) \<and> entries t3 = entries t2 \<and> hashsize t2 \<le> hashsize t3
         else t3 = t2 \<and> he_log e2 < he_log e3"
        by blast
      have "hash_add t key data e = Some (True, t3, e3)" using f none r(1) i(1) False s(1) by (simp add: hash_add_def)
      moreover have "htab_shape t3" using s(4) i(3) by (auto split: if_splits)
      moreover have "htab_ok t3 \<and> htab_map t3 = htab_map t2" if "htab_ok t" "he_log e3 = he_log e"
      proof -
        have eq: "he_log e1 = he_log e" "ok'" using that(2) s(3,4) e2(2) r(4) by (auto split: if_splits)
        then show ?thesis using filled(2,3) [OF that(1) eq(1)] s(4) by (auto intro!: htab_okI)
      qed
      ultimately show ?thesis using e2 s(2,3) r(4) map by (auto simp: primes_known_def)
    qed
  qed
qed

lemma hash_delete_ok:
  assumes "htab_shape t"
  shows "\<exists>t'. hash_delete t key = Some t' \<and> htab_shape t' \<and> (htab_ok t \<longrightarrow> htab_ok t' \<and> htab_map t' = (htab_map t)(key := None))"
proof -
  obtain r where r: "hash_find t key = Some r"
    "\<forall>i. r = Some i \<longrightarrow> i < length (buckets t) \<and> (\<exists>b. buckets t ! i = Some b \<and> hb_key b = key)"
    using hash_find_ok(1) [OF assms] by blast
  show ?thesis
  proof (cases r)
    case None
    then show ?thesis using r(1) assms hash_find_ok(2) [OF assms _ r(1)] by (auto simp: hash_delete_def fun_upd_idem)
  next
    case (Some i)
    then obtain b where b: "i < length (buckets t)" "buckets t ! i = Some b" "hb_key b = key" using r(2) by blast
    let ?t = "hash_delete_bucket t i"
    have f: "fills (buckets t) = add_mset b (fills (buckets ?t))"
      using fills_update [OF b(1), of None] b(2) by (simp add: hash_delete_bucket_def)
    have sh: "htab_shape ?t"
      using assms f by (auto simp: htab_shape_def hash_delete_bucket_def set_bucket_def keys_sized_def)
    have "htab_ok ?t \<and> htab_map ?t = (htab_map t)(key := None)" if ok: "htab_ok t"
    proof -
      have u: "unique_keys (add_mset b (fills (buckets ?t)))" using ok f by (simp add: htab_ok_def)
      then have u': "unique_keys (fills (buckets ?t))" "fills_map (fills (buckets ?t)) key = None" using b(3) by (simp_all add: unique_add)
      have "placed (set_bucket i None (t\<lparr>entries := entries t - 1\<rparr>))"
        by (rule placed_update) (use ok b(1) in \<open>auto simp: htab_ok_def\<close>)
      then have "htab_ok ?t" using sh u'(1) ok f by (intro htab_okI) (auto simp: hash_delete_bucket_def htab_ok_def set_bucket_def)
      moreover have "htab_map t = (htab_map ?t)(key \<mapsto> hb_data b)" using fills_map_add [OF u] f b(3) by simp
      ultimately show ?thesis using u'(2) by (auto simp: fun_eq_iff)
    qed
    then show ?thesis using sh r(1) Some by (simp add: hash_delete_def)
  qed
qed

text \<open>Sequences of operations on one table.\<close>

definition hash_ins :: "'a hashtable \<times> hash_env \<Rightarrow> string \<Rightarrow> 'a \<Rightarrow> ('a hashtable \<times> hash_env) option" where
  "hash_ins st k v = map_option snd (hash_add (fst st) k v (snd st))"

definition hash_del :: "'a hashtable \<times> hash_env \<Rightarrow> string \<Rightarrow> ('a hashtable \<times> hash_env) option" where
  "hash_del st k = map_option (\<lambda>t. (t, snd st)) (hash_delete (fst st) k)"

lemma hash_run_ok:
  assumes "htab_shape t" "primes_known e"
  shows "\<exists>t' e'. table_run hash_ins hash_del (t, e) ops = Some (t', e') \<and> htab_shape t' \<and> he_log e \<le> he_log e'
    \<and> (htab_ok t \<and> he_log e' = he_log e \<longrightarrow> htab_ok t' \<and> htab_map t' = table_spec (\<lambda>k. k) (htab_map t) ops)"
  using assms
proof (induction ops arbitrary: t e)
  case (Cons x ops)
  show ?case
  proof (cases x)
    case (Insert k v)
    obtain r t1 e1 where a: "hash_add t k v e = Some (r, t1, e1)" "htab_shape t1" "primes_known e1" "he_log e \<le> he_log e1"
      "htab_ok t \<and> he_log e1 = he_log e \<longrightarrow> htab_ok t1
         \<and> htab_map t1 = (if htab_map t k = None then (htab_map t)(k \<mapsto> v) else htab_map t)"
      using hash_add_ok [OF Cons.prems] by blast
    obtain t' e' where s: "table_run hash_ins hash_del (t1, e1) ops = Some (t', e')" "htab_shape t'" "he_log e1 \<le> he_log e'"
      "htab_ok t1 \<and> he_log e' = he_log e1 \<longrightarrow> htab_ok t' \<and> htab_map t' = table_spec (\<lambda>k. k) (htab_map t1) ops"
      using Cons.IH [OF a(2,3)] by blast
    have "htab_ok t' \<and> htab_map t' = table_spec (\<lambda>k. k) (htab_map t) (x # ops)" if "htab_ok t" "he_log e' = he_log e"
    proof -
      have l: "he_log e1 = he_log e" "he_log e' = he_log e1" using that(2) a(4) s(3) by simp_all
      then have t1: "htab_ok t1" "htab_map t1 = (if htab_map t k = None then (htab_map t)(k \<mapsto> v) else htab_map t)"
        using a(5) that(1) by blast+
      then show ?thesis using s(4) l(2) Insert by (simp add: t1(2))
    qed
    moreover have "table_run hash_ins hash_del (t, e) (x # ops) = Some (t', e')"
    proof -
      have "hash_ins (t, e) k v = Some (t1, e1)" using a(1) by (simp add: hash_ins_def)
      then show ?thesis using s(1) Insert by simp
    qed
    ultimately show ?thesis using order.trans [OF a(4) s(3)] s(2) by blast
  next
    case (Delete k)
    obtain t1 where d: "hash_delete t k = Some t1" "htab_shape t1" "htab_ok t \<longrightarrow> htab_ok t1 \<and> htab_map t1 = (htab_map t)(k := None)"
      using hash_delete_ok [OF Cons.prems(1)] by blast
    obtain t' e' where s: "table_run hash_ins hash_del (t1, e) ops = Some (t', e')" "htab_shape t'" "he_log e \<le> he_log e'"
      "htab_ok t1 \<and> he_log e' = he_log e \<longrightarrow> htab_ok t' \<and> htab_map t' = table_spec (\<lambda>k. k) (htab_map t1) ops"
      using Cons.IH [OF d(2) Cons.prems(2)] by blast
    have "hash_del (t, e) k = Some (t1, e)" using d(1) by (simp add: hash_del_def)
    then have "table_run hash_ins hash_del (t, e) (x # ops) = Some (t', e')" using s(1) Delete by simp
    then show ?thesis using s(2-4) d(3) Delete by (intro exI [of _ t'] exI [of _ e']) simp
  qed
qed simp

lemma hash_init_ok:
  assumes "\<forall>n. isp n \<longleftrightarrow> prime_number n"
  shows "\<exists>t. hash_init isp n = Some t \<and> htab_ok t \<and> htab_map t = Map.empty"
proof -
  obtain p where p: "next_prime_after isp n = Some p" "n < p" using next_prime_after_returns [OF assms] by blast
  then show ?thesis
    by (auto simp: hash_init_def htab_ok_def htab_shape_def placed_def keys_sized_def unique_keys_def fills_map_def)
qed

lemma hash_flush_ok:
  assumes "\<forall>n. isp n \<longleftrightarrow> prime_number n"
  shows "\<exists>t'. hash_flush isp t n = Some t' \<and> htab_ok t' \<and> htab_map t' = Map.empty"
proof -
  obtain p where p: "next_prime_after isp n = Some p" "n < p" using next_prime_after_returns [OF assms] by blast
  then show ?thesis
    by (auto simp: hash_flush_def htab_ok_def htab_shape_def placed_def keys_sized_def unique_keys_def fills_map_def)
qed

text \<open>C10: any sequence of insertions and deletions on a hash table returns, without a read or write outside the
  array of buckets, whatever the random numbers are; and unless a resize was given up with a line in the log, the
  table then has exactly the entries of the finite map that the sequence describes: every key is found with its data,
  and no other key is found.\<close>

theorem hash_table_refines_map:
  fixes ops :: "(string, 'a) table_op list"
  assumes "\<forall>n. he_prime e n \<longleftrightarrow> prime_number n"
  shows "\<exists>t t' e'. hash_init (he_prime e) n = Some t \<and> table_run hash_ins hash_del (t, e) ops = Some (t', e') \<and> he_log e \<le> he_log e'
    \<and> (he_log e' = he_log e \<longrightarrow> (\<forall>key. hash_value t' key = Some (table_spec (\<lambda>k. k) Map.empty ops key)))"
proof -
  obtain t :: "'a hashtable" where t: "hash_init (he_prime e) n = Some t" "htab_ok t" "htab_map t = Map.empty"
    using hash_init_ok [OF assms] by blast
  then obtain t' e' where r: "table_run hash_ins hash_del (t, e) ops = Some (t', e')" "he_log e \<le> he_log e'"
    "he_log e' = he_log e \<longrightarrow> htab_ok t' \<and> htab_map t' = table_spec (\<lambda>k. k) Map.empty ops"
    using hash_run_ok [of t e ops] assms by (auto simp: primes_known_def htab_ok_def)
  then show ?thesis using t(1) hash_value_map by fastforce
qed

section \<open>Walking through a table\<close>

text \<open>The loop of the callers: the first key, then the next one until there is none.\<close>

fun hash_keys_rest :: "nat \<Rightarrow> 'a hashtable \<Rightarrow> string list" where
  "hash_keys_rest 0 t = []"
| "hash_keys_rest (Suc n) t =
     (case hash_nextentry_key t of (None, t) \<Rightarrow> [] | (Some k, t) \<Rightarrow> k # hash_keys_rest n t)"

definition hash_keys :: "'a hashtable \<Rightarrow> string list" where
  "hash_keys t = (case hash_firstentry_key t of (None, t) \<Rightarrow> [] | (Some k, t) \<Rightarrow> k # hash_keys_rest (length (buckets t)) t)"

definition filled :: "'a hash_bucket option list \<Rightarrow> 'a hash_bucket list" where
  "filled bs = List.map_filter id bs"

lemma filled_simps [simp]: "filled [] = []" "filled (None # bs) = filled bs" "filled (Some b # bs) = b # filled bs"
  by (simp_all add: filled_def map_filter_simps)

lemma mset_filled: "mset (filled bs) = fills bs"
proof (induction bs)
  case (Cons b bs)
  then show ?case by (cases b) simp_all
qed simp

lemma next_filled_ok:
  "case next_filled n bs of
     None \<Rightarrow> filled bs = []
   | Some (i, b) \<Rightarrow> n \<le> i \<and> i < n + length bs \<and> filled bs = b # filled (drop (i + 1 - n) bs)"
proof (induction n bs rule: next_filled.induct)
  case (2 n b bs)
  show ?case
  proof (cases b)
    case None
    show ?thesis
    proof (cases "next_filled (n + 1) bs")
      case (Some ib)
      obtain i c where ic: "ib = (i, c)" by (cases ib)
      have "filled bs = c # filled (drop (i + 1 - (n + 1)) bs)" "n + 1 \<le> i" "i < n + 1 + length bs"
        using 2 [OF None] Some ic by auto
      moreover have "i + 1 - n = Suc (i + 1 - (n + 1))" using \<open>n + 1 \<le> i\<close> by simp
      ultimately show ?thesis using None Some ic by simp
    qed (use 2 [OF None] None in simp)
  qed simp
qed simp

lemma walk_rest:
  "length (buckets t) - nat (last_index t + 1) \<le> n \<Longrightarrow> - 1 \<le> last_index t \<Longrightarrow>
   hash_keys_rest n t = map hb_key (filled (drop (nat (last_index t + 1)) (buckets t)))"
proof (induction n t rule: hash_keys_rest.induct)
  case (1 t)
  then show ?case by simp
next
  case (2 n t)
  let ?k = "nat (last_index t + 1)"
  have nf: "case next_filled ?k (drop ?k (buckets t)) of None \<Rightarrow> filled (drop ?k (buckets t)) = []
     | Some (i, b) \<Rightarrow> ?k \<le> i \<and> i < ?k + length (drop ?k (buckets t)) \<and> filled (drop ?k (buckets t)) = b # filled (drop (i + 1 - ?k) (drop ?k (buckets t)))"
    by (rule next_filled_ok)
  show ?case
  proof (cases "next_filled ?k (drop ?k (buckets t))")
    case None
    then show ?thesis using nf by (simp add: hash_nextentry_key_def hash_walk_from_def)
  next
    case (Some ib)
    obtain i b where ib: "ib = (i, b)" by (cases ib)
    let ?t = "t\<lparr>last_index := int i\<rparr>"
    have k: "?k \<le> i" "i < length (buckets t)" "filled (drop ?k (buckets t)) = b # filled (drop (i + 1) (buckets t))"
      using nf Some ib by auto
    have w: "hash_nextentry_key t = (Some (hb_key b), ?t)"
      using Some ib by (simp add: hash_nextentry_key_def hash_walk_from_def)
    have i1: "nat (int i + 1) = i + 1" by simp
    have "hash_keys_rest n ?t = map hb_key (filled (drop (nat (last_index ?t + 1)) (buckets ?t)))"
      by (rule "2.IH" [OF w [symmetric] refl]) (use "2.prems" k in \<open>auto simp: i1\<close>)
    then show ?thesis using w k(3) by (simp add: i1)
  qed
qed

lemma hash_keys_filled: "hash_keys t = map hb_key (filled (buckets t))"
proof -
  have nf: "case next_filled 0 (buckets t) of None \<Rightarrow> filled (buckets t) = []
     | Some (i, b) \<Rightarrow> 0 \<le> i \<and> i < 0 + length (buckets t) \<and> filled (buckets t) = b # filled (drop (i + 1 - 0) (buckets t))"
    by (rule next_filled_ok)
  show ?thesis
  proof (cases "next_filled 0 (buckets t)")
    case None
    then show ?thesis using nf by (simp add: hash_keys_def hash_firstentry_key_def hash_walk_from_def)
  next
    case (Some ib)
    obtain i b where ib: "ib = (i, b)" by (cases ib)
    have i1: "nat (int i + 1) = i + 1" by simp
    have "hash_keys_rest (length (buckets t)) (t\<lparr>last_index := int i\<rparr>) = map hb_key (filled (drop (i + 1) (buckets t)))"
      using walk_rest [of "t\<lparr>last_index := int i\<rparr>" "length (buckets t)"] by (simp add: i1)
    then show ?thesis using nf Some ib by (simp add: hash_keys_def hash_firstentry_key_def hash_walk_from_def)
  qed
qed

lemma unique_distinct: "unique_keys (mset bs) \<Longrightarrow> distinct (map hb_key bs)"
proof (induction bs)
  case (Cons b bs)
  then show ?case by (auto simp: unique_add fills_map_None)
qed simp

lemma walk_each_once:
  assumes "htab_ok t"
  shows "distinct (hash_keys t)" "set (hash_keys t) = dom (htab_map t)" "length (hash_keys t) = entries t"
proof -
  have "unique_keys (mset (filled (buckets t)))" using assms by (simp add: mset_filled htab_ok_def)
  from unique_distinct [OF this] show "distinct (hash_keys t)" by (simp add: hash_keys_filled)
  have "k \<in> dom (htab_map t) \<longleftrightarrow> (\<exists>b \<in># fills (buckets t). hb_key b = k)" for k
    using fills_map_None [of "fills (buckets t)" k] by auto
  moreover have "set_mset (fills (buckets t)) = set (filled (buckets t))" by (simp add: mset_filled [symmetric])
  ultimately have "k \<in> dom (htab_map t) \<longleftrightarrow> k \<in> set (hash_keys t)" for k by (simp add: hash_keys_filled image_iff) blast
  then show "set (hash_keys t) = dom (htab_map t)" by blast
  have "length (filled (buckets t)) = size (fills (buckets t))" by (metis mset_filled size_mset)
  then show "length (hash_keys t) = entries t" using assms by (simp add: hash_keys_filled htab_ok_def)
qed

text \<open>C29: walking through a hash table with \<open>hash_firstentry_key\<close> and \<open>hash_nextentry_key\<close> visits each key of the
  map exactly once, as many as the table counts.\<close>

theorem hash_walk_visits_each_key_once:
  fixes ops :: "(string, 'a) table_op list"
  assumes "\<forall>n. he_prime e n \<longleftrightarrow> prime_number n" "hash_init (he_prime e) n = Some t"
    and "table_run hash_ins hash_del (t, e) ops = Some (t', e')" "he_log e' = he_log e"
  shows "distinct (hash_keys t') \<and> set (hash_keys t') = dom (table_spec (\<lambda>k. k) Map.empty ops) \<and> length (hash_keys t') = entries t'"
proof -
  have "htab_ok t" "htab_map t = Map.empty" using hash_init_ok [OF assms(1), of n, where 'a = 'a] assms(2) by auto
  then have "htab_ok t'" "htab_map t' = table_spec (\<lambda>k. k) Map.empty ops"
    using hash_run_ok [of t e ops] assms by (auto simp: primes_known_def htab_ok_def)
  with walk_each_once [of t'] show ?thesis by simp
qed

section \<open>A sample table\<close>

definition hash_env0 :: hash_env where
  "hash_env0 = \<lparr>resize_calls = 0, first_offset = - 1, he_random = (\<lambda>n. n), he_drawn = 0, he_prime = prime_number, he_log = 0\<rparr>"

text \<open>A table of three buckets that is filled, emptied by one and filled again.\<close>

definition sample_ops :: "(string, nat) table_op list" where
  "sample_ops = [Insert ''BASIC'' 1, Insert ''ENTER'' 2, Insert ''USE'' 3, Insert ''ENTER'' 4, Delete ''BASIC'', Insert ''ZONE'' 5]"

definition sample_run :: "(nat hashtable \<times> hash_env) option" where
  "sample_run = Option.bind (hash_init prime_number 2) (\<lambda>t. table_run hash_ins hash_del (t, hash_env0) sample_ops)"

lemma sample_run_log: "map_option (\<lambda>s. (he_log (snd s), entries (fst s))) sample_run = Some (0, 3)"
  by code_simp

lemma sample_run_result:
  "\<exists>t t' e'. hash_init prime_number 2 = Some t \<and> table_run hash_ins hash_del (t, hash_env0) sample_ops = Some (t', e') \<and> he_log e' = 0
    \<and> entries t' = 3"
  using sample_run_log by (auto simp: sample_run_def bind_eq_Some_conv)

lemma hash_table_refines_map_witness:
  "\<exists>t t' e'. hash_init prime_number 2 = Some t \<and> table_run hash_ins hash_del (t, hash_env0) sample_ops = Some (t', e')
    \<and> hash_value t' ''ENTER'' = Some (Some 2) \<and> hash_value t' ''BASIC'' = Some None"
proof -
  have primes: "\<forall>n. he_prime hash_env0 n \<longleftrightarrow> prime_number n" by (simp add: hash_env0_def)
  obtain t t' e' where r: "hash_init prime_number 2 = Some t" "table_run hash_ins hash_del (t, hash_env0) sample_ops = Some (t', e')"
    "he_log e' = 0" using sample_run_result by blast
  have "he_prime hash_env0 = prime_number" "he_log hash_env0 = 0" by (simp_all add: hash_env0_def)
  then have "hash_value t' key = Some (table_spec (\<lambda>k. k) Map.empty sample_ops key)" for key
    using hash_table_refines_map [OF primes, of 2 sample_ops] r by auto
  with r(1,2) show ?thesis by (auto simp: sample_ops_def)
qed

lemma hash_walk_visits_each_key_once_witness:
  "\<exists>t t' e'. hash_init prime_number 2 = Some t \<and> table_run hash_ins hash_del (t, hash_env0) sample_ops = Some (t', e')
    \<and> distinct (hash_keys t') \<and> set (hash_keys t') = {''ENTER'', ''USE'', ''ZONE''}"
proof -
  have primes: "\<forall>n. he_prime hash_env0 n \<longleftrightarrow> prime_number n" by (simp add: hash_env0_def)
  obtain t t' e' where r: "hash_init prime_number 2 = Some t" "table_run hash_ins hash_del (t, hash_env0) sample_ops = Some (t', e')"
    "he_log e' = 0" using sample_run_result by blast
  have h: "hash_init (he_prime hash_env0) 2 = Some t" "he_log e' = he_log hash_env0" using r by (simp_all add: hash_env0_def)
  have "dom (table_spec (\<lambda>k. k) Map.empty sample_ops) = {''ENTER'', ''USE'', ''ZONE''}"
    by (auto simp: sample_ops_def split: if_splits)
  with hash_walk_visits_each_key_once [OF primes h(1) r(2) h(2)] r(1,2) show ?thesis by auto
qed

end
