(* ===== verification/Mush_Parse.thy ===== *)
theory Mush_Parse
  imports Mush_Db Mush_Wild Mush_Boolexp_Roundtrip
begin

text \<open>
  The number and object reference parsing of \<open>parse.c\<close>: the conversions to bounded integers, the tests for integers,
  numbers, references and booleans, object ids printed and read.  \<open>strtol\<close> and \<open>strtoul\<close> are those of a C library with
  64-bit \<open>long\<close>; \<open>strtod\<close> is a parameter.
\<close>

section \<open>Integers\<close>

definition INT_MAX :: int where "INT_MAX = 2 ^ 31 - 1"
definition INT_MIN :: int where "INT_MIN = - (2 ^ 31)"
definition UINT_MAX :: int where "UINT_MAX = 2 ^ 32 - 1"
definition LONG_MAX :: int where "LONG_MAX = 2 ^ 63 - 1"
definition LONG_MIN :: int where "LONG_MIN = - (2 ^ 63)"
definition ULONG_MAX :: int where "ULONG_MAX = 2 ^ 64 - 1"

lemmas limits = INT_MAX_def INT_MIN_def UINT_MAX_def LONG_MAX_def LONG_MIN_def ULONG_MAX_def

text \<open>
  What a conversion of the C library returns: the number, the rest of the string behind it, and whether \<open>errno\<close>
  is set to \<open>ERANGE\<close>.  The base is 10 in every call of the code modelled here.
\<close>

type_synonym parsed = "int \<times> string \<times> bool"

text \<open>White space, a sign and the digits: whether there is a minus, the digits, and the rest.\<close>

definition scan_number :: "string \<Rightarrow> bool \<times> string \<times> string" where
  "scan_number s =
     (let t = dropWhile c_isspace s;
          u = (if c_head t = CHR ''-'' \<or> c_head t = CHR ''+'' then tl t else t)
      in (c_head t = CHR ''-'', takeWhile c_isdigit u, dropWhile c_isdigit u))"

definition number_value :: "string \<Rightarrow> int" where
  "number_value ds = foldl (\<lambda>n c. 10 * n + (int (c_ord c) - 48)) 0 ds"

definition strtol :: "string \<Rightarrow> parsed" where
  "strtol s =
     (let (neg, ds, rest) = scan_number s; n = number_value ds; x = (if neg then - n else n) in
      if ds = [] then (0, s, False)
      else if x < LONG_MIN then (LONG_MIN, rest, True)
      else if LONG_MAX < x then (LONG_MAX, rest, True)
      else (x, rest, False))"

lemma strtol_rest: "fst (snd (strtol s)) = s \<or> length (fst (snd (strtol s))) < length s"
proof (cases "scan_number s")
  case (fields neg ds rest)
  define t where "t = dropWhile c_isspace s"
  define u where "u = (if c_head t = CHR ''-'' \<or> c_head t = CHR ''+'' then tl t else t)"
  have sc: "ds = takeWhile c_isdigit u" "rest = dropWhile c_isdigit u" using fields by (auto simp: scan_number_def Let_def t_def u_def)
  have "length t \<le> length s" unfolding t_def by (rule length_dropWhile_le)
  then have "length u \<le> length s" by (auto simp: u_def)
  moreover have "length rest < length u" if "ds \<noteq> []"
    using that arg_cong [OF takeWhile_dropWhile_id [of c_isdigit u], of length] by (cases ds) (auto simp: sc [symmetric])
  ultimately have "ds \<noteq> [] \<Longrightarrow> length rest < length s" by force
  then show ?thesis using fields by (auto simp: strtol_def Let_def)
qed

text \<open>\<open>strtoul\<close> accepts a minus sign, and then negates the number as an \<open>unsigned long\<close>.\<close>

definition strtoul_signed :: "string \<Rightarrow> parsed" where
  "strtoul_signed s =
     (let (neg, ds, rest) = scan_number s; n = number_value ds in
      if ds = [] then (0, s, False)
      else if ULONG_MAX < n then (ULONG_MAX, rest, True)
      else (if neg then (- n) mod (ULONG_MAX + 1) else n, rest, False))"

definition parse_int :: "string \<Rightarrow> parsed" where
  "parse_int s =
     (let (x, end_s, erange) = strtol s in
      if x < INT_MIN then (INT_MIN, end_s, True)
      else if INT_MAX < x then (INT_MAX, end_s, True)
      else (x, end_s, erange))"

definition parse_integer :: "string \<Rightarrow> 32 word" where
  "parse_integer s = word_of_int (fst (parse_int s))"

definition parse_int32 :: "string \<Rightarrow> parsed" where
  "parse_int32 s = parse_int s"

definition parse_int64 :: "string \<Rightarrow> parsed" where
  "parse_int64 s = strtol s"

definition parse_uint :: "string \<Rightarrow> parsed" where
  "parse_uint s = (let (x, end_s, erange) = strtoul_signed s in if UINT_MAX < x then (UINT_MAX, end_s, True) else (x, end_s, erange))"

definition parse_uint32 :: "string \<Rightarrow> parsed" where
  "parse_uint32 s = (let (x, end_s, erange) = strtoul_signed s in if UINT_MAX < x then (UINT_MAX, end_s, True) else (x, end_s, erange))"

definition parse_uint64 :: "string \<Rightarrow> parsed" where
  "parse_uint64 s = strtoul_signed s"

text \<open>\<open>atoi\<close> is \<open>strtol\<close>, cut to an \<open>int\<close> without a test.\<close>

definition atoi :: "string \<Rightarrow> 32 word" where
  "atoi s = word_of_int (fst (strtol s))"

section \<open>What counts as a number\<close>

text \<open>The tests take a pointer that may be \<open>NULL\<close>; \<open>end > str\<close> holds when something was read.\<close>

definition read_all :: "(string \<Rightarrow> parsed) \<Rightarrow> string \<Rightarrow> bool" where
  "read_all conv s = (let (_, end_s, erange) = conv s in \<not> (erange \<or> end_s \<noteq> []))"

definition is_strict_integer :: "string option \<Rightarrow> bool" where
  "is_strict_integer arg =
     (case arg of None \<Rightarrow> False | Some s \<Rightarrow> read_all parse_int s \<and> length (fst (snd (parse_int s))) < length s)"

definition is_strict_int64 :: "string option \<Rightarrow> bool" where
  "is_strict_int64 arg =
     (case arg of None \<Rightarrow> False | Some s \<Rightarrow> read_all parse_int64 s \<and> length (fst (snd (parse_int64 s))) < length s)"

record math_options =
  tiny_math :: bool
  null_eq_zero :: bool
  tiny_booleans :: bool

definition is_integer :: "math_options \<Rightarrow> string option \<Rightarrow> bool" where
  "is_integer opt arg =
     (if tiny_math opt then True
      else case arg of
        None \<Rightarrow> False
      | Some s \<Rightarrow>
          let s = dropWhile c_isspace s in
          if s = [] then null_eq_zero opt else read_all parse_int s)"

definition is_uinteger :: "math_options \<Rightarrow> string option \<Rightarrow> bool" where
  "is_uinteger opt arg =
     (if tiny_math opt then True
      else case arg of
        None \<Rightarrow> False
      | Some s \<Rightarrow>
          let s = dropWhile c_isspace s in
          if s = [] then null_eq_zero opt
          else if \<not> (c_isdigit (c_head s) \<or> c_head s = CHR ''+'') then False
          else read_all parse_uint s)"

definition is_strict_uinteger :: "string option \<Rightarrow> bool" where
  "is_strict_uinteger arg =
     (case arg of
        None \<Rightarrow> False
      | Some s \<Rightarrow>
          let s = dropWhile c_isspace s in
          if s = [] then False
          else if \<not> (c_isdigit (c_head s) \<or> c_head s = CHR ''+'') then False
          else read_all parse_uint s)"

definition is_boolean :: "math_options \<Rightarrow> string option \<Rightarrow> bool" where
  "is_boolean opt arg = (if tiny_booleans opt then is_integer opt arg else True)"

text \<open>\<open>strtod\<close> is the parameter \<open>strtod\<close>.\<close>

definition is_strict_number :: "(string \<Rightarrow> 'f \<times> string \<times> bool) \<Rightarrow> string option \<Rightarrow> bool" where
  "is_strict_number strtod arg =
     (case arg of
        None \<Rightarrow> False
      | Some s \<Rightarrow> let (_, end_s, erange) = strtod s in if erange \<or> end_s \<noteq> [] then False else length end_s < length s)"

definition is_number :: "(string \<Rightarrow> 'f \<times> string \<times> bool) \<Rightarrow> math_options \<Rightarrow> string \<Rightarrow> bool" where
  "is_number strtod opt s =
     (if tiny_math opt then True
      else let s = dropWhile c_isspace s in
        if s = [] then null_eq_zero opt else is_strict_number strtod (Some s))"

text \<open>The loop of \<open>is_integer_list\<close>; \<open>strtol\<close> that finds no number returns the string it was given.\<close>

function integer_list_loop :: "string \<Rightarrow> bool" where
  "integer_list_loop s =
     (let t = dropWhile (\<lambda>c. c = CHR '' '') s in
      if t = [] then True
      else
        let e = fst (snd (strtol t)) in
        if \<not> (e = [] \<or> c_head e = CHR '' '') then False
        else if e = [] then True
        else integer_list_loop e)"
  by pat_completeness auto
termination
proof (relation "measure length", simp)
  fix s t e :: string assume t: "t = dropWhile (\<lambda>c. c = CHR '' '') s" and "t \<noteq> []" and e: "e = fst (snd (strtol t))"
    and "\<not> \<not> (e = [] \<or> c_head e = CHR '' '')" and "e \<noteq> []"
  then have "c_head e = CHR '' ''" "c_head t \<noteq> CHR '' ''" using hd_dropWhile [of "\<lambda>c. c = CHR '' ''" s] by (auto simp: c_head_def split: list.splits)
  then have "e \<noteq> t" by auto
  then have "length e < length t" using strtol_rest [of t] e by auto
  also have "length t \<le> length s" unfolding t by (rule length_dropWhile_le)
  finally show "(e, s) \<in> measure length" by simp
qed

definition is_integer_list :: "string option \<Rightarrow> bool" where
  "is_integer_list arg = (case arg of None \<Rightarrow> False | Some s \<Rightarrow> if s = [] then False else integer_list_loop s)"

section \<open>Object references\<close>

definition NUMBER_TOKEN :: char where "NUMBER_TOKEN = CHR ''#''"

definition is_dbref :: "string option \<Rightarrow> bool" where
  "is_dbref arg =
     (case arg of
        None \<Rightarrow> False
      | Some s \<Rightarrow>
          if c_head s \<noteq> NUMBER_TOKEN \<or> tl s = [] then False
          else
            let t = (if c_head (tl s) = CHR ''-'' then tl (tl s) else tl s) in
            if t = [] then False else dropWhile c_isdigit t = [])"

text \<open>
  The pattern \<open>^#-?\d+(?::\d+)?$\<close> on the text without markup.  The dollar sign of PCRE also matches before a newline
  that ends the subject.
\<close>

definition objid_pattern :: "string \<Rightarrow> bool" where
  "objid_pattern v =
     (case v of
        [] \<Rightarrow> False
      | c # t \<Rightarrow>
          let t = (if c_head t = CHR ''-'' then tl t else t);
              u = dropWhile c_isdigit t;
              w = (if c_head u = CHR '':'' \<and> c_isdigit (c_head (tl u)) then dropWhile c_isdigit (tl u) else u)
          in c = CHR ''#'' \<and> c_isdigit (c_head t) \<and> (w = [] \<or> w = [CHR 0x0A]))"

definition is_objid :: "string option \<Rightarrow> bool" where
  "is_objid arg = (case remove_markup arg of None \<Rightarrow> False | Some v \<Rightarrow> objid_pattern v)"

definition parse_dbref :: "mush \<Rightarrow> string option \<Rightarrow> dbref" where
  "parse_dbref s arg =
     (case arg of
        None \<Rightarrow> NOTHING
      | Some t \<Rightarrow>
          if c_head t \<noteq> NUMBER_TOKEN \<or> tl t = [] then NOTHING
          else if dropWhile c_isdigit (tl t) \<noteq> [] then NOTHING
          else let num = atoi (tl t) in if \<not> GoodObject s num then NOTHING else num)"

definition qparse_dbref :: "string option \<Rightarrow> dbref" where
  "qparse_dbref arg =
     (case arg of
        None \<Rightarrow> NOTHING
      | Some t \<Rightarrow> if c_head t \<noteq> NUMBER_TOKEN \<or> tl t = [] then NOTHING else parse_integer (tl t))"

abbreviation CreTime :: "mush \<Rightarrow> dbref \<Rightarrow> 64 word" where "CreTime s x \<equiv> obj_ctime (obj s x)"

text \<open>
  \<open>unparse_objid\<close> writes behind what its static buffer holds, here \<open>obuff\<close>, and starts again at the front when less than
  40 bytes are left; it returns the text and the new contents of the buffer.
\<close>

definition unparse_objid :: "mush \<Rightarrow> dbref \<Rightarrow> buf \<Rightarrow> string \<times> buf" where
  "unparse_objid s x obuff =
     (if \<not> GoodObject s x then (''#-1'', obuff)
      else
        let start = (if BUFFER_LEN - 40 \<le> length obuff then [] else obuff);
            b = snd (safe_dbref x start);
            b = snd (safe_chr (CHR '':'') b);
            b = snd (safe_integer (CreTime s x) b)
        in (drop (length start) b, b @ [NUL]))"

text \<open>The part before the colon is copied to a buffer; \<open>None\<close> is a write outside it.\<close>

definition real_parse_objid :: "mush \<Rightarrow> string \<Rightarrow> bool \<Rightarrow> dbref option" where
  "real_parse_objid s arg strict =
     (if CHR '':'' \<in> set arg then
        let n = length (takeWhile (\<lambda>c. c \<noteq> CHR '':'') arg) in
        Option.bind (mush_strncpy (replicate BUFFER_LEN NUL) (Some arg) (n + 1)) (\<lambda>tbuf1.
          let it = parse_dbref s (Some (c_string tbuf1)) in
          if GoodObject s it then
            let p = drop (n + 1) arg in
            if \<not> is_strict_integer (Some p) then Some NOTHING
            else Some (if CreTime s it = scast (parse_integer p) then it else NOTHING)
          else Some NOTHING)
      else Some (if strict then NOTHING else parse_dbref s (Some arg)))"

section \<open>Booleans\<close>

definition parse_boolean :: "(string \<Rightarrow> 'f::zero \<times> string \<times> bool) \<Rightarrow> math_options \<Rightarrow> string option \<Rightarrow> bool option" where
  "parse_boolean strtod opt arg =
     map_option
       (\<lambda>clean.
          if tiny_booleans opt then atoi clean \<noteq> 0
          else if clean = [] then False
          else if c_head clean = CHR ''#'' \<and> c_head (tl clean) = CHR ''-'' then False
          else if is_strict_number strtod (Some clean) then fst (strtod clean) \<noteq> 0
          else dropWhile (\<lambda>c. c = CHR '' '') clean \<noteq> [])
       (remove_markup arg)"

section \<open>Reading what was printed\<close>

definition number_ends :: "string \<Rightarrow> bool" where
  "number_ends r \<longleftrightarrow> \<not> c_isdigit (c_head r)"

lemma not_digit_NUL [simp]: "\<not> c_isdigit NUL" by (simp add: c_isdigit_def)

lemma digit_not_sign: "c_isdigit c \<Longrightarrow> \<not> c_isspace c \<and> c \<noteq> CHR ''-'' \<and> c \<noteq> CHR ''+''"
  by (auto simp: c_isdigit_def c_isspace_def c_ord_def)

lemma number_value_digits: "\<forall>c \<in> set ds. c_isdigit c \<Longrightarrow> number_value ds = int (digits_value 10 ds)"
proof (induction ds rule: rev_induct)
  case (snoc c ds)
  then show ?case by (simp add: number_value_def digits_value_snoc digit_value_def c_isdigit_def of_nat_diff)
qed (simp add: number_value_def digits_value_def)

lemma span_digits:
  assumes "\<forall>c \<in> set ds. c_isdigit c" "number_ends r"
  shows "takeWhile c_isdigit (ds @ r) = ds" "dropWhile c_isdigit (ds @ r) = r"
  using assms by (induction ds) (auto simp: number_ends_def c_head_def split: list.splits)

lemma scan_number_digits:
  assumes "\<forall>c \<in> set ds. c_isdigit c" "ds \<noteq> []" "number_ends r"
  shows "scan_number (ds @ r) = (False, ds, r)" "scan_number (CHR ''-'' # ds @ r) = (True, ds, r)"
proof -
  obtain d ds' where d: "ds = d # ds'" "c_isdigit d" using assms(1,2) by (cases ds) auto
  have "dropWhile c_isspace (ds @ r) = ds @ r" "c_head (ds @ r) = d" using d digit_not_sign [of d] by auto
  then show "scan_number (ds @ r) = (False, ds, r)"
    using d digit_not_sign [of d] span_digits [OF assms(1,3)] by (simp add: scan_number_def Let_def)
  have "dropWhile c_isspace (CHR ''-'' # ds @ r) = CHR ''-'' # ds @ r" by (simp add: c_isspace_def c_ord_def)
  then show "scan_number (CHR ''-'' # ds @ r) = (True, ds, r)"
    using span_digits [OF assms(1,3)] by (simp add: scan_number_def Let_def)
qed

lemma strtol_long_text:
  assumes "number_ends r"
  shows "strtol (long_text v 10 @ r) = (sint v, r, False)"
proof -
  have range: "LONG_MIN \<le> sint v" "sint v \<le> LONG_MAX" using sint_ge [of v] sint_lt [of v] by (simp_all add: limits)
  define ds where "ds = push_digits 10 (nat \<bar>sint v\<bar>) []"
  have ds: "\<forall>c \<in> set ds. c_isdigit c" "ds \<noteq> []" "number_value ds = \<bar>sint v\<bar>"
    using digit_chars push_digits_nonempty push_digits_value [of 10 "nat \<bar>sint v\<bar>"] by (auto simp: ds_def number_value_digits)
  have t: "long_text v 10 = (if sint v < 0 then CHR ''-'' # ds else ds)"
    by (auto simp: long_text_def ds_def clamp_base_def)
  show ?thesis
  proof (cases "sint v < 0")
    case True
    then show ?thesis using range ds scan_number_digits(2) [OF ds(1,2) assms] by (simp add: strtol_def t)
  next
    case False
    then show ?thesis using range ds scan_number_digits(1) [OF ds(1,2) assms] by (simp add: strtol_def t)
  qed
qed

lemma number_ends_simps [simp]: "number_ends []" "number_ends (c # r) \<longleftrightarrow> \<not> c_isdigit c"
  by (simp_all add: number_ends_def)

lemma push_digits_length: "q < 10 ^ n \<Longrightarrow> 0 < n \<Longrightarrow> length (push_digits 10 q []) \<le> n"
proof (induction n arbitrary: q)
  case (Suc n)
  show ?case
  proof (cases "q < 10")
    case False
    then have "n \<noteq> 0" using Suc.prems by (cases n) auto
    moreover have "q div 10 < 10 ^ n" using Suc.prems(1) by (simp add: less_mult_imp_div_less mult.commute)
    ultimately show ?thesis using Suc.IH [of "q div 10"] False by (simp add: push_digits_rec [of 10 q])
  qed (simp add: push_digits_rec)
qed simp

lemma long_text_length: "length (long_text v 10) \<le> 20"
proof -
  have "\<bar>sint v\<bar> \<le> 2 ^ 63" using sint_ge [of v] sint_lt [of v] by simp
  then have "nat \<bar>sint v\<bar> < 10 ^ 19" by (simp add: nat_less_iff)
  from push_digits_length [OF this] have "length (push_digits 10 (nat \<bar>sint v\<bar>) []) \<le> 19" by simp
  then show ?thesis by (auto simp: long_text_def clamp_base_def abs_if split: if_splits)
qed

lemma long_text_least: "long_text (- (2 ^ 63)) 10 = ''-9223372036854775808''"
proof -
  have "sint (- (2 ^ 63) :: 64 word) = - (2 ^ 63)" by simp
  moreover have "push_digits 10 9223372036854775808 [] = ''9223372036854775808''"
    by (simp add: push_digits.simps digit_char_def)
  ultimately show ?thesis by (simp add: long_text_def clamp_base_def)
qed

lemma format_long_fits:
  assumes "2 \<le> m" "length b + 20 \<le> m - 1" "m \<le> BUFFER_LEN"
  shows "format_long v (int m) 10 b = (0, b @ long_text v 10)"
proof (cases "v = - (2 ^ 63)")
  case True
  have "length b + 20 \<le> BUFFER_LEN - 1" using assms by linarith
  then have "safe_format ''-9223372036854775808'' b = (0, b @ ''-9223372036854775808'')"
    using str.fits [of b "''-9223372036854775808''"] by (simp add: safe_format_def safe_str_def)
  moreover have "sint (- (2 ^ 63) :: 64 word) < 0" "- (- (2 ^ 63)) = (- (2 ^ 63) :: 64 word)" by simp_all
  ultimately show ?thesis using True assms by (simp add: format_long_def Let_def long_text_least [simplified])
next
  case False
  show ?thesis
    using format_long_text [OF False assms(1), of b 10] long_text_length [of v] assms(2) by simp
qed

lemma unparse_integer_text: "unparse_integer v = long_text v 10"
  using format_long_fits [of 128 "[]" v] by (simp add: unparse_integer_def safe_integer_sbuf_def SBUF_LEN_def BUFFER_LEN_def)

lemma parse_int_long_text:
  "number_ends r \<Longrightarrow> parse_int (long_text v 10 @ r) = (max INT_MIN (min INT_MAX (sint v)), r, \<not> (INT_MIN \<le> sint v \<and> sint v \<le> INT_MAX))"
  by (auto simp: parse_int_def strtol_long_text limits)

lemma is_strict_integer_long_text:
  "is_strict_integer (Some (long_text v 10)) \<longleftrightarrow> INT_MIN \<le> sint v \<and> sint v \<le> INT_MAX"
  using parse_int_long_text [of "[]" v] long_text_nonempty [of v 10] by (auto simp: is_strict_integer_def read_all_def)

text \<open>C33: a 64-bit integer that is printed is read back as itself by \<open>parse_int64\<close>; \<open>parse_int\<close> reads the nearest \<open>int\<close>, and reports
  a range error, as \<open>is_strict_integer\<close> does, exactly when that is another number.\<close>

theorem parse_int_unparse_integer:
  "parse_int64 (unparse_integer n) = (sint n, [], False)
   \<and> parse_int (unparse_integer n) = (max INT_MIN (min INT_MAX (sint n)), [], \<not> (INT_MIN \<le> sint n \<and> sint n \<le> INT_MAX))
   \<and> is_strict_integer (Some (unparse_integer n)) = (INT_MIN \<le> sint n \<and> sint n \<le> INT_MAX)"
  using strtol_long_text [of "[]" n] parse_int_long_text [of "[]" n] is_strict_integer_long_text [of n]
  by (simp add: unparse_integer_text parse_int64_def)

section \<open>Object references\<close>

lemma dbref_word [simp]: "sint (scast d :: 64 word) = sint (d :: 32 word)"
  by (rule sint_up_scast) (simp add: is_up)

lemma dbref_text_scast: "dbref_text d = CHR ''#'' # long_text (scast d) 10"
  by (simp add: dbref_text_def)

text \<open>So the parser of locks, which reads references with \<open>parse_integer\<close>, gets back the reference that was written.\<close>

lemma parse_integer_dbref: "parse_integer (tl (dbref_text d)) = d"
proof -
  have "INT_MIN \<le> sint d" "sint d \<le> INT_MAX" using sint_ge [of d] sint_lt [of d] by (simp_all add: limits)
  then have "max INT_MIN (min INT_MAX (sint d)) = sint d" by simp
  then show ?thesis using parse_int_long_text [of "[]" "scast d"] by (simp add: parse_integer_def dbref_text_scast)
qed

lemma ref_ok_parse_integer: "px_parse_integer env = parse_integer \<Longrightarrow> ref_ok env d"
  by (simp add: ref_ok_def parse_integer_dbref)

lemma parse_dbref_text: "GoodObject s x \<Longrightarrow> parse_dbref s (Some (dbref_text x)) = x"
proof -
  assume g: "GoodObject s x"
  define v where "v = (scast x :: 64 word)"
  have v: "sint v = sint x" "\<not> sint v < 0" using g by (simp_all add: v_def GoodObject_def)
  have "long_text v 10 = push_digits 10 (nat (sint v)) []" using v by (simp add: long_text_def clamp_base_def)
  then have "dropWhile c_isdigit (long_text v 10) = []" using digit_chars by (simp add: dropWhile_eq_Nil_conv)
  moreover have "atoi (long_text v 10) = x" using strtol_long_text [of "[]" v] v by (simp add: atoi_def)
  ultimately show ?thesis
    using g long_text_nonempty [of v 10] by (simp add: parse_dbref_def dbref_text_def v_def [symmetric] NUMBER_TOKEN_def)
qed

lemma unparse_objid_text:
  "GoodObject s x \<Longrightarrow> fst (unparse_objid s x obuff) = dbref_text x @ CHR '':'' # long_text (CreTime s x) 10"
proof -
  assume g: "GoodObject s x"
  define b where "b = (if BUFFER_LEN - 40 \<le> length obuff then [] else obuff)"
  have lb: "length b + 41 \<le> BUFFER_LEN" by (simp add: b_def BUFFER_LEN_def)
  define v where "v = (scast x :: 64 word)"
  have "nat (sint x) < 10 ^ 10" using sint_lt [of x] by (simp add: nat_less_iff)
  from push_digits_length [OF this] have l: "length (long_text v 10) \<le> 10"
    using g by (simp add: long_text_def clamp_base_def v_def GoodObject_def)
  have "safe_dbref x b = (0, b @ dbref_text x)"
    using safe_dbref_whole [of x] l lb unfolding writes_whole_def dbref_text_scast v_def buf_room_def
    by (cases "fst (safe_dbref x b) = 0") force+
  moreover have "safe_chr (CHR '':'') (b @ dbref_text x) = (0, b @ dbref_text x @ '':'')"
    using l lb by (simp add: safe_chr_def buf_room_def dbref_text_def v_def)
  moreover have "safe_integer (CreTime s x) (b @ dbref_text x @ '':'') = (0, (b @ dbref_text x @ '':'') @ long_text (CreTime s x) 10)"
    unfolding safe_integer_def using l lb by (intro format_long_fits) (simp_all add: BUFFER_LEN_def dbref_text_def v_def)
  ultimately show ?thesis using g by (simp add: unparse_objid_def b_def [symmetric] Let_def)
qed

lemma scast_int_word:
  assumes "INT_MIN \<le> sint w" "sint w \<le> INT_MAX"
  shows "scast (word_of_int (sint w) :: 32 word) = (w :: 64 word)"
proof -
  have "sint (word_of_int (sint w) :: 32 word) = signed_take_bit (LENGTH(32) - 1) (sint w)" by (rule sint_sbintrunc')
  also have "\<dots> = sint w" using assms by (intro signed_take_bit_int_eq_self) (simp_all add: limits)
  finally have "word_of_int (sint (word_of_int (sint w) :: 32 word)) = (word_of_int (sint w) :: 64 word)" by (simp only:)
  then show ?thesis by (simp only: scast_eq of_int_sint)
qed

text \<open>C16: the object id that is printed for an object is read back as that object, strictly or not, wherever the static buffer has got to,
  as long as the creation time is an \<open>int\<close>; for an object created later, and for a bad reference, it is read as \<open>NOTHING\<close>.\<close>

theorem parse_objid_unparse_objid:
  "real_parse_objid s (fst (unparse_objid s x obuff)) strict =
     Some (if GoodObject s x \<and> INT_MIN \<le> sint (CreTime s x) \<and> sint (CreTime s x) \<le> INT_MAX then x else NOTHING)"
proof (cases "GoodObject s x")
  case False
  then show ?thesis
    by (simp add: unparse_objid_def real_parse_objid_def parse_dbref_def NUMBER_TOKEN_def c_isdigit_def c_ord_def)
next
  case True
  let ?t = "dbref_text x" and ?c = "long_text (CreTime s x) 10"
  have ref: "ref_char c \<Longrightarrow> c \<noteq> CHR '':'' \<and> c \<noteq> NUL" for c by (auto simp: ref_char_def c_isdigit_def c_ord_def)
  have nc: "CHR '':'' \<notin> set ?t"
    using long_text_chars ref [of "CHR '':''"] by (auto simp: dbref_text_scast)
  have "NUL \<notin> set ?c" using long_text_chars [of NUL "CreTime s x"] ref [of NUL] by auto
  then have nn: "no_nul (?t @ CHR '':'' # ?c)" using no_nul_dbref by (simp add: no_nul_def)
  have tw: "takeWhile (\<lambda>c. c \<noteq> CHR '':'') (?t @ CHR '':'' # ?c) = ?t" using nc by (subst takeWhile_append2) auto
  have lt: "length ?t + 1 \<le> length (replicate BUFFER_LEN NUL)"
    using long_text_length [of "word_of_int (sint x)"] by (simp add: dbref_text_def BUFFER_LEN_def)
  have lt: "length ?t + 1 \<le> length (replicate BUFFER_LEN NUL)" "0 < length ?t + 1"
    using lt by simp_all
  obtain d where d: "mush_strncpy (replicate BUFFER_LEN NUL) (Some (?t @ CHR '':'' # ?c)) (length ?t + 1) = Some d"
    "c_string d = take (length ?t + 1 - 1) (?t @ CHR '':'' # ?c)"
    using mush_strncpy_c_string [OF nn lt(2,1)] by (elim exE conjE) (rule that)
  have d': "c_string d = ?t" unfolding d(2) by simp
  have "scast (parse_integer ?c) = CreTime s x" if "INT_MIN \<le> sint (CreTime s x)" "sint (CreTime s x) \<le> INT_MAX"
  proof -
    have "fst (parse_int ?c) = sint (CreTime s x)" using that parse_int_long_text [of "[]" "CreTime s x"] by simp
    then show ?thesis using scast_int_word [OF that] by (simp only: parse_integer_def)
  qed
  then show ?thesis
    using True d(1) d' tw is_strict_integer_long_text [of "CreTime s x"] parse_dbref_text [OF True]
    by (simp add: unparse_objid_text real_parse_objid_def)
qed

section \<open>What counts as an integer\<close>

text \<open>White space, a sign or none, and digits, of the value \<open>v\<close>.\<close>

definition integer_text :: "string \<Rightarrow> int \<Rightarrow> bool" where
  "integer_text s v \<longleftrightarrow>
     (\<exists>ws sign ds. s = ws @ sign @ ds \<and> (\<forall>c \<in> set ws. c_isspace c) \<and> sign \<in> {[], ''+'', ''-''}
        \<and> ds \<noteq> [] \<and> (\<forall>c \<in> set ds. c_isdigit c)
        \<and> v = (if sign = ''-'' then - number_value ds else number_value ds))"

lemma scan_integer_text:
  assumes "\<forall>c \<in> set ws. c_isspace c" "sign \<in> {[], ''+'', ''-''}" "ds \<noteq> []" "\<forall>c \<in> set ds. c_isdigit c"
  shows "scan_number (ws @ sign @ ds) = (sign = ''-'', ds, [])"
proof -
  obtain d ds' where d: "ds = d # ds'" "c_isdigit d" using assms(3,4) by (cases ds) auto
  have span: "takeWhile c_isdigit ds = ds" "dropWhile c_isdigit ds = []" using span_digits [OF assms(4), of "[]"] by simp_all
  have "dropWhile c_isspace (ws @ sign @ ds) = dropWhile c_isspace (sign @ ds)"
    using assms(1) by (subst dropWhile_append2) auto
  also have "\<dots> = sign @ ds" using assms(2) d digit_not_sign [of d] by (auto simp: c_isspace_def c_ord_def)
  finally show ?thesis
    using assms(2) d digit_not_sign [of d] span by (auto simp: scan_number_def Let_def)
qed

lemma integer_text_strtol:
  assumes "scan_number s = (neg, ds, [])" "ds \<noteq> []"
  shows "integer_text s (if neg then - number_value ds else number_value ds)"
proof -
  define t where "t = dropWhile c_isspace s"
  define sign where "sign = (if c_head t = CHR ''-'' then ''-'' else if c_head t = CHR ''+'' then ''+'' else '''')"
  define u where "u = (if c_head t = CHR ''-'' \<or> c_head t = CHR ''+'' then tl t else t)"
  have sc: "neg = (c_head t = CHR ''-'')" "ds = takeWhile c_isdigit u" "dropWhile c_isdigit u = []"
    using assms(1) by (auto simp: scan_number_def Let_def t_def u_def)
  have "u = ds" using takeWhile_dropWhile_id [of c_isdigit u] unfolding sc(3) sc(2) [symmetric] by simp
  moreover have "t = sign @ u" by (cases t) (auto simp: sign_def u_def)
  ultimately have s: "s = takeWhile c_isspace s @ sign @ ds" using takeWhile_dropWhile_id [of c_isspace s] by (simp add: t_def)
  have "\<forall>c \<in> set ds. c_isdigit c" using sc(2) by (auto dest: set_takeWhileD)
  moreover have "\<forall>c \<in> set (takeWhile c_isspace s). c_isspace c" by (auto dest: set_takeWhileD)
  moreover have "sign \<in> {[], ''+'', ''-''}" "neg = (sign = ''-'')" by (auto simp: sign_def sc(1))
  ultimately show ?thesis using s assms(2) unfolding integer_text_def by blast
qed

text \<open>C32: \<open>is_strict_integer\<close> accepts exactly white space, a sign or none and digits whose value is an \<open>int\<close>, and that value is the one
  \<open>parse_integer\<close> returns for it.\<close>

theorem is_strict_integer_means: "is_strict_integer (Some s) = integer_text s (sint (parse_integer s))"
proof
  obtain neg ds rest where sc: "scan_number s = (neg, ds, rest)" by (cases "scan_number s")
  define x where "x = (if neg then - number_value ds else number_value ds)"
  have int: "sint (word_of_int x :: 32 word) = x" if "INT_MIN \<le> x" "x \<le> INT_MAX"
    using that sint_sbintrunc' [of x, where 'a = 32] signed_take_bit_int_eq_self [of 31 x] by (simp add: limits)
  {
    assume "is_strict_integer (Some s)"
    then have a: "fst (snd (parse_int s)) = []" "\<not> snd (snd (parse_int s))" "s \<noteq> []"
      by (auto simp: is_strict_integer_def read_all_def case_prod_beta)
    then have ds: "ds \<noteq> []" using sc by (auto simp: parse_int_def strtol_def limits)
    have r: "rest = []" "INT_MIN \<le> x" "x \<le> INT_MAX" "parse_integer s = word_of_int x"
      using a ds sc by (auto simp: parse_integer_def parse_int_def strtol_def Let_def x_def [symmetric] split: if_splits)
    show "integer_text s (sint (parse_integer s))"
      using integer_text_strtol [OF sc [unfolded r(1)] ds] int [OF r(2,3)] r(4) by (simp add: x_def)
  next
    define v where "v = sint (parse_integer s)"
    assume "integer_text s (sint (parse_integer s))"
    then obtain ws sign ds' where d: "s = ws @ sign @ ds'" "\<forall>c \<in> set ws. c_isspace c" "sign \<in> {[], ''+'', ''-''}"
      "ds' \<noteq> []" "\<forall>c \<in> set ds'. c_isdigit c" "v = (if sign = ''-'' then - number_value ds' else number_value ds')"
      unfolding integer_text_def v_def by blast
    have sc': "scan_number s = (sign = ''-'', ds', [])" using scan_integer_text [OF d(2-5)] d(1) by simp
    have range: "INT_MIN \<le> v" "v \<le> INT_MAX"
      using sint_ge [of "parse_integer s"] sint_lt [of "parse_integer s"] by (simp_all add: v_def limits)
    have "strtol s = (v, [], False)" using sc' d(4,6) range by (auto simp: strtol_def limits)
    then have "parse_int s = (v, [], False)" using range by (auto simp: parse_int_def)
    then show "is_strict_integer (Some s)" using d(1,4) by (simp add: is_strict_integer_def read_all_def)
  }
qed

text \<open>The tests the code comes with.\<close>

lemma number_tests:
  defines "penn \<equiv> \<lparr>tiny_math = False, null_eq_zero = False, tiny_booleans = False\<rparr>"
  shows "\<not> is_integer penn (Some ''foo'')" "is_integer penn (Some ''5'')" "is_integer penn (Some ''  12'')" "\<not> is_integer penn None"
    "is_integer penn (Some ''-5'')" "is_integer penn (Some ''2147483647'')" "\<not> is_integer penn (Some ''2147483648'')"
    "\<not> is_integer penn (Some ''12foo'')" "\<not> is_integer penn (Some '''')"
    "\<not> is_uinteger penn (Some ''foo'')" "is_uinteger penn (Some ''  12'')" "\<not> is_uinteger penn (Some ''-5'')"
    "is_uinteger penn (Some ''4294967295'')" "\<not> is_uinteger penn (Some ''4294967296'')" "\<not> is_uinteger penn (Some ''12foo'')"
    "\<not> is_dbref (Some '''')" "\<not> is_dbref (Some ''foo'')" "\<not> is_dbref (Some ''#foo'')" "is_dbref (Some ''#-1'')" "is_dbref (Some ''#1234'')"
    "\<not> is_dbref (Some ''#12AB'')" "\<not> is_dbref (Some ''#'')" "\<not> is_dbref (Some ''#-'')" "\<not> is_dbref (Some ''#-A'')"
  unfolding penn_def by code_simp+

text \<open>A list of spaces passes as a list of integers, and the number of a reference is cut to 32 bits.\<close>

lemma integer_list_of_spaces: "is_integer_list (Some (replicate (Suc n) (CHR '' '')))"
  by (simp add: is_integer_list_def integer_list_loop.simps dropWhile_eq_Nil_conv)

lemma parse_dbref_wraps: "GoodObject s 0 \<Longrightarrow> parse_dbref s (Some ''#4294967296'') = 0"
proof -
  have "atoi ''4294967296'' = 0" by code_simp
  moreover have "dropWhile c_isdigit ''4294967296'' = []" by code_simp
  ultimately show "GoodObject s 0 \<Longrightarrow> ?thesis" by (simp add: parse_dbref_def NUMBER_TOKEN_def)
qed

end
