(* ===== verification/Mush_Sort.thy ===== *)
theory Mush_Sort
  imports Mush_Parse "HOL-Library.Sublist"
begin

text \<open>
  Sorting (\<open>sort.c\<close>): the quicksort of \<open>sortby()\<close>, the table of list types with the functions that make and compare sort
  records, \<open>do_gensort\<close>, \<open>gencomp\<close>, \<open>slist_uniq\<close> and the guess of a list's type; and from \<open>funlist.c\<close> the functions
  \<open>sort()\<close>, \<open>unique()\<close> and the set functions.  The \<open>qsort\<close> of the C library, \<open>strcoll\<close> and floating point arithmetic are
  parameters.  \<open>None\<close> is an access outside an array or a string, or a \<open>NULL\<close> that is read.
\<close>

section \<open>The sort of \<open>sortby()\<close>\<close>

text \<open>A comparison may run softcode: it takes and returns a state.  The pivots are drawn from the numbers \<open>rnd\<close>.\<close>

type_synonym ('a, 's) comp_func = "'s \<Rightarrow> 'a \<Rightarrow> 'a \<Rightarrow> int \<times> 's"

definition array_get :: "'a list \<Rightarrow> int \<Rightarrow> 'a option" where
  "array_get xs i = (if 0 \<le> i \<and> i < int (length xs) then Some (xs ! nat i) else None)"

definition array_swap :: "'a list \<Rightarrow> int \<Rightarrow> int \<Rightarrow> 'a list option" where
  "array_swap xs i j =
     Option.bind (array_get xs i) (\<lambda>x. Option.bind (array_get xs j) (\<lambda>y. Some (xs[nat i := y, nat j := x])))"

text \<open>The loop that moves what is less than the pivot to the front; it ends with the new \<open>last\<close>.\<close>

function partition_loop :: "('a, 's) comp_func \<Rightarrow> int \<Rightarrow> int \<Rightarrow> int \<Rightarrow> int \<Rightarrow> 'a list \<Rightarrow> 's \<Rightarrow> ('a list \<times> int \<times> 's) option" where
  "partition_loop compare lo hi i lst xs s =
     (if hi < i then Some (xs, lst, s)
      else
        Option.bind (array_get xs i) (\<lambda>x.
        Option.bind (array_get xs lo) (\<lambda>pivot.
          let (c, s) = compare s x pivot in
          if c < 0 then
            if lst + 1 = i then partition_loop compare lo hi (i + 1) (lst + 1) xs s
            else Option.bind (array_swap xs (lst + 1) i) (\<lambda>xs. partition_loop compare lo hi (i + 1) (lst + 1) xs s)
          else partition_loop compare lo hi (i + 1) lst xs s)))"
  by pat_completeness auto
termination
  by (relation "measure (\<lambda>(compare, lo, hi, i, lst, xs, s). nat (hi + 1 - i))") auto

declare partition_loop.simps [simp del]

lemma partition_loop_last:
  "partition_loop compare lo hi i lst xs s = Some (xs', lst', s') \<Longrightarrow> lo \<le> lst \<Longrightarrow> lst < i \<Longrightarrow> i \<le> hi + 1
   \<Longrightarrow> lo \<le> lst' \<and> lst' \<le> hi"
proof (induction compare lo hi i lst xs s rule: partition_loop.induct)
  case (1 compare lo hi i lst xs s)
  show ?case
  proof (cases "hi < i")
    case True
    then show ?thesis using 1(4-7) by (simp add: partition_loop.simps)
  next
    case False
    then obtain x p where xp: "array_get xs i = Some x" "array_get xs lo = Some p"
      using 1(4) by (auto simp: partition_loop.simps [of compare lo hi i] bind_eq_Some_conv)
    obtain c s1 where c: "compare s x p = (c, s1)" by (cases "compare s x p")
    show ?thesis
    proof (cases "c < 0")
      case True
      show ?thesis
      proof (cases "lst + 1 = i")
        case eq: True
        have "partition_loop compare lo hi (i + 1) (lst + 1) xs s1 = Some (xs', lst', s')"
          using 1(4) False xp c True eq by (simp add: partition_loop.simps [of compare lo hi i])
        from 1(1) [OF False xp c [symmetric] refl True eq this] 1(5-7) False eq show ?thesis by auto
      next
        case neq: False
        then obtain ys where ys: "array_swap xs (lst + 1) i = Some ys" "partition_loop compare lo hi (i + 1) (lst + 1) ys s1 = Some (xs', lst', s')"
          using 1(4) False xp c True by (auto simp: partition_loop.simps [of compare lo hi i] bind_eq_Some_conv)
        from 1(2) [OF False xp c [symmetric] refl True neq ys] 1(5-7) False neq show ?thesis by auto
      qed
    next
      case ge: False
      have "partition_loop compare lo hi (i + 1) lst xs s1 = Some (xs', lst', s')"
        using 1(4) False xp c ge by (simp add: partition_loop.simps [of compare lo hi i])
      from 1(3) [OF False xp c [symmetric] refl ge this] 1(5-7) False show ?thesis by auto
    qed
  qed
qed

function sane_qsort :: "(nat \<Rightarrow> nat) \<Rightarrow> ('a, 's) comp_func \<Rightarrow> 'a list \<Rightarrow> int \<Rightarrow> int \<Rightarrow> nat \<times> 's \<Rightarrow> ('a list \<times> nat \<times> 's) option" where
  "sane_qsort rnd compare xs lo hi st =
     (if hi \<le> lo then Some (xs, st)
      else
        Option.bind (array_swap xs (lo + int (rnd (fst st)) mod (hi - lo + 1)) lo) (\<lambda>xs.
        Option.bind (partition_loop compare lo hi (lo + 1) lo xs (snd st)) (\<lambda>(xs, lst, s).
        Option.bind (array_swap xs lst lo) (\<lambda>xs.
          if lst - lo < hi - lst
          then Option.bind (sane_qsort rnd compare xs lo (lst - 1) (fst st + 1, s)) (\<lambda>(xs, st). sane_qsort rnd compare xs (lst + 1) hi st)
          else Option.bind (sane_qsort rnd compare xs (lst + 1) hi (fst st + 1, s)) (\<lambda>(xs, st). sane_qsort rnd compare xs lo (lst - 1) st)))))"
  by pat_completeness auto
termination
  by (relation "measure (\<lambda>(rnd, compare, xs, lo, hi, st). nat (hi - lo + 1))") (auto dest!: partition_loop_last)

declare sane_qsort.simps [simp del]

section \<open>Comparison functions for the arrays of other modules\<close>

definition ASCENDING :: int where "ASCENDING = 1"
definition DESCENDING :: int where "DESCENDING = - 1"

text \<open>The global variable \<open>sort_order\<close> is the argument \<open>order\<close>.\<close>

definition compare_in_order :: "int \<Rightarrow> int \<Rightarrow> int \<Rightarrow> int" where
  "compare_in_order order a b = (if a = b then 0 else if a < b then - 1 * order else 1 * order)"

definition int_comp :: "int \<Rightarrow> 32 word \<Rightarrow> 32 word \<Rightarrow> int" where "int_comp order a b = compare_in_order order (sint a) (sint b)"
definition uint_comp :: "int \<Rightarrow> 32 word \<Rightarrow> 32 word \<Rightarrow> int" where "uint_comp order a b = compare_in_order order (uint a) (uint b)"
definition dbref_comp :: "int \<Rightarrow> dbref \<Rightarrow> dbref \<Rightarrow> int" where "dbref_comp order a b = compare_in_order order (sint a) (sint b)"
definition str_comp :: "int \<Rightarrow> string \<Rightarrow> string \<Rightarrow> int" where "str_comp order a b = strcmp a b * order"
definition stri_comp :: "int \<Rightarrow> string \<Rightarrow> string \<Rightarrow> int" where "stri_comp order a b = strcasecmp a b * order"

text \<open>The comparison of \<open>sortby()\<close>: \<open>call_ufun\<close> runs the softcode on the two strings and returns an error or the text it gives.\<close>

definition u_comp :: "('s \<Rightarrow> string list \<Rightarrow> string option \<times> 's) \<Rightarrow> (string, 's) comp_func" where
  "u_comp call_ufun st s1 s2 =
     (case call_ufun st [s1, s2] of
        (None, st) \<Rightarrow> (0, st)
      | (Some result, st) \<Rightarrow> (sint (parse_integer result), st))"

section \<open>Records\<close>

text \<open>
  The union \<open>memo\<close>; \<open>Memo_zero\<close> is the memory \<open>mush_calloc\<close> returns.  A string comes with the mark \<open>freestr\<close>.  Numbers in
  floating point are of the type \<open>'f\<close>.
\<close>

datatype 'f memo = Memo_zero | Memo_str string bool | Memo_num dbref | Memo_numval 'f | Memo_tm int

record 'f s_rec =
  rec_ptr :: "string option"
  rec_val :: string
  rec_db :: dbref
  rec_memo :: "'f memo"

text \<open>
  What the sort asks of the rest of the server: \<open>strcoll\<close>, \<open>strtod\<close>, the two comparisons of floating point numbers,
  who is connected, who may locate whom, and attributes.
\<close>

record 'f sort_env =
  se_strcoll :: "string \<Rightarrow> string \<Rightarrow> int"
  se_strtod :: "string \<Rightarrow> 'f \<times> string \<times> bool"
  se_differ :: "'f \<Rightarrow> 'f \<Rightarrow> bool"
  se_below :: "'f \<Rightarrow> 'f \<Rightarrow> bool"
  se_database_loaded :: bool
  se_priv_who :: "dbref \<Rightarrow> bool"
  se_least_idle_time_priv :: "dbref \<Rightarrow> 32 word"
  se_least_idle_time :: "dbref \<Rightarrow> 32 word"
  se_most_conn_time_priv :: "dbref \<Rightarrow> 32 word"
  se_most_conn_time :: "dbref \<Rightarrow> 32 word"
  se_can_locate :: "dbref \<Rightarrow> dbref \<Rightarrow> bool"
  se_get_attrib :: "dbref \<Rightarrow> dbref \<Rightarrow> string \<Rightarrow> string option"

type_synonym 'f maker = "'f sort_env \<Rightarrow> mush \<Rightarrow> dbref \<Rightarrow> string option \<Rightarrow> 'f s_rec \<Rightarrow> 'f s_rec option"
type_synonym 'f rec_comp = "'f sort_env \<Rightarrow> int \<Rightarrow> 'f s_rec \<Rightarrow> 'f s_rec \<Rightarrow> int"

text \<open>The text of a string without its markup, in a fresh buffer.\<close>

definition without_markup :: "string \<Rightarrow> string" where
  "without_markup s = strip_markup s []"

definition gen_alphanum :: "'f maker" where
  "gen_alphanum env s player flags r =
     Some (r\<lparr>rec_memo :=
       (if ESC_CHAR \<in> set (rec_val r) \<or> TAG_START \<in> set (rec_val r) then Memo_str (without_markup (rec_val r)) True
        else Memo_str (rec_val r) False)\<rparr>)"

section \<open>The magic list type\<close>

text \<open>The number the digits stand for in an \<open>int\<close>, which wraps around, and the formats \<open>%.20d\<close> and \<open>%d\<close> of it.\<close>

definition digits_int :: "string \<Rightarrow> 32 word" where
  "digits_int ds = foldl (\<lambda>n c. n * 10 + of_nat (c_ord c - 48)) 0 ds"

definition format_20d :: "32 word \<Rightarrow> string" where
  "format_20d n =
     (let ds = push_digits 10 (nat \<bar>sint n\<bar>) []
      in (if sint n < 0 then ''-'' else []) @ replicate (20 - length ds) (CHR ''0'') @ ds)"

definition format_d :: "32 word \<Rightarrow> string" where
  "format_d n = (if sint n < 0 then ''-'' else []) @ push_digits 10 (nat \<bar>sint n\<bar>) []"

text \<open>The fraction behind a number, if digits follow its point, and what is left of the text; the point itself is dropped.\<close>

definition magic_fraction :: "string \<Rightarrow> buf \<Rightarrow> string \<times> buf" where
  "magic_fraction s b =
     (if c_head s \<noteq> CHR ''.'' then (s, b)
      else
        let s = tl s in
        if \<not> c_isdigit (c_head s) then (s, b)
        else
          let ds = takeWhile c_isdigit s;
              b = snd (safe_format (format_d (digits_int ds)) b)
          in (dropWhile c_isdigit s, ((\<lambda>b. snd (safe_chr (CHR ''0'') b)) ^^ (20 - length ds)) b))"

lemma magic_fraction_shorter: "length (fst (magic_fraction s b)) \<le> length s"
  using length_dropWhile_le [of c_isdigit "tl s"] by (auto simp: magic_fraction_def Let_def)

lemma dropWhile_tl_shorter: "dropWhile P t \<noteq> [] \<Longrightarrow> length (tl (dropWhile P t)) < length t"
  using length_dropWhile_le [of P t] by (cases "dropWhile P t") auto

lemma magic_number_shorter:
  "c_isdigit c \<Longrightarrow> (u, b') = magic_fraction (dropWhile c_isdigit (c # t)) b \<Longrightarrow> length u < length (c # t)"
  using magic_fraction_shorter [of "dropWhile c_isdigit t" b] length_dropWhile_le [of c_isdigit t] by (auto dest: arg_cong [of _ _ fst])

text \<open>The loop of \<open>gen_magic\<close>: the text left, what is written, and whether something was replaced.  \<open>None\<close>: markup that does not
  end makes it read beyond the string.\<close>

function magic_loop :: "mush \<Rightarrow> string \<Rightarrow> buf \<Rightarrow> bool \<Rightarrow> (buf \<times> bool) option" where
  "magic_loop s t b usedup =
     (case t of
        [] \<Rightarrow> Some (b, usedup)
      | c # rest \<Rightarrow>
          if c = ESC_CHAR then
            let u = dropWhile (\<lambda>x. x \<noteq> CHR ''m'') t in if u = [] then None else magic_loop s (tl u) b True
          else if c = TAG_START then
            let u = dropWhile (\<lambda>x. x \<noteq> TAG_END) t in if u = [] then None else magic_loop s (tl u) b True
          else if c_isdigit c then
            let b = snd (safe_format (format_20d (digits_int (takeWhile c_isdigit t))) b);
                (u, b) = magic_fraction (dropWhile c_isdigit t) b
            in magic_loop s u b True
          else if c = NUMBER_TOKEN \<and> c_isdigit (c_head rest) then
            let victim = digits_int (takeWhile c_isdigit rest);
                b = snd (safe_str (Some (if GoodObject s victim then Name s victim else ''#-1 NO SUCH OBJECT VISIBLE'')) b)
            in magic_loop s (dropWhile c_isdigit rest) b True
          else magic_loop s rest (snd (safe_chr c b)) usedup)"
  by pat_completeness auto

termination
proof (relation "measure (\<lambda>(s, t, b, usedup). length t)", goal_cases)
  case (4 s t b usedup c rest x xa u b')
  then show ?case using magic_number_shorter [of c u b' rest x] by (simp del: dropWhile.simps)
next
  case (2 s t b usedup c rest x)
  then show ?case using dropWhile_tl_shorter [of "\<lambda>x. x \<noteq> CHR ''m''" "c # rest"] by (simp del: dropWhile.simps length_tl dropWhile_eq_Nil_conv)
next
  case (3 s t b usedup c rest x)
  then show ?case using dropWhile_tl_shorter [of "\<lambda>x. x \<noteq> TAG_END" "c # rest"] by (simp del: dropWhile.simps length_tl dropWhile_eq_Nil_conv)
qed (simp_all add: length_dropWhile_le le_imp_less_Suc)

declare magic_loop.simps [simp del]

section \<open>Making records\<close>

definition memo_freestr :: "'f memo \<Rightarrow> bool" where
  "memo_freestr m = (case m of Memo_str s f \<Rightarrow> f | _ \<Rightarrow> False)"

text \<open>A string that is not replaced keeps the mark \<open>freestr\<close> of the union; if that is set, the string of the caller would be freed.\<close>

definition gen_magic :: "'f maker" where
  "gen_magic env s player flags r =
     Option.bind (magic_loop s (rec_val r) [] False) (\<lambda>(b, usedup).
       if usedup then Some (r\<lparr>rec_memo := Memo_str b True\<rparr>)
       else if memo_freestr (rec_memo r) then None
       else Some (r\<lparr>rec_memo := Memo_str (rec_val r) False\<rparr>))"

definition parse_objid :: "mush \<Rightarrow> string \<Rightarrow> dbref option" where
  "parse_objid s t = real_parse_objid s t False"

definition gen_dbref :: "'f maker" where
  "gen_dbref env s player flags r =
     (let val = without_markup (rec_val r) in
      Option.bind (if se_database_loaded env then parse_objid s val else Some (qparse_dbref (Some val)))
        (\<lambda>d. Some (r\<lparr>rec_memo := Memo_num d\<rparr>)))"

definition gen_num :: "'f maker" where
  "gen_num env s player flags r = Some (r\<lparr>rec_memo := Memo_num (parse_integer (without_markup (rec_val r)))\<rparr>)"

definition gen_float :: "'f maker" where
  "gen_float env s player flags r = Some (r\<lparr>rec_memo := Memo_numval (fst (se_strtod env (without_markup (rec_val r))))\<rparr>)"

definition gen_db_name :: "'f maker" where
  "gen_db_name env s player flags r =
     Some (r\<lparr>rec_memo := Memo_str (if RealGoodObject s (rec_db r) then Name s (rec_db r) else []) False\<rparr>)"

definition gen_db_idle :: "'f maker" where
  "gen_db_idle env s player flags r =
     Some (r\<lparr>rec_memo := Memo_num
       (if RealGoodObject s (rec_db r) then
          if se_priv_who env player then se_least_idle_time_priv env (rec_db r) else se_least_idle_time env (rec_db r)
        else - 1)\<rparr>)"

definition gen_db_conn :: "'f maker" where
  "gen_db_conn env s player flags r =
     Some (r\<lparr>rec_memo := Memo_num
       (if RealGoodObject s (rec_db r) then
          if se_priv_who env player then se_most_conn_time_priv env (rec_db r) else se_most_conn_time env (rec_db r)
        else - 1)\<rparr>)"

definition gen_db_ctime :: "'f maker" where
  "gen_db_ctime env s player flags r =
     Some (if RealGoodObject s (rec_db r) then r\<lparr>rec_memo := Memo_tm (sint (CreTime s (rec_db r)))\<rparr> else r)"

definition gen_db_mtime :: "'f maker" where
  "gen_db_mtime env s player flags r =
     Some (if RealGoodObject s (rec_db r) then r\<lparr>rec_memo := Memo_tm (obj_mtime (obj s (rec_db r)))\<rparr> else r)"

definition gen_db_owner :: "'f maker" where
  "gen_db_owner env s player flags r =
     Some (if RealGoodObject s (rec_db r) then r\<lparr>rec_memo := Memo_num (Owner s (rec_db r))\<rparr> else r)"

definition gen_db_loc :: "'f maker" where
  "gen_db_loc env s player flags r =
     Some (r\<lparr>rec_memo := Memo_num
       (if RealGoodObject s (rec_db r) \<and> se_can_locate env player (rec_db r) then Location s (rec_db r) else - 1)\<rparr>)"

definition gen_db_attr :: "'f maker" where
  "gen_db_attr env s player sortflags r =
     Some (r\<lparr>rec_memo :=
       (case sortflags of
          None \<Rightarrow> Memo_str [] False
        | Some attr \<Rightarrow>
            if RealGoodObject s (rec_db r) \<and> attr \<noteq> [] then
              (case se_get_attrib env player (rec_db r) attr of None \<Rightarrow> Memo_str [] False | Some t \<Rightarrow> Memo_str t True)
            else Memo_str [] False)\<rparr>)"

section \<open>Comparing records\<close>

text \<open>
  The macros \<open>Compare\<close>, \<open>CompareF\<close>, \<open>Compare2\<close> and \<open>Compare2F\<close>: \<open>differ\<close> says whether the keys are different, and \<open>below\<close>
  whether the first is less.  The readers of the union give the zero memory of \<open>mush_calloc\<close> where nothing was stored.
\<close>

definition Compare :: "bool \<Rightarrow> bool \<Rightarrow> 'f s_rec \<Rightarrow> 'f s_rec \<Rightarrow> int" where
  "Compare differ below x y =
     (if sint (rec_db x) < 0 \<or> sint (rec_db y) < 0 then
        if sint (rec_db x) < 0 \<and> sint (rec_db y) < 0 then 0 else if sint (rec_db x) < 0 then 2 else - 2
      else if differ then if below then - 2 else 2
      else if rec_db x = rec_db y then 0
      else if sint (rec_db x) < sint (rec_db y) then - 1 else 1)"

definition memo_str :: "'f memo \<Rightarrow> string" where
  "memo_str m = (case m of Memo_str s f \<Rightarrow> s | _ \<Rightarrow> [])"

definition memo_num :: "'f memo \<Rightarrow> int" where
  "memo_num m = (case m of Memo_num n \<Rightarrow> sint n | _ \<Rightarrow> 0)"

definition memo_tm :: "'f memo \<Rightarrow> int" where
  "memo_tm m = (case m of Memo_tm t \<Rightarrow> t | _ \<Rightarrow> 0)"

definition s_comp :: "'f rec_comp" where
  "s_comp env order x y =
     (let res = se_strcoll env (memo_str (rec_memo x)) (memo_str (rec_memo y))
      in Compare (res \<noteq> 0) (res < 0) x y * order)"

text \<open>The second key of \<open>m_comp\<close>: the text without markup, through \<open>strupper_r\<close> into a buffer.\<close>

definition magic_text :: "string \<Rightarrow> string" where
  "magic_text v = map UPCASE (take (BUFFER_LEN - 1) (if has_markup v then without_markup v else v))"

definition m_comp :: "'f rec_comp" where
  "m_comp env order x y =
     (let res = se_strcoll env (memo_str (rec_memo x)) (memo_str (rec_memo y));
          ret = Compare (res \<noteq> 0) (res < 0) x y;
          res2 = se_strcoll env (magic_text (rec_val x)) (magic_text (rec_val y))
      in (if ret = 0 then Compare (res2 \<noteq> 0) (res2 < 0) x y else ret) * order)"

text \<open>The part of an attribute name up to the next backquote, and what is behind it.\<close>

definition branch :: "string \<Rightarrow> string \<times> string option" where
  "branch a =
     (takeWhile (\<lambda>c. c \<noteq> CHR ''`'') a,
      if CHR ''`'' \<in> set a then Some (tl (dropWhile (\<lambda>c. c \<noteq> CHR ''`'') a)) else None)"

lemma branch_shorter: "snd (branch a) = Some r \<Longrightarrow> length r < length a"
  using dropWhile_tl_shorter [of "\<lambda>c. c \<noteq> CHR ''`''" a] by (auto simp: branch_def dropWhile_eq_Nil_conv split: if_splits)

function branches_loop :: "(string \<Rightarrow> string \<Rightarrow> int) \<Rightarrow> string \<Rightarrow> string \<Rightarrow> nat \<Rightarrow> nat \<Rightarrow> int" where
  "branches_loop strcoll a1 a2 branches1 branches2 =
     (let branches1 = (if snd (branch a1) \<noteq> None then branches1 + 1 else branches1);
          branches2 = (if snd (branch a2) \<noteq> None then branches2 + 1 else branches2);
          cmp = strcoll (fst (branch a1)) (fst (branch a2))
      in if cmp \<noteq> 0 then if cmp < 0 then - 1 else 1
         else if branches1 \<noteq> branches2 then if branches1 < branches2 then - 1 else 1
         else case (snd (branch a1), snd (branch a2)) of
             (Some next1, Some next2) \<Rightarrow> branches_loop strcoll next1 next2 branches1 branches2
           | _ \<Rightarrow> 0)"
  by pat_completeness auto
termination
  by (relation "measure (\<lambda>(f, a1, a2, n, m). length a1)") (auto dest!: sym [of "Some _"] branch_shorter)

declare branches_loop.simps [simp del]

definition compare_attr_names :: "(string \<Rightarrow> string \<Rightarrow> int) \<Rightarrow> string \<Rightarrow> string \<Rightarrow> int" where
  "compare_attr_names strcoll attr1 attr2 = branches_loop strcoll attr1 attr2 1 1"

definition attr_comp :: "'f rec_comp" where
  "attr_comp env order x y = compare_attr_names (se_strcoll env) (memo_str (rec_memo x)) (memo_str (rec_memo y)) * order"

definition i_comp :: "'f rec_comp" where
  "i_comp env order x y =
     Compare (memo_num (rec_memo x) \<noteq> memo_num (rec_memo y)) (memo_num (rec_memo x) < memo_num (rec_memo y)) x y * order"

definition tm_comp :: "'f rec_comp" where
  "tm_comp env order x y =
     (let r = memo_tm (rec_memo x) - memo_tm (rec_memo y) in Compare (r \<noteq> 0) (r < 0) x y * order)"

text \<open>Two floating point numbers differ when they are more than \<open>EPSILON\<close> apart.\<close>

definition f_comp :: "'f rec_comp" where
  "f_comp env order x y =
     (case (rec_memo x, rec_memo y) of
        (Memo_numval f1, Memo_numval f2) \<Rightarrow> Compare (se_differ env f1 f2) (se_below env f1 f2) x y * order
      | _ \<Rightarrow> Compare False False x y * order)"

section \<open>The table of list types\<close>

definition IS_DB :: "32 word" where "IS_DB = 1"
definition IS_STRING :: "32 word" where "IS_STRING = 2"
definition IS_CASE_INSENS :: "32 word" where "IS_CASE_INSENS = 4"

record 'f list_type_info =
  lt_name :: "string option"
  lt_attrname :: "string option"
  lt_sort_order :: int
  lt_make_record :: "'f maker"
  lt_sorter :: "'f rec_comp"
  lt_flags :: "32 word"

abbreviation list_type :: "string option \<Rightarrow> 'f maker \<Rightarrow> 'f rec_comp \<Rightarrow> 32 word \<Rightarrow> 'f list_type_info" where
  "list_type name maker sorter flags \<equiv>
     \<lparr>lt_name = name, lt_attrname = None, lt_sort_order = 0, lt_make_record = maker, lt_sorter = sorter, lt_flags = flags\<rparr>"

definition ltypelist :: "'f list_type_info list" where
  "ltypelist =
     [list_type (Some ''A'') gen_alphanum s_comp IS_STRING,
      list_type (Some ''I'') gen_alphanum s_comp (IS_STRING OR IS_CASE_INSENS),
      list_type (Some ''D'') gen_dbref i_comp 0,
      list_type (Some ''N'') gen_num i_comp 0,
      list_type (Some ''F'') gen_float f_comp 0,
      list_type (Some ''M'') gen_magic m_comp (IS_STRING OR IS_CASE_INSENS),
      list_type (Some ''NAME'') gen_db_name s_comp (IS_DB OR IS_STRING),
      list_type (Some ''NAMEI'') gen_db_name s_comp (IS_DB OR IS_STRING OR IS_CASE_INSENS),
      list_type (Some ''IDLE'') gen_db_idle i_comp IS_DB,
      list_type (Some ''CONN'') gen_db_conn i_comp IS_DB,
      list_type (Some ''CTIME'') gen_db_ctime tm_comp IS_DB,
      list_type (Some ''MTIME'') gen_db_ctime tm_comp IS_DB,
      list_type (Some ''OWNER'') gen_db_owner i_comp IS_DB,
      list_type (Some ''LOC'') gen_db_loc i_comp IS_DB,
      list_type (Some ''ATTR'') gen_db_attr s_comp (IS_DB OR IS_STRING),
      list_type (Some ''ATTRI'') gen_db_attr s_comp (IS_DB OR IS_STRING OR IS_CASE_INSENS),
      list_type (Some ''LATTR'') gen_alphanum attr_comp IS_STRING,
      list_type None gen_alphanum s_comp IS_STRING]"

text \<open>The loops over the table stop at the entry whose name \<open>is_it\<close> accepts, or at the last one, which has no name.\<close>

fun find_list_type :: "(string \<Rightarrow> bool) \<Rightarrow> 'f list_type_info list \<Rightarrow> 'f list_type_info option" where
  "find_list_type is_it [] = None"
| "find_list_type is_it (t # ts) =
     (case lt_name t of None \<Rightarrow> Some t | Some name \<Rightarrow> if is_it name then Some t else find_list_type is_it ts)"

text \<open>
  The text before a colon, or all of it, selects the entry, and what is behind the colon is the name of an attribute.
  \<open>get_list_type_info\<close> reads its argument before it tests for \<open>NULL\<close>.
\<close>

definition select_list_type :: "string \<Rightarrow> ('f list_type_info \<times> string option) option" where
  "select_list_type sort_type =
     (if CHR '':'' \<in> set sort_type then
        let len = length (takeWhile (\<lambda>c. c \<noteq> CHR '':'') sort_type);
            ptr = drop (len + 1) sort_type
        in map_option (\<lambda>t. (t, if ptr = [] then None else Some ptr))
             (find_list_type (\<lambda>name. strncasecmp name sort_type len = 0) ltypelist)
      else map_option (\<lambda>t. (t, None)) (find_list_type (\<lambda>name. strcasecmp name sort_type = 0) ltypelist))"

definition get_list_type_info :: "string option \<Rightarrow> 'f list_type_info option" where
  "get_list_type_info sort_type =
     Option.bind sort_type (\<lambda>t.
       let (order, t) = (if c_head t = CHR ''-'' then (DESCENDING, tl t) else (ASCENDING, t)) in
       map_option (\<lambda>(lti, ptr). lti\<lparr>lt_attrname := ptr, lt_sort_order := order\<rparr>) (select_list_type t))"

section \<open>Sorting\<close>

text \<open>\<open>None\<close> for a maker that fails; the union is changed only when it holds a string.\<close>

definition genrecord :: "'f sort_env \<Rightarrow> mush \<Rightarrow> dbref \<Rightarrow> 'f list_type_info \<Rightarrow> 'f s_rec \<Rightarrow> 'f s_rec option" where
  "genrecord env s player lti r =
     map_option
       (\<lambda>r. if lt_flags lti AND IS_CASE_INSENS \<noteq> 0
            then (case rec_memo r of Memo_str t f \<Rightarrow> r\<lparr>rec_memo := Memo_str (map UPCASE t) True\<rparr> | _ \<Rightarrow> r)
            else r)
       (lt_make_record lti env s player (lt_attrname lti) r)"

text \<open>The object a key names; garbage and what is no reference is \<open>NOTHING\<close>.\<close>

definition key_object :: "mush \<Rightarrow> string \<Rightarrow> dbref option" where
  "key_object s key = map_option (\<lambda>d. if RealGoodObject s d then d else NOTHING) (parse_objid s key)"

definition build_record :: "'f sort_env \<Rightarrow> mush \<Rightarrow> dbref \<Rightarrow> 'f list_type_info \<Rightarrow> string \<times> string option \<Rightarrow> 'f s_rec option" where
  "build_record env s player lti key =
     Option.bind (if lt_flags lti AND IS_DB \<noteq> 0 then key_object s (fst key) else Some 0)
       (\<lambda>d. genrecord env s player lti \<lparr>rec_ptr = snd key, rec_val = fst key, rec_db = d, rec_memo = Memo_zero\<rparr>)"

fun build_records :: "'f sort_env \<Rightarrow> mush \<Rightarrow> dbref \<Rightarrow> 'f list_type_info \<Rightarrow> (string \<times> string option) list \<Rightarrow> 'f s_rec list option" where
  "build_records env s player lti [] = Some []"
| "build_records env s player lti (k # ks) =
     Option.bind (build_record env s player lti k) (\<lambda>r. map_option (\<lambda>rs. r # rs) (build_records env s player lti ks))"

text \<open>
  The array of keys, with the array of strings if there is one.  The new value of \<open>sort_order\<close> comes with the records.
\<close>

definition slist_build :: "'f sort_env \<Rightarrow> mush \<Rightarrow> dbref \<Rightarrow> string list \<Rightarrow> string list option \<Rightarrow> 'f list_type_info \<Rightarrow> ('f s_rec list \<times> int) option" where
  "slist_build env s player keys strs lti =
     map_option (\<lambda>rs. (rs, lt_sort_order lti))
       (build_records env s player lti
          (zip keys (case strs of None \<Rightarrow> replicate (length keys) None | Some ts \<Rightarrow> map Some ts)))"

text \<open>The \<open>qsort\<close> of the C library takes the comparison function.\<close>

type_synonym 'f c_qsort = "('f s_rec \<Rightarrow> 'f s_rec \<Rightarrow> int) \<Rightarrow> 'f s_rec list \<Rightarrow> 'f s_rec list"

definition slist_qsort :: "'f c_qsort \<Rightarrow> 'f sort_env \<Rightarrow> int \<Rightarrow> 'f list_type_info \<Rightarrow> 'f s_rec list \<Rightarrow> 'f s_rec list" where
  "slist_qsort qsort env order lti sp = qsort (lt_sorter lti env order) sp"

text \<open>The loop of \<open>slist_uniq\<close>: \<open>kept\<close> is the part of the array below \<open>count\<close>, which ends with the last record kept.\<close>

fun uniq_loop :: "('a \<Rightarrow> 'a \<Rightarrow> int) \<Rightarrow> 'a list \<Rightarrow> 'a list \<Rightarrow> 'a list" where
  "uniq_loop cmp kept [] = kept"
| "uniq_loop cmp kept (r # rs) = (if cmp (last kept) r \<noteq> 0 then uniq_loop cmp (kept @ [r]) rs else uniq_loop cmp kept rs)"

definition slist_uniq :: "'f sort_env \<Rightarrow> int \<Rightarrow> 'f list_type_info \<Rightarrow> 'f s_rec list \<Rightarrow> 'f s_rec list" where
  "slist_uniq env order lti sp = (if length sp < 2 then sp else uniq_loop (lt_sorter lti env order) [hd sp] (tl sp))"

definition slist_comp :: "'f sort_env \<Rightarrow> int \<Rightarrow> 'f list_type_info \<Rightarrow> 'f s_rec \<Rightarrow> 'f s_rec \<Rightarrow> int" where
  "slist_comp env order lti x y = lt_sorter lti env order x y"

text \<open>The new arrays \<open>keys\<close> and \<open>strs\<close>.\<close>

definition do_gensort :: "'f c_qsort \<Rightarrow> 'f sort_env \<Rightarrow> mush \<Rightarrow> dbref \<Rightarrow> string list \<Rightarrow> string list option \<Rightarrow> string option \<Rightarrow> (string list \<times> string list option) option" where
  "do_gensort qsort env s player keys strs sort_type =
     Option.bind (get_list_type_info sort_type) (\<lambda>lti.
     Option.bind (slist_build env s player keys strs lti) (\<lambda>(sp, order).
       let sp = slist_qsort qsort env order lti sp
       in Some (map rec_val sp, map_option (\<lambda>_. map (\<lambda>r. the (rec_ptr r)) sp) strs)))"

text \<open>
  The records of \<open>gencomp\<close> are not cleared: \<open>junk\<close> is what the union holds.  The entry for the flags is looked up with the
  minus sign of a descending order, which no name has.
\<close>

definition gencomp :: "'f sort_env \<Rightarrow> mush \<Rightarrow> int \<Rightarrow> 'f memo \<times> 'f memo \<Rightarrow> dbref \<Rightarrow> string \<Rightarrow> string \<Rightarrow> string option \<Rightarrow> int option" where
  "gencomp env s order junk player a b sort_type =
     Option.bind (get_list_type_info sort_type) (\<lambda>lti.
     Option.bind (case sort_type of None \<Rightarrow> None | Some t \<Rightarrow> map_option fst (select_list_type t)) (\<lambda>entry :: 'f list_type_info.
     Option.bind (if lt_flags entry AND IS_DB \<noteq> 0 then key_object s a else Some 0) (\<lambda>db1.
     Option.bind (if lt_flags entry AND IS_DB \<noteq> 0 then key_object s b else Some 0) (\<lambda>db2.
     Option.bind (genrecord env s player lti \<lparr>rec_ptr = None, rec_val = a, rec_db = db1, rec_memo = fst junk\<rparr>) (\<lambda>r1.
     Option.bind (genrecord env s player lti \<lparr>rec_ptr = None, rec_val = b, rec_db = db2, rec_memo = snd junk\<rparr>) (\<lambda>r2.
       Some (lt_sorter lti env order r1 r2)))))))"

section \<open>Guessing the type of a list\<close>

datatype ltype = L_NUMERIC | L_FLOAT | L_ALPHANUM | L_DBREF

text \<open>The loop of \<open>autodetect_list\<close>; \<open>first\<close> says that \<open>i\<close> is 0.\<close>

fun autodetect_loop :: "(string \<Rightarrow> 'f \<times> string \<times> bool) \<Rightarrow> bool \<Rightarrow> ltype \<Rightarrow> string \<Rightarrow> string list \<Rightarrow> string" where
  "autodetect_loop strtod first lt sort_type [] = sort_type"
| "autodetect_loop strtod first lt sort_type (p # ps) =
     (if lt = L_NUMERIC \<and> is_strict_integer (Some p) then autodetect_loop strtod False lt sort_type ps
      else if lt \<in> {L_NUMERIC, L_FLOAT} \<and> is_strict_number strtod (Some p) then autodetect_loop strtod False L_FLOAT ''F'' ps
      else if lt \<in> {L_NUMERIC, L_FLOAT, L_DBREF} \<and> is_objid (Some p) \<and> (first \<or> lt = L_DBREF)
      then autodetect_loop strtod False L_DBREF ''D'' ps
      else ''M'')"

definition autodetect_list :: "(string \<Rightarrow> 'f \<times> string \<times> bool) \<Rightarrow> string list \<Rightarrow> string" where
  "autodetect_list strtod ptrs = autodetect_loop strtod True L_NUMERIC ''N'' ptrs"

definition autodetect_2lists :: "(string \<Rightarrow> 'f \<times> string \<times> bool) \<Rightarrow> string list \<Rightarrow> string list \<Rightarrow> string" where
  "autodetect_2lists strtod ptrs ptrs2 =
     (let a = autodetect_list strtod ptrs; b = autodetect_list strtod ptrs2 in
      if a = b then a
      else if (a = ''N'' \<or> a = ''F'') \<and> (b = ''N'' \<or> b = ''F'') then ''F''
      else ''M'')"

text \<open>The sort type a function was given as its argument \<open>type_pos\<close>, counted from 1, with the new \<open>sort_order\<close>.\<close>

definition get_list_type :: "(string \<Rightarrow> 'f \<times> string \<times> bool) \<Rightarrow> string list \<Rightarrow> nat \<Rightarrow> string list \<Rightarrow> string \<times> int" where
  "get_list_type strtod args type_pos ptrs =
     (if type_pos \<le> length args \<and> args ! (type_pos - 1) \<noteq> []
      then (args ! (type_pos - 1), if c_head (args ! (type_pos - 1)) = CHR ''-'' then DESCENDING else ASCENDING)
      else (autodetect_list strtod ptrs, ASCENDING))"

definition get_list_type_noauto :: "string list \<Rightarrow> nat \<Rightarrow> string option \<times> int" where
  "get_list_type_noauto args type_pos =
     (if type_pos \<le> length args \<and> args ! (type_pos - 1) \<noteq> []
      then (Some (args ! (type_pos - 1)), if c_head (args ! (type_pos - 1)) = CHR ''-'' then DESCENDING else ASCENDING)
      else (None, ASCENDING))"

section \<open>Set functions\<close>

text \<open>
  \<open>fun_setmanip\<close> of \<open>funlist.c\<close>, behind \<open>setunion()\<close>, \<open>setinter()\<close>, \<open>setdiff()\<close> and \<open>setsymdiff()\<close>: what is written of the
  elements only in the first list, only in the second, and in both.
\<close>

definition contains :: "string \<Rightarrow> string \<Rightarrow> bool" where
  "contains called_as t \<longleftrightarrow> list_ex (prefix t) (suffixes called_as)"

definition setmanip_wants :: "string \<Rightarrow> bool \<times> bool \<times> bool" where
  "setmanip_wants called_as =
     (if contains called_as ''SYMDIFF'' then (True, True, False)
      else if contains called_as ''DIFF'' then (True, False, False)
      else if contains called_as ''INTER'' then (False, False, True)
      else (True, True, True))"

text \<open>The type of the sort and the output separator, from the arguments; \<open>sep\<close> is the input separator.\<close>

definition setmanip_args :: "(string \<Rightarrow> 'f \<times> string \<times> bool) \<Rightarrow> string list \<Rightarrow> char \<Rightarrow> string list \<Rightarrow> string list \<Rightarrow> string \<times> string" where
  "setmanip_args strtod args sep a1 a2 =
     (let osepd = (if sep = NUL then [] else [sep]);
          auto = autodetect_2lists strtod a1 a2
      in if length args < 4 then (auto, osepd)
         else if length args = 4 then
           (case fst (get_list_type_noauto args 4) of None \<Rightarrow> (auto, args ! 3) | Some t \<Rightarrow> (t, osepd))
         else if length args = 5 then
           (case fst (get_list_type_noauto args 4) of None \<Rightarrow> (auto, args ! 4) | Some t \<Rightarrow> (t, args ! 4))
         else (auto, []))"

text \<open>The loops that walk the two sorted arrays.\<close>

fun setmanip_merge :: "('a \<Rightarrow> 'a \<Rightarrow> int) \<Rightarrow> bool \<times> bool \<times> bool \<Rightarrow> 'a list \<Rightarrow> 'a list \<Rightarrow> 'a list" where
  "setmanip_merge cmp (dolt, dogt, doeq) (x # xs) (y # ys) =
     (let val = cmp x y in
      if val < 0 then (if dolt then [x] else []) @ setmanip_merge cmp (dolt, dogt, doeq) xs (y # ys)
      else if 0 < val then (if dogt then [y] else []) @ setmanip_merge cmp (dolt, dogt, doeq) (x # xs) ys
      else (if doeq then [x] else []) @ setmanip_merge cmp (dolt, dogt, doeq) xs ys)"
| "setmanip_merge cmp (dolt, dogt, doeq) xs [] = (if dolt then xs else [])"
| "setmanip_merge cmp (dolt, dogt, doeq) [] ys = (if dogt then ys else [])"

text \<open>The macro \<open>OUTSEP\<close> and the value, for each record.\<close>

fun out_values :: "string \<Rightarrow> bool \<Rightarrow> string list \<Rightarrow> buf \<Rightarrow> buf" where
  "out_values osep found [] buff = buff"
| "out_values osep found (v # vs) buff =
     out_values osep True vs (snd (safe_str (Some v) (if found then snd (safe_strl (Some osep) (length osep) buff) else buff)))"

definition sorted_unique :: "'f c_qsort \<Rightarrow> 'f sort_env \<Rightarrow> mush \<Rightarrow> dbref \<Rightarrow> 'f list_type_info \<Rightarrow> string list \<Rightarrow> 'f s_rec list option" where
  "sorted_unique qsort env s player lti a =
     map_option (\<lambda>(sp, order). slist_uniq env order lti (slist_qsort qsort env order lti sp)) (slist_build env s player a None lti)"

definition setmanip_records :: "'f c_qsort \<Rightarrow> 'f sort_env \<Rightarrow> mush \<Rightarrow> dbref \<Rightarrow> bool \<times> bool \<times> bool \<Rightarrow> string \<Rightarrow> string list \<Rightarrow> string list \<Rightarrow> 'f s_rec list option" where
  "setmanip_records qsort env s executor wants sort_type a1 a2 =
     Option.bind (get_list_type_info (Some sort_type)) (\<lambda>lti.
     Option.bind (sorted_unique qsort env s executor lti a1) (\<lambda>sp1.
     Option.bind (sorted_unique qsort env s executor lti a2) (\<lambda>sp2.
       Some (setmanip_merge (slist_comp env (lt_sort_order lti) lti) wants sp1 sp2))))"

text \<open>
  The function; \<open>delim_check\<close> gives the input separator, or has written an error, and \<open>list2arr_ansi\<close> splits a list.
\<close>

definition fun_setmanip :: "'f c_qsort \<Rightarrow> 'f sort_env \<Rightarrow> (string \<Rightarrow> char \<Rightarrow> string list) \<Rightarrow> (buf \<Rightarrow> buf \<times> char option) \<Rightarrow> mush \<Rightarrow> dbref \<Rightarrow> string \<Rightarrow> string list \<Rightarrow> buf \<Rightarrow> buf option" where
  "fun_setmanip qsort env list2arr_ansi delim_check s executor called_as args buff =
     (if args ! 0 = [] \<and> args ! 1 = [] then Some buff
      else case delim_check buff of
        (buff, None) \<Rightarrow> Some buff
      | (buff, Some sep) \<Rightarrow>
          let a1 = list2arr_ansi (args ! 0) sep; a2 = list2arr_ansi (args ! 1) sep;
              (sort_type, osep) = setmanip_args (se_strtod env) args sep a1 a2
          in map_option (\<lambda>rs. out_values osep False (map rec_val rs) buff)
               (setmanip_records qsort env s executor (setmanip_wants called_as) sort_type a1 a2))"

text \<open>\<open>sort()\<close>.\<close>

definition arr2list :: "string list \<Rightarrow> string \<Rightarrow> buf \<Rightarrow> buf" where
  "arr2list r sep list = out_values sep False r list"

definition fun_sort :: "'f c_qsort \<Rightarrow> 'f sort_env \<Rightarrow> (string \<Rightarrow> char \<Rightarrow> string list) \<Rightarrow> (buf \<Rightarrow> buf \<times> char option) \<Rightarrow> mush \<Rightarrow> dbref \<Rightarrow> string list \<Rightarrow> buf \<Rightarrow> buf option" where
  "fun_sort qsort env list2arr_ansi delim_check s executor args buff =
     (if args = [] \<or> args ! 0 = [] then Some buff
      else case delim_check buff of
        (buff, None) \<Rightarrow> Some buff
      | (buff, Some sep) \<Rightarrow>
          let osep = (if length args < 4 then if sep = NUL then [] else [sep] else args ! 3);
              ptrs = list2arr_ansi (args ! 0) sep;
              sort_type = fst (get_list_type (se_strtod env) args 2 ptrs)
          in map_option (\<lambda>(ptrs, _). arr2list ptrs osep buff) (do_gensort qsort env s executor ptrs None (Some sort_type)))"

text \<open>\<open>fun_unique\<close> drops the repetitions in a row, without sorting.\<close>

definition fun_unique :: "'f sort_env \<Rightarrow> (string \<Rightarrow> char \<Rightarrow> string list) \<Rightarrow> (buf \<Rightarrow> buf \<times> char option) \<Rightarrow> mush \<Rightarrow> dbref \<Rightarrow> string list \<Rightarrow> buf \<Rightarrow> buf option" where
  "fun_unique env list2arr_ansi delim_check s executor args buff =
     (if args ! 0 = [] then Some buff
      else case delim_check buff of
        (buff, None) \<Rightarrow> Some buff
      | (buff, Some sep) \<Rightarrow>
          let ary = list2arr_ansi (args ! 0) sep;
              sort_type = (if 2 \<le> length args then fst (get_list_type (se_strtod env) args 2 ary) else ''A'');
              osep = (if length args < 4 then if sep = NUL then [] else [sep] else if length args = 4 then args ! 3 else [])
          in Option.bind (get_list_type_info (Some sort_type)) (\<lambda>lti.
             map_option (\<lambda>(sp, order). out_values osep False (map rec_val (slist_uniq env order lti sp)) buff)
               (slist_build env s executor ary None lti)))"

end
