(* ===== verification/Mush_Sort_Correct.thy ===== *)
theory Mush_Sort_Correct
  imports Mush_Sort "HOL-Library.Multiset"
begin

text \<open>
  What sorting computes: the quicksort of \<open>sortby()\<close> permutes whatever the comparison does, and sorts when it is an order;
  the comparisons of the list types are consistent (\<open>comparison\<close>), so that every sort (\<open>sorting\<close>) orders the records;
  the set functions return the set operations on sorted lists.
\<close>

section \<open>What the partition does\<close>

text \<open>A change of the elements from \<open>l\<close> to \<open>r\<close> that permutes them.\<close>

definition permutes_within :: "int \<Rightarrow> int \<Rightarrow> 'a list \<Rightarrow> 'a list \<Rightarrow> bool" where
  "permutes_within l r xs ys \<longleftrightarrow>
     mset ys = mset xs \<and> (\<forall>k < length xs. int k < l \<or> r < int k \<longrightarrow> ys ! k = xs ! k)"

lemma permutes_within_length: "permutes_within l r xs ys \<Longrightarrow> length ys = length xs"
  unfolding permutes_within_def by (metis size_mset)

lemma permutes_within_simps: "permutes_within l r xs xs"
  "permutes_within l r xs ys \<Longrightarrow> permutes_within l r ys zs \<Longrightarrow> permutes_within l r xs zs"
  "permutes_within l' r' xs ys \<Longrightarrow> l \<le> l' \<Longrightarrow> r' \<le> r \<Longrightarrow> permutes_within l r xs ys"
proof -
  show "permutes_within l r xs ys \<Longrightarrow> permutes_within l r ys zs \<Longrightarrow> permutes_within l r xs zs"
    using permutes_within_length [of l r xs ys] by (simp add: permutes_within_def)
qed (auto simp: permutes_within_def)

lemma array_swap_ok:
  assumes "l \<le> i" "i \<le> r" "l \<le> j" "j \<le> r" "0 \<le> l" "r < int (length xs)"
  shows "\<exists>ys. array_swap xs i j = Some ys \<and> permutes_within l r xs ys
    \<and> (\<forall>k < length xs. ys ! k = (if int k = i then xs ! nat j else if int k = j then xs ! nat i else xs ! k))"
proof -
  have ij: "nat i < length xs" "nat j < length xs" "0 \<le> i" "0 \<le> j" "i < int (length xs)" "j < int (length xs)" using assms by auto
  let ?ys = "xs[nat i := xs ! nat j, nat j := xs ! nat i]"
  have s: "array_swap xs i j = Some ?ys" using ij by (simp add: array_swap_def array_get_def)
  have "mset ?ys = mset xs" using mset_swap [OF ij(2,1)] .
  moreover have at: "?ys ! k = (if int k = i then xs ! nat j else if int k = j then xs ! nat i else xs ! k)" if "k < length xs" for k
    using that ij by (auto simp: nth_list_update)
  moreover have "?ys ! k = xs ! k" if "k < length xs" "int k < l \<or> r < int k" for k using at [OF that(1)] that(2) assms by auto
  ultimately show ?thesis using s by (auto simp: permutes_within_def)
qed

text \<open>The elements from \<open>l\<close> to \<open>r\<close> stay the same ones.\<close>

lemma permutes_within_set:
  assumes "permutes_within l r xs ys" "0 \<le> l" "r < int (length xs)"
  shows "{ys ! k |k. l \<le> int k \<and> int k \<le> r} = {xs ! k |k. l \<le> int k \<and> int k \<le> r}"
proof (cases "l \<le> r")
  case False
  then show ?thesis by auto
next
  case True
  define a b where "a = nat l" and "b = nat r + 1 - nat l"
  have len: "length ys = length xs" by (rule permutes_within_length [OF assms(1)])
  have split: "zs = take a zs @ take b (drop a zs) @ drop (a + b) zs" for zs :: "'a list"
    by (metis append_take_drop_id drop_drop add.commute)
  have ab: "a + b = nat r + 1" using True assms(2) by (auto simp: a_def b_def)
  have "take a ys = take a xs"
    using assms by (intro nth_equalityI) (auto simp: len a_def permutes_within_def)
  moreover have "drop (a + b) ys = drop (a + b) xs"
    using assms True ab by (intro nth_equalityI) (auto simp: len permutes_within_def)
  moreover have "mset ys = mset xs" using assms(1) by (simp add: permutes_within_def)
  ultimately have "mset (take b (drop a ys)) = mset (take b (drop a xs))"
    using split [of xs] split [of ys] by (metis add_left_cancel add_right_cancel mset_append)
  then have "set (take b (drop a ys)) = set (take b (drop a xs))" by (rule mset_eq_setD)
  have "set (take b (drop a zs)) = {zs ! k |k. l \<le> int k \<and> int k \<le> r}" if "length zs = length xs" for zs :: "'a list"
  proof -
    have "b \<le> length (drop a zs)" "a \<le> length zs" using that assms(2,3) True by (auto simp: a_def b_def)
    then have "set (take b (drop a zs)) = {zs ! (a + k) |k. k < b}"
      by (subst nth_image [symmetric]) (auto simp: image_iff)
    also have "\<dots> = {zs ! k |k. l \<le> int k \<and> int k \<le> r}"
    proof -
      have "\<exists>j. k = a + j \<and> j < b" if "l \<le> int k" "int k \<le> r" for k
        using that assms(2) by (intro exI [of _ "k - a"]) (auto simp: a_def b_def)
      moreover have "l \<le> int (a + k) \<and> int (a + k) \<le> r" if "k < b" for k using that True assms(2) by (auto simp: a_def b_def)
      ultimately show ?thesis by blast
    qed
    finally show ?thesis .
  qed
  from this [OF len] this [OF refl] show ?thesis using \<open>set (take b (drop a ys)) = set (take b (drop a xs))\<close> by simp
qed

text \<open>A comparison that always finds what the relation \<open>lt\<close> says.\<close>

definition decides :: "('a, 's) comp_func \<Rightarrow> ('a \<Rightarrow> 'a \<Rightarrow> bool) \<Rightarrow> bool" where
  "decides compare lt \<longleftrightarrow> (\<forall>s x y. fst (compare s x y) < 0 \<longleftrightarrow> lt x y)"

definition parted :: "('a \<Rightarrow> 'a \<Rightarrow> bool) \<Rightarrow> 'a list \<Rightarrow> int \<Rightarrow> int \<Rightarrow> int \<Rightarrow> bool" where
  "parted lt xs lo lst i \<longleftrightarrow>
     (\<forall>k < length xs. (lo < int k \<and> int k \<le> lst \<longrightarrow> lt (xs ! k) (xs ! nat lo)) \<and> (lst < int k \<and> int k < i \<longrightarrow> \<not> lt (xs ! k) (xs ! nat lo)))"

lemma parted_step:
  assumes "parted lt xs lo lst i" "lo \<le> lst" "lst < i" "0 \<le> lo" "i < int (length xs)"
  shows "\<not> lt (xs ! nat i) (xs ! nat lo) \<Longrightarrow> parted lt xs lo lst (i + 1)"
    and "lt (xs ! nat i) (xs ! nat lo) \<Longrightarrow> lst + 1 = i \<Longrightarrow> parted lt xs lo (lst + 1) (i + 1)"
    and "lt (xs ! nat i) (xs ! nat lo) \<Longrightarrow> length ys = length xs \<Longrightarrow>
       (\<forall>k < length xs. ys ! k = (if int k = lst + 1 then xs ! nat i else if int k = i then xs ! nat (lst + 1) else xs ! k)) \<Longrightarrow>
       parted lt ys lo (lst + 1) (i + 1)"
proof -
  have eq: "k = nat i" if "int k = i" for k using that by simp
  show "\<not> lt (xs ! nat i) (xs ! nat lo) \<Longrightarrow> parted lt xs lo lst (i + 1)"
    using assms eq unfolding parted_def by (metis less_add_one order.strict_iff_order zle_add1_eq_le zless_add1_eq)
  show "lt (xs ! nat i) (xs ! nat lo) \<Longrightarrow> lst + 1 = i \<Longrightarrow> parted lt xs lo (lst + 1) (i + 1)"
    using assms eq unfolding parted_def by (metis add.commute nle_le not_less zless_imp_add1_zle)
  assume lt: "lt (xs ! nat i) (xs ! nat lo)" and len: "length ys = length xs"
    and at: "\<forall>k < length xs. ys ! k = (if int k = lst + 1 then xs ! nat i else if int k = i then xs ! nat (lst + 1) else xs ! k)"
  have lo: "ys ! nat lo = xs ! nat lo" using at assms by auto
  have "lt (ys ! k) (ys ! nat lo)" if "k < length xs" "lo < int k" "int k \<le> lst + 1" for k
    using at that assms lt lo unfolding parted_def by auto
  moreover have "\<not> lt (ys ! k) (ys ! nat lo)" if k: "k < length xs" "lst + 1 < int k" "int k < i + 1" for k
  proof (cases "int k = i")
    case True
    have "nat (lst + 1) < length xs" "lst < int (nat (lst + 1))" "int (nat (lst + 1)) < i" using k True assms by auto
    then have "\<not> lt (xs ! nat (lst + 1)) (xs ! nat lo)" using assms(1) unfolding parted_def by blast
    then show ?thesis using at k True lo by auto
  next
    case False
    then show ?thesis using at k assms lo unfolding parted_def by auto
  qed
  ultimately show "parted lt ys lo (lst + 1) (i + 1)" using len unfolding parted_def by simp
qed

lemma partition_loop_ok:
  assumes "0 \<le> lo" "lo \<le> lst" "lst < i" "i \<le> hi + 1" "hi < int (length xs)"
  shows "\<exists>ys lst' s'. partition_loop compare lo hi i lst xs s = Some (ys, lst', s') \<and> permutes_within (lo + 1) hi xs ys
    \<and> (decides compare lt \<and> parted lt xs lo lst i \<longrightarrow> parted lt ys lo lst' (hi + 1))"
  using assms
proof (induction compare lo hi i lst xs s rule: partition_loop.induct)
  case (1 compare lo hi i lst xs s)
  note pre = "1.prems"
  show ?case
  proof (cases "hi < i")
    case True
    then have "i = hi + 1" using pre by simp
    with True show ?thesis by (simp add: partition_loop.simps permutes_within_simps(1))
  next
    case False
    have at: "array_get xs i = Some (xs ! nat i)" "array_get xs lo = Some (xs ! nat lo)" using pre False by (simp_all add: array_get_def)
    obtain c s1 where c: "compare s (xs ! nat i) (xs ! nat lo) = (c, s1)" by (cases "compare s (xs ! nat i) (xs ! nat lo)")
    have dec: "decides compare lt \<Longrightarrow> c < 0 \<longleftrightarrow> lt (xs ! nat i) (xs ! nat lo)" unfolding decides_def using c by (metis fst_conv)
    note step = parted_step [of lt xs lo lst i]
    show ?thesis
    proof (cases "c < 0")
      case lt: True
      show ?thesis
      proof (cases "lst + 1 = i")
        case True
        have "partition_loop compare lo hi i lst xs s = partition_loop compare lo hi (i + 1) (lst + 1) xs s1"
          using False at c lt True by (simp add: partition_loop.simps [of compare lo hi i])
        then show ?thesis
          using "1.IH"(1) [OF False at c [symmetric] refl lt True] pre False True dec step lt by auto
      next
        case neq: False
        obtain ys where ys: "array_swap xs (lst + 1) i = Some ys" "permutes_within (lo + 1) hi xs ys"
          "\<forall>k < length xs. ys ! k = (if int k = lst + 1 then xs ! nat i else if int k = i then xs ! nat (lst + 1) else xs ! k)"
          using array_swap_ok [of "lo + 1" "lst + 1" hi i xs] pre False by auto
        have len: "length ys = length xs" by (rule permutes_within_length [OF ys(2)])
        have eq: "partition_loop compare lo hi i lst xs s = partition_loop compare lo hi (i + 1) (lst + 1) ys s1"
          using False at c lt neq ys(1) by (simp add: partition_loop.simps [of compare lo hi i])
        obtain zs lst' s' where ih: "partition_loop compare lo hi (i + 1) (lst + 1) ys s1 = Some (zs, lst', s')" "permutes_within (lo + 1) hi ys zs"
          "decides compare lt \<and> parted lt ys lo (lst + 1) (i + 1) \<longrightarrow> parted lt zs lo lst' (hi + 1)"
          using "1.IH"(2) [OF False at c [symmetric] refl lt neq ys(1)] pre False len by auto
        show ?thesis using eq ih permutes_within_simps(2) [OF ys(2) ih(2)] dec lt step(3) [of ys] len ys(3) pre False by auto
      qed
    next
      case ge: False
      have "partition_loop compare lo hi i lst xs s = partition_loop compare lo hi (i + 1) lst xs s1"
        using False at c ge by (simp add: partition_loop.simps [of compare lo hi i])
      then show ?thesis using "1.IH"(3) [OF False at c [symmetric] refl ge] pre False dec step(1) ge by auto
    qed
  qed
qed

definition total_order_on_keys :: "('a \<Rightarrow> 'a \<Rightarrow> bool) \<Rightarrow> bool" where
  "total_order_on_keys lt \<longleftrightarrow> (\<forall>x y. lt x y \<longrightarrow> \<not> lt y x) \<and> (\<forall>x y z. \<not> lt y x \<longrightarrow> \<not> lt z y \<longrightarrow> \<not> lt z x)"

definition sorted_between :: "('a \<Rightarrow> 'a \<Rightarrow> bool) \<Rightarrow> 'a list \<Rightarrow> int \<Rightarrow> int \<Rightarrow> bool" where
  "sorted_between lt xs lo hi \<longleftrightarrow> (\<forall>j k. lo \<le> int j \<and> j < k \<and> int k \<le> hi \<longrightarrow> \<not> lt (xs ! k) (xs ! j))"

definition split_at :: "('a \<Rightarrow> 'a \<Rightarrow> bool) \<Rightarrow> 'a list \<Rightarrow> int \<Rightarrow> int \<Rightarrow> int \<Rightarrow> bool" where
  "split_at lt xs lo m hi \<longleftrightarrow>
     (\<forall>k. (lo \<le> int k \<and> int k \<le> m - 1 \<longrightarrow> lt (xs ! k) (xs ! nat m)) \<and> (m + 1 \<le> int k \<and> int k \<le> hi \<longrightarrow> \<not> lt (xs ! k) (xs ! nat m)))"

lemma permutes_within_all:
  assumes "permutes_within l r xs ys" "0 \<le> l" "r < int (length xs)" "\<forall>k. l \<le> int k \<and> int k \<le> r \<longrightarrow> P (xs ! k)"
  shows "\<forall>k. l \<le> int k \<and> int k \<le> r \<longrightarrow> P (ys ! k)"
proof (intro allI impI)
  fix k assume k: "l \<le> int k \<and> int k \<le> r"
  have "ys ! k \<in> {xs ! k |k. l \<le> int k \<and> int k \<le> r}"
    unfolding permutes_within_set [OF assms(1-3), symmetric] using k by auto
  then obtain j where "ys ! k = xs ! j" "l \<le> int j" "int j \<le> r" by auto
  then show "P (ys ! k)" using assms(4) by simp
qed

lemma permutes_within_keeps:
  "permutes_within l r xs ys \<Longrightarrow> k < length xs \<Longrightarrow> int k < l \<or> r < int k \<Longrightarrow> ys ! k = xs ! k"
  unfolding permutes_within_def by blast

lemma split_at_keep:
  assumes "split_at lt xs lo m hi" "0 \<le> lo" "lo \<le> m" "m \<le> hi" "hi < int (length xs)"
    and "permutes_within lo (m - 1) xs ys \<or> permutes_within (m + 1) hi xs ys"
  shows "split_at lt ys lo m hi"
proof -
  have p: "ys ! nat m = xs ! nat m" using assms(2-6) permutes_within_keeps [of _ _ xs ys "nat m"] by fastforce
  from assms(6) show ?thesis
  proof
    assume q: "permutes_within lo (m - 1) xs ys"
    have "\<forall>k. lo \<le> int k \<and> int k \<le> m - 1 \<longrightarrow> lt (ys ! k) (xs ! nat m)"
      by (rule permutes_within_all [OF q, of "\<lambda>x. lt x (xs ! nat m)"]) (use assms in \<open>auto simp: split_at_def\<close>)
    moreover have "ys ! k = xs ! k" if "m + 1 \<le> int k" "int k \<le> hi" for k
      by (rule permutes_within_keeps [OF q]) (use that assms(5) in auto)
    ultimately show ?thesis using assms(1) p by (simp add: split_at_def)
  next
    assume q: "permutes_within (m + 1) hi xs ys"
    have "\<forall>k. m + 1 \<le> int k \<and> int k \<le> hi \<longrightarrow> \<not> lt (ys ! k) (xs ! nat m)"
      by (rule permutes_within_all [OF q, of "\<lambda>x. \<not> lt x (xs ! nat m)"]) (use assms in \<open>auto simp: split_at_def\<close>)
    moreover have "ys ! k = xs ! k" if "lo \<le> int k" "int k \<le> m - 1" for k
      by (rule permutes_within_keeps [OF q]) (use that assms(4,5) in auto)
    ultimately show ?thesis using assms(1) p by (simp add: split_at_def)
  qed
qed

lemma sorted_between_keep:
  assumes "sorted_between lt xs lo hi" "hi < int (length xs)" "permutes_within l r xs ys" "hi < l \<or> r < lo"
  shows "sorted_between lt ys lo hi"
proof -
  have keep: "ys ! k = xs ! k" if "lo \<le> int k" "int k \<le> hi" for k
    by (rule permutes_within_keeps [OF assms(3)]) (use assms(2,4) that in auto)
  show ?thesis
    unfolding sorted_between_def
  proof (intro allI impI)
    fix j k assume jk: "lo \<le> int j \<and> j < k \<and> int k \<le> hi"
    then have "ys ! j = xs ! j" "ys ! k = xs ! k" by (auto intro: keep)
    then show "\<not> lt (ys ! k) (ys ! j)" using assms(1) jk unfolding sorted_between_def by auto
  qed
qed

lemma sorted_join:
  assumes "total_order_on_keys lt" "split_at lt xs lo m hi" "sorted_between lt xs lo (m - 1)" "sorted_between lt xs (m + 1) hi" "0 \<le> m"
  shows "sorted_between lt xs lo hi"
  unfolding sorted_between_def
proof (intro allI impI)
  fix j k assume jk: "lo \<le> int j \<and> j < k \<and> int k \<le> hi"
  have asym: "lt x y \<Longrightarrow> \<not> lt y x" for x y using assms(1) unfolding total_order_on_keys_def by blast
  have tr: "\<not> lt y x \<Longrightarrow> \<not> lt z y \<Longrightarrow> \<not> lt z x" for x y z using assms(1) unfolding total_order_on_keys_def by blast
  consider "int k < m" | "int k = m" | "m < int j" | "int j = m" | "int j < m" "m < int k" using jk by linarith
  then show "\<not> lt (xs ! k) (xs ! j)"
  proof cases
    case 1
    then show ?thesis using assms(3) jk by (simp add: sorted_between_def)
  next
    case 2
    then have "k = nat m" "lt (xs ! j) (xs ! nat m)" using assms(2) jk by (auto simp: split_at_def)
    then show ?thesis using asym by simp
  next
    case 3
    then show ?thesis using assms(4) jk by (simp add: sorted_between_def)
  next
    case 4
    then have "j = nat m" "\<not> lt (xs ! k) (xs ! nat m)" using assms(2) jk by (auto simp: split_at_def)
    then show ?thesis by simp
  next
    case 5
    then have "lt (xs ! j) (xs ! nat m)" "\<not> lt (xs ! k) (xs ! nat m)" using assms(2) jk by (auto simp: split_at_def)
    then show ?thesis using asym tr by blast
  qed
qed

lemma parted_start: "parted lt xs lo lo (lo + 1)"
  by (auto simp: parted_def)

lemma sane_qsort_ok:
  assumes "0 \<le> lo" "hi < int (length xs)"
  shows "\<exists>ys st'. sane_qsort rnd compare xs lo hi st = Some (ys, st') \<and> permutes_within lo hi xs ys
    \<and> (decides compare lt \<and> total_order_on_keys lt \<longrightarrow> sorted_between lt ys lo hi)"
  using assms
proof (induction rnd compare xs lo hi st rule: sane_qsort.induct)
  case (1 rnd compare xs lo hi st)
  show ?case
  proof (cases "hi \<le> lo")
    case True
    then show ?thesis by (subst sane_qsort.simps) (auto simp: permutes_within_simps(1) sorted_between_def)
  next
    case False
    define i where "i = lo + int (rnd (fst st)) mod (hi - lo + 1)"
    have i: "lo \<le> i" "i \<le> hi" using False pos_mod_bound [of "hi - lo + 1" "int (rnd (fst st))"] by (simp_all add: i_def)
    obtain as where as: "array_swap xs i lo = Some as" "permutes_within lo hi xs as"
      using array_swap_ok [of lo i hi lo xs] i "1.prems" False by auto
    have la: "length as = length xs" by (rule permutes_within_length [OF as(2)])
    obtain bs m s where bs: "partition_loop compare lo hi (lo + 1) lo as (snd st) = Some (bs, m, s)" "permutes_within (lo + 1) hi as bs"
      "decides compare lt \<and> parted lt as lo lo (lo + 1) \<longrightarrow> parted lt bs lo m (hi + 1)"
      using partition_loop_ok [of lo lo "lo + 1" hi as compare "snd st" lt] "1.prems" False la by auto
    have m: "lo \<le> m" "m \<le> hi" using partition_loop_last [OF bs(1)] False by auto
    have lb: "length bs = length xs" using permutes_within_length [OF bs(2)] la by simp
    obtain cs where cs: "array_swap bs m lo = Some cs" "permutes_within lo hi bs cs"
      "\<forall>k < length bs. cs ! k = (if int k = m then bs ! nat lo else if int k = lo then bs ! nat m else bs ! k)"
      using array_swap_ok [of lo m hi lo bs] m "1.prems" False lb by auto
    have lc: "length cs = length xs" using permutes_within_length [OF cs(2)] lb by simp
    have pc: "permutes_within lo hi xs cs"
      using permutes_within_simps(2) [OF permutes_within_simps(2) [OF as(2) permutes_within_simps(3) [OF bs(2)]] cs(2)] by auto
    have split: "split_at lt cs lo m hi" if "decides compare lt"
    proof -
      have pb: "parted lt bs lo m (hi + 1)" using bs(3) that parted_start by blast
      show ?thesis
        unfolding split_at_def
      proof (intro allI conjI impI)
        fix k assume k: "lo \<le> int k \<and> int k \<le> m - 1"
        have "lt (bs ! (if int k = lo then nat m else k)) (bs ! nat lo)" using pb k m "1.prems" lb unfolding parted_def by auto
        then show "lt (cs ! k) (cs ! nat m)" using cs(3) k m "1.prems" lb by (auto split: if_splits)
      next
        fix k assume k: "m + 1 \<le> int k \<and> int k \<le> hi"
        then have "\<not> lt (bs ! k) (bs ! nat lo)" using pb m "1.prems" lb unfolding parted_def by auto
        then show "\<not> lt (cs ! k) (cs ! nat m)" using cs(3) k m "1.prems" lb by auto
      qed
    qed
    let ?st = "(fst st + 1, s)"
    note steps = False as(1) [unfolded i_def] bs(1) refl refl cs(1)
    define both where "both = (m - lo < hi - m)"
    have eq: "sane_qsort rnd compare xs lo hi st =
        (if both then Option.bind (sane_qsort rnd compare cs lo (m - 1) ?st) (\<lambda>(xs, st). sane_qsort rnd compare xs (m + 1) hi st)
         else Option.bind (sane_qsort rnd compare cs (m + 1) hi ?st) (\<lambda>(xs, st). sane_qsort rnd compare xs lo (m - 1) st))"
      using False as(1) bs(1) cs(1) unfolding i_def by (subst sane_qsort.simps) (simp add: both_def)
    have "\<exists>ys st'. sane_qsort rnd compare xs lo hi st = Some (ys, st') \<and> permutes_within lo hi cs ys
      \<and> (decides compare lt \<and> total_order_on_keys lt \<longrightarrow> split_at lt ys lo m hi \<and> sorted_between lt ys lo (m - 1) \<and> sorted_between lt ys (m + 1) hi)"
    proof (cases both)
      case True
      obtain ds st1 where ds: "sane_qsort rnd compare cs lo (m - 1) ?st = Some (ds, st1)" "permutes_within lo (m - 1) cs ds"
        "decides compare lt \<and> total_order_on_keys lt \<longrightarrow> sorted_between lt ds lo (m - 1)"
        using "1.IH"(1) [OF steps True [unfolded both_def]] "1.prems" lc m by auto
      have ld: "length ds = length xs" using permutes_within_length [OF ds(2)] lc by simp
      obtain ys st' where ys: "sane_qsort rnd compare ds (m + 1) hi st1 = Some (ys, st')" "permutes_within (m + 1) hi ds ys"
        "decides compare lt \<and> total_order_on_keys lt \<longrightarrow> sorted_between lt ys (m + 1) hi"
        using "1.IH"(2) [OF steps True [unfolded both_def] ds(1) refl] "1.prems" ld m by auto
      have "permutes_within lo hi cs ys"
        using permutes_within_simps(2) [OF permutes_within_simps(3) [OF ds(2)] permutes_within_simps(3) [OF ys(2)]] m by auto
      moreover have "split_at lt ys lo m hi \<and> sorted_between lt ys lo (m - 1)" if "decides compare lt" "total_order_on_keys lt"
        using split_at_keep [OF split_at_keep [OF split [OF that(1)]], of ds ys] sorted_between_keep [of lt ds lo "m - 1" "m + 1" hi ys]
          ds ys(2) that "1.prems" lc ld m by auto
      ultimately show ?thesis using eq True ds(1) ys(1,3) by auto
    next
      case False
      obtain ds st1 where ds: "sane_qsort rnd compare cs (m + 1) hi ?st = Some (ds, st1)" "permutes_within (m + 1) hi cs ds"
        "decides compare lt \<and> total_order_on_keys lt \<longrightarrow> sorted_between lt ds (m + 1) hi"
        using "1.IH"(3) [OF steps False [unfolded both_def]] "1.prems" lc m by auto
      have ld: "length ds = length xs" using permutes_within_length [OF ds(2)] lc by simp
      obtain ys st' where ys: "sane_qsort rnd compare ds lo (m - 1) st1 = Some (ys, st')" "permutes_within lo (m - 1) ds ys"
        "decides compare lt \<and> total_order_on_keys lt \<longrightarrow> sorted_between lt ys lo (m - 1)"
        using "1.IH"(4) [OF steps False [unfolded both_def] ds(1) refl] "1.prems" ld m by auto
      have "permutes_within lo hi cs ys"
        using permutes_within_simps(2) [OF permutes_within_simps(3) [OF ds(2)] permutes_within_simps(3) [OF ys(2)]] m by auto
      moreover have "split_at lt ys lo m hi \<and> sorted_between lt ys (m + 1) hi" if "decides compare lt" "total_order_on_keys lt"
        using split_at_keep [OF split_at_keep [OF split [OF that(1)]], of ds ys] sorted_between_keep [of lt ds "m + 1" hi lo "m - 1" ys]
          ds ys(2) that "1.prems" lc ld m by auto
      ultimately show ?thesis using eq False ds(1) ys(1,3) by auto
    qed
    then show ?thesis using permutes_within_simps(2) [OF pc] sorted_join [of lt _ lo m hi] m "1.prems" by fastforce
  qed
qed

section \<open>Consistent comparisons\<close>

text \<open>
  What \<open>qsort\<close>, \<open>slist_uniq\<close> and the set functions ask of a comparison: the two orders of its arguments give opposite
  signs, and it is transitive.
\<close>

locale comparison =
  fixes cmp :: "'a \<Rightarrow> 'a \<Rightarrow> int"
  assumes opposite: "sgn (cmp y x) = - sgn (cmp x y)"
    and transitive: "cmp x y \<le> 0 \<Longrightarrow> cmp y z \<le> 0 \<Longrightarrow> cmp x z \<le> 0"
begin

lemma refl_zero [simp]: "cmp x x = 0"
  using opposite [of x x] by (simp add: sgn_if split: if_splits)

lemma opposite_iff: "cmp y x < 0 \<longleftrightarrow> 0 < cmp x y" "cmp y x = 0 \<longleftrightarrow> cmp x y = 0" "0 < cmp y x \<longleftrightarrow> cmp x y < 0"
  using opposite [of x y] by (auto simp: sgn_if split: if_splits)

lemma opposite_le: "0 \<le> cmp y x \<longleftrightarrow> cmp x y \<le> 0" "cmp y x \<le> 0 \<longleftrightarrow> 0 \<le> cmp x y"
  using opposite_iff [of x y] by linarith+

lemma zero_trans:
  assumes "cmp x y = 0" "cmp y z = 0"
  shows "cmp x z = 0"
proof -
  have "cmp z y = 0" "cmp y x = 0" using assms opposite_iff(2) [where x = x and y = y] opposite_iff(2) [where x = y and y = z] by simp_all
  then have "cmp x z \<le> 0" "cmp z x \<le> 0" using transitive [of x y z] transitive [of z y x] assms by simp_all
  then show ?thesis using opposite_le(2) [where x = x and y = z] by simp
qed

lemma less_trans:
  assumes "cmp x y \<le> 0" "cmp y z \<le> 0" "cmp x y < 0 \<or> cmp y z < 0"
  shows "cmp x z < 0"
proof (rule ccontr)
  assume "\<not> cmp x z < 0"
  then have "cmp z x \<le> 0" using opposite_le(2) [where x = x and y = z] by simp
  then have "cmp y x \<le> 0" "cmp z y \<le> 0" using transitive [of y z x] transitive [of z x y] assms(1,2) by simp_all
  then show False using assms(3) opposite_le(2) [where x = x and y = y] opposite_le(2) [where x = y and y = z] by auto
qed

lemma zero_same: "cmp x y = 0 \<Longrightarrow> sgn (cmp x z) = sgn (cmp y z)"
proof -
  assume xy: "cmp x y = 0"
  then have yx: "cmp y x = 0" using opposite_iff(2) [of y x] by simp
  have "cmp x z < 0 \<longleftrightarrow> cmp y z < 0" using less_trans [of x y z] less_trans [of y x z] xy yx by auto
  moreover have "cmp x z = 0 \<longleftrightarrow> cmp y z = 0" using zero_trans [of x y z] zero_trans [of y x z] xy yx by blast
  ultimately show "sgn (cmp x z) = sgn (cmp y z)" by (auto simp: sgn_if)
qed

end

lemma comparison_sgn: "comparison c \<Longrightarrow> (\<And>x y. sgn (c' x y) = sgn (c x y)) \<Longrightarrow> comparison c'"
proof -
  assume c: "comparison c" and e: "\<And>x y. sgn (c' x y) = sgn (c x y)"
  have le: "c' x y \<le> 0 \<longleftrightarrow> c x y \<le> 0" for x y using e [of x y] by (auto simp: sgn_if split: if_splits)
  show "comparison c'"
  proof
    show "sgn (c' y x) = - sgn (c' x y)" for x y unfolding e by (rule comparison.opposite [OF c])
    show "c' x z \<le> 0" if "c' x y \<le> 0" "c' y z \<le> 0" for x y z using that unfolding le by (rule comparison.transitive [OF c])
  qed
qed

lemma comparison_key:
  fixes key :: "'a \<Rightarrow> 'b::linorder"
  assumes "\<And>x y. c x y < 0 \<longleftrightarrow> key x < key y" "\<And>x y. c x y = 0 \<longleftrightarrow> key x = key y"
  shows "comparison c"
proof
  have le: "c x y \<le> 0 \<longleftrightarrow> key x \<le> key y" for x y using assms [of x y] by (auto simp: le_less)
  have pos: "0 < c x y \<longleftrightarrow> key y < key x" for x y using le [of x y] by auto
  fix x y z
  show "sgn (c y x) = - sgn (c x y)"
    using assms [of x y] assms [of y x] pos [of x y] pos [of y x] by (auto simp: sgn_if)
  show "c x y \<le> 0 \<Longrightarrow> c y z \<le> 0 \<Longrightarrow> c x z \<le> 0" by (simp add: le)
qed

lemma comparison_vimage: "comparison c \<Longrightarrow> comparison (\<lambda>x y. c (f x) (f y))"
proof -
  assume c: "comparison c"
  show ?thesis using comparison.opposite [OF c] comparison.transitive [OF c] by unfold_locales blast+
qed

lemma comparison_lex:
  assumes "comparison c" "comparison d"
  shows "comparison (\<lambda>x y. if c x y \<noteq> 0 then c x y else d x y)"
proof
  fix x y z
  show "sgn (if c y x \<noteq> 0 then c y x else d y x) = - sgn (if c x y \<noteq> 0 then c x y else d x y)"
    using comparison.opposite [OF assms(1), of x y] comparison.opposite [OF assms(2), of x y]
      comparison.opposite_iff(2) [OF assms(1), of x y] by simp
  assume xy: "(if c x y \<noteq> 0 then c x y else d x y) \<le> 0" and yz: "(if c y z \<noteq> 0 then c y z else d y z) \<le> 0"
  have le: "c x y \<le> 0" "c y z \<le> 0" using xy yz by (auto split: if_splits)
  then have xz: "c x z \<le> 0" by (rule comparison.transitive [OF assms(1)])
  show "(if c x z \<noteq> 0 then c x z else d x z) \<le> 0"
  proof (cases "c x z = 0")
    case True
    then have "c x y = 0" "c y z = 0" using comparison.less_trans [OF assms(1) le] le by linarith+
    then show ?thesis using True xy yz comparison.transitive [OF assms(2), of x y z] by simp
  qed (use xz in simp)
qed

lemma comparison_swap: "comparison c \<Longrightarrow> comparison (\<lambda>x y. c y x)"
proof -
  assume c: "comparison c"
  show ?thesis
  proof
    show "sgn (c x y) = - sgn (c y x)" for x y by (rule comparison.opposite [OF c])
    show "c z x \<le> 0" if "c y x \<le> 0" "c z y \<le> 0" for x y z by (rule comparison.transitive [OF c that(2,1)])
  qed
qed

lemma comparison_ordered: "comparison c \<Longrightarrow> order = 1 \<or> order = - 1 \<Longrightarrow> comparison (\<lambda>x y. c x y * order)"
proof (elim disjE)
  assume c: "comparison c" and o: "order = - 1"
  have "sgn (c x y * order) = sgn (c y x)" for x y
    using comparison.opposite [OF c, of y x] o by (simp add: sgn_minus)
  then show ?thesis by (intro comparison_sgn [OF comparison_swap [OF c]]) simp
qed simp

text \<open>Elements that \<open>g\<close> marks come last and are all the same.\<close>

lemma comparison_marked:
  assumes "comparison c"
  shows "comparison (\<lambda>x y. if g x \<or> g y then if g x \<and> g y then 0 else if g x then 2 else - 2 else c x y)"
proof
  fix x y z
  show "sgn (if g y \<or> g x then if g y \<and> g x then 0 else if g y then 2 else - 2 else c y x)
      = - sgn (if g x \<or> g y then if g x \<and> g y then 0 else if g x then 2 else - 2 else c x y)"
    using comparison.opposite [OF assms, of x y] by simp
  assume "(if g x \<or> g y then if g x \<and> g y then 0 else if g x then 2 else - 2 else c x y) \<le> 0"
    and "(if g y \<or> g z then if g y \<and> g z then 0 else if g y then 2 else - 2 else c y z) \<le> 0"
  then show "(if g x \<or> g z then if g x \<and> g z then 0 else if g x then 2 else - 2 else c x z) \<le> 0"
    using comparison.transitive [OF assms, of x y z] by (auto split: if_splits)
qed

section \<open>The comparisons of the table\<close>

definition sign_order :: "int \<Rightarrow> bool" where
  "sign_order order \<longleftrightarrow> order = ASCENDING \<or> order = DESCENDING"

definition int_order :: "int \<Rightarrow> int \<Rightarrow> int" where
  "int_order a b = (if a = b then 0 else if a < b then - 1 else 1)"

interpretation int_order: comparison int_order
  by (rule comparison_key [where key = "\<lambda>x. x"]) (auto simp: int_order_def)

lemma int_order_iff [simp]: "int_order a b < 0 \<longleftrightarrow> a < b" "int_order a b = 0 \<longleftrightarrow> a = b"
  by (auto simp: int_order_def)

lemma sint_eq_iff: "sint x = sint y \<longleftrightarrow> x = y"
  by (auto intro: signed_word_eqI)

lemma Compare_comparison:
  assumes "comparison c"
  shows "comparison (\<lambda>x y. Compare (c x y \<noteq> 0) (c x y < 0) x y)"
proof -
  let ?d = "\<lambda>x y :: 'a s_rec. int_order (sint (rec_db x)) (sint (rec_db y))"
  have "comparison (\<lambda>x y. if c x y \<noteq> 0 then c x y else ?d x y)"
    by (rule comparison_lex [OF assms]) (rule comparison_vimage [OF int_order.comparison_axioms])
  from comparison_marked [OF this, of "\<lambda>x. sint (rec_db x) < 0"] show ?thesis
    by (rule comparison_sgn) (auto simp: Compare_def int_order_def sint_eq_iff)
qed

lemma Compare_order:
  assumes "comparison c" "sign_order order"
  shows "comparison (\<lambda>x y. Compare (c x y \<noteq> 0) (c x y < 0) x y * order)"
  by (rule comparison_ordered [OF Compare_comparison [OF assms(1)]]) (use assms(2) in \<open>auto simp: sign_order_def ASCENDING_def DESCENDING_def\<close>)

lemma s_comp_comparison: "comparison (se_strcoll env) \<Longrightarrow> sign_order order \<Longrightarrow> comparison (s_comp env order)"
  using Compare_order [OF comparison_vimage [of "se_strcoll env" "\<lambda>x. memo_str (rec_memo x)"]] by (simp add: s_comp_def [abs_def] Let_def)

lemma i_comp_comparison: "sign_order order \<Longrightarrow> comparison (i_comp env order)"
  using Compare_order [OF comparison_vimage [OF int_order.comparison_axioms, of "\<lambda>x. memo_num (rec_memo x)"]]
  by (simp add: i_comp_def [abs_def])

lemma tm_comp_comparison: "sign_order order \<Longrightarrow> comparison (tm_comp env order)"
proof -
  have "comparison (\<lambda>x y. memo_tm (rec_memo x) - memo_tm (rec_memo y) :: int)"
    by (rule comparison_key [where key = "\<lambda>x. memo_tm (rec_memo x)"]) auto
  from Compare_order [OF this] show "sign_order order \<Longrightarrow> ?thesis" by (simp add: tm_comp_def [abs_def] Let_def)
qed

lemma m_comp_comparison:
  assumes "comparison (se_strcoll env)" "sign_order order"
  shows "comparison (m_comp env order)"
proof -
  note c = Compare_comparison [OF comparison_vimage [OF assms(1), of "\<lambda>x. memo_str (rec_memo x)"]]
    and d = Compare_comparison [OF comparison_vimage [OF assms(1), of "\<lambda>x. magic_text (rec_val x)"]]
  have "order = 1 \<or> order = - 1" using assms(2) by (simp add: sign_order_def ASCENDING_def DESCENDING_def)
  from comparison_ordered [OF comparison_lex [OF c d] this] show ?thesis
    by (rule comparison_sgn) (auto simp: m_comp_def Let_def)
qed

section \<open>Names of attributes\<close>

text \<open>The branches of a name, and the lexicographic order of such lists.\<close>

fun path :: "string \<Rightarrow> string list" where
  "path [] = [[]]"
| "path (c # cs) = (if c = CHR ''`'' then [] # path cs else (c # hd (path cs)) # tl (path cs))"

fun lex_path :: "(string \<Rightarrow> string \<Rightarrow> int) \<Rightarrow> string list \<Rightarrow> string list \<Rightarrow> int" where
  "lex_path f [] [] = 0"
| "lex_path f [] (q # qs) = - 1"
| "lex_path f (p # ps) [] = 1"
| "lex_path f (p # ps) (q # qs) = (if f p q \<noteq> 0 then sgn (f p q) else lex_path f ps qs)"

lemma path_branch: "path a = fst (branch a) # (case snd (branch a) of None \<Rightarrow> [] | Some r \<Rightarrow> path r)"
  by (induction a) (auto simp: branch_def)

lemma branches_loop_lex: "branches_loop strcoll a1 a2 n n = lex_path strcoll (path a1) (path a2)"
proof (induction "length a1" arbitrary: a1 a2 n rule: less_induct)
  case less
  show ?case
  proof (cases "strcoll (fst (branch a1)) (fst (branch a2)) = 0")
    case False
    then show ?thesis by (subst branches_loop.simps) (simp add: path_branch [of a1] path_branch [of a2] sgn_if)
  next
    case True
    show ?thesis
    proof (cases "snd (branch a1)")
      case None
      then show ?thesis using True
        by (cases "snd (branch a2)") (subst branches_loop.simps, simp add: path_branch [of a1] path_branch [of a2] path_branch)+
    next
      case (Some r1)
      then show ?thesis using True less [OF branch_shorter [OF Some]]
        by (cases "snd (branch a2)") (subst branches_loop.simps, simp add: path_branch [of a1] path_branch [of a2] path_branch [of r1])+
    qed
  qed
qed

text \<open>C30: names of attributes are compared branch by branch, and a name comes before the names below it in the tree.\<close>

theorem compare_attr_names_lex: "compare_attr_names strcoll attr1 attr2 = lex_path strcoll (path attr1) (path attr2)"
  by (simp add: compare_attr_names_def branches_loop_lex)

lemma lex_path_comparison:
  assumes "comparison f"
  shows "comparison (lex_path f)"
proof
  show "sgn (lex_path f qs ps) = - sgn (lex_path f ps qs)" for ps qs
    using assms
  proof (induction f ps qs rule: lex_path.induct)
    case (4 f p ps q qs)
    then show ?case using comparison.opposite [OF 4(2), of q p] comparison.opposite_iff(2) [OF 4(2), of q p] by simp
  qed simp_all
  show "lex_path f ps qs \<le> 0 \<Longrightarrow> lex_path f qs rs \<le> 0 \<Longrightarrow> lex_path f ps rs \<le> 0" for ps qs rs
  proof (induction ps arbitrary: qs rs)
    case Nil
    then show ?case by (cases rs) simp_all
  next
    case (Cons p ps)
    then obtain q qs' r rs' where e: "qs = q # qs'" "rs = r # rs'" by (cases qs; cases rs) auto
    have s: "sgn x \<le> 0 \<longleftrightarrow> x \<le> 0" for x :: int by (simp add: sgn_if)
    have le: "f p q \<le> 0" "f q r \<le> 0" using Cons.prems by (auto simp: e s split: if_splits)
    then have pr: "f p r \<le> 0" by (rule comparison.transitive [OF assms])
    show ?case
    proof (cases "f p r = 0")
      case True
      then have "f p q = 0" "f q r = 0" using comparison.less_trans [OF assms le] le by linarith+
      then show ?thesis using True Cons.prems Cons.IH [of qs' rs'] by (simp add: e)
    qed (use pr in \<open>simp add: e s\<close>)
  qed
qed

lemma attr_comp_comparison:
  assumes "comparison (se_strcoll env)" "sign_order order"
  shows "comparison (attr_comp env order)"
proof -
  have "order = 1 \<or> order = - 1" using assms(2) by (simp add: sign_order_def ASCENDING_def DESCENDING_def)
  from comparison_ordered [OF comparison_vimage [OF lex_path_comparison [OF assms(1)], of "\<lambda>x. path (memo_str (rec_memo x))"] this]
  show ?thesis by (simp add: attr_comp_def [abs_def] compare_attr_names_def branches_loop_lex)
qed

section \<open>The types of lists\<close>

lemma find_list_type_in: "find_list_type is_it ts = Some t \<Longrightarrow> t \<in> set ts"
  by (induction ts) (auto split: option.splits if_splits)

lemma select_list_type_in: "select_list_type sort_type = Some (t, ptr) \<Longrightarrow> t \<in> set ltypelist"
  by (auto simp: select_list_type_def Let_def split: if_splits dest: find_list_type_in)

lemma get_list_type_info_cases:
  assumes "get_list_type_info sort_type = Some lti"
  obtains t where "t \<in> set ltypelist" "sign_order (lt_sort_order lti)" "lt_name lti = lt_name t"
    "lt_make_record lti = lt_make_record t" "lt_sorter lti = lt_sorter t" "lt_flags lti = lt_flags t"
  using assms
  by (auto simp: get_list_type_info_def Let_def bind_eq_Some_conv sign_order_def split: if_splits dest!: select_list_type_in)

text \<open>All comparisons but that of floating point numbers are consistent when \<open>strcoll\<close> is.\<close>

lemma list_type_comparison:
  assumes "get_list_type_info sort_type = Some lti" "lt_name lti \<noteq> Some ''F''" "comparison (se_strcoll env)"
  shows "comparison (lt_sorter lti env (lt_sort_order lti))"
proof -
  obtain t where t: "t \<in> set (ltypelist :: 'a list_type_info list)" "sign_order (lt_sort_order lti)" "lt_name lti = lt_name t" "lt_sorter lti = lt_sorter t"
    using get_list_type_info_cases [OF assms(1)] by metis
  then have "lt_sorter t \<in> {s_comp, i_comp, tm_comp, m_comp, attr_comp}"
    using assms(2) unfolding ltypelist_def by auto
  then show ?thesis
    using s_comp_comparison [OF assms(3) t(2)] i_comp_comparison [OF t(2), of env] tm_comp_comparison [OF t(2), of env]
      m_comp_comparison [OF assms(3) t(2)] attr_comp_comparison [OF assms(3) t(2)] t(4) by auto
qed

section \<open>What the sort and the set functions compute\<close>

text \<open>What a sort promises: a permutation, in order when the comparison is consistent.\<close>

locale sorting =
  fixes sort_by :: "('a \<Rightarrow> 'a \<Rightarrow> int) \<Rightarrow> 'a list \<Rightarrow> 'a list"
  assumes permutes: "mset (sort_by cmp xs) = mset xs"
    and in_order: "comparison cmp \<Longrightarrow> sorted_wrt (\<lambda>x y. cmp x y \<le> 0) (sort_by cmp xs)"

text \<open>Some record of a list compares as equal to \<open>z\<close>.\<close>

definition has :: "('a \<Rightarrow> 'a \<Rightarrow> int) \<Rightarrow> 'a list \<Rightarrow> 'a \<Rightarrow> bool" where
  "has cmp xs z \<longleftrightarrow> (\<exists>x \<in> set xs. cmp x z = 0)"

lemma has_simps [simp]: "\<not> has cmp [] z" "has cmp (x # xs) z \<longleftrightarrow> cmp x z = 0 \<or> has cmp xs z"
  "has cmp (xs @ ys) z \<longleftrightarrow> has cmp xs z \<or> has cmp ys z"
  by (auto simp: has_def)

abbreviation (input) increasing :: "('a \<Rightarrow> 'a \<Rightarrow> int) \<Rightarrow> 'a list \<Rightarrow> bool" where
  "increasing cmp xs \<equiv> sorted_wrt (\<lambda>x y. cmp x y < 0) xs"

context comparison
begin

lemma has_not: "\<forall>y \<in> set ys. cmp x y < 0 \<Longrightarrow> cmp x z = 0 \<Longrightarrow> \<not> has cmp ys z"
proof
  assume less: "\<forall>y \<in> set ys. cmp x y < 0" and xz: "cmp x z = 0" and "has cmp ys z"
  then obtain y where y: "y \<in> set ys" "cmp y z = 0" by (auto simp: has_def)
  then have "cmp z y = 0" using opposite_iff(2) [where x = y and y = z] by simp
  then have "cmp x y = 0" using zero_trans [OF xz] by simp
  then show False using less y(1) by force
qed

lemma has_cong: "cmp x y = 0 \<Longrightarrow> cmp x z = 0 \<longleftrightarrow> cmp y z = 0"
  using zero_same [of x y z] by (auto simp: sgn_if split: if_splits)

lemma uniq_loop_increasing:
  assumes "kept \<noteq> []" "increasing cmp kept" "sorted_wrt (\<lambda>x y. cmp x y \<le> 0) (last kept # rs)"
  shows "increasing cmp (uniq_loop cmp kept rs) \<and> (\<forall>z. has cmp (uniq_loop cmp kept rs) z \<longleftrightarrow> has cmp (kept @ rs) z)"
  using assms
proof (induction rs arbitrary: kept)
  case (Cons r rs)
  have r: "cmp (last kept) r \<le> 0" using Cons.prems(3) by simp
  show ?case
  proof (cases "cmp (last kept) r = 0")
    case True
    have "sorted_wrt (\<lambda>x y. cmp x y \<le> 0) (last kept # rs)" using Cons.prems(3) by simp
    note ih = Cons.IH [OF Cons.prems(1,2) this]
    have "cmp r z = 0 \<Longrightarrow> has cmp kept z" for z using True has_cong [of "last kept" r z] Cons.prems(1) by (auto simp: has_def)
    then show ?thesis using ih True by auto
  next
    case False
    have below: "cmp x r < 0" if "x \<in> set kept" for x
    proof (cases "x = last kept")
      case neq: False
      have k: "kept = butlast kept @ [last kept]" using Cons.prems(1) by simp
      then have "increasing cmp (butlast kept @ [last kept])" using Cons.prems(2) by simp
      moreover have "x \<in> set (butlast kept)" using neq that k by (metis Un_iff empty_iff insert_iff list.set(1) list.set(2) set_append)
      ultimately have "cmp x (last kept) < 0" by (simp add: sorted_wrt_append)
      then show ?thesis using less_trans [of x "last kept" r] r by simp
    qed (use r False in simp)
    have "increasing cmp (kept @ [r])" using below Cons.prems(2) by (simp add: sorted_wrt_append)
    moreover have "sorted_wrt (\<lambda>x y. cmp x y \<le> 0) (last (kept @ [r]) # rs)" using Cons.prems(3) by simp
    ultimately show ?thesis using Cons.IH [of "kept @ [r]"] False by simp
  qed
qed simp

end

lemma setmanip_merge_subset: "set (setmanip_merge cmp w xs ys) \<subseteq> set xs \<union> set ys"
  by (induction cmp w xs ys rule: setmanip_merge.induct) (auto simp: Let_def)

context comparison
begin

lemma merge_increasing:
  "increasing cmp xs \<Longrightarrow> increasing cmp ys \<Longrightarrow> increasing cmp (setmanip_merge cmp (l, g, e) xs ys)"
proof (induction xs arbitrary: ys)
  case Nil
  then show ?case by (cases ys) simp_all
next
  case (Cons x xs)
  note outer_IH = Cons.IH and outer_prems = Cons.prems
  have sub: "z \<in> set (setmanip_merge cmp w as bs) \<Longrightarrow> z \<in> set as \<or> z \<in> set bs" for z w as bs
    using setmanip_merge_subset [of cmp w as bs] by auto
  show ?case
    using Cons.prems(2)
  proof (induction ys)
    case (Cons y ys)
    have xs: "increasing cmp xs" "\<forall>x' \<in> set xs. cmp x x' < 0" and ys: "increasing cmp ys" "\<forall>y' \<in> set ys. cmp y y' < 0"
      using outer_prems(1) Cons.prems by simp_all
    have tr: "cmp a b \<le> 0 \<Longrightarrow> cmp b c < 0 \<Longrightarrow> cmp a c < 0" for a b c using less_trans [of a b c] by simp
    consider "cmp x y < 0" | "cmp x y = 0" | "0 < cmp x y" by linarith
    then show ?case
    proof cases
      case 1
      then have "\<forall>z \<in> set (y # ys). cmp x z < 0" using ys(2) tr [of x y] by auto
      then show ?thesis using 1 outer_IH [OF xs(1) Cons.prems] xs(2) by (auto dest!: sub)
    next
      case 2
      then have "\<forall>z \<in> set ys. cmp x z < 0" using ys(2) tr [of x y] by auto
      then show ?thesis using 2 outer_IH [OF xs(1) ys(1)] xs(2) by (auto dest!: sub)
    next
      case 3
      then have yx: "cmp y x < 0" using opposite_iff(1) [where x = x and y = y] by simp
      then have "\<forall>z \<in> set (x # xs). cmp y z < 0" using xs(2) tr [of y x] by auto
      then show ?thesis using 3 Cons.IH [OF ys(1)] ys(2) by (auto dest!: sub)
    qed
  qed (use outer_prems(1) in simp)
qed

lemma merge_has:
  "increasing cmp xs \<Longrightarrow> increasing cmp ys \<Longrightarrow>
   has cmp (setmanip_merge cmp (l, g, e) xs ys) z = (if has cmp xs z then if has cmp ys z then e else l else has cmp ys z \<and> g)"
proof (induction xs arbitrary: ys)
  case Nil
  then show ?case by (cases ys) simp_all
next
  case (Cons x xs)
  note outer_IH = Cons.IH and outer_prems = Cons.prems
  show ?case
    using Cons.prems(2)
  proof (induction ys)
    case (Cons y ys)
    have xs: "increasing cmp xs" "\<forall>x' \<in> set xs. cmp x x' < 0" and ys: "increasing cmp ys" "\<forall>y' \<in> set ys. cmp y y' < 0"
      using outer_prems(1) Cons.prems by simp_all
    have tr: "cmp a b \<le> 0 \<Longrightarrow> cmp b c < 0 \<Longrightarrow> cmp a c < 0" for a b c using less_trans [of a b c] by simp
    consider "cmp x y < 0" | "cmp x y = 0" | "0 < cmp x y" by linarith
    then show ?case
    proof cases
      case 1
      then have "\<forall>z \<in> set (y # ys). cmp x z < 0" using ys(2) tr [of x y] by auto
      then show ?thesis using 1 outer_IH [OF xs(1) Cons.prems] has_not [OF xs(2), of z] has_not [of "y # ys" x z] by auto
    next
      case 2
      then have "\<forall>z \<in> set ys. cmp x z < 0" using ys(2) tr [of x y] by auto
      then show ?thesis
        using 2 outer_IH [OF xs(1) ys(1)] has_not [OF xs(2), of z] has_not [of ys x z] has_cong [of x y z] by auto
    next
      case 3
      then have yx: "cmp y x < 0" using opposite_iff(1) [where x = x and y = y] by simp
      then have "\<forall>z \<in> set (x # xs). cmp y z < 0" using xs(2) tr [of y x] by auto
      then show ?thesis using 3 Cons.IH [OF ys(1)] has_not [OF ys(2), of z] has_not [of "x # xs" y z] by auto
    qed
  qed (use outer_prems(1) in simp)
qed

end

section \<open>The sort of \<open>sortby()\<close> is a sort\<close>

lemma total_order_on_keys_comparison: "comparison cmp \<Longrightarrow> total_order_on_keys (\<lambda>x y. cmp x y < 0)"
proof -
  assume c: "comparison cmp"
  have "\<not> cmp z x < 0" if "\<not> cmp y x < 0" "\<not> cmp z y < 0" for x y z
  proof -
    have "cmp x y \<le> 0" "cmp y z \<le> 0" using that comparison.opposite_le(1) [OF c] by (auto simp: not_less)
    then have "cmp x z \<le> 0" by (rule comparison.transitive [OF c])
    then show ?thesis using comparison.opposite_le(1) [OF c, of z x] by simp
  qed
  moreover have "cmp x y < 0 \<Longrightarrow> \<not> cmp y x < 0" for x y using comparison.opposite_iff(1) [OF c, of y x] by simp
  ultimately show ?thesis unfolding total_order_on_keys_def by blast
qed

lemma sorted_between_whole: "sorted_between lt xs 0 (int (length xs) - 1) \<Longrightarrow> sorted_wrt (\<lambda>x y. \<not> lt y x) xs"
  by (auto simp: sorted_wrt_iff_nth_less sorted_between_def)

text \<open>C12: sorting with softcode as the comparison always returns, with the same elements, whatever the softcode answers and does to the
  state; when its answers come from one total order, they are in that order.\<close>

theorem sane_qsort_sorts:
  "\<exists>ys st'. sane_qsort rnd compare xs 0 (int (length xs) - 1) st = Some (ys, st') \<and> mset ys = mset xs
     \<and> (\<forall>lt. decides compare lt \<and> total_order_on_keys lt \<longrightarrow> sorted_wrt (\<lambda>x y. \<not> lt y x) ys)"
proof -
  have "\<exists>ys st'. sane_qsort rnd compare xs 0 (int (length xs) - 1) st = Some (ys, st')"
    using sane_qsort_ok [of 0 "int (length xs) - 1" xs rnd compare st "\<lambda>x y. False"] by auto
  then obtain ys st' where ys: "sane_qsort rnd compare xs 0 (int (length xs) - 1) st = Some (ys, st')" by blast
  have ok: "permutes_within 0 (int (length xs) - 1) xs ys \<and> (decides compare lt \<and> total_order_on_keys lt \<longrightarrow> sorted_between lt ys 0 (int (length xs) - 1))" for lt
    using sane_qsort_ok [of 0 "int (length xs) - 1" xs rnd compare st lt] ys by auto
  then have "mset ys = mset xs" by (simp add: permutes_within_def)
  moreover from this have "length ys = length xs" by (rule mset_eq_length)
  ultimately show ?thesis using ys ok sorted_between_whole [of _ ys] by auto
qed

theorem sane_qsort_sorts_witness:
  "\<exists>ys st'. sane_qsort (\<lambda>k. k) (\<lambda>s x y. (x - y, s + 1)) [3, 1, 2 :: int] 0 2 (0, 0 :: int) = Some (ys, st')
     \<and> mset ys = {#1, 2, 3#} \<and> sorted_wrt (\<lambda>x y. x \<le> y) ys"
proof -
  have "decides (\<lambda>s x y :: int. (x - y, s + 1 :: int)) (<)" "total_order_on_keys ((<) :: int \<Rightarrow> _)"
    by (auto simp: decides_def total_order_on_keys_def)
  then show ?thesis
    using sane_qsort_sorts [of "\<lambda>k. k" "\<lambda>s x y :: int. (x - y, s + 1 :: int)" "[3, 1, 2]" "(0, 0)"]
    by (auto simp: not_less add_mset_commute)
qed

text \<open>With a comparison in C it keeps the promise that is asked of \<open>qsort\<close>.\<close>

definition sane_sort :: "('a \<Rightarrow> 'a \<Rightarrow> int) \<Rightarrow> 'a list \<Rightarrow> 'a list" where
  "sane_sort cmp xs =
     (case sane_qsort (\<lambda>k. 0) (\<lambda>s x y. (cmp x y, s)) xs 0 (int (length xs) - 1) (0, ()) of Some (ys, st) \<Rightarrow> ys | None \<Rightarrow> xs)"

lemma sane_sort_ok:
  "mset (sane_sort cmp xs) = mset xs \<and> (comparison cmp \<longrightarrow> sorted_wrt (\<lambda>x y. cmp x y \<le> 0) (sane_sort cmp xs))"
proof -
  let ?lt = "\<lambda>x y. cmp x y < 0"
  have "0 \<le> (0 :: int)" "int (length xs) - 1 < int (length xs)" by simp_all
  from sane_qsort_ok [OF this, of "\<lambda>k. 0" "\<lambda>s x y. (cmp x y, s)" "(0, ())" ?lt]
  obtain ys st' where ys: "sane_qsort (\<lambda>k. 0) (\<lambda>s x y. (cmp x y, s)) xs 0 (int (length xs) - 1) (0, ()) = Some (ys, st')"
    "permutes_within 0 (int (length xs) - 1) xs ys"
    "decides (\<lambda>s x y. (cmp x y, s :: unit)) ?lt \<and> total_order_on_keys ?lt \<longrightarrow> sorted_between ?lt ys 0 (int (length xs) - 1)" by auto
  have s: "sane_sort cmp xs = ys" using ys(1) by (simp add: sane_sort_def)
  have "sorted_wrt (\<lambda>x y. cmp x y \<le> 0) ys" if c: "comparison cmp"
  proof -
    have "decides (\<lambda>s x y. (cmp x y, s :: unit)) ?lt" by (simp add: decides_def)
    then have "sorted_wrt (\<lambda>x y. \<not> cmp y x < 0) ys"
      using ys(3) total_order_on_keys_comparison [OF c] sorted_between_whole [of ?lt ys] permutes_within_length [OF ys(2)] by simp
    then show ?thesis using comparison.opposite_le(1) [OF c] by (simp add: not_less)
  qed
  then show ?thesis using s ys(2) by (simp add: permutes_within_def)
qed

interpretation sane_sort: sorting sane_sort
  by unfold_locales (simp_all add: sane_sort_ok)

section \<open>Sorting lists\<close>

lemma make_record_keeps:
  "t \<in> set (ltypelist :: 'f list_type_info list) \<Longrightarrow> lt_make_record t env s player flags r = Some r' \<Longrightarrow> rec_val r' = rec_val r \<and> rec_ptr r' = rec_ptr r"
  unfolding ltypelist_def
  by (auto simp: gen_alphanum_def gen_dbref_def gen_num_def gen_float_def gen_magic_def gen_db_name_def gen_db_idle_def gen_db_conn_def
      gen_db_ctime_def gen_db_owner_def gen_db_loc_def gen_db_attr_def bind_eq_Some_conv Let_def split: if_splits)

lemma build_record_keeps:
  assumes "get_list_type_info sort_type = Some lti" "build_record env s player lti k = Some r"
  shows "(rec_val r, rec_ptr r) = k"
proof -
  obtain d where d: "genrecord env s player lti \<lparr>rec_ptr = snd k, rec_val = fst k, rec_db = d, rec_memo = Memo_zero\<rparr> = Some r"
    using assms(2) unfolding build_record_def bind_eq_Some_conv by blast
  obtain t where "t \<in> set (ltypelist :: 'a list_type_info list)" "lt_make_record lti = lt_make_record t"
    using get_list_type_info_cases [OF assms(1)] by metis
  then show ?thesis using d make_record_keeps [of t] by (fastforce simp: genrecord_def split: if_splits memo.splits)
qed

lemma build_records_keep:
  "get_list_type_info sort_type = Some lti \<Longrightarrow> build_records env s player lti ks = Some rs \<Longrightarrow> map (\<lambda>r. (rec_val r, rec_ptr r)) rs = ks"
proof (induction ks arbitrary: rs)
  case (Cons k ks)
  then obtain r rs' where r: "build_record env s player lti k = Some r" "build_records env s player lti ks = Some rs'" "rs = r # rs'"
    by (auto simp: bind_eq_Some_conv)
  then show ?case using Cons.IH [OF Cons.prems(1)] build_record_keeps [OF Cons.prems(1) r(1)] by simp
qed simp

text \<open>The keys with their strings, as \<open>slist_build\<close> pairs them.\<close>

definition with_strings :: "string list \<Rightarrow> string list option \<Rightarrow> (string \<times> string option) list" where
  "with_strings keys strs = zip keys (case strs of None \<Rightarrow> replicate (length keys) None | Some ts \<Rightarrow> map Some ts)"

text \<open>C15: \<open>do_gensort\<close> permutes the keys, each together with its string, into an order in which no record comes after one it compares
  less than: for every list type but that of floating point numbers, ascending or descending.\<close>

theorem do_gensort_sorts:
  assumes "sorting qsort" "comparison (se_strcoll env)" "get_list_type_info sort_type = Some lti" "lt_name lti \<noteq> Some ''F''"
    and "slist_build env s player keys strs lti = Some (rs, order)"
  shows "\<exists>rs'. do_gensort qsort env s player keys strs sort_type
             = Some (map rec_val rs', map_option (\<lambda>_. map (\<lambda>r. the (rec_ptr r)) rs') strs)
           \<and> mset (map (\<lambda>r. (rec_val r, rec_ptr r)) rs') = mset (with_strings keys strs)
           \<and> mset rs' = mset rs \<and> sorted_wrt (\<lambda>x y. lt_sorter lti env order x y \<le> 0) rs'"
proof -
  have o: "order = lt_sort_order lti" and b: "build_records env s player lti (with_strings keys strs) = Some rs"
    using assms(5) by (auto simp: slist_build_def with_strings_def)
  let ?rs = "qsort (lt_sorter lti env order) rs"
  have "mset ?rs = mset rs" by (rule sorting.permutes [OF assms(1)])
  moreover from this have "mset (map (\<lambda>r. (rec_val r, rec_ptr r)) ?rs) = mset (map (\<lambda>r. (rec_val r, rec_ptr r)) rs)"
    by (metis mset_map)
  moreover have "sorted_wrt (\<lambda>x y. lt_sorter lti env order x y \<le> 0) ?rs"
    using sorting.in_order [OF assms(1) list_type_comparison [OF assms(3,4,2)]] o by simp
  ultimately show ?thesis
    using assms(3,5) build_records_keep [OF assms(3) b] by (intro exI [of _ ?rs]) (simp add: do_gensort_def slist_qsort_def Let_def)
qed

text \<open>A server to try the theorems on: \<open>strcoll\<close> is \<open>strcmp\<close>, as in the C locale.\<close>

definition sort_env_C :: "int sort_env" where
  "sort_env_C = \<lparr>se_strcoll = \<lambda>a b. strcmp (c_string a) (c_string b), se_strtod = \<lambda>s. (0, s, False), se_differ = (\<noteq>), se_below = (<),
     se_database_loaded = True, se_priv_who = \<lambda>p. False, se_least_idle_time_priv = \<lambda>d. 0, se_least_idle_time = \<lambda>d. 0,
     se_most_conn_time_priv = \<lambda>d. 0, se_most_conn_time = \<lambda>d. 0, se_can_locate = \<lambda>p d. True, se_get_attrib = \<lambda>p d a. None\<rparr>"

lemma no_nul_c_string: "no_nul (c_string s)"
  by (auto simp: c_string_def no_nul_def dest: set_takeWhileD)

lemma sort_env_C_collates: "comparison (se_strcoll sort_env_C)"
  by (rule comparison_key [where key = "\<lambda>s. str_key (c_string s)"])
    (simp_all add: sort_env_C_def no_nul_c_string strcmp_order.cmp_less strcmp_order.cmp_zero)

theorem do_gensort_sorts_witness:
  "\<exists>rs' :: int s_rec list. do_gensort sane_sort sort_env_C \<lparr>db = [], lock_names = st_init, htab_locks = Map.empty, notices = []\<rparr> 1 [''b'', ''a'', ''c''] None (Some ''-A'')
       = Some (map rec_val rs', None) \<and> mset (map (\<lambda>r. (rec_val r, rec_ptr r)) rs') = mset [(''b'', None), (''a'', None), (''c'', None)]
     \<and> sorted_wrt (\<lambda>x y. s_comp sort_env_C DESCENDING x y \<le> 0) rs'"
proof -
  let ?s = "\<lparr>db = [], lock_names = st_init, htab_locks = Map.empty, notices = []\<rparr>"
  obtain lti :: "int list_type_info" where lti: "get_list_type_info (Some ''-A'') = Some lti" "lt_name lti = Some ''A''" "lt_sorter lti = s_comp"
    "lt_flags lti = IS_STRING" "lt_make_record lti = gen_alphanum" "lt_sort_order lti = DESCENDING"
    by (simp add: get_list_type_info_def select_list_type_def ltypelist_def strcasecmp.simps DOWNCASE_def c_isupper_def c_ord_def)
  have b: "slist_build sort_env_C ?s 1 [''b'', ''a'', ''c''] None lti =
      Some (map (\<lambda>k. \<lparr>rec_ptr = None, rec_val = k, rec_db = 0, rec_memo = Memo_str k False\<rparr>) [''b'', ''a'', ''c''], DESCENDING)"
    by (simp add: slist_build_def build_record_def genrecord_def lti IS_STRING_def IS_DB_def IS_CASE_INSENS_def gen_alphanum_def ESC_CHAR_def TAG_START_def numeral_3_eq_3)
  show ?thesis
    using do_gensort_sorts [OF sane_sort.sorting_axioms sort_env_C_collates lti(1) _ b] lti(2,3) by (auto simp: with_strings_def numeral_3_eq_3)
qed

section \<open>Set functions\<close>

lemma uniq_sorted:
  assumes "comparison (lt_sorter lti env order)" "sorted_wrt (\<lambda>x y. lt_sorter lti env order x y \<le> 0) rs"
  shows "increasing (lt_sorter lti env order) (slist_uniq env order lti rs)
    \<and> has (lt_sorter lti env order) (slist_uniq env order lti rs) z = has (lt_sorter lti env order) rs z"
proof (cases "length rs < 2")
  case True
  then show ?thesis by (cases rs) (auto simp: slist_uniq_def)
next
  case False
  then obtain r rs' where r: "rs = r # rs'" by (cases rs) auto
  show ?thesis
    using comparison.uniq_loop_increasing [OF assms(1), of "[r]" rs'] assms(2) False r by (simp add: slist_uniq_def)
qed

lemma has_mset: "mset xs = mset ys \<Longrightarrow> has cmp xs z = has cmp ys z"
  unfolding has_def by (metis set_mset_mset)

lemma sorted_unique_ok:
  assumes "sorting qsort" "comparison (lt_sorter lti env (lt_sort_order lti))" "slist_build env s player a None lti = Some (rs, order)"
  shows "\<exists>sp. sorted_unique qsort env s player lti a = Some sp \<and> increasing (lt_sorter lti env order) sp
    \<and> (\<forall>z. has (lt_sorter lti env order) sp z = has (lt_sorter lti env order) rs z)"
proof -
  have o: "order = lt_sort_order lti" using assms(3) by (auto simp: slist_build_def)
  let ?rs = "qsort (lt_sorter lti env order) rs"
  have "sorted_wrt (\<lambda>x y. lt_sorter lti env order x y \<le> 0) ?rs"
    using sorting.in_order [OF assms(1,2)] o by simp
  then show ?thesis
    using uniq_sorted [of lti env order ?rs] assms(2,3) o has_mset [OF sorting.permutes [OF assms(1)]]
    by (simp add: sorted_unique_def slist_qsort_def)
qed


lemma setmanip_wants_names:
  "setmanip_wants ''SETUNION'' = (True, True, True)" "setmanip_wants ''SETINTER'' = (False, False, True)"
  "setmanip_wants ''SETDIFF'' = (True, False, False)" "setmanip_wants ''SETSYMDIFF'' = (True, True, False)"
  by code_simp+

definition no_objects :: mush where
  "no_objects = \<lparr>db = [], lock_names = st_init, htab_locks = Map.empty, notices = []\<rparr>"

definition type_A :: "int list_type_info" where
  "type_A = list_type (Some ''A'') gen_alphanum s_comp IS_STRING \<lparr>lt_sort_order := ASCENDING\<rparr>"

lemma type_A_info: "get_list_type_info (Some ''A'') = Some type_A"
  by (simp add: type_A_def get_list_type_info_def select_list_type_def ltypelist_def strcasecmp.simps DOWNCASE_def c_isupper_def c_ord_def)

lemma type_A_record: "k \<in> {''a'', ''b'', ''c''} \<Longrightarrow>
  build_record sort_env_C s p type_A (k, None) = Some \<lparr>rec_ptr = None, rec_val = k, rec_db = 0, rec_memo = Memo_str k False\<rparr>"
  by (auto simp: type_A_def build_record_def genrecord_def IS_STRING_def IS_DB_def IS_CASE_INSENS_def gen_alphanum_def ESC_CHAR_def TAG_START_def)


section \<open>Guessing the type of a list\<close>

lemma autodetect_float:
  "autodetect_loop strtod False L_FLOAT ''F'' ps = (if list_all (\<lambda>p. is_strict_number strtod (Some p)) ps then ''F'' else ''M'')"
  by (induction ps) simp_all

lemma autodetect_dbref:
  "autodetect_loop strtod False L_DBREF ''D'' ps = (if list_all (\<lambda>p. is_objid (Some p)) ps then ''D'' else ''M'')"
  by (induction ps) simp_all

lemma autodetect_numeric:
  "autodetect_loop strtod False L_NUMERIC ''N'' ps =
     (if list_all (\<lambda>p. is_strict_integer (Some p)) ps then ''N''
      else if list_all (\<lambda>p. is_strict_number strtod (Some p)) (dropWhile (\<lambda>p. is_strict_integer (Some p)) ps) then ''F'' else ''M'')"
  by (induction ps) (auto simp: autodetect_float)

text \<open>C31: a list of integers is numeric, one that goes on with numbers is of floating point numbers, a list of object ids is one of
  references, and every other list is of the magic type.\<close>

theorem autodetect_list_means:
  "autodetect_list strtod ps =
     (if list_all (\<lambda>p. is_strict_integer (Some p)) ps then ''N''
      else if list_all (\<lambda>p. is_strict_number strtod (Some p)) (dropWhile (\<lambda>p. is_strict_integer (Some p)) ps) then ''F''
      else if list_all (\<lambda>p. is_objid (Some p)) ps \<and> \<not> is_strict_integer (Some (hd ps)) \<and> \<not> is_strict_number strtod (Some (hd ps)) then ''D''
      else ''M'')"
  by (cases ps) (auto simp: autodetect_list_def autodetect_numeric autodetect_float autodetect_dbref)

end
