(* ===== verification/Spec2Isabelle.thy ===== *)
theory Spec2Isabelle
  imports Mush_Accent Mush_Privtab Mush_Bufferq Mush_Ptab Mush_Boolexp_Roundtrip Mush_Wild_Captures Mush_Atr_Wild Mush_Websock_Read Mush_Websock_Send
    Mush_Strtree_Table Mush_Lock_Cmd_Correct Mush_Htab_Correct Mush_Parse Mush_Sort_Correct
begin

text \<open>
  PennMUSH, a server for text-based games: this development models parts of the C code under \<open>src/src\<close> and
  \<open>src/hdrs\<close> and proves what makes them correct.

  \<^bold>\<open>The program.\<close> Objects (rooms, exits, things, players) live in the array \<open>db\<close>.  An object carries named locks; a
  lock is a key, a boolean expression that is typed as text, compiled to bytecode and run by a small virtual machine
  whenever someone tries to use the object.  Players name objects, and the matcher finds which object a name stands
  for.  Commands, attributes and flags are looked up by prefix or by wildcard patterns, names of locks are kept once
  in counted string tables, larger tables are hash tables, softcode sorts lists of many types and takes unions and
  differences of them, messages wait in bounded queues, and WebSocket clients talk to the server in frames.
  Nearly all text is NUL-terminated strings and buffers of \<open>BUFFER_LEN\<close> bytes.

  \<^bold>\<open>Conventions.\<close> A C string is a character list without \<open>NUL\<close> (\<open>no_nul\<close>); a pointer into a string is the suffix
  behind it; a buffer of \<open>BUFFER_LEN\<close> bytes is the list of the characters written, and a writer returns 0 or 1 as the
  code does.  A \<open>dbref\<close> and the machine registers are 32-bit words.  A read or write outside an object of memory, a
  failed assertion and a loop that does not end are the value \<open>None\<close> (or \<open>Fault\<close>, \<open>Overrun\<close>, \<open>OutOfFuel\<close>), so a
  theorem that gives \<open>Some\<close> says that none of them happens.  What the code asks of the rest of the server
  (softcode, attributes, the connected players, configuration) is a record of functions: \<open>world\<close> for the evaluator of
  locks, \<open>parse_env\<close> for the parser, \<open>server\<close> for locks and matching, \<open>sort_env\<close> for sorting.

  \<^bold>\<open>Theories and sources.\<close>
  \<^item> \<open>Mush_Prelude\<close>: characters, \<open>strcmp\<close>, buffers, and the interfaces \<open>string_order\<close>, \<open>bounded_writer\<close> and
    \<open>lookup_table\<close> that several components implement.
  \<^item> \<open>Mush_Strutil\<close>, \<open>Mush_Accent\<close>, \<open>Mush_Tokens\<close>: \<open>strutil.c\<close>, the comparisons, the bounded writers
    and integers; \<open>safe_accent\<close>; the tokenizers, word lists and replacement.
  \<^item> \<open>Mush_Privtab\<close>: \<open>privtab.c\<close>, sets of privileges as bits, letters and words.
  \<^item> \<open>Mush_Bufferq\<close>: \<open>bufferq.c\<close>, the byte queues of messages; interface \<open>bounded_queue\<close>.
  \<^item> \<open>Mush_Ptab\<close>: \<open>ptab.c\<close>, prefix tables with their linear and binary searches, against \<open>lookup_table\<close>.
  \<^item> \<open>Mush_Strtree\<close>, \<open>Mush_Strtree_Balance\<close>, \<open>Mush_Strtree_Table\<close>: \<open>strtree.c\<close>, the red-black trees of counted
    strings; interface \<open>counted_strings\<close>, which the name table of \<open>lock.c\<close> relies on.
  \<^item> \<open>Mush_Boolexp\<close> (parse trees, the flag tests and their perfect hash in \<open>bflags.c\<close>), \<open>Mush_Boolexp_Asm\<close> (code
    generator, jump optimiser, emitter), \<open>Mush_Boolexp_VM\<close> (\<open>eval_boolexp\<close>), \<open>Mush_Boolexp_Correct\<close> (the compiler is
    correct), \<open>Mush_Boolexp_Parse\<close> (the parser), \<open>Mush_Boolexp_Unparse\<close> and \<open>Mush_Boolexp_Decompile\<close>
    (\<open>unparse_boolexp\<close>), \<open>Mush_Boolexp_Roundtrip\<close> (saving and loading): \<open>boolexp.c\<close>.
  \<^item> \<open>Mush_Db\<close>: the objects and macros of \<open>dbdefs.h\<close> and \<open>mushdb.h\<close>.
  \<^item> \<open>Mush_Lock\<close>, \<open>Mush_Lock_Correct\<close>, \<open>Mush_Lock_Cmd\<close>, \<open>Mush_Lock_Cmd_Correct\<close>: \<open>lock.c\<close>, the lists of locks,
    inheritance, permissions and the commands \<open>@lock\<close>, \<open>@unlock\<close> and \<open>@lset\<close>; \<open>controls\<close> of \<open>predicat.c\<close>.
  \<^item> \<open>Mush_Match\<close>, \<open>Mush_Match_Correct\<close>: \<open>match.c\<close>, with \<open>could_doit\<close>, \<open>nearby\<close>, \<open>can_interact\<close> and \<open>check_alias\<close>.
  \<^item> \<open>Mush_Hash_Function\<close>, \<open>Mush_Htab\<close>, \<open>Mush_Htab_Correct\<close>: \<open>hash_function.c\<close> and \<open>htab.c\<close>, CityHash and the cuckoo hash
    tables, as finite maps.  The table of locks in \<open>Mush_Lock\<close> is kept at the level of the map (\<open>hashadd\<close>), which
    \<open>hash_table_refines_map\<close> justifies.
  \<^item> \<open>Mush_Parse\<close>: the integers, object references and object ids of \<open>parse.c\<close>.
  \<^item> \<open>Mush_Sort\<close>, \<open>Mush_Sort_Correct\<close>: \<open>sort.c\<close> with \<open>sort()\<close>, \<open>unique()\<close> and the set functions of \<open>funlist.c\<close>; interfaces
    \<open>comparison\<close> (what a sort asks of its comparison) and \<open>sorting\<close> (what \<open>qsort\<close> promises, and \<open>sane_qsort\<close> keeps).
  \<^item> \<open>Mush_Wild\<close>, \<open>Mush_Wild_Captures\<close>, \<open>Mush_Atr_Wild\<close>: \<open>wild.c\<close>, matching, captures, attribute names.
  \<^item> \<open>Mush_Websock\<close>, \<open>Mush_Websock_Read\<close>, \<open>Mush_Websock_Send\<close>: \<open>websock.c\<close>, handshake, input automaton, output.

  \<^bold>\<open>How they fit together.\<close> \<open>lock_command_means_its_key\<close> runs through most of the parts: \<open>do_lock\<close> matches a name
  (\<open>match.c\<close>), tests control (\<open>predicat.c\<close>, which itself evaluates locks), parses and compiles the key
  (\<open>boolexp.c\<close>), interns the name of the lock (\<open>strtree.c\<close>), and inserts it in the sorted list of the object
  (\<open>lock.c\<close>); afterwards \<open>eval_lock_with\<close> finds the lock and the machine computes the value of the parse tree.

  \<^bold>\<open>Lemma groups.\<close> For each data structure there is a well-formedness predicate that every operation preserves
  (\<open>ptab_ok\<close>, \<open>st_ok\<close>, \<open>locks_ok\<close>, the message list of a queue, the resolved code of the assembler), an abstraction
  (a finite map, a map of use counts, a list of messages, the value of a parse tree, a relation between patterns and
  strings) and the lemmas that the operations compute what the abstraction says.  Findings are stated as theorems
  where the code does something it does not mean to do.

  \<^bold>\<open>Bounds and fuel.\<close> The parser's fuel is \<open>parse_fuel s = 3 * length s + 3\<close>, and \<open>parse_boolexp_total\<close> shows it is
  never used up.  The machine gets a number of steps for each activation; a lock needs no more than it has
  instructions, since jumps go forward, and nested evaluations are bounded by the configured depth.  The path array of
  \<open>strtree.c\<close> has 64 entries, which trees of fewer than \<open>2^31 - 1\<close> strings do not exceed.  Parents are followed
  through at most 101 objects, as in the code.  \<open>match_list\<close> walks \<open>Next\<close> pointers without a bound, and is a partial
  function: \<open>dolist\<close> says when it ends.  A hash table is rebuilt at most 151 times for one insertion, as in the code, and
  its sizes are natural numbers; \<open>next_prime_after\<close> is a partial function, and ends where a prime follows.  The sort
  recursion ends because the pivot leaves both parts.

  \<^bold>\<open>Not modelled.\<close> Memory management and the paged chunk store (a chunk is the bytes it returns, with its size
  limits), the functions that free the data of a hash table, logging and debug output, attributes, the bit sets behind flags (an object has the names of its flags), the
  softcode evaluator, command queue, mail, channels, network and database files.  Strings with markup are
  outside the captures of \<open>wild_match_case_r\<close>; regular expressions call PCRE2.  Floating point numbers are a type with the
  operations the code uses of them as parameters, and \<open>f_comp\<close>, which is no consistent comparison, is outside the theorems
  on sorting.
\<close>

end
